(* ===== verification/Txn_Prelude.thy ===== *)
theory Txn_Prelude
  imports Main "HOL-Library.Word" "HOL-Library.Multiset"
begin

text \<open>
  Shared vocabulary of the development: machine integers and byte strings, the pieces of the
  Rust standard library the crate calls (slice binary search, \<open>partition_point\<close>,
  little-endian integer conversion, \<open>next_power_of_two\<close>, decimal formatting, insertion-ordered
  views of \<open>HashMap\<close>), and the generic lemmas on lists, association lists and words the
  component theories use. Arithmetic on \<^typ>\<open>64 word\<close> wraps around, as release builds
  do; where a theorem needs that no wrap-around happens it says so.

  Collections: \<open>rust_std\<close> gathers the rewrite rules about library routines,
  \<open>txn_eval\<close> the defining equations that closed runs are evaluated with.
\<close>

named_theorems rust_std
named_theorems txn_eval

type_synonym u8 = "8 word"
type_synonym u32 = "32 word"
type_synonym u64 = "64 word"
type_synonym usize = "64 word"
type_synonym bytes = "u8 list"

section \<open>Definitions\<close>

subsection \<open>Slices: binary search\<close>

datatype ordering = Less | Equal | Greater

text \<open>The halving loop of \<open>slice::binary_search_by\<close>: \<open>base\<close> and \<open>sz\<close> delimit the window.\<close>

function bsearch_loop :: "('a \<Rightarrow> ordering) \<Rightarrow> 'a list \<Rightarrow> nat \<Rightarrow> nat \<Rightarrow> nat" where
  "bsearch_loop f xs base sz =
     (if 1 < sz
      then bsearch_loop f xs
             (if f (xs ! (base + sz div 2)) = Greater then base else base + sz div 2)
             (sz - sz div 2)
      else base)"
  by pat_completeness auto
termination
  by (relation "measure (\<lambda>(f, xs, base, sz). sz)") auto

declare bsearch_loop.simps [simp del]

text \<open>\<open>Inr i\<close> is \<open>Ok(i)\<close>, the element was found; \<open>Inl i\<close> is \<open>Err(i)\<close>, the insertion point.\<close>

definition binary_search_by :: "('a \<Rightarrow> ordering) \<Rightarrow> 'a list \<Rightarrow> nat + nat" where
  "binary_search_by f xs =
     (if xs = [] then Inl 0
      else let base = bsearch_loop f xs 0 (length xs)
           in if f (xs ! base) = Equal then Inr base
              else Inl (if f (xs ! base) = Less then Suc base else base))"

definition partition_point :: "('a \<Rightarrow> bool) \<Rightarrow> 'a list \<Rightarrow> nat" where
  "partition_point p xs =
     (case binary_search_by (\<lambda>x. if p x then Less else Greater) xs of Inl i \<Rightarrow> i | Inr i \<Rightarrow> i)"

definition cmp :: "'a::linorder \<Rightarrow> 'a \<Rightarrow> ordering" where
  "cmp x y = (if x < y then Less else if x = y then Equal else Greater)"

definition binary_search :: "'a::linorder list \<Rightarrow> 'a \<Rightarrow> nat + nat" where
  "binary_search xs x = binary_search_by (\<lambda>y. cmp y x) xs"

subsection \<open>Integers\<close>

text \<open>The smallest power of two that is at least \<open>n\<close>, found by doubling from \<open>p\<close>.\<close>

function pow2_from :: "nat \<Rightarrow> nat \<Rightarrow> nat" where
  "pow2_from p n = (if p = 0 \<or> n \<le> p then p else pow2_from (2 * p) n)"
  by pat_completeness auto
termination
  by (relation "measure (\<lambda>(p, n). n - p)") auto

declare pow2_from.simps [simp del]

text \<open>\<open>usize::next_power_of_two\<close>: a result of \<open>2 ^ 64\<close> wraps to \<open>0\<close>.\<close>

definition next_power_of_two :: "usize \<Rightarrow> usize" where
  "next_power_of_two n = word_of_nat (pow2_from 1 (unat n))"

text \<open>Little-endian bytes of a number, least significant first, and back.\<close>

fun le_bytes :: "nat \<Rightarrow> nat \<Rightarrow> bytes" where
  "le_bytes 0 x = []"
| "le_bytes (Suc n) x = word_of_nat (x mod 256) # le_bytes n (x div 256)"

fun le_value :: "bytes \<Rightarrow> nat" where
  "le_value [] = 0"
| "le_value (b # bs) = unat b + 256 * le_value bs"

definition u32_to_le_bytes :: "u32 \<Rightarrow> bytes" where
  "u32_to_le_bytes w = le_bytes 4 (unat w)"

definition u64_to_le_bytes :: "u64 \<Rightarrow> bytes" where
  "u64_to_le_bytes w = le_bytes 8 (unat w)"

definition u32_from_le_bytes :: "bytes \<Rightarrow> u32" where
  "u32_from_le_bytes bs = word_of_nat (le_value bs)"

definition u64_from_le_bytes :: "bytes \<Rightarrow> u64" where
  "u64_from_le_bytes bs = word_of_nat (le_value bs)"

subsection \<open>Formatting\<close>

text \<open>Decimal formatting of an unsigned integer, as \<open>Display\<close> prints it.\<close>

fun show_nat :: "nat \<Rightarrow> string" where
  "show_nat n =
     (if n < 10 then [char_of (48 + n)] else show_nat (n div 10) @ [char_of (48 + n mod 10)])"

declare show_nat.simps [simp del]

subsection \<open>Hash maps and hash sets\<close>

text \<open>
  A \<open>HashMap\<close> is an association list with distinct keys. \<open>insert\<close> replaces the value of a
  present key and adds an absent one; \<open>map_of\<close> is \<open>get\<close>. The order of the list carries no
  meaning: iteration over a real \<open>HashMap\<close> yields the entries in an unspecified order, and
  every operation that iterates takes that order as an argument.
\<close>

fun hm_insert :: "'k \<Rightarrow> 'v \<Rightarrow> ('k \<times> 'v) list \<Rightarrow> ('k \<times> 'v) list" where
  "hm_insert k v [] = [(k, v)]"
| "hm_insert k v ((a, b) # m) = (if a = k then (a, v) # m else (a, b) # hm_insert k v m)"

section \<open>Lemmas\<close>

subsection \<open>Binary search\<close>

lemma bsearch_loop_partition:
  assumes part: "\<And>i. i < n \<Longrightarrow> p (xs ! i)" "\<And>i. n \<le> i \<Longrightarrow> i < length xs \<Longrightarrow> \<not> p (xs ! i)"
  assumes win: "base = 0 \<or> base < n" "n \<le> base + sz" "base + sz \<le> length xs" "0 < sz"
  defines "f \<equiv> \<lambda>x. if p x then Less else Greater"
  shows "(bsearch_loop f xs base sz = 0 \<or> bsearch_loop f xs base sz < n)
    \<and> n \<le> Suc (bsearch_loop f xs base sz) \<and> bsearch_loop f xs base sz < length xs"
  using win
proof (induction sz arbitrary: base rule: less_induct)
  case (less sz)
  show ?case
  proof (cases "1 < sz")
    case False
    with less.prems show ?thesis by (auto simp: bsearch_loop.simps [of f xs base sz])
  next
    case True
    let ?mid = "base + sz div 2"
    let ?base = "if f (xs ! ?mid) = Greater then base else ?mid"
    have mid: "?mid < n \<longleftrightarrow> p (xs ! ?mid)"
      using part(1) [of ?mid] part(2) [of ?mid] less.prems(3) True by linarith
    have "?base = 0 \<or> ?base < n" "n \<le> ?base + (sz - sz div 2)"
      "?base + (sz - sz div 2) \<le> length xs" "0 < sz - sz div 2"
      using less.prems mid True by (auto simp: f_def)
    with True have "(bsearch_loop f xs ?base (sz - sz div 2) = 0
        \<or> bsearch_loop f xs ?base (sz - sz div 2) < n)
      \<and> n \<le> Suc (bsearch_loop f xs ?base (sz - sz div 2))
      \<and> bsearch_loop f xs ?base (sz - sz div 2) < length xs"
      by (intro less.IH) auto
    with True show ?thesis by (simp only: bsearch_loop.simps [of f xs base sz] if_True)
  qed
qed

lemma partition_point_unique:
  assumes "n \<le> length xs" "\<And>i. i < n \<Longrightarrow> p (xs ! i)"
    "\<And>i. n \<le> i \<Longrightarrow> i < length xs \<Longrightarrow> \<not> p (xs ! i)"
  shows "partition_point p xs = n"
proof (cases "xs = []")
  case True
  with assms(1) show ?thesis by (simp add: partition_point_def binary_search_by_def)
next
  case False
  let ?f = "\<lambda>x. if p x then Less else Greater"
  let ?b = "bsearch_loop ?f xs 0 (length xs)"
  have b: "(?b = 0 \<or> ?b < n) \<and> n \<le> Suc ?b \<and> ?b < length xs"
    using False assms by (intro bsearch_loop_partition) auto
  then have "p (xs ! ?b) \<longleftrightarrow> ?b < n"
    using assms(2) [of ?b] assms(3) [of ?b] by linarith
  with b False show ?thesis
    by (auto simp: partition_point_def binary_search_by_def Let_def)
qed

text \<open>On a partitioned slice, \<open>partition_point\<close> is the length of the satisfying prefix.\<close>

lemma partition_point_append:
  assumes "list_all p xs" "list_all (\<lambda>y. \<not> p y) ys"
  shows "partition_point p (xs @ ys) = length xs"
proof (rule partition_point_unique)
  show "\<not> p ((xs @ ys) ! i)" if "length xs \<le> i" "i < length (xs @ ys)" for i
    using that assms(2) by (auto simp: nth_append list_all_length)
qed (use assms(1) in \<open>auto simp: nth_append list_all_length\<close>)

lemma bsearch_loop_found:
  assumes ord: "sorted_wrt (<) xs" and j: "xs ! j = (x::'a::linorder)" "j < length xs"
  assumes win: "base \<le> j" "j < base + sz" "base + sz \<le> length xs"
  shows "bsearch_loop (\<lambda>y. cmp y x) xs base sz = j"
  using win
proof (induction sz arbitrary: base rule: less_induct)
  case (less sz)
  show ?case
  proof (cases "1 < sz")
    case False
    with less.prems show ?thesis by (simp add: bsearch_loop.simps [of _ xs base sz])
  next
    case True
    let ?mid = "base + sz div 2"
    have mid: "?mid < length xs" using True less.prems(3) by linarith
    have cmp: "cmp (xs ! ?mid) x = Greater \<longleftrightarrow> j < ?mid"
      using sorted_wrt_nth_less [OF ord, of j ?mid] sorted_wrt_nth_less [OF ord, of ?mid j] mid j
      by (cases j ?mid rule: linorder_cases) (auto simp: cmp_def)
    let ?base = "if cmp (xs ! ?mid) x = Greater then base else ?mid"
    have "?base \<le> j" "j < ?base + (sz - sz div 2)" "?base + (sz - sz div 2) \<le> length xs"
      using cmp less.prems True by auto
    with True have "bsearch_loop (\<lambda>y. cmp y x) xs ?base (sz - sz div 2) = j"
      by (intro less.IH) auto
    with True show ?thesis by (simp only: bsearch_loop.simps [of _ xs base sz] if_True)
  qed
qed

lemma binary_search_found [rust_std]:
  assumes "sorted_wrt (<) xs" "x \<in> set xs"
  shows "\<exists>j<length xs. binary_search xs x = Inr j \<and> xs ! j = x"
proof -
  from assms(2) obtain j where j: "j < length xs" "xs ! j = x"
    by (auto simp: in_set_conv_nth)
  have "bsearch_loop (\<lambda>y. cmp y x) xs 0 (length xs) = j"
    by (rule bsearch_loop_found [OF assms(1) j(2,1)]) (use j(1) in auto)
  with j have "binary_search xs x = Inr j"
    by (auto simp: binary_search_def binary_search_by_def cmp_def)
  with j show ?thesis by blast
qed

lemma sorted_remdups_adj_strict: "sorted xs \<Longrightarrow> sorted_wrt (<) (remdups_adj xs)"
  by (induction xs rule: remdups_adj.induct) (auto simp: less_le)

lemma sorted_dedup [rust_std]: "sorted_wrt (<) (remdups_adj (sort xs))"
  by (simp add: sorted_remdups_adj_strict)

subsection \<open>Searching a list\<close>

lemma find_append: "find P (xs @ ys) = (case find P xs of Some x \<Rightarrow> Some x | None \<Rightarrow> find P ys)"
  by (induction xs) auto

lemma find_SomeD: "find P xs = Some x \<Longrightarrow> x \<in> set xs \<and> P x"
  by (induction xs) (auto split: if_splits)

subsection \<open>Powers of two\<close>

lemma pow2_from_power: "0 < p \<Longrightarrow> \<exists>k. pow2_from p n = p * 2 ^ k \<and> n \<le> p * 2 ^ k"
proof (induction p n rule: pow2_from.induct)
  case (1 p n)
  show ?case
  proof (cases "n \<le> p")
    case True
    then show ?thesis by (auto intro!: exI [of _ 0] simp: pow2_from.simps [of p n])
  next
    case False
    with "1.IH" "1.prems" obtain k
      where "pow2_from (2 * p) n = 2 * p * 2 ^ k" "n \<le> 2 * p * 2 ^ k" by auto
    with False "1.prems" show ?thesis
      by (auto intro!: exI [of _ "Suc k"] simp: pow2_from.simps [of p n])
  qed
qed

lemma pow2_from_least: "0 < p \<Longrightarrow> n \<le> p * 2 ^ k \<Longrightarrow> pow2_from p n \<le> p * 2 ^ k"
proof (induction p n arbitrary: k rule: pow2_from.induct)
  case (1 p n)
  show ?case
  proof (cases "n \<le> p")
    case True
    with "1.prems" show ?thesis by (simp add: pow2_from.simps [of p n])
  next
    case False
    with "1.prems" obtain j where k: "k = Suc j" by (cases k) auto
    with False "1.prems" "1.IH" [of j] show ?thesis
      by (simp add: pow2_from.simps [of p n])
  qed
qed

text \<open>Up to \<open>2 ^ 63\<close> the result is a power of two that does not wrap.\<close>

lemma next_power_of_two_exact:
  assumes "unat n \<le> 2 ^ 63"
  obtains k where "k \<le> 63" "unat (next_power_of_two n) = 2 ^ k" "unat n \<le> 2 ^ k"
proof -
  obtain k where k: "pow2_from 1 (unat n) = 2 ^ k" "unat n \<le> 2 ^ k"
    using pow2_from_power [of 1 "unat n"] by auto
  have "pow2_from 1 (unat n) \<le> 2 ^ 63"
    using pow2_from_least [of 1 "unat n" 63] assms by simp
  with k have "(2::nat) ^ k \<le> 2 ^ 63" by simp
  then have le: "k \<le> 63" by (simp only: power_increasing_iff)
  then have "(2::nat) ^ k < 2 ^ 64" by (intro power_strict_increasing) auto
  then have "unat (next_power_of_two n) = 2 ^ k"
    unfolding next_power_of_two_def k(1) unat_of_nat by (intro mod_less) simp
  with le k(2) that show thesis by blast
qed

subsection \<open>Little-endian conversion\<close>

lemma unat_bound: "unat (w :: 'a::len word) < 2 ^ LENGTH('a)"
  by (rule unsigned_less)

lemma length_le_bytes [simp]: "length (le_bytes n x) = n"
  by (induction n arbitrary: x) auto

lemma le_value_bytes: "x < 256 ^ n \<Longrightarrow> le_value (le_bytes n x) = x"
proof (induction n arbitrary: x)
  case (Suc n)
  have "x div 256 < 256 ^ n"
    using Suc.prems by (simp add: less_mult_imp_div_less)
  with Suc.IH show ?case by (simp add: unat_of_nat take_bit_eq_mod)
qed simp

lemma le_value_bound: "le_value bs < 256 ^ length bs"
proof (induction bs)
  case (Cons b bs)
  have "unat b < 256" using unat_bound [of b] by simp
  with Cons.IH show ?case by simp
qed simp

lemma le_bytes_value: "length bs = n \<Longrightarrow> le_bytes n (le_value bs) = bs"
proof (induction bs arbitrary: n)
  case (Cons b bs)
  have "unat b < 256" using unat_bound [of b] by simp
  with Cons show ?case by auto
qed auto

lemma length_u32_to_le_bytes [simp]: "length (u32_to_le_bytes w) = 4"
  by (simp add: u32_to_le_bytes_def)

lemma length_u64_to_le_bytes [simp]: "length (u64_to_le_bytes w) = 8"
  by (simp add: u64_to_le_bytes_def)

lemma u32_le_roundtrip [rust_std]: "u32_from_le_bytes (u32_to_le_bytes w) = w"
  using unat_bound [of w]
  by (simp add: u32_from_le_bytes_def u32_to_le_bytes_def le_value_bytes)

lemma u64_le_roundtrip [rust_std]: "u64_from_le_bytes (u64_to_le_bytes w) = w"
  using unat_bound [of w]
  by (simp add: u64_from_le_bytes_def u64_to_le_bytes_def le_value_bytes)

lemma u32_le_roundtrip' [rust_std]: "length bs = 4 \<Longrightarrow> u32_to_le_bytes (u32_from_le_bytes bs) = bs"
  using le_value_bound [of bs]
  by (simp add: u32_from_le_bytes_def u32_to_le_bytes_def le_bytes_value unat_of_nat take_bit_eq_mod)

lemma u64_le_roundtrip' [rust_std]: "length bs = 8 \<Longrightarrow> u64_to_le_bytes (u64_from_le_bytes bs) = bs"
  using le_value_bound [of bs]
  by (simp add: u64_from_le_bytes_def u64_to_le_bytes_def le_bytes_value unat_of_nat take_bit_eq_mod)

subsection \<open>Hash maps\<close>

lemma map_of_hm_insert [simp]: "map_of (hm_insert k v m) = (map_of m)(k \<mapsto> v)"
  by (induction k v m rule: hm_insert.induct) auto

lemma keys_hm_insert: "fst ` set (hm_insert k v m) = insert k (fst ` set m)"
  by (induction k v m rule: hm_insert.induct) auto

lemma distinct_hm_insert [simp]:
  "distinct (map fst m) \<Longrightarrow> distinct (map fst (hm_insert k v m))"
proof (induction k v m rule: hm_insert.induct)
  case (2 k v a b m)
  then show ?case using keys_hm_insert [of k v m] by auto
qed simp

lemma hm_insert_not_Nil [simp]: "hm_insert k v m \<noteq> []"
  by (induction k v m rule: hm_insert.induct) auto

text \<open>Two orders of the same entries are the same map.\<close>

lemma map_of_perm:
  assumes "mset xs = mset ys" "distinct (map fst ys)"
  shows "map_of xs = map_of ys"
proof -
  have "distinct (map fst xs)"
    using assms by (metis mset_eq_imp_distinct_iff mset_map)
  with assms show ?thesis
    by (intro map_of_inject_set [THEN iffD2]) (auto dest: mset_eq_setD)
qed

subsection \<open>Successors of words\<close>

lemma less_inc_iff: "t \<noteq> (-1 :: u64) \<Longrightarrow> s < t + 1 \<longleftrightarrow> s \<le> t"
proof -
  assume "t \<noteq> -1"
  then have "unat (t + 1) = Suc (unat t)"
    by (metis add.commute unatSuc add_eq_0_iff)
  then show ?thesis by (simp add: word_less_nat_alt word_le_nat_alt less_Suc_eq_le)
qed

lemma inc_le_iff: "t \<noteq> (-1 :: u64) \<Longrightarrow> t + 1 \<le> s \<longleftrightarrow> t < s"
  using less_inc_iff [of t s] by (auto simp: not_le [symmetric])

end
