(* ===== verification/Timestamp.thy ===== *)
theory Timestamp
  imports Txn_Prelude
begin

text \<open>
  Logical timestamps (\<open>src/src/timestamp.rs\<close>): a newtype over \<open>u64\<close> whose derived order is
  the order of the counter, the zero of the empty database, the conversions and the
  \<open>Display\<close> form. The derived \<open>PartialOrd\<close>/\<open>Ord\<close> is the \<open>linorder\<close> instance.
\<close>

section \<open>Definitions\<close>

datatype timestamp = Timestamp u64

primrec ts_get :: "timestamp \<Rightarrow> u64" where
  "ts_get (Timestamp v) = v"

definition from_raw :: "u64 \<Rightarrow> timestamp" where
  "from_raw value = Timestamp value"

definition ZERO :: timestamp where
  "ZERO = Timestamp 0"

definition Timestamp_fmt :: "timestamp \<Rightarrow> string" where
  "Timestamp_fmt t = ''@'' @ show_nat (unat (ts_get t))"

instantiation timestamp :: linorder
begin
definition less_eq_timestamp :: "timestamp \<Rightarrow> timestamp \<Rightarrow> bool" where
  "less_eq_timestamp s t \<longleftrightarrow> ts_get s \<le> ts_get t"
definition less_timestamp :: "timestamp \<Rightarrow> timestamp \<Rightarrow> bool" where
  "less_timestamp s t \<longleftrightarrow> ts_get s < ts_get t"
instance
proof
  show "s = t" if "s \<le> t" "t \<le> s" for s t :: timestamp
    using that by (cases s; cases t) (auto simp: less_eq_timestamp_def)
qed (auto simp: less_eq_timestamp_def less_timestamp_def)
end

section \<open>Lemmas\<close>

lemma ts_get_from_raw [simp]: "ts_get (from_raw v) = v"
  by (simp add: from_raw_def)

lemma from_raw_ts_get [simp]: "from_raw (ts_get t) = t"
  by (cases t) (simp add: from_raw_def)

lemma from_raw_eq_iff [simp]: "from_raw v = from_raw w \<longleftrightarrow> v = w"
  by (simp add: from_raw_def)

lemma ts_get_eq_iff: "ts_get s = ts_get t \<longleftrightarrow> s = t"
  by (cases s; cases t) simp

lemma from_raw_le_iff [simp]: "from_raw v \<le> from_raw w \<longleftrightarrow> v \<le> w"
  by (simp add: less_eq_timestamp_def)

lemma from_raw_less_iff [simp]: "from_raw v < from_raw w \<longleftrightarrow> v < w"
  by (simp add: less_timestamp_def)

lemma ts_get_ZERO [simp]: "ts_get ZERO = 0"
  by (simp add: ZERO_def)

lemma ZERO_le [simp]: "ZERO \<le> t"
  by (simp add: less_eq_timestamp_def)

lemma Timestamp_eval [txn_eval]:
  "Timestamp v \<le> Timestamp w \<longleftrightarrow> v \<le> w" "Timestamp v < Timestamp w \<longleftrightarrow> v < w"
  "from_raw v = Timestamp v"
  by (simp_all add: less_eq_timestamp_def less_timestamp_def from_raw_def)

declare ZERO_def [txn_eval]

text \<open>Decimal printing loses nothing: reading the digits back gives the number.\<close>

definition digits_value :: "string \<Rightarrow> nat" where
  "digits_value cs = foldl (\<lambda>a c. 10 * a + (of_char c - 48)) 0 cs"

lemma digits_value_show_nat: "digits_value (show_nat n) = n"
proof (induction n rule: show_nat.induct)
  case (1 n)
  have digit: "of_char (char_of (48 + d) :: char) = 48 + d" if "d < 10" for d :: nat
    using that by (simp add: take_bit_eq_mod)
  show ?case
    using "1.IH" digit [of n] digit [of "n mod 10"]
    by (cases "n < 10") (simp_all add: show_nat.simps [of n] digits_value_def)
qed

lemma show_nat_inj: "show_nat m = show_nat n \<Longrightarrow> m = n"
  by (metis digits_value_show_nat)

section \<open>Properties\<close>

text \<open>Timestamps are their counters: converting to the raw value and back is the identity both
  ways, the order is the order of the raw values with \<open>ZERO\<close> least, and the printed form
  identifies the timestamp.\<close>

theorem timestamp_is_its_counter:
  "ts_get (from_raw v) = v \<and> from_raw (ts_get t) = t \<and> ZERO \<le> t
    \<and> (s \<le> t) = (ts_get s \<le> ts_get t)
    \<and> (Timestamp_fmt s = Timestamp_fmt t) = (s = t)"
  using show_nat_inj [of "unat (ts_get s)" "unat (ts_get t)"]
  by (auto simp: less_eq_timestamp_def Timestamp_fmt_def ts_get_eq_iff simp flip: word_unat_eq_iff)

end
