(* ===== verification/Oracle.thy ===== *)
theory Oracle
  imports Timestamp
begin

text \<open>
  The timestamp oracle (\<open>src/src/oracle.rs\<close>): allocation of commit timestamps, the read
  watermark that advances as commits finish out of order, and the registry of live readers that
  bounds garbage collection. Each method is one critical section or one atomic access, so each is
  one state transformer. \<open>HashSet<u64>\<close> is a set, \<open>BTreeMap<u64, usize>\<close> an association list
  in ascending key order.

  The locale \<open>oracle_contract\<close> is what the commit coordinator relies on, stated over the abstract
  state: the next timestamp, the set of finished timestamps and the multiset of live readers.
\<close>

section \<open>Definitions\<close>

record pending_state =
  done_upto :: u64
  ahead :: "u64 set"

record oracle_state =
  next_ts :: u64
  read_ts :: u64
  pending :: pending_state
  readers :: "(u64 \<times> nat) list"

definition Oracle_new :: oracle_state where
  "Oracle_new =
     \<lparr>next_ts = 1, read_ts = ts_get ZERO,
      pending = \<lparr>done_upto = ts_get ZERO, ahead = {}\<rparr>, readers = []\<rparr>"

definition Oracle_recovered :: "timestamp \<Rightarrow> oracle_state" where
  "Oracle_recovered highest =
     (let highest = ts_get highest
      in \<lparr>next_ts = highest + 1, read_ts = highest,
          pending = \<lparr>done_upto = highest, ahead = {}\<rparr>, readers = []\<rparr>)"

definition Oracle_read_ts :: "oracle_state \<Rightarrow> timestamp" where
  "Oracle_read_ts orc = from_raw (read_ts orc)"

definition alloc_commit_ts :: "oracle_state \<Rightarrow> timestamp \<times> oracle_state" where
  "alloc_commit_ts orc = (from_raw (next_ts orc), orc\<lparr>next_ts := next_ts orc + 1\<rparr>)"

text \<open>\<open>*readers.entry(ts).or_insert(0) += 1\<close> on the ordered map.\<close>

fun entry_incr :: "u64 \<Rightarrow> (u64 \<times> nat) list \<Rightarrow> (u64 \<times> nat) list" where
  "entry_incr k [] = [(k, 1)]"
| "entry_incr k ((a, n) # m) =
     (if k = a then (a, n + 1) # m
      else if k < a then (k, 1) # (a, n) # m
      else (a, n) # entry_incr k m)"

definition begin_reader :: "oracle_state \<Rightarrow> timestamp \<times> oracle_state" where
  "begin_reader orc =
     (let ts = read_ts orc in (from_raw ts, orc\<lparr>readers := entry_incr ts (readers orc)\<rparr>))"

definition end_reader :: "oracle_state \<Rightarrow> timestamp \<Rightarrow> oracle_state" where
  "end_reader orc ts =
     (let key = ts_get ts
      in case map_of (readers orc) key of
           Some c \<Rightarrow>
             (let rs = map (\<lambda>(k, n). if k = key then (k, c - 1) else (k, n)) (readers orc)
              in orc\<lparr>readers := (if c - 1 = 0 then filter (\<lambda>(k, n). k \<noteq> key) rs else rs)\<rparr>)
         | None \<Rightarrow> orc)"

definition low_watermark :: "oracle_state \<Rightarrow> timestamp" where
  "low_watermark orc =
     (case readers orc of
        (oldest, n) # rest \<Rightarrow> from_raw oldest
      | [] \<Rightarrow> from_raw (read_ts orc))"

text \<open>The loop that walks over completed timestamps: \<open>while p.ahead.remove(&next)\<close>.\<close>

function advance :: "u64 \<Rightarrow> u64 set \<Rightarrow> u64 \<Rightarrow> u64 \<times> u64 set" where
  "advance up ahd nxt =
     (if nxt \<in> ahd then advance nxt (ahd - {nxt}) (nxt + 1) else (up, ahd))"
  by pat_completeness auto
termination
  by (relation "measure (\<lambda>(up, ahd, nxt). card ahd)") (simp_all only: in_measure case_prod_conv card_Diff1_less finite wf_measure)

declare advance.simps [simp del]

definition commit_done :: "oracle_state \<Rightarrow> timestamp \<Rightarrow> oracle_state" where
  "commit_done orc timestamp =
     (let ts = ts_get timestamp; p = pending orc
      in if ts = done_upto p + 1 then
           (let (up, ahd) = advance ts (ahead p) (ts + 1)
            in orc\<lparr>pending := \<lparr>done_upto = up, ahead = ahd\<rparr>, read_ts := up\<rparr>)
         else orc\<lparr>pending := p\<lparr>ahead := insert ts (ahead p)\<rparr>\<rparr>)"

declare Oracle_new_def [txn_eval] Oracle_recovered_def [txn_eval] Oracle_read_ts_def [txn_eval]
  alloc_commit_ts_def [txn_eval] begin_reader_def [txn_eval] end_reader_def [txn_eval]
  low_watermark_def [txn_eval] advance.simps [txn_eval] commit_done_def [txn_eval]

subsection \<open>The abstract oracle\<close>

text \<open>
  \<open>oracle_rep o n F M\<close>: \<open>n\<close> is the next timestamp to hand out, \<open>F\<close> the timestamps whose
  commit has finished (everything up to the recovered maximum counts as finished), \<open>M\<close> the
  read timestamps of the live readers.
\<close>

definition readers_rep :: "(u64 \<times> nat) list \<Rightarrow> timestamp multiset \<Rightarrow> bool" where
  "readers_rep rs M \<longleftrightarrow> sorted_wrt (<) (map fst rs)
     \<and> (\<forall>t. map_of rs (ts_get t) = (if t \<in># M then Some (count M t) else None))"

definition oracle_rep :: "oracle_state \<Rightarrow> timestamp \<Rightarrow> timestamp set \<Rightarrow> timestamp multiset \<Rightarrow> bool" where
  "oracle_rep orc n F M \<longleftrightarrow>
     n = from_raw (next_ts orc)
     \<and> (\<forall>t. t \<in> F \<longleftrightarrow> ts_get t \<le> done_upto (pending orc) \<or> ts_get t \<in> ahead (pending orc))
     \<and> (\<forall>t\<in>ahead (pending orc). done_upto (pending orc) + 1 < t)
     \<and> read_ts orc = done_upto (pending orc)
     \<and> (\<forall>t\<in>F. t < n)
     \<and> readers_rep (readers orc) M
     \<and> (\<forall>t\<in>#M. t \<le> Oracle_read_ts orc)"

text \<open>Timestamps are left to hand out.\<close>

definition oracle_room :: "oracle_state \<Rightarrow> bool" where
  "oracle_room orc \<longleftrightarrow> next_ts orc \<noteq> - 1"

section \<open>The contract of the oracle\<close>

locale oracle_contract =
  fixes read :: "'o \<Rightarrow> timestamp"
    and alloc :: "'o \<Rightarrow> timestamp \<times> 'o"
    and finish :: "'o \<Rightarrow> timestamp \<Rightarrow> 'o"
    and enter :: "'o \<Rightarrow> timestamp \<times> 'o"
    and leave :: "'o \<Rightarrow> timestamp \<Rightarrow> 'o"
    and low :: "'o \<Rightarrow> timestamp"
    and room :: "'o \<Rightarrow> bool"
    and rep :: "'o \<Rightarrow> timestamp \<Rightarrow> timestamp set \<Rightarrow> timestamp multiset \<Rightarrow> bool"
  assumes finished_below: "rep orc n F M \<Longrightarrow> t \<in> F \<Longrightarrow> t < n"
    and watermark: "rep orc n F M \<Longrightarrow> t \<le> read orc \<longleftrightarrow> (\<forall>u\<le>t. u \<in> F)"
    and alloc_law: "rep orc n F M \<Longrightarrow> room orc \<Longrightarrow>
      \<exists>n'. fst (alloc orc) = n \<and> rep (snd (alloc orc)) n' F M \<and> (\<forall>t. t < n' \<longleftrightarrow> t \<le> n)"
    and finish_law: "rep orc n F M \<Longrightarrow> t < n \<Longrightarrow> t \<notin> F \<Longrightarrow> rep (finish orc t) n (insert t F) M"
    and enter_law: "rep orc n F M \<Longrightarrow>
      fst (enter orc) = read orc \<and> rep (snd (enter orc)) n F (add_mset (read orc) M)"
    and leave_law: "rep orc n F M \<Longrightarrow> t \<in># M \<Longrightarrow> rep (leave orc t) n F (M - {#t#})"
    and low_law: "rep orc n F M \<Longrightarrow> low orc = (if M = {#} then read orc else Min (set_mset M))"
    and reader_le: "rep orc n F M \<Longrightarrow> t \<in># M \<Longrightarrow> t \<le> read orc"
begin

lemma read_finished: "rep orc n F M \<Longrightarrow> t \<le> read orc \<Longrightarrow> t \<in> F"
  using watermark by blast

lemma read_less_next: "rep orc n F M \<Longrightarrow> read orc < n"
  using read_finished finished_below by blast

text \<open>The watermark never moves back.\<close>

lemma read_mono: "rep orc n F M \<Longrightarrow> rep orc' n' F' M' \<Longrightarrow> F \<subseteq> F' \<Longrightarrow> read orc \<le> read orc'"
  by (metis order_refl read_finished subsetD watermark)

lemma low_le_reader: "rep orc n F M \<Longrightarrow> t \<in># M \<Longrightarrow> low orc \<le> t"
  by (auto simp: low_law)

lemma low_le_read: "rep orc n F M \<Longrightarrow> low orc \<le> read orc"
  using low_law [of orc n F M] reader_le [of orc n F M] by (cases "M = {#}") (auto intro: Min.coboundedI order_trans)

text \<open>A pending timestamp holds the watermark below it.\<close>

lemma read_less_pending: "rep orc n F M \<Longrightarrow> t \<notin> F \<Longrightarrow> read orc < t"
  using read_finished by (meson not_le)

end

section \<open>The live-reader registry\<close>

lemma keys_entry_incr: "fst ` set (entry_incr k m) = insert k (fst ` set m)"
  by (induction k m rule: entry_incr.induct) auto

lemma sorted_entry_incr:
  "sorted_wrt (<) (map fst m) \<Longrightarrow> sorted_wrt (<) (map fst (entry_incr k m))"
proof (induction k m rule: entry_incr.induct)
  case (2 k a n m)
  then show ?case using keys_entry_incr [of k m] by (auto simp flip: set_map)
qed simp

lemma map_of_entry_incr:
  "sorted_wrt (<) (map fst m) \<Longrightarrow>
     map_of (entry_incr k m) = (map_of m)(k \<mapsto> (case map_of m k of None \<Rightarrow> 1 | Some n \<Rightarrow> Suc n))"
proof (induction k m rule: entry_incr.induct)
  case (2 k a n m)
  have "map_of m k = None" if "k < a"
    using 2(2) that by (force simp: map_of_eq_None_iff)
  with 2 show ?case by (auto simp: fun_eq_iff)
qed (simp add: fun_eq_iff)

lemma readers_rep_incr: "readers_rep rs M \<Longrightarrow> readers_rep (entry_incr (ts_get t) rs) (add_mset t M)"
  by (auto simp: readers_rep_def sorted_entry_incr map_of_entry_incr ts_get_eq_iff)
    (auto simp: not_in_iff)

lemma map_of_map_key:
  "map_of (map (\<lambda>(k, n). if k = key then (k, v) else (k, n)) rs) k =
     (if k = key then map_option (\<lambda>_. v) (map_of rs k) else map_of rs k)"
  by (induction rs) auto

lemma map_of_filter_key:
  "map_of (filter (\<lambda>(k, n). k \<noteq> key) rs) k = (if k = key then None else map_of rs k)"
  by (induction rs) auto

lemma fst_map_key: "map fst (map (\<lambda>(k, n). if k = key then (k, v) else (k, n)) rs) = map fst rs"
  by (induction rs) auto

lemma sorted_filter_key:
  "sorted_wrt (<) (map fst rs) \<Longrightarrow> sorted_wrt (<) (map fst (filter (\<lambda>(k, n). k \<noteq> key) rs))"
  by (induction rs) auto

lemma end_reader_rep:
  assumes "readers_rep (readers orc) M" "t \<in># M"
  shows "\<exists>rs. end_reader orc t = orc\<lparr>readers := rs\<rparr> \<and> readers_rep rs (M - {#t#})"
proof -
  let ?rs = "map (\<lambda>(k, n). if k = ts_get t then (k, count M t - 1) else (k, n)) (readers orc)"
  let ?rs' = "if count M t - 1 = 0 then filter (\<lambda>(k, n). k \<noteq> ts_get t) ?rs else ?rs"
  have "map_of (readers orc) (ts_get t) = Some (count M t)"
    using assms by (simp add: readers_rep_def)
  then have "end_reader orc t = orc\<lparr>readers := ?rs'\<rparr>"
    by (simp add: end_reader_def Let_def)
  moreover have "sorted_wrt (<) (map fst ?rs)"
    using assms unfolding fst_map_key by (simp add: readers_rep_def)
  then have "sorted_wrt (<) (map fst ?rs')"
    by (simp add: sorted_filter_key del: map_map)
  moreover have "map_of ?rs' (ts_get u) =
      (if u \<in># M - {#t#} then Some (count (M - {#t#}) u) else None)" for u
    using assms
    by (auto simp: readers_rep_def map_of_map_key map_of_filter_key ts_get_eq_iff in_diff_count
        simp flip: count_greater_zero_iff)
  ultimately show ?thesis unfolding readers_rep_def by blast
qed

section \<open>The watermark\<close>

lemma advance_spec:
  assumes "nxt = up + 1" "\<forall>t\<in>ahd. up < t" "\<forall>t\<in>ahd. t < bound" "up < bound"
  shows "case advance up ahd nxt of (up', ahd') \<Rightarrow>
    {..up'} \<union> ahd' = {..up} \<union> ahd \<and> (\<forall>t\<in>ahd'. up' + 1 < t) \<and> up \<le> up'"
  using assms
proof (induction up ahd nxt rule: advance.induct)
  case (1 up ahd nxt)
  have "up \<noteq> - 1" using "1.prems"(4) by (metis word_order.extremum_strict)
  then have step: "up < t \<longleftrightarrow> nxt \<le> t" for t
    using "1.prems"(1) by (simp add: inc_le_iff)
  show ?case
  proof (cases "nxt \<in> ahd")
    case True
    have "t \<le> nxt \<longleftrightarrow> t = nxt \<or> t \<le> up" for t
      using step [of t] step [of nxt] by (cases "up < t") auto
    then have "{..nxt} = insert nxt {..up}" by auto
    with True have U: "{..nxt} \<union> (ahd - {nxt}) = {..up} \<union> ahd" by auto
    obtain d' a' where adv: "advance nxt (ahd - {nxt}) (nxt + 1) = (d', a')" by force
    have "\<forall>t\<in>ahd - {nxt}. nxt < t" using "1.prems"(2) step by (auto simp: less_le)
    with "1.IH" [OF True refl] "1.prems"(3) True adv
    have "{..d'} \<union> a' = {..nxt} \<union> (ahd - {nxt}) \<and> (\<forall>t\<in>a'. d' + 1 < t) \<and> nxt \<le> d'"
      by simp
    moreover have "up \<le> nxt" using step [of nxt] by simp
    ultimately show ?thesis
      using adv True U by (auto simp: advance.simps [of up ahd nxt])
  next
    case False
    then have "advance up ahd nxt = (up, ahd)" by (simp add: advance.simps)
    moreover have "\<forall>t\<in>ahd. nxt < t" using "1.prems"(2) step False by (auto simp: le_less)
    ultimately show ?thesis using "1.prems"(1) by simp
  qed
qed

lemma oracle_rep_no_wrap: "oracle_rep orc n F M \<Longrightarrow> done_upto (pending orc) \<noteq> - 1"
  unfolding oracle_rep_def
  by (metis from_raw_less_iff order_refl ts_get_from_raw word_order.extremum_strict)

lemma oracle_watermark:
  assumes rep: "oracle_rep orc n F M"
  shows "t \<le> Oracle_read_ts orc \<longleftrightarrow> (\<forall>u\<le>t. u \<in> F)"
proof
  assume "t \<le> Oracle_read_ts orc"
  then show "\<forall>u\<le>t. u \<in> F"
    using rep by (auto simp: oracle_rep_def Oracle_read_ts_def less_eq_timestamp_def)
next
  assume all: "\<forall>u\<le>t. u \<in> F"
  let ?d = "done_upto (pending orc)"
  have "from_raw (?d + 1) \<notin> F"
    using rep oracle_rep_no_wrap [OF rep] inc_le_iff [of ?d ?d]
    by (auto simp: oracle_rep_def)
  with all have "\<not> from_raw (?d + 1) \<le> t" by blast
  then have "ts_get t < ?d + 1" by (simp add: less_eq_timestamp_def)
  then have "ts_get t \<le> ?d" using less_inc_iff oracle_rep_no_wrap [OF rep] by blast
  then show "t \<le> Oracle_read_ts orc"
    using rep by (simp add: oracle_rep_def Oracle_read_ts_def less_eq_timestamp_def)
qed

lemma oracle_commit_done:
  assumes rep: "oracle_rep orc n F M" and t: "t < n" "t \<notin> F"
  shows "oracle_rep (commit_done orc t) n (insert t F) M"
proof -
  let ?d = "done_upto (pending orc)" and ?a = "ahead (pending orc)"
  have F: "\<And>u. u \<in> F \<longleftrightarrow> ts_get u \<le> ?d \<or> ts_get u \<in> ?a" and gap: "\<forall>u\<in>?a. ?d + 1 < u"
    and below: "\<forall>u\<in>F. u < n" and n: "n = from_raw (next_ts orc)" and rd: "read_ts orc = ?d"
    and M: "readers_rep (readers orc) M" "\<forall>u\<in>#M. u \<le> Oracle_read_ts orc"
    using rep by (auto simp: oracle_rep_def)
  have nowrap: "?d \<noteq> - 1" by (rule oracle_rep_no_wrap [OF rep])
  have new: "?d + 1 \<le> ts_get t" "ts_get t \<notin> ?a"
    using t(2) F nowrap by (auto simp: inc_le_iff not_le)
  show ?thesis
  proof (cases "ts_get t = ?d + 1")
    case False
    with new have "?d + 1 < ts_get t" by simp
    with False show ?thesis
      using F gap below n rd M t(1)
      by (auto simp: oracle_rep_def commit_done_def Let_def Oracle_read_ts_def ts_get_eq_iff)
  next
    case True
    obtain d' a' where adv: "advance (ts_get t) ?a (ts_get t + 1) = (d', a')" by force
    have "from_raw u < n" if "u \<in> ?a" for u using below F that by auto
    then have "{..d'} \<union> a' = {..ts_get t} \<union> ?a \<and> (\<forall>u\<in>a'. d' + 1 < u) \<and> ts_get t \<le> d'"
      using advance_spec [of "ts_get t + 1" "ts_get t" ?a "next_ts orc"] adv gap True t(1) n
      by (auto simp: less_timestamp_def)
    then have U: "\<And>u. u \<le> d' \<or> u \<in> a' \<longleftrightarrow> u \<le> ts_get t \<or> u \<in> ?a" and gap': "\<forall>u\<in>a'. d' + 1 < u"
      and "ts_get t \<le> d'"
      by (auto simp: set_eq_iff)
    have "u \<le> ts_get t \<longleftrightarrow> u = ts_get t \<or> u \<le> ?d" for u
      using less_inc_iff [OF nowrap, of u] True by (auto simp: le_less)
    then have F': "u \<in> insert t F \<longleftrightarrow> ts_get u \<le> d' \<or> ts_get u \<in> a'" for u
      using U F by (auto simp: ts_get_eq_iff)
    have "?d \<le> d'" using \<open>ts_get t \<le> d'\<close> True nowrap by (metis inc_le_iff less_imp_le order_trans order_refl)
    then show ?thesis
      using adv True F' gap' below t(1) n M rd
      by (auto simp: oracle_rep_def commit_done_def Let_def Oracle_read_ts_def less_eq_timestamp_def)
  qed
qed

section \<open>The oracle meets its contract\<close>

lemma oracle_alloc:
  assumes "oracle_rep orc n F M" "oracle_room orc"
  shows "fst (alloc_commit_ts orc) = n"
    "oracle_rep (snd (alloc_commit_ts orc)) (from_raw (next_ts orc + 1)) F M"
    "t < from_raw (next_ts orc + 1) \<longleftrightarrow> t \<le> n"
proof -
  have lt: "u < from_raw (next_ts orc + 1) \<longleftrightarrow> u \<le> n" for u
    using assms less_inc_iff [of "next_ts orc" "ts_get u"]
    by (auto simp: oracle_room_def oracle_rep_def less_timestamp_def less_eq_timestamp_def)
  then show "t < from_raw (next_ts orc + 1) \<longleftrightarrow> t \<le> n" .
  show "fst (alloc_commit_ts orc) = n"
    using assms(1) by (simp add: alloc_commit_ts_def oracle_rep_def)
  show "oracle_rep (snd (alloc_commit_ts orc)) (from_raw (next_ts orc + 1)) F M"
    using assms(1) lt by (auto simp: alloc_commit_ts_def oracle_rep_def Oracle_read_ts_def)
qed

lemma oracle_low:
  assumes "oracle_rep orc n F M"
  shows "low_watermark orc = (if M = {#} then Oracle_read_ts orc else Min (set_mset M))"
proof (cases "readers orc")
  case Nil
  with assms have "\<forall>t. t \<notin># M" by (auto simp: oracle_rep_def readers_rep_def split: if_splits)
  then have "M = {#}" by (metis multiset_nonemptyE)
  with Nil show ?thesis by (simp add: low_watermark_def Oracle_read_ts_def)
next
  case (Cons p rs)
  obtain k c where p: "p = (k, c)" by (cases p)
  have srt: "sorted_wrt (<) (map fst (readers orc))"
    and mp: "\<And>t. map_of (readers orc) (ts_get t) = (if t \<in># M then Some (count M t) else None)"
    using assms by (auto simp: oracle_rep_def readers_rep_def)
  have "from_raw k \<in># M" using mp [of "from_raw k"] Cons p by (simp split: if_splits)
  moreover have "from_raw k \<le> t" if "t \<in># M" for t
  proof -
    have "ts_get t \<in> fst ` set (readers orc)"
      using mp [of t] that by (force dest!: map_of_SomeD)
    then show ?thesis using srt Cons p by (auto simp: less_eq_timestamp_def)
  qed
  ultimately have "M \<noteq> {#} \<and> Min (set_mset M) = from_raw k"
    by (auto intro: Min_eqI)
  with Cons p show ?thesis by (simp add: low_watermark_def)
qed

interpretation orc: oracle_contract Oracle_read_ts alloc_commit_ts commit_done begin_reader end_reader
  low_watermark oracle_room oracle_rep
proof unfold_locales
  fix orc n F M t
  assume rep: "oracle_rep orc n F M"
  show "t < n" if "t \<in> F" using rep that by (auto simp: oracle_rep_def)
  show "(t \<le> Oracle_read_ts orc) = (\<forall>u\<le>t. u \<in> F)" by (rule oracle_watermark [OF rep])
  show "\<exists>n'. fst (alloc_commit_ts orc) = n \<and> oracle_rep (snd (alloc_commit_ts orc)) n' F M
      \<and> (\<forall>t. (t < n') = (t \<le> n))" if "oracle_room orc"
    using oracle_alloc [OF rep that] by blast
  show "oracle_rep (commit_done orc t) n (insert t F) M" if "t < n" "t \<notin> F"
    using rep that by (rule oracle_commit_done)
  show "fst (begin_reader orc) = Oracle_read_ts orc
      \<and> oracle_rep (snd (begin_reader orc)) n F (add_mset (Oracle_read_ts orc) M)"
    using rep readers_rep_incr [of "readers orc" M "Oracle_read_ts orc"]
    by (auto simp: begin_reader_def Let_def Oracle_read_ts_def oracle_rep_def)
  show "oracle_rep (end_reader orc t) n F (M - {#t#})" if "t \<in># M"
  proof -
    have "readers_rep (readers orc) M" using rep by (simp add: oracle_rep_def)
    from end_reader_rep [OF this that] rep show ?thesis
      by (auto simp: oracle_rep_def Oracle_read_ts_def dest: in_diffD)
  qed
  show "low_watermark orc = (if M = {#} then Oracle_read_ts orc else Min (set_mset M))"
    by (rule oracle_low [OF rep])
  show "t \<le> Oracle_read_ts orc" if "t \<in># M" using rep that by (simp add: oracle_rep_def)
qed

lemma Oracle_new_rep: "oracle_rep Oracle_new (from_raw 1) {ZERO} {#}"
  by (auto simp: Oracle_new_def oracle_rep_def readers_rep_def less_timestamp_def
      simp flip: ts_get_eq_iff)

lemma Oracle_recovered_rep:
  "highest \<noteq> Timestamp (- 1) \<Longrightarrow>
     oracle_rep (Oracle_recovered highest) (from_raw (ts_get highest + 1)) {..highest} {#}"
  by (cases highest)
    (auto simp: Oracle_recovered_def oracle_rep_def readers_rep_def less_timestamp_def
      less_eq_timestamp_def less_inc_iff)

section \<open>Properties\<close>

text \<open>A run of the oracle: three timestamps handed out, the third finished, one reader at zero.\<close>

abbreviation demo_oracle :: oracle_state where
  "demo_oracle \<equiv> snd (begin_reader (commit_done
     (snd (alloc_commit_ts (snd (alloc_commit_ts (snd (alloc_commit_ts Oracle_new)))))) (Timestamp 3)))"

lemma demo_oracle_rep: "oracle_rep demo_oracle (Timestamp 4) {Timestamp 0, Timestamp 3} {#Timestamp 0#}"
proof -
  let ?o1 = "snd (alloc_commit_ts Oracle_new)"
  let ?o2 = "snd (alloc_commit_ts ?o1)"
  let ?o3 = "snd (alloc_commit_ts ?o2)"
  have "oracle_rep ?o1 (Timestamp 2) {Timestamp 0} {#}"
    using oracle_alloc(2) [OF Oracle_new_rep] by (simp add: oracle_room_def txn_eval)
  from oracle_alloc(2) [OF this] have "oracle_rep ?o2 (Timestamp 3) {Timestamp 0} {#}"
    by (simp add: oracle_room_def txn_eval)
  from oracle_alloc(2) [OF this] have "oracle_rep ?o3 (Timestamp 4) {Timestamp 0} {#}"
    by (simp add: oracle_room_def txn_eval)
  from oracle_commit_done [OF this, of "Timestamp 3"]
  have "oracle_rep (commit_done ?o3 (Timestamp 3)) (Timestamp 4) {Timestamp 0, Timestamp 3} {#}"
    by (simp add: txn_eval insert_commute)
  from orc.enter_law [OF this] show ?thesis by (simp add: txn_eval)
qed

text \<open>The watermark is exact: after a commit reports its timestamp, in whatever order reports
  come in, a timestamp is at or below the read timestamp exactly when every timestamp up to it has
  finished, and the abstract state changes by that one timestamp only.\<close>

theorem commit_done_watermark:
  assumes "oracle_rep orc n F M" "t < n" "t \<notin> F"
  shows "oracle_rep (commit_done orc t) n (insert t F) M
    \<and> (u \<le> Oracle_read_ts (commit_done orc t) \<longleftrightarrow> (\<forall>v\<le>u. v \<in> insert t F))"
  using orc.finish_law [OF assms] orc.watermark by blast

theorem commit_done_watermark_witness:
  "oracle_rep (commit_done demo_oracle (Timestamp 1)) (Timestamp 4)
     (insert (Timestamp 1) {Timestamp 0, Timestamp 3}) {#Timestamp 0#}"
  using commit_done_watermark [OF demo_oracle_rep, of "Timestamp 1"] by (simp add: txn_eval)

lemma commit_done_all_rep:
  "oracle_rep orc n F M \<Longrightarrow> distinct ts \<Longrightarrow> set ts \<inter> F = {} \<Longrightarrow> \<forall>t\<in>set ts. t < n \<Longrightarrow>
     oracle_rep (foldl commit_done orc ts) n (F \<union> set ts) M"
proof (induction ts arbitrary: orc F)
  case (Cons t ts)
  then have "oracle_rep (commit_done orc t) n (insert t F) M"
    by (intro oracle_commit_done) auto
  with Cons.IH [of "commit_done orc t" "insert t F"] Cons.prems show ?case by auto
qed simp

text \<open>Order of completion does not matter: once every outstanding timestamp has been reported,
  each exactly once and in any order, the watermark has caught up with every timestamp handed out.\<close>

theorem watermark_catches_up:
  assumes "oracle_rep orc n F M" "distinct ts" "set ts \<inter> F = {}" "F \<union> set ts = {t. t < n}"
  shows "t \<le> Oracle_read_ts (foldl commit_done orc ts) \<longleftrightarrow> t < n"
proof -
  have "oracle_rep (foldl commit_done orc ts) n (F \<union> set ts) M"
    using assms by (intro commit_done_all_rep) auto
  from orc.watermark [OF this, of t] show ?thesis
    unfolding assms(4) by (auto intro: le_less_trans)
qed

theorem watermark_catches_up_witness:
  "Timestamp 3 \<le> Oracle_read_ts (foldl commit_done demo_oracle [Timestamp 2, Timestamp 1])"
proof -
  have "{Timestamp 0, Timestamp 3} \<union> set [Timestamp 2, Timestamp 1] = {t. t < Timestamp 4}"
  proof (rule set_eqI)
    fix t :: timestamp
    obtain v where t: "t = Timestamp v" by (cases t)
    have "v < 4 \<longleftrightarrow> v = 0 \<or> v = 1 \<or> v = 2 \<or> v = 3" by unat_arith
    with t show "t \<in> {Timestamp 0, Timestamp 3} \<union> set [Timestamp 2, Timestamp 1] \<longleftrightarrow> t \<in> {t. t < Timestamp 4}"
      by (auto simp: txn_eval)
  qed
  then show ?thesis
    using watermark_catches_up [OF demo_oracle_rep, of "[Timestamp 2, Timestamp 1]" "Timestamp 3"]
    by (simp add: txn_eval)
qed

text \<open>Garbage collection has a safe bound: the low watermark is at or below the snapshot of
  every registered reader and at or below the snapshot the next reader will be given, and
  registering and dropping that reader leaves the others as they were.\<close>

theorem low_watermark_safe:
  assumes "oracle_rep orc n F M"
  shows "(\<forall>t\<in>#M. low_watermark orc \<le> t) \<and> low_watermark orc \<le> fst (begin_reader orc)
    \<and> oracle_rep (end_reader (snd (begin_reader orc)) (fst (begin_reader orc))) n F M"
  using orc.low_le_reader [OF assms] orc.low_le_read [OF assms] orc.enter_law [OF assms]
    orc.leave_law [of "snd (begin_reader orc)" n F "add_mset (fst (begin_reader orc)) M"
      "fst (begin_reader orc)"]
  by auto

theorem low_watermark_safe_witness:
  "low_watermark demo_oracle \<le> Timestamp 0 \<and> low_watermark demo_oracle \<le> fst (begin_reader demo_oracle)"
  using low_watermark_safe [OF demo_oracle_rep] by simp

text \<open>Commit timestamps are unique and increasing: while the counter has room, an allocation
  returns a timestamp above every finished one and above the read watermark, and the next
  allocation returns a larger one.\<close>

theorem commit_timestamps_increase:
  assumes "oracle_rep orc n F M" "oracle_room orc"
  shows "fst (alloc_commit_ts orc) < fst (alloc_commit_ts (snd (alloc_commit_ts orc)))
    \<and> (\<forall>t\<in>F. t < fst (alloc_commit_ts orc)) \<and> Oracle_read_ts orc < fst (alloc_commit_ts orc)"
proof -
  have "next_ts orc < next_ts orc + 1"
    using assms(2) less_inc_iff [of "next_ts orc" "next_ts orc"] by (simp add: oracle_room_def)
  then show ?thesis
    using oracle_alloc(1) [OF assms, symmetric] orc.finished_below [OF assms(1)]
      orc.read_less_next [OF assms(1)]
    by (simp add: alloc_commit_ts_def)
qed

theorem commit_timestamps_increase_witness:
  "fst (alloc_commit_ts demo_oracle) < fst (alloc_commit_ts (snd (alloc_commit_ts demo_oracle)))"
  using commit_timestamps_increase [OF demo_oracle_rep] by (simp add: oracle_room_def txn_eval)

end
