(* ===== verification/Txn_Error.thy ===== *)
theory Txn_Error
  imports Txn_Prelude
begin

text \<open>
  The crate error type (\<open>src/src/error.rs\<close>): the three variants of \<open>TxnError\<close>, its
  constructors, its \<open>Display\<close> form, and the metadata of its \<open>ForgeError\<close> implementation.
  \<open>Result<T>\<close> is the sum type with the error on the left.
\<close>

section \<open>Definitions\<close>

datatype TxnError =
    Conflict (key_len: nat)
  | StoreError (store_context: string) (store_detail: string)
  | Durability (durability_detail: string)

type_synonym 'a result = "TxnError + 'a"

definition conflict :: "nat \<Rightarrow> TxnError" where
  "conflict n = Conflict n"

definition store_error :: "string \<Rightarrow> string \<Rightarrow> TxnError" where
  "store_error context detail = StoreError context detail"

definition durability :: "string \<Rightarrow> TxnError" where
  "durability detail = Durability detail"

fun is_retryable :: "TxnError \<Rightarrow> bool" where
  "is_retryable (Conflict _) = True"
| "is_retryable _ = False"

fun TxnError_fmt :: "TxnError \<Rightarrow> string" where
  "TxnError_fmt (Conflict n) =
     ''write-write conflict on a '' @ show_nat n @ ''-byte key; retry the transaction''"
| "TxnError_fmt (StoreError context detail) =
     ''version store error while '' @ context @ '': '' @ detail"
| "TxnError_fmt (Durability detail) = ''durable commit log error: '' @ detail"

fun kind :: "TxnError \<Rightarrow> string" where
  "kind (Conflict _) = ''Conflict''"
| "kind (StoreError _ _) = ''Store''"
| "kind (Durability _) = ''Durability''"

definition caption :: "TxnError \<Rightarrow> string" where
  "caption e = ''transaction error''"

text \<open>The trait method delegates to the inherent one.\<close>

definition ForgeError_is_retryable :: "TxnError \<Rightarrow> bool" where
  "ForgeError_is_retryable e = is_retryable e"

fun is_fatal :: "TxnError \<Rightarrow> bool" where
  "is_fatal (Durability _) = True"
| "is_fatal _ = False"

declare conflict_def [txn_eval] store_error_def [txn_eval] durability_def [txn_eval]

section \<open>Lemmas\<close>

lemma is_retryable_iff: "is_retryable e \<longleftrightarrow> (\<exists>n. e = Conflict n)"
  by (cases e) auto

lemma is_fatal_iff: "is_fatal e \<longleftrightarrow> (\<exists>d. e = Durability d)"
  by (cases e) auto

lemma durability_is_fatal [simp]: "is_fatal (durability d)"
  by (simp add: durability_def)

lemma durability_not_retryable [simp]: "\<not> is_retryable (durability d)"
  by (simp add: durability_def)

lemma conflict_is_retryable [simp]: "is_retryable (conflict n)"
  by (simp add: conflict_def)

section \<open>Properties\<close>

text \<open>Every error has one response: it is retryable exactly when it is a conflict, fatal
  exactly when it is a durability failure, never both; the trait method agrees with the inherent
  one, and the conflict message carries the key's length and nothing else of the key.\<close>

theorem error_classification:
  "is_retryable e = (kind e = ''Conflict'') \<and> is_fatal e = (kind e = ''Durability'')
    \<and> \<not> (is_retryable e \<and> is_fatal e)
    \<and> ForgeError_is_retryable e = is_retryable e
    \<and> (TxnError_fmt (conflict m) = TxnError_fmt (conflict n)) = (show_nat m = show_nat n)"
  by (cases e) (simp_all add: ForgeError_is_retryable_def conflict_def)

end
