(* ===== verification/Version_Store.thy ===== *)
theory Version_Store
  imports Timestamp Txn_Error
begin

text \<open>
  The version-store interface (\<open>src/src/store.rs\<close>, trait \<open>VersionStore\<close>). A record of
  functions is the trait's method table; a call returns its result together with the store's new
  state. The contract the trait's documentation gives is the locale \<open>store_contract\<close>, phrased
  over the abstract history of a key: the list of its versions in the order they were applied.
  Client lemmas proved once inside the locale hold of every store that meets the contract.
\<close>

section \<open>Definitions\<close>

type_synonym write_entry = "bytes \<times> bytes option"

record version =
  commit_ts :: timestamp
  val :: "bytes option"

record 's version_store =
  vs_get :: "'s \<Rightarrow> bytes \<Rightarrow> timestamp \<Rightarrow> bytes option result"
  vs_try_commit ::
    "'s \<Rightarrow> timestamp \<Rightarrow> timestamp \<Rightarrow> write_entry list \<Rightarrow> bytes list \<Rightarrow> unit result \<times> 's"
  vs_collect_garbage :: "'s \<Rightarrow> timestamp \<Rightarrow> nat \<times> 's"

text \<open>The trait's default method reclaims nothing.\<close>

definition default_collect_garbage :: "'s \<Rightarrow> timestamp \<Rightarrow> nat \<times> 's" where
  "default_collect_garbage s low_watermark = (0, s)"

subsection \<open>Histories\<close>

text \<open>The version a snapshot at \<open>r\<close> sees: the last one applied at or below \<open>r\<close>.\<close>

definition visible_version :: "version list \<Rightarrow> timestamp \<Rightarrow> version option" where
  "visible_version h r =
     (let vs = filter (\<lambda>v. commit_ts v \<le> r) h in if vs = [] then None else Some (last vs))"

definition read_at :: "version list \<Rightarrow> timestamp \<Rightarrow> bytes option" where
  "read_at h r = Option.bind (visible_version h r) val"

definition latest :: "version list \<Rightarrow> bytes option" where
  "latest h = (if h = [] then None else val (last h))"

definition changed_since :: "version list \<Rightarrow> timestamp \<Rightarrow> bool" where
  "changed_since h r \<longleftrightarrow> (\<exists>v\<in>set h. r < commit_ts v)"

abbreviation ascending :: "version list \<Rightarrow> bool" where
  "ascending h \<equiv> sorted (map commit_ts h)"

text \<open>The versions a batch appends to the history of \<open>k\<close>.\<close>

definition new_versions :: "timestamp \<Rightarrow> write_entry list \<Rightarrow> bytes \<Rightarrow> version list" where
  "new_versions cts ws k = map (\<lambda>w. \<lparr>commit_ts = cts, val = snd w\<rparr>) (filter (\<lambda>w. fst w = k) ws)"

text \<open>The keys a commit validates: its write set, then its read set.\<close>

definition touched :: "write_entry list \<Rightarrow> bytes list \<Rightarrow> bytes set" where
  "touched ws rs = fst ` set ws \<union> set rs"

text \<open>
  What collecting at \<open>low\<close> may do to a history: no read and no validation at or above \<open>low\<close>
  can tell the difference, and no version appears that was not there.
\<close>

definition pruned :: "timestamp \<Rightarrow> version list \<Rightarrow> version list \<Rightarrow> bool" where
  "pruned low h h' \<longleftrightarrow> set h' \<subseteq> set h
     \<and> (\<forall>r\<ge>low. read_at h' r = read_at h r \<and> changed_since h' r = changed_since h r)"

section \<open>Lemmas on histories\<close>

lemma visible_version_Nil [simp]: "visible_version [] r = None"
  by (simp add: visible_version_def)

lemma read_at_Nil [simp]: "read_at [] r = None"
  by (simp add: read_at_def)

lemma changed_since_Nil [simp]: "\<not> changed_since [] r"
  by (simp add: changed_since_def)

lemma changed_since_append [simp]:
  "changed_since (h @ h') r \<longleftrightarrow> changed_since h r \<or> changed_since h' r"
  by (auto simp: changed_since_def)

lemma visible_version_append:
  "visible_version (h @ h') r =
     (if \<forall>v\<in>set h'. r < commit_ts v then visible_version h r else visible_version h' r)"
  by (auto simp: visible_version_def Let_def filter_empty_conv not_le)

text \<open>Versions above the snapshot do not change what it reads.\<close>

lemma read_at_append_newer:
  "\<forall>v\<in>set h'. r < commit_ts v \<Longrightarrow> read_at (h @ h') r = read_at h r"
  by (simp add: read_at_def visible_version_append)

lemma read_at_append_older:
  "\<exists>v\<in>set h'. commit_ts v \<le> r \<Longrightarrow> read_at (h @ h') r = read_at h' r"
  by (auto simp: read_at_def visible_version_append)

lemma ascending_last: "ascending h \<Longrightarrow> w \<in> set h \<Longrightarrow> commit_ts w \<le> commit_ts (last h)"
  by (induction h rule: rev_induct) (auto simp: sorted_append)

lemma visible_version_spec:
  assumes "ascending h" "visible_version h r = Some v"
  shows "v \<in> set h" "commit_ts v \<le> r" "\<forall>w\<in>set h. commit_ts w \<le> r \<longrightarrow> commit_ts w \<le> commit_ts v"
proof -
  let ?vs = "filter (\<lambda>v. commit_ts v \<le> r) h"
  from assms(2) have v: "?vs \<noteq> []" "v = last ?vs"
    by (auto simp: visible_version_def Let_def split: if_splits)
  then have "v \<in> set ?vs" using last_in_set by blast
  then show "v \<in> set h" "commit_ts v \<le> r" by auto
  have "ascending ?vs" using assms(1) by (simp add: sorted_filter)
  then have "commit_ts w \<le> commit_ts (last ?vs)" if "w \<in> set ?vs" for w
    using that by (rule ascending_last)
  with v show "\<forall>w\<in>set h. commit_ts w \<le> r \<longrightarrow> commit_ts w \<le> commit_ts v" by auto
qed

lemma unchanged_read_latest: "\<not> changed_since h r \<Longrightarrow> read_at h r = latest h"
  by (simp add: read_at_def latest_def visible_version_def changed_since_def not_less
      filter_id_conv [THEN iffD2])

lemma changed_since_mono: "r \<le> r' \<Longrightarrow> changed_since h r' \<Longrightarrow> changed_since h r"
  unfolding changed_since_def by (meson le_less_trans)

lemma new_versions_ts: "v \<in> set (new_versions cts ws k) \<Longrightarrow> commit_ts v = cts"
  by (auto simp: new_versions_def)

lemma new_versions_Nil_iff: "new_versions cts ws k = [] \<longleftrightarrow> k \<notin> fst ` set ws"
  by (auto simp: new_versions_def filter_empty_conv)

lemma ascending_append_new:
  assumes "ascending h" "\<not> changed_since h rts" "rts \<le> cts"
  shows "ascending (h @ new_versions cts ws k)"
proof -
  have "sorted (map commit_ts (new_versions cts ws k))"
    by (simp add: new_versions_def comp_def sorted_iff_nth_mono)
  with assms show ?thesis
    by (auto simp: sorted_append changed_since_def not_less new_versions_ts dest: order_trans)
qed

lemma pruned_refl [simp]: "pruned low h h"
  by (simp add: pruned_def)

lemma pruned_trans: "pruned low h h' \<Longrightarrow> pruned low h' h'' \<Longrightarrow> pruned low h h''"
  by (auto simp: pruned_def)

text \<open>The newest value survives collection.\<close>

lemma pruned_latest:
  assumes "pruned low h h'"
  shows "latest h' = latest h"
proof -
  obtain r where r: "low \<le> r" "\<not> changed_since h r"
  proof -
    define r where "r = Max (insert low (commit_ts ` set h))"
    have "low \<le> r" "\<not> changed_since h r"
      by (auto simp: r_def changed_since_def not_less)
    then show thesis by (rule that)
  qed
  moreover have "\<not> changed_since h' r" "read_at h' r = read_at h r"
    using assms r by (auto simp: pruned_def)
  ultimately show ?thesis by (simp add: unchanged_read_latest [symmetric])
qed

section \<open>The contract\<close>

locale store_contract =
  fixes V :: "'s version_store"
    and invar :: "'s \<Rightarrow> bool"
    and hist :: "'s \<Rightarrow> bytes \<Rightarrow> version list"
  assumes hist_ascending: "invar s \<Longrightarrow> ascending (hist s k)"
    and get_law: "invar s \<Longrightarrow> vs_get V s k r = Inr (read_at (hist s k) r)"
    and conflict_law:
      "invar s \<Longrightarrow> \<exists>k\<in>touched ws rs. changed_since (hist s k) rts \<Longrightarrow>
        \<exists>k\<in>touched ws rs. changed_since (hist s k) rts
          \<and> vs_try_commit V s rts cts ws rs = (Inl (conflict (length k)), s)"
    and apply_law:
      "invar s \<Longrightarrow> rts < cts \<Longrightarrow> \<forall>k\<in>touched ws rs. \<not> changed_since (hist s k) rts \<Longrightarrow>
        \<exists>s'. vs_try_commit V s rts cts ws rs = (Inr (), s') \<and> invar s'
          \<and> (\<forall>k. hist s' k = hist s k @ new_versions cts ws k)"
    and gc_law:
      "invar s \<Longrightarrow> invar (snd (vs_collect_garbage V s low))
        \<and> pruned low (hist s k) (hist (snd (vs_collect_garbage V s low)) k)"
begin

lemma try_commit_cases:
  assumes "invar s" "rts < cts"
  obtains (conflict) k where "k \<in> touched ws rs" "changed_since (hist s k) rts"
      "vs_try_commit V s rts cts ws rs = (Inl (conflict (length k)), s)"
  | (applied) s' where "\<forall>k\<in>touched ws rs. \<not> changed_since (hist s k) rts"
      "vs_try_commit V s rts cts ws rs = (Inr (), s')" "invar s'"
      "\<And>k. hist s' k = hist s k @ new_versions cts ws k"
  using assms conflict_law [of s ws rs rts cts] apply_law [of s rts cts ws rs] by metis

lemma try_commit_invar:
  "invar s \<Longrightarrow> rts < cts \<Longrightarrow> invar (snd (vs_try_commit V s rts cts ws rs))"
  by (rule try_commit_cases [of s rts cts ws rs]) simp_all

text \<open>A snapshot below the commit timestamp is not disturbed by the commit.\<close>

lemma try_commit_read:
  assumes "invar s" "rts < cts" "r < cts"
  shows "read_at (hist (snd (vs_try_commit V s rts cts ws rs)) k) r = read_at (hist s k) r"
  using assms(1,2)
proof (cases rule: try_commit_cases [where ws = ws and rs = rs])
  case (applied s')
  then show ?thesis
    using assms(3) by (simp add: read_at_append_newer new_versions_ts)
qed simp

text \<open>At or above its timestamp an applied commit reads back what it wrote.\<close>

lemma applied_read:
  assumes "\<And>k. hist s' k = hist s k @ new_versions cts ws k" "distinct (map fst ws)"
    "(k, v) \<in> set ws" "cts \<le> r"
  shows "read_at (hist s' k) r = v"
proof -
  have "filter (\<lambda>w. fst w = k) ws = [(k, v)]"
    using assms(2,3)
  proof (induction ws)
    case (Cons a ws)
    then show ?case by (cases a) (force simp: filter_empty_conv)
  qed simp
  then have "new_versions cts ws k = [\<lparr>commit_ts = cts, val = v\<rparr>]"
    by (simp add: new_versions_def)
  with assms(1,4) show ?thesis
    by (simp add: read_at_append_older) (simp add: read_at_def visible_version_def)
qed

end

end
