(* ===== verification/Memory_Store.thy ===== *)
theory Memory_Store
  imports Version_Store
begin

unbundle bit_operations_syntax

text \<open>
  The in-memory store (\<open>src/src/store.rs\<close>, \<open>MemoryStore\<close>): keys are hashed to shards, each
  shard maps a key to its chain of versions. The operations are the code's, shard bookkeeping
  included: the single-write fast path, the sorted and deduplicated list of shards to lock with
  the binary searches that map a key back to its guard, validation before application, recovery
  installs, and the collector. A lock guard is a reference to its shard's map, so guard \<open>pos\<close>
  is the shard \<open>to_lock ! pos\<close>. The lemmas show the store well-formed after every operation, the
  two commit paths equal to one reference, and the store an instance of \<open>store_contract\<close>.
\<close>

section \<open>Definitions\<close>

type_synonym chains = "(bytes \<times> version list) list"

record memory_store =
  shards :: "chains list"
  shard_mask :: usize

definition DEFAULT_SHARDS :: usize where
  "DEFAULT_SHARDS = 16"

definition with_shards :: "usize \<Rightarrow> memory_store" where
  "with_shards n =
     (let count = next_power_of_two (max n 1)
      in \<lparr>shards = replicate (unat count) [], shard_mask = count - 1\<rparr>)"

definition MemoryStore_new :: memory_store where
  "MemoryStore_new = with_shards DEFAULT_SHARDS"

definition MemoryStore_default :: memory_store where
  "MemoryStore_default = MemoryStore_new"

definition key_count :: "memory_store \<Rightarrow> nat" where
  "key_count s = sum_list (map length (shards s))"

definition hash_key :: "bytes \<Rightarrow> u64" where
  "hash_key key = foldl (\<lambda>h b. (h XOR ucast b) * 0x00000100000001b3) 0xcbf29ce484222325 key"

definition shard_of :: "memory_store \<Rightarrow> bytes \<Rightarrow> nat" where
  "shard_of s key = unat (hash_key key AND shard_mask s)"

definition newer_than :: "version list option \<Rightarrow> timestamp \<Rightarrow> bool" where
  "newer_than versions read_ts =
     (case versions of
        None \<Rightarrow> False
      | Some vs \<Rightarrow> if vs = [] then False else read_ts < commit_ts (last vs))"

definition visible_value :: "version list option \<Rightarrow> timestamp \<Rightarrow> bytes option" where
  "visible_value versions read_ts =
     (case versions of
        None \<Rightarrow> None
      | Some vs \<Rightarrow>
          (let visible = partition_point (\<lambda>v. commit_ts v \<le> read_ts) vs
           in if visible = 0 then None else val (vs ! (visible - 1))))"

text \<open>\<open>chains.entry(key).or_default().push(v)\<close>.\<close>

fun entry_push :: "'k \<Rightarrow> 'v \<Rightarrow> ('k \<times> 'v list) list \<Rightarrow> ('k \<times> 'v list) list" where
  "entry_push k v [] = [(k, [v])]"
| "entry_push k v ((a, vs) # m) =
     (if a = k then (a, vs @ [v]) # m else (a, vs) # entry_push k v m)"

text \<open>Push a version onto \<open>key\<close>'s chain in shard \<open>i\<close>.\<close>

definition push_in :: "nat \<Rightarrow> bytes \<Rightarrow> version \<Rightarrow> memory_store \<Rightarrow> memory_store" where
  "push_in i key v s = s\<lparr>shards := (shards s)[i := entry_push key v (shards s ! i)]\<rparr>"

fun install_recovered :: "memory_store \<Rightarrow> timestamp \<Rightarrow> write_entry list \<Rightarrow> memory_store" where
  "install_recovered s cts [] = s"
| "install_recovered s cts ((key, v) # writes) =
     install_recovered (push_in (shard_of s key) key \<lparr>commit_ts = cts, val = v\<rparr> s) cts writes"

definition MemoryStore_get :: "memory_store \<Rightarrow> bytes \<Rightarrow> timestamp \<Rightarrow> bytes option result" where
  "MemoryStore_get s key read_ts =
     Inr (visible_value (map_of (shards s ! shard_of s key) key) read_ts)"

text \<open>The validation loop over keys paired with their shards; \<open>Some\<close> is the early return.\<close>

fun validate ::
  "memory_store \<Rightarrow> nat list \<Rightarrow> timestamp \<Rightarrow> (bytes \<times> nat) list \<Rightarrow> TxnError option" where
  "validate s to_lock read_ts [] = None"
| "validate s to_lock read_ts ((key, shard) # rest) =
     (case binary_search to_lock shard of
        Inr pos \<Rightarrow>
          (if newer_than (map_of (shards s ! (to_lock ! pos)) key) read_ts
           then Some (conflict (length key))
           else validate s to_lock read_ts rest)
      | Inl _ \<Rightarrow> validate s to_lock read_ts rest)"

fun apply_writes ::
  "nat list \<Rightarrow> timestamp \<Rightarrow> (write_entry \<times> nat) list \<Rightarrow> memory_store \<Rightarrow> memory_store" where
  "apply_writes to_lock cts [] s = s"
| "apply_writes to_lock cts (((key, v), shard) # rest) s =
     (case binary_search to_lock shard of
        Inr pos \<Rightarrow>
          apply_writes to_lock cts rest
            (push_in (to_lock ! pos) key \<lparr>commit_ts = cts, val = v\<rparr> s)
      | Inl _ \<Rightarrow> apply_writes to_lock cts rest s)"

definition MemoryStore_try_commit ::
  "memory_store \<Rightarrow> timestamp \<Rightarrow> timestamp \<Rightarrow> write_entry list \<Rightarrow> bytes list
     \<Rightarrow> unit result \<times> memory_store" where
  "MemoryStore_try_commit s read_ts cts writes reads =
     (if length writes = 1 \<and> reads = [] then
        (let key = fst (writes ! 0); shard = shard_of s key
         in if newer_than (map_of (shards s ! shard) key) read_ts
            then (Inl (conflict (length key)), s)
            else (Inr (),
              foldl (\<lambda>st w. push_in shard (fst w) \<lparr>commit_ts = cts, val = snd w\<rparr> st) s writes))
      else
        (let write_shards = map (\<lambda>w. shard_of s (fst w)) writes;
             read_shards = map (shard_of s) reads;
             to_lock = remdups_adj (sort (write_shards @ read_shards))
         in case validate s to_lock read_ts (zip (map fst writes) write_shards) of
              Some e \<Rightarrow> (Inl e, s)
            | None \<Rightarrow>
                (case validate s to_lock read_ts (zip reads read_shards) of
                   Some e \<Rightarrow> (Inl e, s)
                 | None \<Rightarrow> (Inr (), apply_writes to_lock cts (zip writes write_shards) s))))"

text \<open>
  The collector's closure on one chain: the number of versions reclaimed, and the chain that is
  retained, \<open>None\<close> when the closure returns \<open>false\<close> and the key is dropped.
\<close>

definition gc_chain :: "timestamp \<Rightarrow> version list \<Rightarrow> nat \<times> version list option" where
  "gc_chain low chain =
     (let visible = partition_point (\<lambda>v. commit_ts v \<le> low) chain;
          reclaimed = (if 1 < visible then visible - 1 else 0);
          chain' = (if 1 < visible then drop (visible - 1) chain else chain)
      in if length chain' = 1 \<and> commit_ts (chain' ! 0) \<le> low \<and> val (chain' ! 0) = None
         then (reclaimed + 1, None)
         else (reclaimed, Some chain'))"

fun gc_shard :: "timestamp \<Rightarrow> chains \<Rightarrow> nat \<times> chains" where
  "gc_shard low [] = (0, [])"
| "gc_shard low ((key, chain) # rest) =
     (let (n, kept) = gc_chain low chain; (n', rest') = gc_shard low rest
      in (n + n', case kept of None \<Rightarrow> rest' | Some c \<Rightarrow> (key, c) # rest'))"

text \<open>One critical section of the collector: shard \<open>i\<close> under its write lock.\<close>

definition gc_slice :: "memory_store \<Rightarrow> timestamp \<Rightarrow> nat \<Rightarrow> nat \<times> memory_store" where
  "gc_slice s low i =
     (let (n, c) = gc_shard low (shards s ! i) in (n, s\<lparr>shards := (shards s)[i := c]\<rparr>))"

fun gc_loop :: "timestamp \<Rightarrow> nat list \<Rightarrow> nat \<Rightarrow> memory_store \<Rightarrow> nat \<times> memory_store" where
  "gc_loop low [] reclaimed s = (reclaimed, s)"
| "gc_loop low (i # is) reclaimed s =
     (let (n, s') = gc_slice s low i in gc_loop low is (reclaimed + n) s')"

definition MemoryStore_collect_garbage :: "memory_store \<Rightarrow> timestamp \<Rightarrow> nat \<times> memory_store" where
  "MemoryStore_collect_garbage s low = gc_loop low [0..<length (shards s)] 0 s"

text \<open>The trait implementation.\<close>

definition MemoryStore :: "memory_store version_store" where
  "MemoryStore =
     \<lparr>vs_get = MemoryStore_get, vs_try_commit = MemoryStore_try_commit,
      vs_collect_garbage = MemoryStore_collect_garbage\<rparr>"

subsection \<open>Well-formedness and the abstraction\<close>

definition wf_chains :: "(bytes \<Rightarrow> nat) \<Rightarrow> nat \<Rightarrow> chains \<Rightarrow> bool" where
  "wf_chains sh i m \<longleftrightarrow> distinct (map fst m)
     \<and> (\<forall>(k, c)\<in>set m. sh k = i \<and> c \<noteq> [] \<and> ascending c)"

definition wf_store :: "memory_store \<Rightarrow> bool" where
  "wf_store s \<longleftrightarrow> length (shards s) = Suc (unat (shard_mask s))
     \<and> (\<forall>i<length (shards s). wf_chains (shard_of s) i (shards s ! i))"

definition chain_of :: "memory_store \<Rightarrow> bytes \<Rightarrow> version list option" where
  "chain_of s k = map_of (shards s ! shard_of s k) k"

definition store_hist :: "memory_store \<Rightarrow> bytes \<Rightarrow> version list" where
  "store_hist s k = (case chain_of s k of None \<Rightarrow> [] | Some c \<Rightarrow> c)"

definition push :: "bytes \<Rightarrow> version \<Rightarrow> memory_store \<Rightarrow> memory_store" where
  "push k v s = push_in (shard_of s k) k v s"

text \<open>
  The reference commit: check every touched key in order, write set first, against the snapshot;
  abort at the first that changed, otherwise append every write.
\<close>

definition try_commit_ref ::
  "memory_store \<Rightarrow> timestamp \<Rightarrow> timestamp \<Rightarrow> write_entry list \<Rightarrow> bytes list
     \<Rightarrow> unit result \<times> memory_store" where
  "try_commit_ref s read_ts cts writes reads =
     (case find (\<lambda>k. changed_since (store_hist s k) read_ts) (map fst writes @ reads) of
        Some k \<Rightarrow> (Inl (conflict (length k)), s)
      | None \<Rightarrow> (Inr (), foldl (\<lambda>st w. push (fst w) \<lparr>commit_ts = cts, val = snd w\<rparr> st) s writes))"

definition version_count :: "memory_store \<Rightarrow> nat" where
  "version_count s = sum_list (map (\<lambda>m. sum_list (map (\<lambda>(k, c). length c) m)) (shards s))"


section \<open>Shards\<close>

lemma shard_of_le_mask: "shard_of s k \<le> unat (shard_mask s)"
  unfolding shard_of_def by (simp add: word_and_le1 flip: word_le_nat_alt)

lemma shard_of_less [simp]: "wf_store s \<Longrightarrow> shard_of s k < length (shards s)"
  using shard_of_le_mask [of s k] by (simp add: wf_store_def)

lemma shard_of_cong: "shard_mask s = shard_mask t \<Longrightarrow> shard_of s = shard_of t"
  by (rule ext) (simp add: shard_of_def)

lemma wf_storeD: "wf_store s \<Longrightarrow> wf_chains (shard_of s) (shard_of s k) (shards s ! shard_of s k)"
  using shard_of_less by (auto simp: wf_store_def)

lemma wf_with_shards:
  assumes "unat n \<le> 2 ^ 63"
  shows "wf_store (with_shards n)"
proof -
  have "unat (max n 1) \<le> 2 ^ 63"
    using assms by (simp add: max_def)
  then obtain k where k: "unat (next_power_of_two (max n 1)) = 2 ^ k"
    by (rule next_power_of_two_exact)
  let ?c = "next_power_of_two (max n 1)"
  have "unat (?c - 1) = unat ?c - 1"
    using k by (intro unat_minus_one) (auto simp flip: unat_eq_0)
  with k show ?thesis
    by (auto simp: wf_store_def with_shards_def Let_def wf_chains_def)
qed

section \<open>Chains\<close>

lemma chain_of_wf: "wf_store s \<Longrightarrow> chain_of s k = Some c \<Longrightarrow> c \<noteq> [] \<and> ascending c"
  using wf_storeD [of s k] by (auto simp: chain_of_def wf_chains_def dest!: map_of_SomeD)

lemma store_hist_ascending: "wf_store s \<Longrightarrow> ascending (store_hist s k)"
  by (auto simp: store_hist_def dest: chain_of_wf split: option.split)

lemma ascending_split:
  "ascending c \<Longrightarrow> c = filter (\<lambda>v. commit_ts v \<le> r) c @ filter (\<lambda>v. \<not> commit_ts v \<le> r) c"
proof (induction c)
  case (Cons v c)
  show ?case
  proof (cases "commit_ts v \<le> r")
    case False
    with Cons.prems have "filter (\<lambda>v. commit_ts v \<le> r) c = []" "filter (\<lambda>v. \<not> commit_ts v \<le> r) c = c"
      by (auto simp: filter_empty_conv filter_id_conv)
    with False show ?thesis by simp
  qed (use Cons in simp)
qed simp

text \<open>The binary search finds the boundary between visible and newer versions.\<close>

lemma partition_point_ascending:
  assumes "ascending c"
  shows "partition_point (\<lambda>v. commit_ts v \<le> r) c = length (filter (\<lambda>v. commit_ts v \<le> r) c)"
  by (subst (1) ascending_split [OF assms, of r], rule partition_point_append)
    (simp_all add: list_all_iff)

lemma visible_value_read_at: "ascending c \<Longrightarrow> visible_value (Some c) r = read_at c r"
proof -
  assume asc: "ascending c"
  let ?a = "filter (\<lambda>v. commit_ts v \<le> r) c"
  have "c ! (length ?a - 1) = last ?a" if "?a \<noteq> []"
    using that by (subst (1) ascending_split [OF asc, of r])
      (simp add: nth_append last_conv_nth del: filter_append)
  then show ?thesis
    by (auto simp: visible_value_def partition_point_ascending [OF asc] read_at_def
        visible_version_def Let_def)
qed

lemma newer_than_changed: "ascending c \<Longrightarrow> newer_than (Some c) r \<longleftrightarrow> changed_since c r"
  unfolding newer_than_def changed_since_def
  by (auto intro: last_in_set dest: ascending_last less_le_trans)

lemma newer_than_hist:
  "wf_store s \<Longrightarrow> newer_than (chain_of s k) r \<longleftrightarrow> changed_since (store_hist s k) r"
  using chain_of_wf [of s k]
  by (cases "chain_of s k") (auto simp: store_hist_def newer_than_changed, simp add: newer_than_def)

lemma MemoryStore_get_hist: "wf_store s \<Longrightarrow> MemoryStore_get s k r = Inr (read_at (store_hist s k) r)"
  using chain_of_wf [of s k]
  by (cases "chain_of s k")
    (simp_all add: MemoryStore_get_def store_hist_def chain_of_def visible_value_read_at
      visible_value_def [of None])

section \<open>Pushing a version\<close>

lemma map_of_entry_push:
  "map_of (entry_push k v m) =
     (map_of m)(k \<mapsto> (case map_of m k of None \<Rightarrow> [] | Some vs \<Rightarrow> vs) @ [v])"
  by (induction k v m rule: entry_push.induct) (auto simp: fun_eq_iff)

lemma keys_entry_push: "fst ` set (entry_push k v m) = insert k (fst ` set m)"
  by (induction k v m rule: entry_push.induct) auto

lemma distinct_entry_push: "distinct (map fst m) \<Longrightarrow> distinct (map fst (entry_push k v m))"
proof (induction k v m rule: entry_push.induct)
  case (2 k v a vs m)
  then show ?case using keys_entry_push [of k v m] by auto
qed simp

lemma set_entry_push:
  assumes "distinct (map fst m)" "(k', c) \<in> set (entry_push k v m)"
  shows "if k' = k then c = (case map_of m k of None \<Rightarrow> [] | Some vs \<Rightarrow> vs) @ [v] else (k', c) \<in> set m"
proof -
  have "map_of (entry_push k v m) k' = Some c"
    using assms by (simp add: distinct_entry_push)
  then show ?thesis by (auto simp: map_of_entry_push dest: map_of_SomeD split: if_splits)
qed

lemma shard_mask_push [simp]: "shard_mask (push k v s) = shard_mask s"
  by (simp add: push_def push_in_def)

lemma length_shards_push [simp]: "length (shards (push k v s)) = length (shards s)"
  by (simp add: push_def push_in_def)

lemma shard_of_push [simp]: "shard_of (push k v s) = shard_of s"
  by (rule shard_of_cong) simp

lemma shards_push:
  "wf_store s \<Longrightarrow> shards (push k v s) ! i =
     (if i = shard_of s k then entry_push k v (shards s ! i) else shards s ! i)"
  by (simp add: push_def push_in_def nth_list_update)

lemma store_hist_push:
  "wf_store s \<Longrightarrow> store_hist (push k v s) k' = (if k' = k then store_hist s k @ [v] else store_hist s k')"
  by (simp add: store_hist_def chain_of_def shards_push map_of_entry_push split: option.split)

lemma wf_store_push:
  assumes wf: "wf_store s" and newer: "\<not> changed_since (store_hist s k) (commit_ts v)"
  shows "wf_store (push k v s)"
proof -
  let ?i = "shard_of s k"
  let ?m = "shards s ! ?i"
  have m: "wf_chains (shard_of s) ?i ?m" using wf by (rule wf_storeD)
  have "ascending ((case map_of ?m k of None \<Rightarrow> [] | Some vs \<Rightarrow> vs) @ [v])"
    using store_hist_ascending [OF wf, of k] newer
    by (auto simp: store_hist_def chain_of_def sorted_append changed_since_def not_less)
  then have "wf_chains (shard_of s) ?i (entry_push k v ?m)"
    using m by (auto simp: wf_chains_def distinct_entry_push dest!: set_entry_push split: if_splits)
  with wf show ?thesis
    using shards_push [OF wf] by (simp add: wf_store_def)
qed

abbreviation push_all :: "timestamp \<Rightarrow> write_entry list \<Rightarrow> memory_store \<Rightarrow> memory_store" where
  "push_all cts ws s \<equiv> foldl (\<lambda>st w. push (fst w) \<lparr>commit_ts = cts, val = snd w\<rparr> st) s ws"

lemma push_all_wf:
  "wf_store s \<Longrightarrow> \<forall>w\<in>set ws. \<not> changed_since (store_hist s (fst w)) cts \<Longrightarrow>
     wf_store (push_all cts ws s)"
proof (induction ws arbitrary: s)
  case (Cons w ws)
  then show ?case
    by (auto intro!: Cons.IH simp: wf_store_push store_hist_push changed_since_def)
qed simp

lemma push_all_hist:
  "wf_store s \<Longrightarrow> \<forall>w\<in>set ws. \<not> changed_since (store_hist s (fst w)) cts \<Longrightarrow>
     store_hist (push_all cts ws s) k = store_hist s k @ new_versions cts ws k"
proof (induction ws arbitrary: s)
  case (Cons w ws)
  let ?s = "push (fst w) \<lparr>commit_ts = cts, val = snd w\<rparr> s"
  have "wf_store ?s" using Cons.prems by (intro wf_store_push) auto
  moreover have "\<forall>w\<in>set ws. \<not> changed_since (store_hist ?s (fst w)) cts"
    using Cons.prems by (auto simp: store_hist_push changed_since_def)
  ultimately show ?case
    using Cons.IH [of ?s] Cons.prems by (simp add: store_hist_push new_versions_def)
qed (simp add: new_versions_def)

section \<open>Committing\<close>

text \<open>With the shard of every key locked, the guarded loops visit every key.\<close>

lemma validate_find:
  assumes lock: "sorted_wrt (<) to_lock" "shard_of s ` set ks \<subseteq> set to_lock"
  shows "validate s to_lock rts (zip ks (map (shard_of s) ks)) =
    map_option (\<lambda>k. conflict (length k)) (find (\<lambda>k. newer_than (chain_of s k) rts) ks)"
  using lock(2)
proof (induction ks)
  case (Cons k ks)
  obtain pos where "binary_search to_lock (shard_of s k) = Inr pos" "to_lock ! pos = shard_of s k"
    using binary_search_found [OF lock(1), of "shard_of s k"] Cons.prems by auto
  with Cons show ?case by (simp add: chain_of_def)
qed simp

lemma apply_writes_push_all:
  assumes lock: "sorted_wrt (<) to_lock" "sh ` fst ` set ws \<subseteq> set to_lock"
    and sh: "shard_of s = sh"
  shows "apply_writes to_lock cts (zip ws (map (\<lambda>w. sh (fst w)) ws)) s = push_all cts ws s"
  using lock(2) sh
proof (induction ws arbitrary: s)
  case (Cons w ws)
  obtain pos where "binary_search to_lock (sh (fst w)) = Inr pos" "to_lock ! pos = sh (fst w)"
    using binary_search_found [OF lock(1), of "sh (fst w)"] Cons.prems by auto
  then have "apply_writes to_lock cts (zip (w # ws) (map (\<lambda>w. sh (fst w)) (w # ws))) s =
      apply_writes to_lock cts (zip ws (map (\<lambda>w. sh (fst w)) ws))
        (push (fst w) \<lparr>commit_ts = cts, val = snd w\<rparr> s)"
    using Cons.prems by (cases w) (simp add: push_def)
  with Cons show ?case by simp
qed simp

lemma MemoryStore_try_commit_ref:
  assumes wf: "wf_store s"
  shows "MemoryStore_try_commit s rts cts ws rs = try_commit_ref s rts cts ws rs"
proof (cases "length ws = 1 \<and> rs = []")
  case True
  then obtain k v where ws: "ws = [(k, v)]" by (cases ws; cases "tl ws") auto
  with True show ?thesis
    by (auto simp: MemoryStore_try_commit_def try_commit_ref_def Let_def push_def
        simp flip: newer_than_hist [OF wf] chain_of_def)
next
  case False
  let ?ks = "map fst ws"
  let ?lock = "remdups_adj (sort (map (\<lambda>w. shard_of s (fst w)) ws @ map (shard_of s) rs))"
  have map_shards: "map (\<lambda>w. shard_of s (fst w)) ws = map (shard_of s) ?ks" by simp
  have lock: "sorted_wrt (<) ?lock" "shard_of s ` set ?ks \<subseteq> set ?lock" "shard_of s ` set rs \<subseteq> set ?lock"
    "shard_of s ` fst ` set ws \<subseteq> set ?lock"
    by (auto simp: sorted_dedup)
  show ?thesis
    using False
    by (auto simp: MemoryStore_try_commit_def try_commit_ref_def Let_def find_append
        validate_find [OF lock(1,2), folded map_shards] validate_find [OF lock(1,3)]
        apply_writes_push_all [OF lock(1,4) refl] newer_than_hist [OF wf] split: option.split)
qed

lemma store_conflict:
  assumes "wf_store s" "\<exists>k\<in>touched ws rs. changed_since (store_hist s k) rts"
  shows "\<exists>k\<in>touched ws rs. changed_since (store_hist s k) rts
    \<and> MemoryStore_try_commit s rts cts ws rs = (Inl (conflict (length k)), s)"
proof -
  let ?P = "\<lambda>k. changed_since (store_hist s k) rts"
  have "find ?P (map fst ws @ rs) \<noteq> None"
    using assms(2) by (auto simp: find_None_iff touched_def)
  then obtain k where k: "find ?P (map fst ws @ rs) = Some k" by blast
  then have "k \<in> touched ws rs" "?P k"
    by (auto simp: touched_def dest!: find_SomeD)
  with k show ?thesis
    by (auto simp: MemoryStore_try_commit_ref [OF assms(1)] try_commit_ref_def)
qed

lemma store_apply:
  assumes wf: "wf_store s" and le: "rts < cts"
    and ok: "\<forall>k\<in>touched ws rs. \<not> changed_since (store_hist s k) rts"
  shows "MemoryStore_try_commit s rts cts ws rs = (Inr (), push_all cts ws s)"
    "wf_store (push_all cts ws s)"
    "store_hist (push_all cts ws s) k = store_hist s k @ new_versions cts ws k"
proof -
  have "find (\<lambda>k. changed_since (store_hist s k) rts) (map fst ws @ rs) = None"
    using ok by (auto simp: find_None_iff touched_def)
  then show "MemoryStore_try_commit s rts cts ws rs = (Inr (), push_all cts ws s)"
    by (simp add: MemoryStore_try_commit_ref [OF wf] try_commit_ref_def)
  have newer: "\<forall>w\<in>set ws. \<not> changed_since (store_hist s (fst w)) cts"
    using ok le by (auto simp: touched_def dest: changed_since_mono [OF less_imp_le])
  show "wf_store (push_all cts ws s)" using wf newer by (rule push_all_wf)
  show "store_hist (push_all cts ws s) k = store_hist s k @ new_versions cts ws k"
    using wf newer by (rule push_all_hist)
qed

section \<open>Collecting\<close>

abbreviation kept :: "version list option \<Rightarrow> version list" where
  "kept c \<equiv> (case c of None \<Rightarrow> [] | Some c \<Rightarrow> c)"

lemma gc_chain_cases:
  assumes "ascending c"
  obtains
    (none) "filter (\<lambda>v. commit_ts v \<le> low) c = []" "gc_chain low c = (0, Some c)"
  | (keep) a v b where "c = a @ v # b" "commit_ts v \<le> low" "\<forall>w\<in>set a. commit_ts w \<le> low"
      "\<forall>w\<in>set b. low < commit_ts w" "b \<noteq> [] \<or> val v \<noteq> None"
      "gc_chain low c = (length a, Some (v # b))"
  | (dead) a v where "c = a @ [v]" "commit_ts v \<le> low" "\<forall>w\<in>set a. commit_ts w \<le> low"
      "val v = None" "gc_chain low c = (Suc (length a), None)"
proof -
  define f where "f = filter (\<lambda>v. commit_ts v \<le> low) c"
  define b where "b = filter (\<lambda>v. \<not> commit_ts v \<le> low) c"
  have c: "c = f @ b" unfolding f_def b_def by (rule ascending_split [OF assms])
  have pp: "partition_point (\<lambda>v. commit_ts v \<le> low) c = length f"
    unfolding f_def by (rule partition_point_ascending [OF assms])
  have b: "\<forall>w\<in>set b. low < commit_ts w" by (auto simp: b_def)
  show thesis
  proof (cases f rule: rev_cases)
    case Nil
    then have "gc_chain low c = (0, Some c)"
      using b c unfolding gc_chain_def pp by (auto simp: Let_def length_Suc_conv)
    with Nil none show thesis by (simp add: f_def)
  next
    case (snoc a v)
    then have "v \<in> set f" "set a \<subseteq> set f" by auto
    then have v: "commit_ts v \<le> low" "\<forall>w\<in>set a. commit_ts w \<le> low" by (auto simp: f_def)
    have eq: "gc_chain low c =
      (if b = [] \<and> val v = None then (Suc (length a), None) else (length a, Some (v # b)))"
      using c snoc v(1) unfolding gc_chain_def pp by (cases a) (auto simp: Let_def)
    show thesis
    proof (cases "b = [] \<and> val v = None")
      case True
      with v snoc c eq show thesis by (intro dead [of a v]) auto
    next
      case False
      with v b snoc c eq show thesis by (intro keep [of a v b]) auto
    qed
  qed
qed

lemma gc_chain_pruned:
  assumes "ascending c"
  shows "pruned low c (kept (snd (gc_chain low c)))"
  using assms
proof (cases rule: gc_chain_cases [where low = low])
  case (keep a v b)
  have "read_at (a @ v # b) r = read_at (v # b) r" if "low \<le> r" for r
    using keep(2) that by (intro read_at_append_older) auto
  moreover have "\<not> changed_since a r" if "low \<le> r" for r
    using keep(3) that by (auto simp: changed_since_def not_less)
  ultimately show ?thesis using keep by (auto simp: pruned_def)
next
  case (dead a v)
  have "read_at (a @ [v]) r = None" if "low \<le> r" for r
    using dead(2,4) that by (subst read_at_append_older) (auto simp: read_at_def visible_version_def)
  moreover have "\<not> changed_since (a @ [v]) r" if "low \<le> r" for r
    using dead(2,3) that by (auto simp: changed_since_def not_less)
  ultimately show ?thesis using dead by (auto simp: pruned_def)
qed (simp add: pruned_def)

lemma gc_chain_wf:
  "ascending c \<Longrightarrow> c \<noteq> [] \<Longrightarrow> snd (gc_chain low c) = Some d \<Longrightarrow> d \<noteq> [] \<and> ascending d"
  by (rule gc_chain_cases [of c low]) (auto simp: sorted_append)

lemma gc_chain_count:
  "ascending c \<Longrightarrow> fst (gc_chain low c) + length (kept (snd (gc_chain low c))) = length c"
  by (rule gc_chain_cases [of c low]) auto

text \<open>
  What is left of a chain: at most one version a reader at the watermark can see, and never a
  lone tombstone.
\<close>

lemma gc_chain_minimal:
  assumes "ascending c"
  shows "length (filter (\<lambda>v. commit_ts v \<le> low) (kept (snd (gc_chain low c)))) \<le> 1
    \<and> (\<forall>v. kept (snd (gc_chain low c)) = [v] \<longrightarrow> commit_ts v \<le> low \<longrightarrow> val v \<noteq> None)"
  using assms
proof (cases rule: gc_chain_cases [where low = low])
  case (keep a v b)
  moreover have "filter (\<lambda>v. commit_ts v \<le> low) b = []"
    using keep(4) by (auto simp: filter_empty_conv)
  ultimately show ?thesis by auto
qed (auto simp: filter_empty_conv)

lemma gc_shard_Cons:
  "fst (gc_shard low ((k, c) # m)) = fst (gc_chain low c) + fst (gc_shard low m)"
  "snd (gc_shard low ((k, c) # m)) =
     (case snd (gc_chain low c) of None \<Rightarrow> [] | Some c' \<Rightarrow> [(k, c')]) @ snd (gc_shard low m)"
  by (auto split: prod.split option.split)

lemma gc_shard_keys: "k \<in> fst ` set (snd (gc_shard low m)) \<Longrightarrow> k \<in> fst ` set m"
proof (induction m)
  case (Cons p m)
  then show ?case
    by (cases p) (auto simp: gc_shard_Cons simp del: gc_shard.simps split: option.splits)
qed simp

lemma gc_shard_distinct: "distinct (map fst m) \<Longrightarrow> distinct (map fst (snd (gc_shard low m)))"
proof (induction m)
  case (Cons p m)
  obtain k c where p: "p = (k, c)" by (cases p)
  with Cons show ?case
    using gc_shard_keys [of k low m]
    by (auto simp: gc_shard_Cons simp del: gc_shard.simps split: option.split)
qed simp

lemma gc_shard_map_of:
  "distinct (map fst m) \<Longrightarrow>
     map_of (snd (gc_shard low m)) k = Option.bind (map_of m k) (\<lambda>c. snd (gc_chain low c))"
proof (induction m)
  case (Cons p m)
  obtain a c where p: "p = (a, c)" by (cases p)
  with Cons.prems have "map_of (snd (gc_shard low m)) a = None"
    using gc_shard_keys [of a low m] by (auto simp: map_of_eq_None_iff)
  with Cons p show ?case
    by (auto simp: gc_shard_Cons simp del: gc_shard.simps split: option.split)
qed simp

lemma gc_shard_count:
  "\<forall>(k, c)\<in>set m. ascending c \<Longrightarrow>
     fst (gc_shard low m) + sum_list (map (\<lambda>(k, c). length c) (snd (gc_shard low m))) =
     sum_list (map (\<lambda>(k, c). length c) m)"
proof (induction m)
  case (Cons p m)
  obtain k c where p: "p = (k, c)" by (cases p)
  with Cons show ?case
    using gc_chain_count [of c low]
    by (auto simp: gc_shard_Cons simp del: gc_shard.simps split: option.splits)
qed simp

lemma gc_shard_wf:
  assumes "wf_chains sh i m"
  shows "wf_chains sh i (snd (gc_shard low m))"
proof -
  let ?m = "snd (gc_shard low m)"
  have d: "distinct (map fst ?m)"
    using assms by (simp add: wf_chains_def gc_shard_distinct)
  have "sh k = i \<and> c \<noteq> [] \<and> ascending c" if "(k, c) \<in> set ?m" for k c
  proof -
    have "map_of ?m k = Some c" using that d by simp
    then obtain c0 where "map_of m k = Some c0" "snd (gc_chain low c0) = Some c"
      using assms by (auto simp: gc_shard_map_of wf_chains_def bind_eq_Some_conv)
    then show ?thesis
      using assms gc_chain_wf [of c0 low c] by (auto simp: wf_chains_def dest!: map_of_SomeD)
  qed
  with d show ?thesis by (auto simp: wf_chains_def)
qed

lemma shard_of_gc_slice [simp]: "shard_of (snd (gc_slice s low i)) = shard_of s"
  by (rule shard_of_cong) (simp add: gc_slice_def split: prod.split)

lemma gc_slice_shards:
  "shards (snd (gc_slice s low i)) = (shards s)[i := snd (gc_shard low (shards s ! i))]"
  by (simp add: gc_slice_def split: prod.split)

lemma wf_store_gc_slice:
  assumes "wf_store s"
  shows "wf_store (snd (gc_slice s low i))"
proof -
  have mask: "shard_mask (snd (gc_slice s low i)) = shard_mask s"
    by (simp add: gc_slice_def split: prod.split)
  have "wf_chains (shard_of s) j ((shards s)[i := snd (gc_shard low (shards s ! i))] ! j)"
    if "j < length (shards s)" for j
    using assms that by (cases "j = i") (auto simp: wf_store_def gc_shard_wf)
  with assms show ?thesis by (simp add: wf_store_def mask gc_slice_shards)
qed

lemma store_hist_gc_slice:
  assumes "wf_store s" "i < length (shards s)"
  shows "store_hist (snd (gc_slice s low i)) k =
    (if shard_of s k = i then kept (snd (gc_chain low (store_hist s k))) else store_hist s k)"
proof -
  have "snd (gc_chain low []) = Some []"
    by (simp add: gc_chain_def partition_point_def binary_search_by_def)
  with assms wf_storeD [OF assms(1), of k] show ?thesis
    by (auto simp: store_hist_def chain_of_def gc_slice_shards nth_list_update gc_shard_map_of
        wf_chains_def split: option.split)
qed

lemma version_count_gc_slice:
  assumes "wf_store s" "i < length (shards s)"
  shows "fst (gc_slice s low i) + version_count (snd (gc_slice s low i)) = version_count s"
proof -
  let ?f = "\<lambda>m. sum_list (map (\<lambda>(k, c). length c) m) :: nat"
  have "fst (gc_slice s low i) = fst (gc_shard low (shards s ! i))"
    by (simp add: gc_slice_def split: prod.split)
  moreover have "fst (gc_shard low (shards s ! i)) + ?f (snd (gc_shard low (shards s ! i))) =
      ?f (shards s ! i)"
    using assms by (intro gc_shard_count) (auto simp: wf_store_def wf_chains_def)
  moreover have "?f (shards s ! i) \<le> sum_list (map ?f (shards s))"
    using assms(2) by (intro member_le_sum_list) auto
  ultimately show ?thesis
    using assms(2)
    by (simp add: version_count_def gc_slice_shards map_update sum_list_update)
qed

lemma length_shards_gc_slice [simp]: "length (shards (snd (gc_slice s low i))) = length (shards s)"
  by (simp add: gc_slice_shards)

lemma length_shards_gc_loop: "length (shards (snd (gc_loop low is n s))) = length (shards s)"
proof (induction low "is" n s rule: gc_loop.induct)
  case (2 low i "is" n s)
  obtain m t where "gc_slice s low i = (m, t)" by force
  then show ?case using "2.IH" length_shards_gc_slice [of s low i] by simp
qed simp

lemma gc_slice_pruned:
  "wf_store s \<Longrightarrow> i < length (shards s) \<Longrightarrow>
     pruned low (store_hist s k) (store_hist (snd (gc_slice s low i)) k)"
  by (simp add: store_hist_gc_slice gc_chain_pruned store_hist_ascending)

lemma gc_loop_spec:
  assumes "wf_store s" "distinct is" "set is \<subseteq> {..<length (shards s)}"
  shows "wf_store (snd (gc_loop low is n s))
    \<and> (\<forall>k. store_hist (snd (gc_loop low is n s)) k =
        (if shard_of s k \<in> set is then kept (snd (gc_chain low (store_hist s k))) else store_hist s k))
    \<and> fst (gc_loop low is n s) + version_count (snd (gc_loop low is n s)) = n + version_count s"
  using assms
proof (induction "is" arbitrary: n s)
  case (Cons i "is")
  let ?s = "snd (gc_slice s low i)" and ?n = "n + fst (gc_slice s low i)"
  have step: "gc_loop low (i # is) n s = gc_loop low is ?n ?s"
    by (simp split: prod.split)
  have "wf_store ?s" using Cons.prems by (simp add: wf_store_gc_slice)
  then have IH: "wf_store (snd (gc_loop low is ?n ?s))"
    "\<And>k. store_hist (snd (gc_loop low is ?n ?s)) k =
        (if shard_of s k \<in> set is then kept (snd (gc_chain low (store_hist ?s k))) else store_hist ?s k)"
    "fst (gc_loop low is ?n ?s) + version_count (snd (gc_loop low is ?n ?s)) = ?n + version_count ?s"
    using Cons.IH [of ?s ?n] Cons.prems by auto
  have i: "i < length (shards s)" "i \<notin> set is" using Cons.prems by auto
  show ?case
    unfolding step
    using IH i version_count_gc_slice [OF Cons.prems(1) i(1), of low]
      store_hist_gc_slice [OF Cons.prems(1) i(1), of low]
    by auto
qed simp

lemma collect_garbage_spec:
  assumes "wf_store s"
  shows "wf_store (snd (MemoryStore_collect_garbage s low))"
    "store_hist (snd (MemoryStore_collect_garbage s low)) k = kept (snd (gc_chain low (store_hist s k)))"
    "fst (MemoryStore_collect_garbage s low) + version_count (snd (MemoryStore_collect_garbage s low))
       = version_count s"
proof -
  have "set [0..<length (shards s)] \<subseteq> {..<length (shards s)}" by auto
  with gc_loop_spec [OF assms, of "[0..<length (shards s)]" low 0] assms
  show "wf_store (snd (MemoryStore_collect_garbage s low))"
    "store_hist (snd (MemoryStore_collect_garbage s low)) k = kept (snd (gc_chain low (store_hist s k)))"
    "fst (MemoryStore_collect_garbage s low) + version_count (snd (MemoryStore_collect_garbage s low))
       = version_count s"
    by (simp_all add: MemoryStore_collect_garbage_def)
qed

section \<open>The store meets the contract\<close>

interpretation mem: store_contract MemoryStore wf_store store_hist
proof unfold_locales
  fix s k r ws rs rts cts low
  assume wf: "wf_store s"
  show "ascending (store_hist s k)" using wf by (rule store_hist_ascending)
  show "vs_get MemoryStore s k r = Inr (read_at (store_hist s k) r)"
    using wf by (simp add: MemoryStore_def MemoryStore_get_hist)
  show "\<exists>k\<in>touched ws rs. changed_since (store_hist s k) rts
      \<and> vs_try_commit MemoryStore s rts cts ws rs = (Inl (conflict (length k)), s)"
    if "\<exists>k\<in>touched ws rs. changed_since (store_hist s k) rts"
    using store_conflict [OF wf that] by (simp add: MemoryStore_def)
  show "\<exists>s'. vs_try_commit MemoryStore s rts cts ws rs = (Inr (), s') \<and> wf_store s'
      \<and> (\<forall>k. store_hist s' k = store_hist s k @ new_versions cts ws k)"
    if "rts < cts" "\<forall>k\<in>touched ws rs. \<not> changed_since (store_hist s k) rts"
    using store_apply [OF wf that] by (simp add: MemoryStore_def)
  show "wf_store (snd (vs_collect_garbage MemoryStore s low))
      \<and> pruned low (store_hist s k) (store_hist (snd (vs_collect_garbage MemoryStore s low)) k)"
    using collect_garbage_spec [OF wf] wf
    by (simp add: MemoryStore_def gc_chain_pruned store_hist_ascending)
qed

section \<open>Properties\<close>

abbreviation demo_key :: bytes where
  "demo_key \<equiv> [107]"

text \<open>A one-shard store whose key was written twice and then deleted.\<close>

abbreviation demo_store :: memory_store where
  "demo_store \<equiv>
     \<lparr>shards = [[(demo_key,
        [\<lparr>commit_ts = Timestamp 1, val = Some [97]\<rparr>, \<lparr>commit_ts = Timestamp 2, val = Some [98]\<rparr>,
         \<lparr>commit_ts = Timestamp 3, val = None\<rparr>])]], shard_mask = 0\<rparr>"

lemma wf_demo_store: "wf_store demo_store"
  by (simp add: wf_store_def wf_chains_def shard_of_def txn_eval)

lemma wf_MemoryStore_new: "wf_store MemoryStore_new"
  unfolding MemoryStore_new_def by (rule wf_with_shards) (simp add: DEFAULT_SHARDS_def)

lemma unat_and_pow2_minus_1:
  fixes x m :: usize
  assumes "unat m = 2 ^ k - 1"
  shows "unat (x AND m) = unat x mod 2 ^ k"
proof -
  have "m = word_of_nat (unat m)" by simp
  also have "\<dots> = word_of_nat (2 ^ k - 1)" by (simp only: assms)
  also have "\<dots> = mask k" by (simp add: mask_eq_exp_minus_1 of_nat_diff)
  finally have "x AND m = take_bit k x" by (simp add: take_bit_eq_mask)
  then have "unat (x AND m) = take_bit k (unat x)" by (simp only: unsigned_take_bit_eq)
  then show ?thesis by (simp only: take_bit_eq_mod)
qed

lemma with_shards_layout:
  assumes "unat n \<le> 2 ^ 63"
  obtains j where "length (shards (with_shards n)) = 2 ^ j" "unat (shard_mask (with_shards n)) = 2 ^ j - 1"
    "unat n \<le> 2 ^ j"
proof -
  have "unat (max n 1) \<le> 2 ^ 63" using assms by (simp add: max_def)
  then obtain j where j: "unat (next_power_of_two (max n 1)) = 2 ^ j" "unat (max n 1) \<le> 2 ^ j"
    by (rule next_power_of_two_exact)
  moreover have "unat n \<le> unat (max n 1)" by (simp add: max_def word_le_nat_alt)
  moreover have "length (shards (with_shards n)) = Suc (unat (shard_mask (with_shards n)))"
    using wf_with_shards [OF assms] by (simp add: wf_store_def)
  moreover have "length (shards (with_shards n)) = unat (next_power_of_two (max n 1))"
    by (simp add: with_shards_def Let_def)
  ultimately show thesis by (intro that [of j]) auto
qed

text \<open>Commit paths agree: on a well-formed store, \<open>try_commit\<close> (the one-write fast path
  and the general path with its sorted, deduplicated lock list and binary searches alike) behaves
  as the reference: validate every touched key in order, write set first, abort at the first key
  changed since the snapshot with its length, otherwise append every write.\<close>

theorem try_commit_equals_reference:
  "wf_store s \<Longrightarrow>
     MemoryStore_try_commit s rts cts ws rs = try_commit_ref s rts cts ws rs"
  by (rule MemoryStore_try_commit_ref)

theorem try_commit_equals_reference_witness:
  "MemoryStore_try_commit demo_store (Timestamp 3) (Timestamp 4) [([1], Some [2]), ([3], None)] [[4]] =
     try_commit_ref demo_store (Timestamp 3) (Timestamp 4) [([1], Some [2]), ([3], None)] [[4]]"
  by (rule try_commit_equals_reference [OF wf_demo_store])

text \<open>C33. The store stays well-formed: a store built with any shard count up to \<open>2 ^ 63\<close> is
  well-formed (each key in its own shard, each key once, chains non-empty and ascending), and a
  commit above its snapshot, successful or not, and a collection at any watermark keep it so.\<close>

theorem store_invariant:
  assumes "wf_store s" "rts < cts" "unat n \<le> 2 ^ 63"
  shows "wf_store (with_shards n) \<and> wf_store (snd (MemoryStore_try_commit s rts cts ws rs))
    \<and> wf_store (snd (MemoryStore_collect_garbage s low))"
  using mem.try_commit_invar [OF assms(1,2), of ws rs] wf_with_shards [OF assms(3)]
    collect_garbage_spec(1) [OF assms(1)]
  by (simp add: MemoryStore_def)

theorem store_invariant_witness:
  "wf_store (with_shards 5)
    \<and> wf_store (snd (MemoryStore_try_commit demo_store (Timestamp 3) (Timestamp 4) [([1], Some [2])] []))
    \<and> wf_store (snd (MemoryStore_collect_garbage demo_store (Timestamp 2)))"
  by (rule store_invariant [OF wf_demo_store]) (simp_all add: txn_eval)

text \<open>C34. The snapshot-read rule: a read at \<open>r\<close> returns the value of a version of the key at or
  below \<open>r\<close> than which no visible version is newer, and \<open>None\<close> exactly when there is none or
  that version is a tombstone.\<close>

theorem snapshot_read_rule:
  assumes "wf_store s"
  shows "MemoryStore_get s k r =
      Inr (case visible_version (store_hist s k) r of None \<Rightarrow> None | Some v \<Rightarrow> val v)
    \<and> (visible_version (store_hist s k) r = None \<longleftrightarrow> (\<forall>w\<in>set (store_hist s k). r < commit_ts w))
    \<and> (\<forall>v. visible_version (store_hist s k) r = Some v \<longrightarrow>
         v \<in> set (store_hist s k) \<and> commit_ts v \<le> r
         \<and> (\<forall>w\<in>set (store_hist s k). commit_ts w \<le> r \<longrightarrow> commit_ts w \<le> commit_ts v))"
proof -
  have "read_at h r = (case visible_version h r of None \<Rightarrow> None | Some v \<Rightarrow> val v)" for h
    by (simp add: read_at_def split: option.split)
  moreover have "visible_version h r = None \<longleftrightarrow> (\<forall>w\<in>set h. r < commit_ts w)" for h
    by (auto simp: visible_version_def Let_def filter_empty_conv not_le)
  ultimately show ?thesis
    using MemoryStore_get_hist [OF assms] visible_version_spec [OF store_hist_ascending [OF assms]]
    by simp
qed

theorem snapshot_read_rule_witness:
  "MemoryStore_get demo_store demo_key (Timestamp 2) = Inr (Some [98])"
  using snapshot_read_rule [OF wf_demo_store, of demo_key "Timestamp 2"]
  by (simp add: store_hist_def chain_of_def shard_of_def visible_version_def txn_eval)

text \<open>What a commit does to every history: it either reports a conflict on a touched key
  that changed after the snapshot and leaves the store as it was, or no touched key changed and
  exactly the batch's versions, stamped with the commit timestamp, are appended.\<close>

theorem try_commit_outcome:
  assumes "wf_store s" "rts < cts"
  shows "(\<exists>k\<in>touched ws rs. changed_since (store_hist s k) rts
       \<and> MemoryStore_try_commit s rts cts ws rs = (Inl (conflict (length k)), s))
    \<or> (\<forall>k\<in>touched ws rs. \<not> changed_since (store_hist s k) rts)
       \<and> (\<exists>s'. MemoryStore_try_commit s rts cts ws rs = (Inr (), s')
            \<and> (\<forall>k. store_hist s' k = store_hist s k @ new_versions cts ws k))"
  using assms
proof (cases rule: mem.try_commit_cases [where ws = ws and rs = rs])
  case (conflict k)
  then have "MemoryStore_try_commit s rts cts ws rs = (Inl (conflict (length k)), s)"
    by (simp add: MemoryStore_def)
  with conflict show ?thesis by blast
next
  case (applied s')
  then have "MemoryStore_try_commit s rts cts ws rs = (Inr (), s')"
    by (simp add: MemoryStore_def)
  with applied show ?thesis by blast
qed

theorem try_commit_outcome_witness:
  "(\<exists>k\<in>touched [(demo_key, None)] []. changed_since (store_hist demo_store k) (Timestamp 2)
       \<and> MemoryStore_try_commit demo_store (Timestamp 2) (Timestamp 4) [(demo_key, None)] [] =
           (Inl (conflict (length k)), demo_store))
    \<or> (\<forall>k\<in>touched [(demo_key, None)] []. \<not> changed_since (store_hist demo_store k) (Timestamp 2))
       \<and> (\<exists>s'. MemoryStore_try_commit demo_store (Timestamp 2) (Timestamp 4) [(demo_key, None)] [] = (Inr (), s')
            \<and> (\<forall>k. store_hist s' k =
                 store_hist demo_store k @ new_versions (Timestamp 4) [(demo_key, None)] k))"
  by (rule try_commit_outcome [OF wf_demo_store]) (simp add: txn_eval)

text \<open>Collection is invisible: no read and no commit at a snapshot at or above the watermark
  can tell whether the collector ran.\<close>

theorem collect_garbage_invisible:
  assumes "wf_store s" "low \<le> r"
  shows "MemoryStore_get (snd (MemoryStore_collect_garbage s low)) k r = MemoryStore_get s k r
    \<and> fst (MemoryStore_try_commit (snd (MemoryStore_collect_garbage s low)) r cts ws rs) =
      fst (MemoryStore_try_commit s r cts ws rs)"
proof -
  let ?s = "snd (MemoryStore_collect_garbage s low)"
  have wf: "wf_store ?s" using assms(1) by (rule collect_garbage_spec)
  have pr: "pruned low (store_hist s k) (store_hist ?s k)" for k
    using assms(1) by (simp add: collect_garbage_spec gc_chain_pruned store_hist_ascending)
  then have eq: "read_at (store_hist ?s k) r = read_at (store_hist s k) r"
    "changed_since (store_hist ?s k) r = changed_since (store_hist s k) r" for k
    using assms(2) by (auto simp: pruned_def)
  then show ?thesis
    by (simp add: MemoryStore_get_hist wf assms(1) MemoryStore_try_commit_ref try_commit_ref_def
        split: option.split)
qed

text \<open>C35. Collection is exact and invisible: the count it returns is the number of versions removed; of
  every key at most one version at or below the watermark is left, never a lone tombstone; and no read
  and no commit at a snapshot at or above the watermark can tell whether the collector ran.\<close>

theorem collect_garbage_exact:
  assumes "wf_store s"
  shows "fst (MemoryStore_collect_garbage s low) =
      version_count s - version_count (snd (MemoryStore_collect_garbage s low))
    \<and> version_count (snd (MemoryStore_collect_garbage s low)) \<le> version_count s
    \<and> length (filter (\<lambda>v. commit_ts v \<le> low)
        (store_hist (snd (MemoryStore_collect_garbage s low)) k)) \<le> 1
    \<and> (\<forall>v. store_hist (snd (MemoryStore_collect_garbage s low)) k = [v] \<longrightarrow>
        commit_ts v \<le> low \<longrightarrow> val v \<noteq> None)
    \<and> (\<forall>r\<ge>low. MemoryStore_get (snd (MemoryStore_collect_garbage s low)) k r = MemoryStore_get s k r
        \<and> fst (MemoryStore_try_commit (snd (MemoryStore_collect_garbage s low)) r cts ws rs) =
          fst (MemoryStore_try_commit s r cts ws rs))"
proof -
  let ?s = "snd (MemoryStore_collect_garbage s low)"
  have exact: "fst (MemoryStore_collect_garbage s low) = version_count s - version_count ?s
    \<and> version_count ?s \<le> version_count s \<and> length (filter (\<lambda>v. commit_ts v \<le> low) (store_hist ?s k)) \<le> 1
    \<and> (\<forall>v. store_hist ?s k = [v] \<longrightarrow> commit_ts v \<le> low \<longrightarrow> val v \<noteq> None)"
    using collect_garbage_spec [OF assms, of low] gc_chain_minimal [OF store_hist_ascending [OF assms]]
    by (simp flip: collect_garbage_spec(3) [OF assms, of low])
  have "\<forall>r\<ge>low. MemoryStore_get ?s k r = MemoryStore_get s k r
    \<and> fst (MemoryStore_try_commit ?s r cts ws rs) = fst (MemoryStore_try_commit s r cts ws rs)"
    using collect_garbage_invisible [OF assms] by blast
  with exact show ?thesis by blast
qed

theorem collect_garbage_exact_witness:
  "fst (MemoryStore_collect_garbage demo_store (Timestamp 2)) =
     version_count demo_store - version_count (snd (MemoryStore_collect_garbage demo_store (Timestamp 2)))
   \<and> MemoryStore_get (snd (MemoryStore_collect_garbage demo_store (Timestamp 2))) demo_key (Timestamp 3) =
     MemoryStore_get demo_store demo_key (Timestamp 3)"
  using collect_garbage_exact [OF wf_demo_store, of "Timestamp 2" demo_key] by (simp add: txn_eval)

text \<open>Shard selection is in bounds: \<open>with_shards\<close> rounds up to a power of two that is at
  least the requested count, masking the key's hash is reduction modulo the number of shards, and
  the index of every key is a valid one.\<close>

theorem shard_index_in_bounds:
  assumes "unat n \<le> 2 ^ 63"
  shows "(\<exists>j. length (shards (with_shards n)) = 2 ^ j) \<and> unat n \<le> length (shards (with_shards n))
    \<and> shard_of (with_shards n) k = unat (hash_key k) mod length (shards (with_shards n))
    \<and> shard_of (with_shards n) k < length (shards (with_shards n))"
proof -
  obtain j where "length (shards (with_shards n)) = 2 ^ j"
    "unat (shard_mask (with_shards n)) = 2 ^ j - 1" "unat n \<le> 2 ^ j"
    using assms by (rule with_shards_layout)
  then show ?thesis
    using wf_with_shards [OF assms] by (auto simp: shard_of_def unat_and_pow2_minus_1)
qed

theorem shard_index_in_bounds_witness:
  "shard_of (with_shards 5) demo_key < length (shards (with_shards 5))"
  using shard_index_in_bounds [of 5 demo_key] by simp

end
