(* ===== verification/Commit_Log.thy ===== *)
theory Commit_Log
  imports Version_Store
begin

text \<open>
  The durable commit log (\<open>src/src/durable.rs\<close>): the record format, its encoder, the
  bounds-checked decoder, and the log handle over the write-ahead log. The \<open>wal-db\<close> crate is
  not part of the repository: it is the parameter record \<open>wal_ops\<close>, and what the code relies on
  (its documented behaviour) are the predicates \<open>wal_appends\<close> and \<open>wal_reopens\<close>.
  Lengths are natural numbers; the \<open>as u32\<close> casts of the encoder truncate, as in the code.
\<close>

section \<open>Definitions\<close>

text \<open>The \<open>?\<close> operator: stop at an error, otherwise go on with the value.\<close>

definition and_then :: "'a result \<Rightarrow> ('a \<Rightarrow> 'b result) \<Rightarrow> 'b result" where
  "and_then m f = (case m of Inl e \<Rightarrow> Inl e | Inr a \<Rightarrow> f a)"

record RecoveredCommit =
  rc_commit_ts :: timestamp
  rc_writes :: "write_entry list"

text \<open>The methods of \<open>wal_db::Wal\<close> the crate calls, with errors as their printed form.\<close>

record 'w wal_ops =
  wal_open :: "'w \<Rightarrow> string + 'w"
  wal_iter :: "'w \<Rightarrow> string + (string + bytes) list"
  wal_append_and_sync :: "'w \<Rightarrow> bytes \<Rightarrow> (string + u64) \<times> 'w"

record 'w commit_log =
  wal :: 'w

definition RECORD_VERSION :: u8 where
  "RECORD_VERSION = 1"

definition MIN_WRITE_BYTES :: nat where
  "MIN_WRITE_BYTES = 4 + 1"

definition encode_write :: "write_entry \<Rightarrow> bytes" where
  "encode_write w =
     (let (key, value) = w
      in u32_to_le_bytes (word_of_nat (length key)) @ key @
         (case value of
            Some v \<Rightarrow> [1] @ u32_to_le_bytes (word_of_nat (length v)) @ v
          | None \<Rightarrow> [0]))"

definition encode_for_log :: "timestamp \<Rightarrow> write_entry list \<Rightarrow> bytes" where
  "encode_for_log cts writes =
     [RECORD_VERSION] @ u64_to_le_bytes (ts_get cts) @ u32_to_le_bytes (word_of_nat (length writes)) @
     concat (map encode_write writes)"

definition corrupt :: "string \<Rightarrow> TxnError" where
  "corrupt reason = durability (''malformed commit record: '' @ reason)"

definition corrupt_tag :: "u8 \<Rightarrow> TxnError" where
  "corrupt_tag tag =
     durability (''malformed commit record: invalid value tag '' @ show_nat (unat tag))"

record reader =
  buf :: bytes
  pos :: nat

definition Reader_new :: "bytes \<Rightarrow> reader" where
  "Reader_new bs = \<lparr>buf = bs, pos = 0\<rparr>"

definition remaining :: "reader \<Rightarrow> nat" where
  "remaining r = length (buf r) - pos r"

definition read_bytes :: "reader \<Rightarrow> nat \<Rightarrow> (bytes \<times> reader) result" where
  "read_bytes r len =
     (let end_pos = pos r + len
      in if end_pos < 2 ^ 64 \<and> end_pos \<le> length (buf r)
         then Inr (take len (drop (pos r) (buf r)), r\<lparr>pos := end_pos\<rparr>)
         else Inl (corrupt ''record ends mid-field''))"

definition read_u8 :: "reader \<Rightarrow> (u8 \<times> reader) result" where
  "read_u8 r = and_then (read_bytes r 1) (\<lambda>(b, r'). Inr (b ! 0, r'))"

definition read_u32 :: "reader \<Rightarrow> (u32 \<times> reader) result" where
  "read_u32 r = and_then (read_bytes r 4)
     (\<lambda>(b, r'). Inr (u32_from_le_bytes [b ! 0, b ! 1, b ! 2, b ! 3], r'))"

definition read_u64 :: "reader \<Rightarrow> (u64 \<times> reader) result" where
  "read_u64 r = and_then (read_bytes r 8)
     (\<lambda>(b, r'). Inr (u64_from_le_bytes
        [b ! 0, b ! 1, b ! 2, b ! 3, b ! 4, b ! 5, b ! 6, b ! 7], r'))"

text \<open>One iteration of the decoder's loop.\<close>

definition decode_write :: "reader \<Rightarrow> (write_entry \<times> reader) result" where
  "decode_write r =
     and_then (read_u32 r) (\<lambda>(key_len, r).
     and_then (read_bytes r (unat key_len)) (\<lambda>(key, r).
     and_then (read_u8 r) (\<lambda>(tag, r).
       if tag = 0 then Inr ((key, None), r)
       else if tag = 1 then
         and_then (read_u32 r) (\<lambda>(value_len, r).
         and_then (read_bytes r (unat value_len)) (\<lambda>(v, r).
           Inr ((key, Some v), r)))
       else Inl (corrupt_tag tag))))"

fun decode_writes :: "nat \<Rightarrow> reader \<Rightarrow> (write_entry list \<times> reader) result" where
  "decode_writes 0 r = Inr ([], r)"
| "decode_writes (Suc n) r =
     and_then (decode_write r) (\<lambda>(w, r).
     and_then (decode_writes n r) (\<lambda>(ws, r). Inr (w # ws, r)))"

definition decode_commit :: "bytes \<Rightarrow> RecoveredCommit result" where
  "decode_commit bs =
     and_then (read_u8 (Reader_new bs)) (\<lambda>(version, r).
       if version \<noteq> RECORD_VERSION
       then Inl (durability (''unsupported commit record version '' @ show_nat (unat version)))
       else
         and_then (read_u64 r) (\<lambda>(ts, r).
         and_then (read_u32 r) (\<lambda>(c, r).
           let count = unat c
           in if remaining r div MIN_WRITE_BYTES < count
              then Inl (corrupt ''write count exceeds record size'')
              else
                and_then (decode_writes count r) (\<lambda>(writes, r).
                  if remaining r \<noteq> 0
                  then Inl (corrupt ''trailing bytes after commit record'')
                  else Inr \<lparr>rc_commit_ts = from_raw ts, rc_writes = writes\<rparr>))))"

fun decode_entries :: "(string + bytes) list \<Rightarrow> RecoveredCommit list result" where
  "decode_entries [] = Inr []"
| "decode_entries (entry # rest) =
     (case entry of
        Inl e \<Rightarrow> Inl (durability e)
      | Inr data \<Rightarrow>
          and_then (decode_commit data) (\<lambda>c.
          and_then (decode_entries rest) (\<lambda>cs. Inr (c # cs))))"

definition CommitLog_open ::
  "'w wal_ops \<Rightarrow> 'w \<Rightarrow> ('w commit_log \<times> RecoveredCommit list) result" where
  "CommitLog_open W path =
     (case wal_open W path of
        Inl e \<Rightarrow> Inl (durability e)
      | Inr w \<Rightarrow>
          (case wal_iter W w of
             Inl e \<Rightarrow> Inl (durability e)
           | Inr entries \<Rightarrow>
               and_then (decode_entries entries) (\<lambda>recovered. Inr (\<lparr>wal = w\<rparr>, recovered))))"

definition append_committed ::
  "'w wal_ops \<Rightarrow> 'w commit_log \<Rightarrow> bytes \<Rightarrow> unit result \<times> 'w commit_log" where
  "append_committed W log rec =
     (case wal_append_and_sync W (wal log) rec of
        (Inl e, w) \<Rightarrow> (Inl (durability e), log\<lparr>wal := w\<rparr>)
      | (Inr lsn, w) \<Rightarrow> (Inr (), log\<lparr>wal := w\<rparr>))"

subsection \<open>What the write-ahead log promises\<close>

definition wal_holds :: "'w wal_ops \<Rightarrow> 'w \<Rightarrow> bytes list \<Rightarrow> bool" where
  "wal_holds W w recs \<longleftrightarrow> wal_iter W w = Inr (map Inr recs)"

text \<open>A synced append adds its record at the end of the log.\<close>

definition wal_appends :: "'w wal_ops \<Rightarrow> bool" where
  "wal_appends W \<longleftrightarrow> (\<forall>w w' lsn rec recs. wal_holds W w recs \<longrightarrow>
     wal_append_and_sync W w rec = (Inr lsn, w') \<longrightarrow> wal_holds W w' (recs @ [rec]))"

text \<open>Opening an intact log succeeds and keeps its records.\<close>

definition wal_reopens :: "'w wal_ops \<Rightarrow> bool" where
  "wal_reopens W \<longleftrightarrow> (\<forall>w recs. wal_holds W w recs \<longrightarrow>
     (\<exists>w'. wal_open W w = Inr w' \<and> wal_holds W w' recs))"

subsection \<open>Records that fit the format\<close>

definition entry_fits :: "write_entry \<Rightarrow> bool" where
  "entry_fits w \<longleftrightarrow> length (fst w) < 2 ^ 32 \<and> (\<forall>v. snd w = Some v \<longrightarrow> length v < 2 ^ 32)"

definition batch_fits :: "write_entry list \<Rightarrow> bool" where
  "batch_fits ws \<longleftrightarrow> length ws < 2 ^ 32 \<and> list_all entry_fits ws"

text \<open>The bytes still to be read; slices are shorter than the address space.\<close>

definition rest :: "reader \<Rightarrow> bytes" where
  "rest r = drop (pos r) (buf r)"

definition wf_reader :: "reader \<Rightarrow> bool" where
  "wf_reader r \<longleftrightarrow> pos r \<le> length (buf r) \<and> length (buf r) < 2 ^ 64"

section \<open>The reader\<close>

lemma and_then_simps [simp]: "and_then (Inl e) f = Inl e" "and_then (Inr a) f = f a"
  by (simp_all add: and_then_def)

lemma and_then_Inr_iff: "and_then m f = Inr b \<longleftrightarrow> (\<exists>a. m = Inr a \<and> f a = Inr b)"
  by (cases m) auto

lemma and_then_Inl_iff: "and_then m f = Inl e \<longleftrightarrow> m = Inl e \<or> (\<exists>a. m = Inr a \<and> f a = Inl e)"
  by (cases m) auto

lemma remaining_rest: "remaining r = length (rest r)"
  by (simp add: remaining_def rest_def)

lemma read_bytes_ok:
  assumes "wf_reader r" "rest r = bs @ q"
  shows "\<exists>r'. read_bytes r (length bs) = Inr (bs, r') \<and> wf_reader r' \<and> rest r' = q"
proof -
  have "length (rest r) = length bs + length q" using assms(2) by simp
  then have len: "pos r + length bs \<le> length (buf r)"
    using assms(1) unfolding wf_reader_def rest_def length_drop by linarith
  have "drop (length bs) (rest r) = q" "take (length bs) (rest r) = bs"
    using assms(2) by simp_all
  with len assms(1) show ?thesis
    by (auto simp: read_bytes_def wf_reader_def rest_def Let_def add.commute)
qed

lemma read_bytes_inv:
  assumes "wf_reader r" "read_bytes r n = Inr (bs, r')"
  shows "wf_reader r' \<and> rest r = bs @ rest r' \<and> length bs = n"
  using assms
  by (auto simp: read_bytes_def wf_reader_def rest_def Let_def add.commute
      simp flip: drop_drop split: if_splits)

lemma list_of_length4: "length b = 4 \<Longrightarrow> [b ! 0, b ! Suc 0, b ! 2, b ! 3] = b"
  by (auto simp: numeral_eq_Suc length_Suc_conv)

lemma list_of_length8:
  "length b = 8 \<Longrightarrow> [b ! 0, b ! Suc 0, b ! 2, b ! 3, b ! 4, b ! 5, b ! 6, b ! 7] = b"
  by (auto simp: numeral_eq_Suc length_Suc_conv)

lemma read_u8_ok:
  "wf_reader r \<Longrightarrow> rest r = b # q \<Longrightarrow> \<exists>r'. read_u8 r = Inr (b, r') \<and> wf_reader r' \<and> rest r' = q"
  using read_bytes_ok [of r "[b]" q] by (auto simp: read_u8_def)

lemma read_u32_ok:
  "wf_reader r \<Longrightarrow> rest r = u32_to_le_bytes w @ q \<Longrightarrow>
     \<exists>r'. read_u32 r = Inr (w, r') \<and> wf_reader r' \<and> rest r' = q"
  using read_bytes_ok [of r "u32_to_le_bytes w" q]
  by (auto simp: read_u32_def list_of_length4 u32_le_roundtrip)

lemma read_u64_ok:
  "wf_reader r \<Longrightarrow> rest r = u64_to_le_bytes w @ q \<Longrightarrow>
     \<exists>r'. read_u64 r = Inr (w, r') \<and> wf_reader r' \<and> rest r' = q"
  using read_bytes_ok [of r "u64_to_le_bytes w" q]
  by (auto simp: read_u64_def list_of_length8 u64_le_roundtrip)

lemma read_u8_inv:
  assumes "wf_reader r" "read_u8 r = Inr (b, r')"
  shows "wf_reader r' \<and> rest r = b # rest r'"
proof -
  from assms(2) obtain bs where bs: "read_bytes r 1 = Inr (bs, r')" "b = bs ! 0"
    by (auto simp: read_u8_def and_then_Inr_iff)
  from read_bytes_inv [OF assms(1) bs(1)] bs(2) show ?thesis
    by (auto simp: length_Suc_conv)
qed

lemma read_u32_inv:
  assumes "wf_reader r" "read_u32 r = Inr (w, r')"
  shows "wf_reader r' \<and> rest r = u32_to_le_bytes w @ rest r'"
proof -
  from assms(2) obtain bs where bs: "read_bytes r 4 = Inr (bs, r')"
    "w = u32_from_le_bytes [bs ! 0, bs ! Suc 0, bs ! 2, bs ! 3]"
    by (auto simp: read_u32_def and_then_Inr_iff)
  from read_bytes_inv [OF assms(1) bs(1)] bs(2) show ?thesis
    by (simp add: list_of_length4 u32_le_roundtrip')
qed

lemma read_u64_inv:
  assumes "wf_reader r" "read_u64 r = Inr (w, r')"
  shows "wf_reader r' \<and> rest r = u64_to_le_bytes w @ rest r'"
proof -
  from assms(2) obtain bs where bs: "read_bytes r 8 = Inr (bs, r')"
    "w = u64_from_le_bytes [bs ! 0, bs ! Suc 0, bs ! 2, bs ! 3, bs ! 4, bs ! 5, bs ! 6, bs ! 7]"
    by (auto simp: read_u64_def and_then_Inr_iff)
  from read_bytes_inv [OF assms(1) bs(1)] bs(2) show ?thesis
    by (simp add: list_of_length8 u64_le_roundtrip')
qed

section \<open>Encoding and decoding\<close>

lemma encode_write_length: "MIN_WRITE_BYTES \<le> length (encode_write w)"
  by (cases w) (auto simp: encode_write_def MIN_WRITE_BYTES_def split: option.split)

lemma encode_writes_length:
  "length ws * MIN_WRITE_BYTES \<le> length (concat (map encode_write ws))"
  by (induction ws) (simp_all add: add_mono encode_write_length)

lemma unat_of_fitting: "n < 2 ^ 32 \<Longrightarrow> unat (word_of_nat n :: u32) = n"
  by (simp add: unat_of_nat)

lemma decode_write_ok:
  assumes "entry_fits w" "wf_reader r" "rest r = encode_write w @ q"
  shows "\<exists>r'. decode_write r = Inr (w, r') \<and> wf_reader r' \<and> rest r' = q"
proof -
  obtain key vo where w: "w = (key, vo)" by (cases w)
  define tail where "tail = (case vo of
      Some v \<Rightarrow> [1] @ u32_to_le_bytes (word_of_nat (length v)) @ v | None \<Rightarrow> [0]) @ q"
  have "rest r = u32_to_le_bytes (word_of_nat (length key)) @ key @ tail"
    using assms(3) w by (simp add: encode_write_def tail_def)
  with assms(2) obtain r1 where r1: "read_u32 r = Inr (word_of_nat (length key), r1)"
    "wf_reader r1" "rest r1 = key @ tail" using read_u32_ok by blast
  then obtain r2 where r2: "read_bytes r1 (length key) = Inr (key, r2)" "wf_reader r2" "rest r2 = tail"
    using read_bytes_ok by blast
  have key: "unat (word_of_nat (length key) :: u32) = length key"
    using assms(1) w by (simp add: entry_fits_def unat_of_fitting)
  show ?thesis
  proof (cases vo)
    case None
    with r2 obtain r3 where "read_u8 r2 = Inr (0, r3)" "wf_reader r3" "rest r3 = q"
      using read_u8_ok [of r2 0 q] by (auto simp: tail_def)
    with r1 r2 key w None show ?thesis by (simp add: decode_write_def)
  next
    case (Some v)
    with r2 obtain r3 where r3: "read_u8 r2 = Inr (1, r3)" "wf_reader r3"
      "rest r3 = u32_to_le_bytes (word_of_nat (length v)) @ v @ q"
      using read_u8_ok [of r2 1] by (auto simp: tail_def)
    then obtain r4 where r4: "read_u32 r3 = Inr (word_of_nat (length v), r4)" "wf_reader r4"
      "rest r4 = v @ q" using read_u32_ok by blast
    then obtain r5 where "read_bytes r4 (length v) = Inr (v, r5)" "wf_reader r5" "rest r5 = q"
      using read_bytes_ok by blast
    moreover have "unat (word_of_nat (length v) :: u32) = length v"
      using assms(1) w Some by (simp add: entry_fits_def unat_of_fitting)
    ultimately show ?thesis using r1 r2 r3 r4 key w Some by (simp add: decode_write_def)
  qed
qed

lemma decode_write_inv:
  assumes wf: "wf_reader r" and dec: "decode_write r = Inr (w, r')"
  shows "wf_reader r' \<and> rest r = encode_write w @ rest r' \<and> entry_fits w"
proof -
  from dec obtain kl r1 key r2 tag r3 where
    s1: "read_u32 r = Inr (kl, r1)" and s2: "read_bytes r1 (unat kl) = Inr (key, r2)"
    and s3: "read_u8 r2 = Inr (tag, r3)" and k: "(if tag = 0 then Inr ((key, None), r3)
       else if tag = 1 then and_then (read_u32 r3) (\<lambda>(value_len, r).
         and_then (read_bytes r (unat value_len)) (\<lambda>(v, r). Inr ((key, Some v), r)))
       else Inl (corrupt_tag tag)) = Inr (w, r')"
    by (auto simp: decode_write_def and_then_Inr_iff)
  note i1 = read_u32_inv [OF wf s1]
  note i2 = read_bytes_inv [OF conjunct1 [OF i1] s2]
  note i3 = read_u8_inv [OF conjunct1 [OF i2] s3]
  have key: "word_of_nat (length key) = kl" "length key < 2 ^ 32"
    using i2 unat_bound [of kl] by auto
  show ?thesis
  proof (cases "tag = 0")
    case True
    with k i1 i2 i3 key show ?thesis by (auto simp: encode_write_def entry_fits_def)
  next
    case False
    with k have "tag = 1" by (auto split: if_splits)
    with False k obtain vl r4 v where s4: "read_u32 r3 = Inr (vl, r4)"
      and s5: "read_bytes r4 (unat vl) = Inr (v, r')" and w: "w = (key, Some v)"
      by (auto simp: and_then_Inr_iff)
    note i4 = read_u32_inv [OF conjunct1 [OF i3] s4]
    note i5 = read_bytes_inv [OF conjunct1 [OF i4] s5]
    have "word_of_nat (length v) = vl" "length v < 2 ^ 32" using i5 unat_bound [of vl] by auto
    with i1 i2 i3 i4 i5 key w \<open>tag = 1\<close> show ?thesis
      by (auto simp: encode_write_def entry_fits_def)
  qed
qed

lemma decode_writes_ok:
  "list_all entry_fits ws \<Longrightarrow> wf_reader r \<Longrightarrow> rest r = concat (map encode_write ws) @ q \<Longrightarrow>
     \<exists>r'. decode_writes (length ws) r = Inr (ws, r') \<and> wf_reader r' \<and> rest r' = q"
proof (induction ws arbitrary: r)
  case (Cons w ws)
  then obtain r1 where "decode_write r = Inr (w, r1)" "wf_reader r1"
    "rest r1 = concat (map encode_write ws) @ q"
    using decode_write_ok [of w r "concat (map encode_write ws) @ q"] by auto
  moreover from this Cons obtain r2 where
    "decode_writes (length ws) r1 = Inr (ws, r2)" "wf_reader r2" "rest r2 = q" by force
  ultimately show ?case by simp
qed simp

lemma decode_writes_inv:
  "wf_reader r \<Longrightarrow> decode_writes n r = Inr (ws, r') \<Longrightarrow>
     wf_reader r' \<and> rest r = concat (map encode_write ws) @ rest r' \<and> length ws = n
       \<and> list_all entry_fits ws"
proof (induction n arbitrary: r ws)
  case (Suc n)
  then obtain w r1 ws' where s: "decode_write r = Inr (w, r1)"
    "decode_writes n r1 = Inr (ws', r')" "ws = w # ws'"
    by (auto simp: and_then_Inr_iff)
  from decode_write_inv [OF Suc.prems(1) s(1)] Suc.IH [OF _ s(2)] s(3) show ?case by simp
qed simp

text \<open>The decoder on a well-formed record followed by any bytes.\<close>

lemma decode_encode_append:
  assumes fits: "batch_fits ws" and len: "length (encode_for_log cts ws @ q) < 2 ^ 64"
  shows "decode_commit (encode_for_log cts ws @ q) =
    (if q = [] then Inr \<lparr>rc_commit_ts = cts, rc_writes = ws\<rparr>
     else Inl (corrupt ''trailing bytes after commit record''))"
proof -
  let ?body = "concat (map encode_write ws)"
  let ?r = "Reader_new (encode_for_log cts ws @ q)"
  have wf: "wf_reader ?r" using len by (simp add: wf_reader_def Reader_new_def)
  have "rest ?r = RECORD_VERSION # u64_to_le_bytes (ts_get cts) @
      u32_to_le_bytes (word_of_nat (length ws)) @ ?body @ q"
    by (simp add: rest_def Reader_new_def encode_for_log_def)
  with wf obtain r1 where r1: "read_u8 ?r = Inr (RECORD_VERSION, r1)" "wf_reader r1"
    "rest r1 = u64_to_le_bytes (ts_get cts) @ u32_to_le_bytes (word_of_nat (length ws)) @ ?body @ q"
    using read_u8_ok by blast
  then obtain r2 where r2: "read_u64 r1 = Inr (ts_get cts, r2)" "wf_reader r2"
    "rest r2 = u32_to_le_bytes (word_of_nat (length ws)) @ ?body @ q" using read_u64_ok by blast
  then obtain r3 where r3: "read_u32 r2 = Inr (word_of_nat (length ws), r3)" "wf_reader r3"
    "rest r3 = ?body @ q" using read_u32_ok by blast
  with fits obtain r4 where r4: "decode_writes (length ws) r3 = Inr (ws, r4)" "rest r4 = q"
    using decode_writes_ok [of ws r3 q] by (auto simp: batch_fits_def)
  have count: "unat (word_of_nat (length ws) :: u32) = length ws"
    using fits by (simp add: batch_fits_def unat_of_fitting)
  have "length ws * MIN_WRITE_BYTES \<le> remaining r3"
    using r3(3) encode_writes_length [of ws] by (simp add: remaining_rest)
  then have "\<not> remaining r3 div MIN_WRITE_BYTES < length ws"
    by (simp add: MIN_WRITE_BYTES_def)
  with r1 r2 r3 r4 count show ?thesis
    by (simp add: decode_commit_def remaining_rest)
qed

text \<open>What the decoder accepts is exactly an encoding.\<close>

lemma decode_commit_inv:
  assumes len: "length bs < 2 ^ 64" and dec: "decode_commit bs = Inr c"
  shows "bs = encode_for_log (rc_commit_ts c) (rc_writes c) \<and> batch_fits (rc_writes c)"
proof -
  have wf: "wf_reader (Reader_new bs)" using len by (simp add: wf_reader_def Reader_new_def)
  from dec obtain r1 ts r2 cnt r3 ws r4 where
    s1: "read_u8 (Reader_new bs) = Inr (RECORD_VERSION, r1)" and s2: "read_u64 r1 = Inr (ts, r2)"
    and s3: "read_u32 r2 = Inr (cnt, r3)" and s4: "decode_writes (unat cnt) r3 = Inr (ws, r4)"
    and e: "remaining r4 = 0" and c: "c = \<lparr>rc_commit_ts = from_raw ts, rc_writes = ws\<rparr>"
    by (auto simp: decode_commit_def and_then_Inr_iff Let_def split: if_splits)
  note i1 = read_u8_inv [OF wf s1]
  note i2 = read_u64_inv [OF conjunct1 [OF i1] s2]
  note i3 = read_u32_inv [OF conjunct1 [OF i2] s3]
  note i4 = decode_writes_inv [OF conjunct1 [OF i3] s4]
  have "rest r4 = []" using e by (simp add: remaining_rest)
  moreover have "word_of_nat (length ws) = cnt" "length ws < 2 ^ 32"
    using i4 unat_bound [of cnt] by auto
  moreover have "rest (Reader_new bs) = bs" by (simp add: rest_def Reader_new_def)
  ultimately show ?thesis
    using i1 i2 i3 i4 c by (simp add: encode_for_log_def batch_fits_def)
qed

text \<open>
  Batches that overflow a 32-bit field of their record: too many writes, or a last value too long. The
  record then begins with that of a shorter batch, whose length is what the cast left.
\<close>

definition overflows :: "write_entry list \<Rightarrow> bool" where
  "overflows ws \<longleftrightarrow> list_all entry_fits ws \<and> 2 ^ 32 \<le> length ws
     \<or> (\<exists>us k v. ws = us @ [(k, Some v)] \<and> batch_fits (us @ [(k, None)]) \<and> 2 ^ 32 \<le> length v)"

lemma u32_of_nat_mod: "(word_of_nat (n mod 2 ^ 32) :: u32) = word_of_nat n"
  by (rule word_unat_eq_iff [THEN iffD2]) (simp add: unat_of_nat)

lemma overflows_record:
  assumes "overflows ws"
  obtains us q where "batch_fits us" "q \<noteq> []" "encode_for_log cts ws = encode_for_log cts us @ q"
  using assms unfolding overflows_def
proof (elim disjE exE conjE)
  assume fit: "list_all entry_fits ws" and big: "2 ^ 32 \<le> length ws"
  let ?m = "length ws mod 2 ^ 32"
  have m: "?m < 2 ^ 32" "?m < length ws" using big by (auto intro: less_le_trans)
  have len: "length (take ?m ws) = ?m" using m(2) by simp
  have "encode_for_log cts ws = encode_for_log cts (take ?m ws) @ concat (map encode_write (drop ?m ws))"
    unfolding encode_for_log_def len u32_of_nat_mod
    by (simp flip: concat_append map_append)
  moreover have "concat (map encode_write (drop ?m ws)) \<noteq> []"
    using m(2) by (cases "drop ?m ws") (auto simp: encode_write_def u32_to_le_bytes_def split: prod.split option.split)
  moreover have "batch_fits (take ?m ws)"
    using fit m by (auto simp: batch_fits_def list_all_iff dest: in_set_takeD)
  ultimately show thesis by (intro that)
next
  fix us k v assume ws: "ws = us @ [(k, Some v)]" and fit: "batch_fits (us @ [(k, None)])" and big: "2 ^ 32 \<le> length v"
  let ?m = "length v mod 2 ^ 32"
  have m: "?m < 2 ^ 32" "?m < length v" using big by (auto intro: less_le_trans)
  have len: "length (take ?m v) = ?m" using m(2) by simp
  have "encode_write (k, Some v) = encode_write (k, Some (take ?m v)) @ drop ?m v"
    by (simp only: encode_write_def Let_def prod.case option.case len u32_of_nat_mod append_assoc append_take_drop_id)
  then have "encode_for_log cts ws = encode_for_log cts (us @ [(k, Some (take ?m v))]) @ drop ?m v"
    by (simp add: encode_for_log_def ws)
  moreover have "batch_fits (us @ [(k, Some (take ?m v))])"
    using fit m by (auto simp: batch_fits_def entry_fits_def)
  ultimately show thesis using m(2) by (intro that) auto
qed

text \<open>Reading such a record back fails: bytes are left over.\<close>

lemma overflows_unreadable:
  assumes "overflows ws" "length (encode_for_log cts ws) < 2 ^ 64"
  shows "decode_commit (encode_for_log cts ws) = Inl (corrupt ''trailing bytes after commit record'')"
proof -
  obtain us q where "batch_fits us" "q \<noteq> []" "encode_for_log cts ws = encode_for_log cts us @ q"
    using assms(1) by (rule overflows_record)
  with decode_encode_append [of us cts q] assms(2) show ?thesis by simp
qed

lemma corrupt_is_fatal [simp]: "is_fatal (corrupt r)" "is_fatal (corrupt_tag t)"
  by (simp_all add: corrupt_def corrupt_tag_def)

lemma read_bytes_fatal: "read_bytes r n = Inl e \<Longrightarrow> is_fatal e"
  by (auto simp: read_bytes_def Let_def split: if_splits)

lemma read_int_fatal:
  "read_u8 r = Inl e \<Longrightarrow> is_fatal e" "read_u32 r = Inl e \<Longrightarrow> is_fatal e" "read_u64 r = Inl e \<Longrightarrow> is_fatal e"
  by (auto simp: read_u8_def read_u32_def read_u64_def and_then_Inl_iff dest: read_bytes_fatal)

lemma decode_write_fatal: "decode_write r = Inl e \<Longrightarrow> is_fatal e"
  by (auto simp: decode_write_def and_then_Inl_iff dest: read_bytes_fatal read_int_fatal
      split: if_splits)

lemma decode_writes_fatal: "decode_writes n r = Inl e \<Longrightarrow> is_fatal e"
  by (induction n arbitrary: r) (auto simp: and_then_Inl_iff dest: decode_write_fatal)

text \<open>Every way a record can fail to decode is a durability error.\<close>

lemma decode_commit_fatal: "decode_commit bs = Inl e \<Longrightarrow> is_fatal e"
  by (auto simp: decode_commit_def Let_def and_then_Inl_iff
      dest: read_int_fatal decode_writes_fatal split: if_splits)

section \<open>Opening and appending\<close>

lemma decode_entries_encodings:
  "\<forall>c\<in>set cs. batch_fits (rc_writes c)
      \<and> length (encode_for_log (rc_commit_ts c) (rc_writes c)) < 2 ^ 64 \<Longrightarrow>
   decode_entries (map Inr (map (\<lambda>c. encode_for_log (rc_commit_ts c) (rc_writes c)) cs)) = Inr cs"
proof (induction cs)
  case (Cons c cs)
  have "decode_commit (encode_for_log (rc_commit_ts c) (rc_writes c)) = Inr c"
    using decode_encode_append [of "rc_writes c" "rc_commit_ts c" "[]"] Cons.prems by simp
  with Cons show ?case by simp
qed simp

lemma CommitLog_open_holds:
  assumes "wal_reopens W" "wal_holds W w recs" "decode_entries (map Inr recs) = Inr cs"
  shows "\<exists>log. CommitLog_open W w = Inr (log, cs) \<and> wal_holds W (wal log) recs"
  using assms by (fastforce simp: CommitLog_open_def wal_reopens_def wal_holds_def)

lemma append_committed_holds:
  assumes "wal_appends W" "wal_holds W (wal log) recs" "append_committed W log rec = (Inr (), log')"
  shows "wal_holds W (wal log') (recs @ [rec])"
  using assms
  by (auto simp: append_committed_def wal_appends_def split: prod.splits sum.splits)

lemma append_committed_error:
  "append_committed W log rec = (Inl e, log') \<Longrightarrow> is_fatal e"
  by (auto simp: append_committed_def split: prod.splits sum.splits)

section \<open>Properties\<close>

abbreviation demo_batch :: "write_entry list" where
  "demo_batch \<equiv> [([97], Some [1, 2]), ([], None), ([98], Some [])]"

lemma demo_batch_fits: "batch_fits demo_batch"
  by (simp add: batch_fits_def entry_fits_def)

lemma demo_record_length: "length (encode_for_log cts demo_batch) = 40"
  by (simp add: encode_for_log_def encode_write_def)

text \<open>A log kept in a list, and one whose disk is full: instances of the hypotheses on \<open>wal-db\<close>.\<close>

abbreviation list_wal :: "bytes list wal_ops" where
  "list_wal \<equiv> \<lparr>wal_open = Inr, wal_iter = (\<lambda>w. Inr (map Inr w)),
     wal_append_and_sync = (\<lambda>w rec. (Inr (word_of_nat (length w)), w @ [rec]))\<rparr>"

abbreviation full_wal :: "bytes list wal_ops" where
  "full_wal \<equiv> \<lparr>wal_open = Inr, wal_iter = (\<lambda>w. Inr (map Inr w)),
     wal_append_and_sync = (\<lambda>w rec. (Inl ''no space left'', w))\<rparr>"

lemma list_wal_holds [simp]:
  "wal_holds list_wal w recs \<longleftrightarrow> w = recs" "wal_holds full_wal w recs \<longleftrightarrow> w = recs"
proof -
  have "map Inr w = map Inr recs \<longleftrightarrow> w = recs"
    by (rule inj_map_eq_map) simp
  then show "wal_holds list_wal w recs \<longleftrightarrow> w = recs" "wal_holds full_wal w recs \<longleftrightarrow> w = recs"
    by (simp_all add: wal_holds_def)
qed

lemma list_wal_ok: "wal_appends list_wal" "wal_reopens list_wal" "wal_reopens full_wal"
  by (simp_all add: wal_appends_def wal_reopens_def)

text \<open>C37. Commit records round-trip: for a batch whose counts fit the format's 32-bit fields,
  decoding the encoded record gives back the commit timestamp and the writes, in order, with
  empty keys, empty values and tombstones kept apart.\<close>

theorem commit_record_roundtrip:
  assumes "batch_fits ws" "length (encode_for_log cts ws) < 2 ^ 64"
  shows "decode_commit (encode_for_log cts ws) = Inr \<lparr>rc_commit_ts = cts, rc_writes = ws\<rparr>"
  using decode_encode_append [OF assms(1), of cts "[]"] assms(2) by simp

theorem commit_record_roundtrip_witness:
  "decode_commit (encode_for_log (Timestamp 42) demo_batch) =
     Inr \<lparr>rc_commit_ts = Timestamp 42, rc_writes = demo_batch\<rparr>"
  by (rule commit_record_roundtrip [OF demo_batch_fits]) (simp only: demo_record_length, simp)

text \<open>C38. The decoder accepts exactly the encodings: a byte string decodes to a commit only if it
  is, byte for byte, the encoding of that commit and the commit fits the format. There is no second
  spelling of a record, and no input makes the decoder read past the bytes present.\<close>

theorem decoder_accepts_only_encodings:
  assumes "length bs < 2 ^ 64"
  shows "decode_commit bs = Inr c \<longleftrightarrow>
    bs = encode_for_log (rc_commit_ts c) (rc_writes c) \<and> batch_fits (rc_writes c)"
  using decode_commit_inv [OF assms, of c] assms
    decode_encode_append [of "rc_writes c" "rc_commit_ts c" "[]"]
  by auto

theorem decoder_accepts_only_encodings_witness:
  "decode_commit (encode_for_log (Timestamp 7) demo_batch) = Inr \<lparr>rc_commit_ts = Timestamp 7, rc_writes = demo_batch\<rparr>"
  using decoder_accepts_only_encodings [of "encode_for_log (Timestamp 7) demo_batch"
      "\<lparr>rc_commit_ts = Timestamp 7, rc_writes = demo_batch\<rparr>"] demo_batch_fits
    demo_record_length [of "Timestamp 7"]
  by simp

text \<open>Torn and padded records are rejected: a record with bytes after its last write and
  every proper prefix of a record decode to an error, and every decoding error is a durability
  error, the fatal kind.\<close>

theorem torn_or_padded_record_rejected:
  assumes "batch_fits ws" "length (encode_for_log cts ws @ q) < 2 ^ 64" "q \<noteq> []"
  shows "decode_commit (encode_for_log cts ws @ q) = Inl (corrupt ''trailing bytes after commit record'')
    \<and> (\<forall>p p'. encode_for_log cts ws = p @ p' \<longrightarrow> p' \<noteq> [] \<longrightarrow> (\<exists>e. decode_commit p = Inl e))
    \<and> (\<forall>bs e. decode_commit bs = Inl e \<longrightarrow> is_fatal e)"
proof -
  have "\<exists>e. decode_commit p = Inl e" if split: "encode_for_log cts ws = p @ p'" "p' \<noteq> []" for p p'
  proof (cases "decode_commit p")
    case (Inr c)
    have len: "length (p @ p') < 2 ^ 64" using assms(2) by (simp add: split(1) [symmetric])
    then have c: "p = encode_for_log (rc_commit_ts c) (rc_writes c)" "batch_fits (rc_writes c)"
      using decode_commit_inv [OF _ Inr] by auto
    then have "isl (decode_commit (p @ p'))"
      using decode_encode_append [OF c(2), of "rc_commit_ts c" p'] len split(2) by simp
    moreover have "decode_commit (p @ p') = Inr \<lparr>rc_commit_ts = cts, rc_writes = ws\<rparr>"
      using decode_encode_append [OF assms(1), of cts "[]"] len by (simp add: split(1))
    ultimately show ?thesis by simp
  qed simp
  then show ?thesis
    using decode_encode_append [OF assms(1,2)] assms(3) decode_commit_fatal by auto
qed

theorem torn_or_padded_record_rejected_witness:
  "decode_commit (encode_for_log (Timestamp 1) demo_batch @ [255]) =
     Inl (corrupt ''trailing bytes after commit record'')"
  using torn_or_padded_record_rejected [OF demo_batch_fits, of "Timestamp 1" "[255]"]
    demo_record_length [of "Timestamp 1"]
  by simp

text \<open>The write count is bounded by the bytes present: a record that decodes holds thirteen
  header bytes and at least five bytes per write, so the writes a record can make the decoder
  allocate are at most a fifth of its length.\<close>

theorem decoded_writes_bounded:
  assumes "length bs < 2 ^ 64" "decode_commit bs = Inr c"
  shows "13 + 5 * length (rc_writes c) \<le> length bs"
proof -
  have "bs = encode_for_log (rc_commit_ts c) (rc_writes c)"
    using decode_commit_inv [OF assms] by simp
  then have "length bs = 13 + length (concat (map encode_write (rc_writes c)))"
    by (simp add: encode_for_log_def)
  with encode_writes_length [of "rc_writes c"] show ?thesis
    by (simp add: MIN_WRITE_BYTES_def)
qed

theorem decoded_writes_bounded_witness:
  "13 + 5 * length demo_batch \<le> length (encode_for_log (Timestamp 1) demo_batch)"
proof -
  have "decode_commit (encode_for_log (Timestamp 1) demo_batch) =
      Inr \<lparr>rc_commit_ts = Timestamp 1, rc_writes = demo_batch\<rparr>"
    using decode_encode_append [OF demo_batch_fits, of "Timestamp 1" "[]"]
      demo_record_length [of "Timestamp 1"] by simp
  from decoded_writes_bounded [OF _ this] demo_record_length [of "Timestamp 1"] show ?thesis by simp
qed

end
