(* ===== verification/Database.thy ===== *)
theory Database
  imports Oracle Memory_Store Commit_Log
begin

text \<open>
  The database handle, the commit coordinator and the handles it gives out
  (\<open>src/src/db.rs\<close>, \<open>src/src/txn.rs\<close>). \<open>Inner\<close> is the shared state behind every clone of a
  \<open>Db\<close>: an operation takes it and returns it updated. \<open>V\<close> is the method table of the store,
  \<open>W\<close> that of the write-ahead log. A \<open>Transaction\<close> or \<open>Snapshot\<close> owns an \<open>ActiveReader\<close>,
  whose construction registers a read timestamp and whose drop unregisters it; the drop at the end
  of \<open>commit\<close> and \<open>rollback\<close> is written out. Iterating a \<open>HashMap\<close> or \<open>HashSet\<close> yields
  its entries in an unspecified order: the argument \<open>ord\<close> is that order.
\<close>

section \<open>Definitions\<close>

subsection \<open>The commit coordinator\<close>

record ('s, 'w) inner =
  in_store :: 's
  in_oracle :: oracle_state
  in_log :: "'w commit_log option"

definition Inner_new :: "'s \<Rightarrow> ('s, 'w) inner" where
  "Inner_new s = \<lparr>in_store = s, in_oracle = Oracle_new, in_log = None\<rparr>"

definition Inner_recovered :: "'s \<Rightarrow> oracle_state \<Rightarrow> 'w commit_log \<Rightarrow> ('s, 'w) inner" where
  "Inner_recovered s orc log = \<lparr>in_store = s, in_oracle = orc, in_log = Some log\<rparr>"

definition Inner_read_ts :: "('s, 'w) inner \<Rightarrow> timestamp" where
  "Inner_read_ts inner = Oracle_read_ts (in_oracle inner)"

definition Inner_begin_reader :: "('s, 'w) inner \<Rightarrow> timestamp \<times> ('s, 'w) inner" where
  "Inner_begin_reader inner =
     (let (ts, orc) = begin_reader (in_oracle inner) in (ts, inner\<lparr>in_oracle := orc\<rparr>))"

definition Inner_end_reader :: "('s, 'w) inner \<Rightarrow> timestamp \<Rightarrow> ('s, 'w) inner" where
  "Inner_end_reader inner ts = inner\<lparr>in_oracle := end_reader (in_oracle inner) ts\<rparr>"

definition Inner_collect_garbage :: "'s version_store \<Rightarrow> ('s, 'w) inner \<Rightarrow> nat \<times> ('s, 'w) inner" where
  "Inner_collect_garbage V inner =
     (let (n, s) = vs_collect_garbage V (in_store inner) (low_watermark (in_oracle inner))
      in (n, inner\<lparr>in_store := s\<rparr>))"

definition commit_writes ::
  "'s version_store \<Rightarrow> 'w wal_ops \<Rightarrow> ('s, 'w) inner \<Rightarrow> timestamp \<Rightarrow> write_entry list \<Rightarrow> bytes list
     \<Rightarrow> timestamp result \<times> ('s, 'w) inner" where
  "commit_writes V W inner rts writes reads =
     (let (cts, orc) = alloc_commit_ts (in_oracle inner);
          rec = map_option (\<lambda>_. encode_for_log cts writes) (in_log inner);
          (outcome, s) = vs_try_commit V (in_store inner) rts cts writes reads;
          inner1 = inner\<lparr>in_store := s, in_oracle := orc\<rparr>
      in case outcome of
           Inr _ \<Rightarrow>
             (case (in_log inner1, rec) of
                (Some log, Some rec) \<Rightarrow>
                  (case append_committed W log rec of
                     (Inl err, log') \<Rightarrow>
                       (Inl err, inner1\<lparr>in_log := Some log', in_oracle := commit_done orc cts\<rparr>)
                   | (Inr _, log') \<Rightarrow>
                       (Inr cts, inner1\<lparr>in_log := Some log', in_oracle := commit_done orc cts\<rparr>))
              | _ \<Rightarrow> (Inr cts, inner1\<lparr>in_oracle := commit_done orc cts\<rparr>))
         | Inl e \<Rightarrow> (Inl e, inner1\<lparr>in_oracle := commit_done orc cts\<rparr>))"

subsection \<open>Readers, transactions and snapshots\<close>

record active_reader =
  active_read_ts :: timestamp

definition ActiveReader_new :: "('s, 'w) inner \<Rightarrow> active_reader \<times> ('s, 'w) inner" where
  "ActiveReader_new inner =
     (let (ts, inner') = Inner_begin_reader inner in (\<lparr>active_read_ts = ts\<rparr>, inner'))"

definition ActiveReader_drop :: "('s, 'w) inner \<Rightarrow> active_reader \<Rightarrow> ('s, 'w) inner" where
  "ActiveReader_drop inner a = Inner_end_reader inner (active_read_ts a)"

record transaction =
  active :: active_reader
  writes :: "write_entry list"
  reads :: "bytes list option"

definition Transaction_new :: "('s, 'w) inner \<Rightarrow> bool \<Rightarrow> transaction \<times> ('s, 'w) inner" where
  "Transaction_new inner serializable =
     (let (a, inner') = ActiveReader_new inner
      in (\<lparr>active = a, writes = [], reads = (if serializable then Some [] else None)\<rparr>, inner'))"

definition Transaction_read_timestamp :: "transaction \<Rightarrow> timestamp" where
  "Transaction_read_timestamp tx = active_read_ts (active tx)"

definition Transaction_get ::
  "'s version_store \<Rightarrow> ('s, 'w) inner \<Rightarrow> transaction \<Rightarrow> bytes \<Rightarrow> bytes option result \<times> transaction" where
  "Transaction_get V inner tx key =
     (case map_of (writes tx) key of
        Some own \<Rightarrow> (Inr own, tx)
      | None \<Rightarrow>
          (case vs_get V (in_store inner) key (active_read_ts (active tx)) of
             Inl e \<Rightarrow> (Inl e, tx)
           | Inr v \<Rightarrow>
               (Inr v,
                case reads tx of
                  Some rs \<Rightarrow> tx\<lparr>reads := Some (List.insert key rs)\<rparr>
                | None \<Rightarrow> tx)))"

definition Transaction_put :: "transaction \<Rightarrow> bytes \<Rightarrow> bytes \<Rightarrow> transaction" where
  "Transaction_put tx key v = tx\<lparr>writes := hm_insert key (Some v) (writes tx)\<rparr>"

definition Transaction_delete :: "transaction \<Rightarrow> bytes \<Rightarrow> transaction" where
  "Transaction_delete tx key = tx\<lparr>writes := hm_insert key None (writes tx)\<rparr>"

text \<open>The order in which a \<open>HashMap\<close> or \<open>HashSet\<close> yields its entries.\<close>

record hash_order =
  order_writes :: "write_entry list \<Rightarrow> write_entry list"
  order_reads :: "bytes list \<Rightarrow> bytes list"

definition commit_reads :: "hash_order \<Rightarrow> transaction \<Rightarrow> bytes list" where
  "commit_reads ord tx =
     (case reads tx of
        Some rs \<Rightarrow> filter (\<lambda>key. map_of (writes tx) key = None) (order_reads ord rs)
      | None \<Rightarrow> [])"

definition Transaction_commit ::
  "hash_order \<Rightarrow> 's version_store \<Rightarrow> 'w wal_ops \<Rightarrow> ('s, 'w) inner \<Rightarrow> transaction
     \<Rightarrow> timestamp result \<times> ('s, 'w) inner" where
  "Transaction_commit ord V W inner tx =
     (let rts = active_read_ts (active tx)
      in if writes tx = [] then (Inr rts, ActiveReader_drop inner (active tx))
         else
           (let rs = commit_reads ord tx;
                batch = order_writes ord (writes tx);
                (res, inner') = commit_writes V W inner rts batch rs
            in (res, ActiveReader_drop inner' (active tx))))"

definition Transaction_rollback :: "('s, 'w) inner \<Rightarrow> transaction \<Rightarrow> ('s, 'w) inner" where
  "Transaction_rollback inner tx = ActiveReader_drop inner (active tx)"

record snapshot =
  snap_active :: active_reader

definition Snapshot_new :: "('s, 'w) inner \<Rightarrow> snapshot \<times> ('s, 'w) inner" where
  "Snapshot_new inner = (let (a, inner') = ActiveReader_new inner in (\<lparr>snap_active = a\<rparr>, inner'))"

definition Snapshot_read_timestamp :: "snapshot \<Rightarrow> timestamp" where
  "Snapshot_read_timestamp sn = active_read_ts (snap_active sn)"

definition Snapshot_get :: "'s version_store \<Rightarrow> ('s, 'w) inner \<Rightarrow> snapshot \<Rightarrow> bytes \<Rightarrow> bytes option result" where
  "Snapshot_get V inner sn key = vs_get V (in_store inner) key (active_read_ts (snap_active sn))"

definition Snapshot_drop :: "('s, 'w) inner \<Rightarrow> snapshot \<Rightarrow> ('s, 'w) inner" where
  "Snapshot_drop inner sn = ActiveReader_drop inner (snap_active sn)"

subsection \<open>The database handle\<close>

text \<open>A \<open>Db\<close> is a shared pointer to the coordinator: every handle sees the one shared state.\<close>

type_synonym ('s, 'w) db = "('s, 'w) inner"

definition Db_with_store :: "'s \<Rightarrow> ('s, 'w) db" where
  "Db_with_store s = Inner_new s"

definition Db_new :: "(memory_store, 'w) db" where
  "Db_new = Db_with_store MemoryStore_new"

definition Db_default :: "(memory_store, 'w) db" where
  "Db_default = Db_new"

text \<open>Replay, in ascending commit-timestamp order, into an empty store.\<close>

fun replay :: "timestamp \<Rightarrow> memory_store \<Rightarrow> RecoveredCommit list \<Rightarrow> timestamp \<times> memory_store" where
  "replay highest s [] = (highest, s)"
| "replay highest s (c # cs) =
     replay (max highest (rc_commit_ts c)) (install_recovered s (rc_commit_ts c) (rc_writes c)) cs"

definition Db_open :: "'w wal_ops \<Rightarrow> 'w \<Rightarrow> (memory_store, 'w) db result" where
  "Db_open W path =
     and_then (CommitLog_open W path) (\<lambda>(log, recovered).
       let sorted_commits = sort_key rc_commit_ts recovered;
           (highest, s) = replay ZERO MemoryStore_new sorted_commits
       in Inr (Inner_recovered s (Oracle_recovered highest) log))"

definition Db_begin :: "('s, 'w) db \<Rightarrow> transaction \<times> ('s, 'w) db" where
  "Db_begin inner = Transaction_new inner False"

definition Db_begin_serializable :: "('s, 'w) db \<Rightarrow> transaction \<times> ('s, 'w) db" where
  "Db_begin_serializable inner = Transaction_new inner True"

definition Db_snapshot :: "('s, 'w) db \<Rightarrow> snapshot \<times> ('s, 'w) db" where
  "Db_snapshot inner = Snapshot_new inner"

text \<open>The temporary snapshot is dropped at the end of the statement.\<close>

definition Db_get :: "'s version_store \<Rightarrow> ('s, 'w) db \<Rightarrow> bytes \<Rightarrow> bytes option result \<times> ('s, 'w) db" where
  "Db_get V inner key =
     (let (sn, inner') = Db_snapshot inner
      in (Snapshot_get V inner' sn key, Snapshot_drop inner' sn))"

text \<open>The retry loops; \<open>None\<close> is a loop that never returns.\<close>

partial_function (option) Db_put ::
  "hash_order \<Rightarrow> 's version_store \<Rightarrow> 'w wal_ops \<Rightarrow> ('s, 'w) db \<Rightarrow> bytes \<Rightarrow> bytes
     \<Rightarrow> (timestamp result \<times> ('s, 'w) db) option" where
  "Db_put ord V W inner key v =
     (let r = Transaction_commit ord V W (snd (Db_begin inner))
                (Transaction_put (fst (Db_begin inner)) key v)
      in if isl (fst r) \<and> is_retryable (projl (fst r))
         then Db_put ord V W (snd r) key v
         else Some r)"

partial_function (option) Db_delete ::
  "hash_order \<Rightarrow> 's version_store \<Rightarrow> 'w wal_ops \<Rightarrow> ('s, 'w) db \<Rightarrow> bytes
     \<Rightarrow> (timestamp result \<times> ('s, 'w) db) option" where
  "Db_delete ord V W inner key =
     (let r = Transaction_commit ord V W (snd (Db_begin inner))
                (Transaction_delete (fst (Db_begin inner)) key)
      in if isl (fst r) \<and> is_retryable (projl (fst r))
         then Db_delete ord V W (snd r) key
         else Some r)"

definition Db_last_committed :: "('s, 'w) db \<Rightarrow> timestamp" where
  "Db_last_committed inner = Inner_read_ts inner"

definition Db_collect_garbage :: "'s version_store \<Rightarrow> ('s, 'w) db \<Rightarrow> nat \<times> ('s, 'w) db" where
  "Db_collect_garbage V inner = Inner_collect_garbage V inner"

text \<open>A clone is another handle on the same shared state.\<close>

definition Db_clone :: "('s, 'w) db \<Rightarrow> ('s, 'w) db" where
  "Db_clone inner = inner"

text \<open>
  What an applied batch is acknowledged with, and the log then: without a log its timestamp, with one
  whatever appending its record gives.
\<close>

definition recorded ::
  "'w wal_ops \<Rightarrow> 'w commit_log option \<Rightarrow> timestamp \<Rightarrow> write_entry list \<Rightarrow> timestamp result \<times> 'w commit_log option" where
  "recorded W log ts ws =
     (case log of
        None \<Rightarrow> (Inr ts, None)
      | Some l \<Rightarrow>
          (case append_committed W l (encode_for_log ts ws) of
             (Inl e, l') \<Rightarrow> (Inl e, Some l')
           | (Inr _, l') \<Rightarrow> (Inr ts, Some l')))"

lemma recorded_fatal: "(Inl e, log') = recorded W log ts ws \<Longrightarrow> is_fatal e"
  by (auto simp: recorded_def dest: append_committed_error split: option.splits prod.splits sum.splits)

lemma recorded_not_retryable: "(r, log') = recorded W log ts ws \<Longrightarrow> \<not> (isl r \<and> is_retryable (projl r))"
  by (cases r; cases "projl r") (auto dest: recorded_fatal)

lemmas inner_defs [txn_eval] =
  Inner_new_def Inner_recovered_def Inner_read_ts_def Inner_begin_reader_def Inner_end_reader_def
  Inner_collect_garbage_def commit_writes_def ActiveReader_new_def ActiveReader_drop_def
  Transaction_new_def Transaction_read_timestamp_def Transaction_get_def Transaction_put_def
  Transaction_delete_def commit_reads_def Transaction_commit_def Transaction_rollback_def
  Snapshot_new_def Snapshot_read_timestamp_def Snapshot_get_def Snapshot_drop_def
  Db_with_store_def Db_new_def Db_default_def Db_begin_def Db_begin_serializable_def Db_snapshot_def Db_get_def
  Db_last_committed_def Db_collect_garbage_def Db_clone_def

text \<open>Iteration visits every entry once.\<close>

definition hash_order_ok :: "hash_order \<Rightarrow> bool" where
  "hash_order_ok ord \<longleftrightarrow> (\<forall>ws. mset (order_writes ord ws) = mset ws)
     \<and> (\<forall>rs. mset (order_reads ord rs) = mset rs)"

text \<open>The commit timestamp the next commit will be given.\<close>

abbreviation next_commit :: "('s, 'w) inner \<Rightarrow> timestamp" where
  "next_commit d \<equiv> from_raw (next_ts (in_oracle d))"

text \<open>
  The invariant of the shared state, over the abstract store and oracle: \<open>F\<close> are the finished
  commit timestamps, \<open>M\<close> the live readers, and no version is newer than the allocator.
\<close>

definition db_ok ::
  "('s \<Rightarrow> bool) \<Rightarrow> ('s \<Rightarrow> bytes \<Rightarrow> version list) \<Rightarrow> ('s, 'w) inner
     \<Rightarrow> timestamp set \<Rightarrow> timestamp multiset \<Rightarrow> bool" where
  "db_ok invar hist d F M \<longleftrightarrow>
     invar (in_store d) \<and> oracle_rep (in_oracle d) (next_commit d) F M
     \<and> (\<forall>k. \<forall>v\<in>set (hist (in_store d) k). commit_ts v < next_commit d)"

text \<open>No commit is in flight: every timestamp handed out has finished.\<close>

abbreviation quiet ::
  "('s \<Rightarrow> bool) \<Rightarrow> ('s \<Rightarrow> bytes \<Rightarrow> version list) \<Rightarrow> ('s, 'w) inner \<Rightarrow> timestamp multiset \<Rightarrow> bool" where
  "quiet invar hist d M \<equiv> db_ok invar hist d {..<next_commit d} M"

text \<open>A transaction's buffers hold each key once.\<close>

definition tx_ok :: "transaction \<Rightarrow> bool" where
  "tx_ok tx \<longleftrightarrow> distinct (map fst (writes tx))"

definition read_set :: "transaction \<Rightarrow> bytes set" where
  "read_set tx = (case reads tx of None \<Rightarrow> {} | Some rs \<Rightarrow> set rs)"

text \<open>The version a commit at \<open>cts\<close> adds to the history of \<open>k\<close>.\<close>

definition own_version :: "timestamp \<Rightarrow> transaction \<Rightarrow> bytes \<Rightarrow> version list" where
  "own_version cts tx k =
     (case map_of (writes tx) k of None \<Rightarrow> [] | Some v \<Rightarrow> [\<lparr>commit_ts = cts, val = v\<rparr>])"

text \<open>The keys whose change after the snapshot is a conflict.\<close>

definition watched :: "transaction \<Rightarrow> bytes set" where
  "watched tx = dom (map_of (writes tx)) \<union> read_set tx"

section \<open>Lemmas on the buffers\<close>

lemma hash_order_set:
  assumes "hash_order_ok ord"
  shows "set (order_writes ord ws) = set ws" "set (order_reads ord rs) = set rs"
  using assms by (metis hash_order_ok_def set_mset_mset)+

lemma order_writes_distinct:
  assumes "hash_order_ok ord" "distinct (map fst ws)"
  shows "distinct (map fst (order_writes ord ws))"
proof -
  have "mset (map fst (order_writes ord ws)) = mset (map fst ws)"
    using assms(1) by (simp add: hash_order_ok_def)
  then show ?thesis using assms(2) mset_eq_imp_distinct_iff by blast
qed

lemma filter_key_distinct:
  "distinct (map fst ws) \<Longrightarrow>
     filter (\<lambda>w. fst w = k) ws = (case map_of ws k of None \<Rightarrow> [] | Some v \<Rightarrow> [(k, v)])"
  by (induction ws) (auto simp: filter_empty_conv image_iff split: option.split)

lemma new_versions_order:
  assumes "hash_order_ok ord" "tx_ok tx"
  shows "new_versions cts (order_writes ord (writes tx)) k = own_version cts tx k"
proof -
  let ?ws = "order_writes ord (writes tx)"
  have "distinct (map fst ?ws)" using assms by (simp add: order_writes_distinct tx_ok_def)
  moreover have "map_of ?ws = map_of (writes tx)"
    using assms by (intro map_of_perm) (simp_all add: hash_order_ok_def tx_ok_def)
  ultimately show ?thesis
    by (simp add: new_versions_def filter_key_distinct own_version_def split: option.split)
qed

lemma touched_watched:
  assumes "hash_order_ok ord"
  shows "touched (order_writes ord (writes tx)) (commit_reads ord tx) = watched tx"
  using hash_order_set [OF assms]
  by (auto simp: touched_def watched_def read_set_def commit_reads_def dom_map_of_conv_image_fst
      map_of_eq_None_iff split: option.split)

lemma own_version_ts: "v \<in> set (own_version cts tx k) \<Longrightarrow> commit_ts v = cts"
  by (auto simp: own_version_def split: option.splits)

lemma tx_ok_new: "tx_ok (fst (Transaction_new d b))"
  by (simp add: Transaction_new_def tx_ok_def split: prod.split)

lemma tx_ok_put: "tx_ok tx \<Longrightarrow> tx_ok (Transaction_put tx k v)"
  by (simp add: tx_ok_def Transaction_put_def)

lemma tx_ok_delete: "tx_ok tx \<Longrightarrow> tx_ok (Transaction_delete tx k)"
  by (simp add: tx_ok_def Transaction_delete_def)

lemma Transaction_get_effect:
  "snd (Transaction_get V d tx k) = tx \<or>
     (\<exists>rs. snd (Transaction_get V d tx k) = tx\<lparr>reads := Some rs\<rparr>)"
  by (auto simp: Transaction_get_def split: option.split sum.split)

lemma tx_ok_get: "tx_ok tx \<Longrightarrow> tx_ok (snd (Transaction_get V d tx k))"
  using Transaction_get_effect [of V d tx k] by (auto simp: tx_ok_def)

lemmas tx_ok_intros [intro] = tx_ok_new tx_ok_put tx_ok_delete tx_ok_get

section \<open>Lemmas on the coordinator\<close>

lemma Transaction_new_eq:
  "Transaction_new d b =
     (\<lparr>active = \<lparr>active_read_ts = Oracle_read_ts (in_oracle d)\<rparr>, writes = [],
       reads = (if b then Some [] else None)\<rparr>,
      d\<lparr>in_oracle := snd (begin_reader (in_oracle d))\<rparr>)"
  by (simp add: inner_defs begin_reader_def Oracle_read_ts_def Let_def)

lemma db_ok_begin:
  assumes "db_ok invar hist d F M"
  shows "db_ok invar hist (snd (Transaction_new d b)) F (add_mset (Oracle_read_ts (in_oracle d)) M)"
  using assms orc.enter_law [of "in_oracle d" "next_commit d" F M]
  by (simp add: db_ok_def Transaction_new_eq) (simp add: begin_reader_def Let_def)

lemma ActiveReader_drop_eq:
  "ActiveReader_drop d a = d\<lparr>in_oracle := end_reader (in_oracle d) (active_read_ts a)\<rparr>"
  by (simp add: inner_defs)

lemma next_ts_end_reader [simp]: "next_ts (end_reader orc t) = next_ts orc"
  by (simp add: end_reader_def Let_def split: option.split)

lemma next_ts_commit_done [simp]: "next_ts (commit_done orc t) = next_ts orc"
  by (simp add: commit_done_def Let_def split: prod.split)

lemma db_ok_drop:
  assumes "db_ok invar hist d F M" "active_read_ts a \<in># M"
  shows "db_ok invar hist (ActiveReader_drop d a) F (M - {#active_read_ts a#})"
  using assms orc.leave_law [of "in_oracle d" "next_commit d" F M "active_read_ts a"]
  by (simp add: db_ok_def ActiveReader_drop_eq)

lemma db_ok_reader: "db_ok invar hist d F M \<Longrightarrow> t \<in># M \<Longrightarrow> t < next_commit d"
  unfolding db_ok_def using orc.reader_le orc.read_less_next by (metis le_less_trans)

lemma quiet_read:
  assumes "quiet invar hist d M" "t < next_commit d"
  shows "t \<le> Oracle_read_ts (in_oracle d)"
  using assms orc.watermark [of "in_oracle d" "next_commit d" "{..<next_commit d}" M t]
  by (auto simp: db_ok_def)

lemma db_ok_log [simp]: "db_ok invar hist (d\<lparr>in_log := l\<rparr>) F M \<longleftrightarrow> db_ok invar hist d F M"
  by (simp add: db_ok_def)

text \<open>The three steps of a commit that touch shared state, one by one.\<close>

abbreviation alloc_step :: "('s, 'w) inner \<Rightarrow> ('s, 'w) inner" where
  "alloc_step d \<equiv> d\<lparr>in_oracle := snd (alloc_commit_ts (in_oracle d))\<rparr>"

abbreviation done_step :: "timestamp \<Rightarrow> ('s, 'w) inner \<Rightarrow> ('s, 'w) inner" where
  "done_step t d \<equiv> d\<lparr>in_oracle := commit_done (in_oracle d) t\<rparr>"

lemma alloc_fst [simp]: "fst (alloc_commit_ts (in_oracle d)) = next_commit d"
  by (simp add: alloc_commit_ts_def)

lemma alloc_next:
  assumes "oracle_room (in_oracle d)"
  shows "t < next_commit (alloc_step d) \<longleftrightarrow> t \<le> next_commit d"
  using assms less_inc_iff [of "next_ts (in_oracle d)" "ts_get t"]
  by (simp add: alloc_commit_ts_def oracle_room_def less_timestamp_def less_eq_timestamp_def)

lemma db_ok_alloc:
  assumes ok: "db_ok invar hist d F M" and room: "oracle_room (in_oracle d)"
  shows "db_ok invar hist (alloc_step d) F M"
  using ok oracle_alloc(2) [of "in_oracle d" "next_commit d" F M] room alloc_next [OF room]
  by (auto simp: db_ok_def alloc_commit_ts_def intro: less_imp_le)

lemma db_ok_done:
  "db_ok invar hist d F M \<Longrightarrow> t < next_commit d \<Longrightarrow> t \<notin> F \<Longrightarrow>
     db_ok invar hist (done_step t d) (insert t F) M"
  unfolding db_ok_def by (auto intro: oracle_commit_done)

lemma db_ok_fresh: "db_ok invar hist d F M \<Longrightarrow> next_commit d \<notin> F"
  unfolding db_ok_def using orc.finished_below by blast

text \<open>The allocated timestamp is finished at the end: the set of finished timestamps grows by it.\<close>

lemma db_ok_alloc_done:
  assumes ok: "db_ok invar hist d' F M" and "in_oracle d' = snd (alloc_commit_ts (in_oracle d))"
    "oracle_room (in_oracle d)" "next_commit d \<notin> F"
  shows "db_ok invar hist (done_step (next_commit d) d') (insert (next_commit d) F) M"
  using assms alloc_next [of d "next_commit d"] by (intro db_ok_done) auto

lemma quiet_insert:
  assumes "oracle_room (in_oracle d)" "next_ts (in_oracle d') = next_ts (in_oracle d) + 1"
  shows "insert (next_commit d) {..<next_commit d} = {..<next_commit d'}"
  using alloc_next [OF assms(1)] assms(2) by (auto simp: alloc_commit_ts_def le_less)

context store_contract
begin

lemma db_ok_apply:
  assumes ok: "db_ok invar hist d F M" and "rts < cts" "cts < next_commit d"
  shows "db_ok invar hist (d\<lparr>in_store := snd (vs_try_commit V (in_store d) rts cts ws rs)\<rparr>) F M"
proof -
  have "invar (in_store d)" using ok by (simp add: db_ok_def)
  then show ?thesis using assms(2)
  proof (cases rule: try_commit_cases [where ws = ws and rs = rs])
    case (applied s')
    with ok assms(3) show ?thesis by (auto simp: db_ok_def new_versions_ts)
  qed (use ok in \<open>simp add: db_ok_def\<close>)
qed

lemma db_ok_collect:
  assumes ok: "db_ok invar hist d F M"
  shows "db_ok invar hist (snd (Inner_collect_garbage V d)) F M"
proof -
  let ?s = "snd (vs_collect_garbage V (in_store d) (low_watermark (in_oracle d)))"
  have "invar ?s" "set (hist ?s k) \<subseteq> set (hist (in_store d) k)" for k
    using ok gc_law [of "in_store d" "low_watermark (in_oracle d)"]
    by (auto simp: db_ok_def pruned_def)
  moreover have "snd (Inner_collect_garbage V d) = d\<lparr>in_store := ?s\<rparr>"
    by (simp add: Inner_collect_garbage_def split: prod.split)
  ultimately show ?thesis using ok by (auto simp: db_ok_def)
qed

text \<open>
  The whole of \<open>commit_writes\<close>: a conflict, an applied and logged batch, or an applied batch whose
  record could not be appended. In all three the timestamp has been handed back.
\<close>

lemma commit_writes_cases:
  assumes ok: "db_ok invar hist d F M" and room: "oracle_room (in_oracle d)"
    and rts: "rts < next_commit d"
  obtains (conflict) k d' where "k \<in> touched ws rs" "changed_since (hist (in_store d) k) rts"
      "commit_writes V W d rts ws rs = (Inl (conflict (length k)), d')"
      "in_store d' = in_store d" "in_log d' = in_log d"
      "db_ok invar hist d' (insert (next_commit d) F) M"
      "next_ts (in_oracle d') = next_ts (in_oracle d) + 1"
  | (applied) d' where "\<forall>k\<in>touched ws rs. \<not> changed_since (hist (in_store d) k) rts"
      "commit_writes V W d rts ws rs = (Inr (next_commit d), d')"
      "\<And>k. hist (in_store d') k = hist (in_store d) k @ new_versions (next_commit d) ws k"
      "in_log d = None \<and> in_log d' = None \<or>
        (\<exists>log log'. in_log d = Some log \<and> in_log d' = Some log' \<and>
          append_committed W log (encode_for_log (next_commit d) ws) = (Inr (), log'))"
      "db_ok invar hist d' (insert (next_commit d) F) M"
      "next_ts (in_oracle d') = next_ts (in_oracle d) + 1"
  | (unlogged) e log log' d' where "\<forall>k\<in>touched ws rs. \<not> changed_since (hist (in_store d) k) rts"
      "commit_writes V W d rts ws rs = (Inl e, d')"
      "\<And>k. hist (in_store d') k = hist (in_store d) k @ new_versions (next_commit d) ws k"
      "in_log d = Some log" "in_log d' = Some log'"
      "append_committed W log (encode_for_log (next_commit d) ws) = (Inl e, log')"
      "db_ok invar hist d' (insert (next_commit d) F) M"
      "next_ts (in_oracle d') = next_ts (in_oracle d) + 1"
proof -
  let ?n = "next_commit d" and ?rec = "encode_for_log (next_commit d) ws"
  let ?s = "snd (vs_try_commit V (in_store d) rts ?n ws rs)"
  let ?d1 = "alloc_step d\<lparr>in_store := ?s\<rparr>"
  let ?d2 = "done_step ?n ?d1"
  have inv: "invar (in_store d)" using ok by (simp add: db_ok_def)
  have "db_ok invar hist ?d1 F M"
    using db_ok_apply [OF db_ok_alloc [OF ok room] rts, of ws rs] alloc_next [OF room, of ?n]
    by simp
  then have fin: "db_ok invar hist ?d2 (insert ?n F) M"
    using db_ok_alloc_done [OF _ _ room db_ok_fresh [OF ok], of invar hist ?d1 M] by simp
  have nxt: "next_ts (in_oracle ?d2) = next_ts (in_oracle d) + 1"
    by (simp add: alloc_commit_ts_def)
  have alloc: "alloc_commit_ts (in_oracle d) = (?n, snd (alloc_commit_ts (in_oracle d)))"
    by (simp add: alloc_commit_ts_def)
  show thesis
    using inv rts
  proof (cases rule: try_commit_cases [where ws = ws and rs = rs])
    case (conflict k)
    then have "commit_writes V W d rts ws rs = (Inl (Txn_Error.conflict (length k)), ?d2)"
      by (simp add: commit_writes_def alloc_commit_ts_def)
    then show thesis using conflict fin nxt by (intro that(1) [of k ?d2]) simp_all
  next
    case (applied s')
    show thesis
    proof (cases "in_log d")
      case None
      with applied have "commit_writes V W d rts ws rs = (Inr ?n, ?d2)"
        by (simp add: commit_writes_def alloc_commit_ts_def)
      then show thesis using applied fin nxt None by (intro that(2) [of ?d2]) simp_all
    next
      case (Some log)
      obtain r log' where app: "append_committed W log ?rec = (r, log')" by force
      let ?d3 = "?d2\<lparr>in_log := Some log'\<rparr>"
      have fin3: "db_ok invar hist ?d3 (insert ?n F) M" using fin by (simp only: db_ok_log)
      show thesis
      proof (cases r)
        case (Inl e)
        with applied Some app have "commit_writes V W d rts ws rs = (Inl e, ?d3)"
          by (simp add: commit_writes_def alloc_commit_ts_def)
        then show thesis
          using applied fin3 nxt Some app Inl by (intro that(3) [of e ?d3 log log']) simp_all
      next
        case (Inr u)
        with applied Some app have "commit_writes V W d rts ws rs = (Inr ?n, ?d3)"
          by (simp add: commit_writes_def alloc_commit_ts_def)
        then show thesis
          using applied fin3 nxt Some app Inr by (intro that(2) [of ?d3]) simp_all
      qed
    qed
  qed
qed

text \<open>The same for \<open>Transaction::commit\<close>, in terms of the buffered writes and tracked reads.\<close>

lemma commit_cases:
  assumes ok: "db_ok invar hist d F M" and room: "oracle_room (in_oracle d)"
    and ord: "hash_order_ok ord" and tx: "tx_ok tx" "writes tx \<noteq> []"
    and live: "Transaction_read_timestamp tx \<in># M"
  obtains (conflict) k d' where "k \<in> watched tx"
      "changed_since (hist (in_store d) k) (Transaction_read_timestamp tx)"
      "Transaction_commit ord V W d tx = (Inl (conflict (length k)), d')"
      "in_store d' = in_store d" "in_log d' = in_log d"
      "db_ok invar hist d' (insert (next_commit d) F) (M - {#Transaction_read_timestamp tx#})"
      "next_ts (in_oracle d') = next_ts (in_oracle d) + 1"
  | (applied) d' where
      "\<forall>k\<in>watched tx. \<not> changed_since (hist (in_store d) k) (Transaction_read_timestamp tx)"
      "Transaction_commit ord V W d tx = (Inr (next_commit d), d')"
      "\<And>k. hist (in_store d') k = hist (in_store d) k @ own_version (next_commit d) tx k"
      "in_log d = None \<and> in_log d' = None \<or>
        (\<exists>log log'. in_log d = Some log \<and> in_log d' = Some log' \<and>
          append_committed W log (encode_for_log (next_commit d) (order_writes ord (writes tx)))
            = (Inr (), log'))"
      "db_ok invar hist d' (insert (next_commit d) F) (M - {#Transaction_read_timestamp tx#})"
      "next_ts (in_oracle d') = next_ts (in_oracle d) + 1"
  | (unlogged) e log log' d' where
      "\<forall>k\<in>watched tx. \<not> changed_since (hist (in_store d) k) (Transaction_read_timestamp tx)"
      "Transaction_commit ord V W d tx = (Inl e, d')"
      "\<And>k. hist (in_store d') k = hist (in_store d) k @ own_version (next_commit d) tx k"
      "in_log d = Some log" "in_log d' = Some log'"
      "append_committed W log (encode_for_log (next_commit d) (order_writes ord (writes tx)))
        = (Inl e, log')"
      "db_ok invar hist d' (insert (next_commit d) F) (M - {#Transaction_read_timestamp tx#})"
      "next_ts (in_oracle d') = next_ts (in_oracle d) + 1"
proof -
  let ?rts = "Transaction_read_timestamp tx"
  let ?ws = "order_writes ord (writes tx)" and ?rs = "commit_reads ord tx"
  have com: "Transaction_commit ord V W d tx = (r, ActiveReader_drop d' (active tx))"
    if "commit_writes V W d ?rts ?ws ?rs = (r, d')" for r d'
    using that tx(2) by (simp add: Transaction_commit_def Transaction_read_timestamp_def)
  have dr: "db_ok invar hist (ActiveReader_drop d' (active tx)) G (M - {#?rts#})"
    if "db_ok invar hist d' G M" for d' G
    using db_ok_drop [OF that] live by (simp add: Transaction_read_timestamp_def)
  note touched = touched_watched [OF ord, of tx]
  note vers = new_versions_order [OF ord tx(1)]
  have "?rts < next_commit d" using ok live by (rule db_ok_reader)
  with ok room show thesis
  proof (cases rule: commit_writes_cases [where ws = ?ws and rs = ?rs and W = W])
    case (conflict k d')
    show thesis
      by (rule that(1) [of k "ActiveReader_drop d' (active tx)"])
        (use conflict com [OF conflict(3)] dr [OF conflict(6)] touched in
          \<open>simp_all add: ActiveReader_drop_eq\<close>)
  next
    case (applied d')
    show thesis
      by (rule that(2) [of "ActiveReader_drop d' (active tx)"])
        (use applied com [OF applied(2)] dr [OF applied(5)] touched vers in
          \<open>simp_all add: ActiveReader_drop_eq\<close>)
  next
    case (unlogged e log log' d')
    show thesis
      by (rule that(3) [of e "ActiveReader_drop d' (active tx)" log log'])
        (use unlogged com [OF unlogged(2)] dr [OF unlogged(7)] touched vers in
          \<open>simp_all add: ActiveReader_drop_eq\<close>)
  qed
qed

text \<open>With no commit in flight a new snapshot is the newest state, and nothing is newer than it.\<close>

lemma quiet_no_change:
  assumes "quiet invar hist d M"
  shows "\<not> changed_since (hist (in_store d) k) (Oracle_read_ts (in_oracle d))"
  using assms quiet_read [OF assms] by (auto simp: changed_since_def db_ok_def not_less)

lemma quiet_get:
  assumes "quiet invar hist d M"
  shows "fst (Db_get V d k) = Inr (latest (hist (in_store d) k))"
proof -
  have "invar (in_store d)" using assms by (simp add: db_ok_def)
  then have "fst (Db_get V d k) = Inr (read_at (hist (in_store d) k) (Oracle_read_ts (in_oracle d)))"
    by (simp add: inner_defs begin_reader_def Oracle_read_ts_def Let_def get_law)
  then show ?thesis using quiet_no_change [OF assms] by (simp add: unchanged_read_latest)
qed

text \<open>A batch of buffered writes begun and committed with no commit in flight is not rejected.\<close>

lemma quiet_commit_recorded:
  assumes q: "quiet invar hist d M" and room: "oracle_room (in_oracle d)" and ord: "hash_order_ok ord"
    and tx: "tx_ok tx" "writes tx \<noteq> []" "Transaction_read_timestamp tx = Oracle_read_ts (in_oracle d)"
  obtains r d' where "Transaction_commit ord V W (snd (Db_begin d)) tx = (r, d')"
    "(r, in_log d') = recorded W (in_log d) (next_commit d) (order_writes ord (writes tx))"
    "quiet invar hist d' M"
    "\<And>k. hist (in_store d') k = hist (in_store d) k @ own_version (next_commit d) tx k"
proof -
  let ?b = "snd (Db_begin d)"
  have b: "in_store ?b = in_store d" "in_log ?b = in_log d" "next_ts (in_oracle ?b) = next_ts (in_oracle d)"
    by (simp_all add: Db_begin_def Transaction_new_eq begin_reader_def Let_def)
  have ok: "db_ok invar hist ?b {..<next_commit d} (add_mset (Oracle_read_ts (in_oracle d)) M)"
    using db_ok_begin [OF q] by (simp add: Db_begin_def)
  have room': "oracle_room (in_oracle ?b)" using room b by (simp add: oracle_room_def)
  have live: "Transaction_read_timestamp tx \<in># add_mset (Oracle_read_ts (in_oracle d)) M"
    using tx(3) by simp
  from ok room' ord tx(1,2) live show thesis
  proof (cases rule: commit_cases [where W = W])
    case (conflict k d')
    then show thesis using quiet_no_change [OF q] b tx(3) by simp
  next
    case (applied d')
    have "quiet invar hist d' M"
      using applied(5,6) quiet_insert [OF room, of d'] b tx(3) by simp
    then show thesis
      using applied b by (intro that [of "Inr (next_commit d)" d']) (auto simp: recorded_def)
  next
    case (unlogged e l l' d')
    have "quiet invar hist d' M"
      using unlogged(7,8) quiet_insert [OF room, of d'] b tx(3) by simp
    then show thesis using unlogged b by (intro that [of "Inl e" d']) (auto simp: recorded_def)
  qed
qed

lemma quiet_commit:
  assumes q: "quiet invar hist d M" and room: "oracle_room (in_oracle d)"
    and ord: "hash_order_ok ord" and log: "in_log d = None"
    and tx: "tx_ok tx" "writes tx \<noteq> []" "Transaction_read_timestamp tx = Oracle_read_ts (in_oracle d)"
  obtains d' where "Transaction_commit ord V W (snd (Db_begin d)) tx = (Inr (next_commit d), d')"
    "quiet invar hist d' M"
    "\<And>k. hist (in_store d') k = hist (in_store d) k @ own_version (next_commit d) tx k"
    "in_log d' = None"
  using q room ord tx
proof (rule quiet_commit_recorded [where W = W])
  fix r d'
  assume "Transaction_commit ord V W (snd (Db_begin d)) tx = (r, d')"
    "(r, in_log d') = recorded W (in_log d) (next_commit d) (order_writes ord (writes tx))" "quiet invar hist d' M"
    "\<And>k. hist (in_store d') k = hist (in_store d) k @ own_version (next_commit d) tx k"
  with log show thesis by (intro that [of d']) (simp_all add: recorded_def)
qed

text \<open>The one-shot writes, with no commit in flight: they return at once.\<close>

lemma order_writes_single: "hash_order_ok ord \<Longrightarrow> order_writes ord [w] = [w]"
  unfolding hash_order_ok_def by (metis mset_single_iff)

lemma quiet_put_recorded:
  assumes q: "quiet invar hist d M" and "oracle_room (in_oracle d)" "hash_order_ok ord"
  shows "\<exists>r d'. Db_put ord V W d k v = Some (r, d') \<and> quiet invar hist d' M
    \<and> (r, in_log d') = recorded W (in_log d) (next_commit d) [(k, Some v)]
    \<and> fst (Db_get V d' k) = Inr (Some v)
    \<and> (\<forall>k'. k' \<noteq> k \<longrightarrow> fst (Db_get V d' k') = fst (Db_get V d k'))"
proof -
  let ?tx = "Transaction_put (fst (Db_begin d)) k v"
  have tx: "tx_ok ?tx" "writes ?tx = [(k, Some v)]"
    "Transaction_read_timestamp ?tx = Oracle_read_ts (in_oracle d)"
    by (auto simp: Db_begin_def Transaction_new_eq Transaction_put_def Transaction_read_timestamp_def tx_ok_def)
  obtain r d' where d': "Transaction_commit ord V W (snd (Db_begin d)) ?tx = (r, d')"
    "(r, in_log d') = recorded W (in_log d) (next_commit d) (order_writes ord (writes ?tx))" "quiet invar hist d' M"
    "\<And>k. hist (in_store d') k = hist (in_store d) k @ own_version (next_commit d) ?tx k"
    using quiet_commit_recorded [OF assms tx(1) _ tx(3)] tx(2) by (metis list.distinct(1))
  have "Db_put ord V W d k v = Some (r, d')"
    using recorded_not_retryable [OF d'(2)] by (subst Db_put.simps) (auto simp: d'(1) Let_def)
  then show ?thesis
    using d'(2,3) order_writes_single [OF assms(3)]
    by (intro exI [of _ r] exI [of _ d'])
      (simp add: quiet_get [OF d'(3)] quiet_get [OF q] d'(4) own_version_def tx(2) latest_def)
qed

lemma quiet_delete_recorded:
  assumes q: "quiet invar hist d M" and "oracle_room (in_oracle d)" "hash_order_ok ord"
  shows "\<exists>r d'. Db_delete ord V W d k = Some (r, d') \<and> quiet invar hist d' M
    \<and> (r, in_log d') = recorded W (in_log d) (next_commit d) [(k, None)]
    \<and> fst (Db_get V d' k) = Inr None
    \<and> (\<forall>k'. k' \<noteq> k \<longrightarrow> fst (Db_get V d' k') = fst (Db_get V d k'))"
proof -
  let ?tx = "Transaction_delete (fst (Db_begin d)) k"
  have tx: "tx_ok ?tx" "writes ?tx = [(k, None)]"
    "Transaction_read_timestamp ?tx = Oracle_read_ts (in_oracle d)"
    by (auto simp: Db_begin_def Transaction_new_eq Transaction_delete_def Transaction_read_timestamp_def tx_ok_def)
  obtain r d' where d': "Transaction_commit ord V W (snd (Db_begin d)) ?tx = (r, d')"
    "(r, in_log d') = recorded W (in_log d) (next_commit d) (order_writes ord (writes ?tx))" "quiet invar hist d' M"
    "\<And>k. hist (in_store d') k = hist (in_store d) k @ own_version (next_commit d) ?tx k"
    using quiet_commit_recorded [OF assms tx(1) _ tx(3)] tx(2) by (metis list.distinct(1))
  have "Db_delete ord V W d k = Some (r, d')"
    using recorded_not_retryable [OF d'(2)] by (subst Db_delete.simps) (auto simp: d'(1) Let_def)
  then show ?thesis
    using d'(2,3) order_writes_single [OF assms(3)]
    by (intro exI [of _ r] exI [of _ d'])
      (simp add: quiet_get [OF d'(3)] quiet_get [OF q] d'(4) own_version_def tx(2) latest_def)
qed

lemma quiet_delete:
  assumes "quiet invar hist d M" "oracle_room (in_oracle d)" "hash_order_ok ord" "in_log d = None"
  shows "\<exists>d'. Db_delete ord V W d k = Some (Inr (next_commit d), d') \<and> quiet invar hist d' M
    \<and> in_log d' = None
    \<and> fst (Db_get V d' k) = Inr None
    \<and> (\<forall>k'. k' \<noteq> k \<longrightarrow> fst (Db_get V d' k') = fst (Db_get V d k'))"
  using quiet_delete_recorded [OF assms(1-3), of W k] assms(4) by (auto simp: recorded_def)

text \<open>A put whose record cannot be appended reports the error, and has been applied all the same.\<close>

lemma quiet_put_unlogged:
  assumes "quiet invar hist d M" "oracle_room (in_oracle d)" "hash_order_ok ord" "in_log d = Some log"
    "append_committed W log (encode_for_log (next_commit d) [(k, Some v)]) = (Inl e, log')"
  shows "\<exists>d'. Db_put ord V W d k v = Some (Inl e, d') \<and> quiet invar hist d' M
    \<and> in_log d' = Some log' \<and> fst (Db_get V d' k) = Inr (Some v)"
  using quiet_put_recorded [OF assms(1-3), of W k v] assms(4,5) by (auto simp: recorded_def)

end

section \<open>Properties\<close>

text \<open>An order of iteration, and an empty in-memory database.\<close>

abbreviation demo_order :: hash_order where
  "demo_order \<equiv> \<lparr>order_writes = rev, order_reads = (\<lambda>rs. rs)\<rparr>"

lemma demo_order_ok: "hash_order_ok demo_order"
  by (simp add: hash_order_ok_def)

lemma store_hist_new: "store_hist MemoryStore_new k = []"
proof -
  have "shard_of MemoryStore_new k < length (shards MemoryStore_new)"
    using wf_MemoryStore_new by (rule shard_of_less)
  then show ?thesis
    by (simp add: store_hist_def chain_of_def MemoryStore_new_def with_shards_def Let_def)
qed

lemma less_one_ZERO: "{..<from_raw 1} = {ZERO}"
  by (auto simp: less_timestamp_def simp flip: ts_get_eq_iff)

lemma quiet_Db_new: "quiet wf_store store_hist Db_new {#}"
proof -
  have "{..<from_raw 1} = {ZERO}" by (rule less_one_ZERO)
  then show ?thesis
    using Oracle_new_rep wf_MemoryStore_new
    by (simp add: db_ok_def Db_new_def Db_with_store_def Inner_new_def store_hist_new)
      (simp add: Oracle_new_def)
qed

lemma room_Db_new: "oracle_room (in_oracle Db_new)" "in_log Db_new = None" "next_commit Db_new = Timestamp 1"
  by (simp_all add: Db_new_def Db_with_store_def Inner_new_def Oracle_new_def oracle_room_def from_raw_def)

text \<open>C18. What a commit does, in memory or durable. A transaction that buffered nothing commits at its
  snapshot timestamp and changes nothing. Any other is rejected with the retryable conflict, naming a
  written or tracked key that changed after the snapshot, and the store and the log are untouched; or
  no such key changed, every buffered write is appended to its key's history at the fresh timestamp, and
  the result is that timestamp, or the fatal error of a log that could not append the record, although
  the writes stay. In every case the timestamp taken counts as finished and the reader is unregistered,
  so neither a rejected nor a failed commit holds back the watermark.\<close>

theorem commit_outcome:
  assumes "db_ok wf_store store_hist d F M" "oracle_room (in_oracle d)" "hash_order_ok ord"
    "tx_ok tx" "Transaction_read_timestamp tx \<in># M" "Transaction_commit ord MemoryStore W d tx = (r, d')"
  shows "db_ok wf_store store_hist d' (if writes tx = [] then F else insert (next_commit d) F)
      (M - {#Transaction_read_timestamp tx#})
    \<and> (if writes tx = []
       then r = Inr (Transaction_read_timestamp tx) \<and> in_store d' = in_store d \<and> in_log d' = in_log d
         \<and> next_commit d' = next_commit d
       else if \<exists>k\<in>watched tx. changed_since (store_hist (in_store d) k) (Transaction_read_timestamp tx)
       then in_store d' = in_store d \<and> in_log d' = in_log d \<and> (\<exists>k\<in>watched tx. r = Inl (conflict (length k))
         \<and> changed_since (store_hist (in_store d) k) (Transaction_read_timestamp tx))
       else (\<forall>k. store_hist (in_store d') k = store_hist (in_store d) k @ own_version (next_commit d) tx k)
         \<and> (case in_log d of
              None \<Rightarrow> r = Inr (next_commit d) \<and> in_log d' = None
            | Some log \<Rightarrow>
                (case append_committed W log (encode_for_log (next_commit d) (order_writes ord (writes tx))) of
                   (Inl e, log') \<Rightarrow> r = Inl e \<and> is_fatal e \<and> in_log d' = Some log'
                 | (Inr u, log') \<Rightarrow> r = Inr (next_commit d) \<and> in_log d' = Some log')))"
proof (cases "writes tx = []")
  case True
  then show ?thesis
    using assms(5,6) db_ok_drop [OF assms(1), of "active tx"]
    by (auto simp: Transaction_commit_def Transaction_read_timestamp_def ActiveReader_drop_eq)
next
  case False
  from assms(1-4) False assms(5) show ?thesis
  proof (cases rule: mem.commit_cases [where W = W])
    case (conflict k e)
    then show ?thesis using assms(6) False by auto
  next
    case (applied e)
    then show ?thesis using assms(6) False by auto
  next
    case (unlogged e l l' f)
    then show ?thesis using assms(6) False append_committed_error [OF unlogged(6)] by auto
  qed
qed

abbreviation demo_db :: "(memory_store, bytes list) inner" where
  "demo_db \<equiv> Db_new"

abbreviation demo_tx :: transaction where
  "demo_tx \<equiv> Transaction_put (Transaction_delete (fst (Db_begin demo_db)) [1]) [2] [7]"

lemma demo_begin:
  "fst (Db_begin demo_db) = \<lparr>active = \<lparr>active_read_ts = ZERO\<rparr>, writes = [], reads = None\<rparr>"
  "in_store (snd (Db_begin demo_db)) = MemoryStore_new" "in_log (snd (Db_begin demo_db)) = None"
  "next_ts (in_oracle (snd (Db_begin demo_db))) = 1" "oracle_room (in_oracle (snd (Db_begin demo_db)))"
  by (simp_all add: Db_begin_def Transaction_new_eq Db_new_def Db_with_store_def Inner_new_def
      begin_reader_def Oracle_new_def Oracle_read_ts_def oracle_room_def flip: ts_get_eq_iff)

lemma demo_begin_ok: "db_ok wf_store store_hist (snd (Db_begin demo_db)) {..<Timestamp 1} {#ZERO#}"
proof -
  have "quiet wf_store store_hist demo_db {#}" by (rule quiet_Db_new)
  from db_ok_begin [OF this, of False] demo_begin(1) show ?thesis
    by (simp add: Db_begin_def Transaction_new_eq room_Db_new)
qed

lemma demo_tx_facts:
  "tx_ok demo_tx" "writes demo_tx = [([1], None), ([2], Some [7])]"
  "Transaction_read_timestamp demo_tx = ZERO"
  by (simp_all add: demo_begin Transaction_put_def Transaction_delete_def Transaction_read_timestamp_def
      tx_ok_def)

theorem commit_outcome_witness:
  "fst (Transaction_commit demo_order MemoryStore list_wal (snd (Db_begin demo_db)) demo_tx) = Inr (Timestamp 1)"
  using commit_outcome [OF demo_begin_ok demo_begin(5) demo_order_ok demo_tx_facts(1) _ prod.collapse [symmetric],
      of list_wal] demo_tx_facts(2,3)
  by (simp add: demo_begin store_hist_new from_raw_def split: if_splits)

text \<open>Buffered operations: a put for \<open>Some\<close>, a delete for \<open>None\<close>.\<close>

definition buffer :: "transaction \<Rightarrow> write_entry \<Rightarrow> transaction" where
  "buffer tx w = (case snd w of Some v \<Rightarrow> Transaction_put tx (fst w) v | None \<Rightarrow> Transaction_delete tx (fst w))"

lemma buffer_writes [simp]:
  "map_of (writes (buffer tx w)) = (map_of (writes tx))(fst w \<mapsto> snd w)"
  "active (buffer tx w) = active tx" "reads (buffer tx w) = reads tx"
  by (auto simp: buffer_def Transaction_put_def Transaction_delete_def split: option.split)

lemma buffer_all:
  "map_of (writes (foldl buffer tx ops)) = map_of (writes tx) ++ map_of (rev ops)"
  "active (foldl buffer tx ops) = active tx" "reads (foldl buffer tx ops) = reads tx"
  by (induction ops arbitrary: tx) (auto simp: map_add_upd_left map_add_def fun_eq_iff split: option.split)

text \<open>C19. A transaction reads its own writes: after any sequence of puts and deletes on a fresh
  transaction, a get of a key the sequence touched returns what its last operation on that key left
  (absent after a delete) without going to the store, and a get of any other key returns the
  snapshot's value and, in a serializable transaction, tracks the key.\<close>

theorem read_your_own_writes:
  assumes "wf_store (in_store d)" "writes tx = []"
  shows "Transaction_get MemoryStore d (foldl buffer tx ops) k =
    (case map_of (rev ops) k of
       Some own \<Rightarrow> (Inr own, foldl buffer tx ops)
     | None \<Rightarrow>
         (Inr (read_at (store_hist (in_store d) k) (Transaction_read_timestamp tx)),
          (foldl buffer tx ops)\<lparr>reads := map_option (List.insert k) (reads tx)\<rparr>))"
proof -
  have "t\<lparr>reads := None\<rparr> = t" if "reads t = None" for t :: transaction using that by simp
  then show ?thesis
    using assms mem.get_law [OF assms(1)]
    by (auto simp: Transaction_get_def buffer_all Transaction_read_timestamp_def split: option.split)
qed

theorem read_your_own_writes_witness:
  "fst (Transaction_get MemoryStore (snd (Db_begin demo_db))
     (foldl buffer (fst (Db_begin demo_db)) [([1], Some [2]), ([3], Some [4]), ([1], None)]) [1]) = Inr None"
  using read_your_own_writes [of "snd (Db_begin demo_db)" "fst (Db_begin demo_db)"
      "[([1], Some [2]), ([3], Some [4]), ([1], None)]" "[1]"]
  by (simp add: demo_begin wf_MemoryStore_new)

text \<open>A transaction that buffered nothing, serializable or not, commits trivially at its
  snapshot timestamp, and a rollback discards everything: in both cases the store, the log and the
  timestamp allocator are as before, and only the transaction's own reader is unregistered.\<close>

theorem empty_commit_and_rollback:
  assumes "db_ok wf_store store_hist d F M" "Transaction_read_timestamp tx \<in># M"
  shows "db_ok wf_store store_hist (Transaction_rollback d tx) F (M - {#Transaction_read_timestamp tx#})
    \<and> in_store (Transaction_rollback d tx) = in_store d \<and> in_log (Transaction_rollback d tx) = in_log d
    \<and> next_commit (Transaction_rollback d tx) = next_commit d
    \<and> (writes tx = [] \<longrightarrow> Transaction_commit ord MemoryStore W d tx =
         (Inr (Transaction_read_timestamp tx), Transaction_rollback d tx))"
  using db_ok_drop [OF assms(1), of "active tx"] assms(2)
  by (simp add: Transaction_rollback_def Transaction_commit_def Transaction_read_timestamp_def
      ActiveReader_drop_eq)

theorem empty_commit_and_rollback_witness:
  "fst (Transaction_commit demo_order MemoryStore list_wal (snd (Db_begin demo_db)) (fst (Db_begin demo_db)))
     = Inr ZERO"
  using empty_commit_and_rollback [OF demo_begin_ok, of "fst (Db_begin demo_db)" demo_order list_wal]
  by (simp add: demo_begin Transaction_read_timestamp_def)

text \<open>C20. With no commit in flight the one-shot writes return on their first attempt, on a database in
  memory and on a durable one: with the next timestamp, or with the fatal error of a log that could not
  append the record. Either way a get then returns the value put, or nothing after a delete, every other
  key reads as before, and again no commit is in flight.\<close>

theorem one_shot_writes:
  assumes "quiet wf_store store_hist d M" "oracle_room (in_oracle d)" "hash_order_ok ord"
  shows "(\<exists>r d'. Db_put ord MemoryStore W d k v = Some (r, d')
      \<and> (r, in_log d') = recorded W (in_log d) (next_commit d) [(k, Some v)]
      \<and> quiet wf_store store_hist d' M \<and> fst (Db_get MemoryStore d' k) = Inr (Some v)
      \<and> (\<forall>k'. k' \<noteq> k \<longrightarrow> fst (Db_get MemoryStore d' k') = fst (Db_get MemoryStore d k')))
    \<and> (\<exists>r d'. Db_delete ord MemoryStore W d k = Some (r, d')
      \<and> (r, in_log d') = recorded W (in_log d) (next_commit d) [(k, None)]
      \<and> quiet wf_store store_hist d' M \<and> fst (Db_get MemoryStore d' k) = Inr None
      \<and> (\<forall>k'. k' \<noteq> k \<longrightarrow> fst (Db_get MemoryStore d' k') = fst (Db_get MemoryStore d k')))"
  using mem.quiet_put_recorded [OF assms, of W k v] mem.quiet_delete_recorded [OF assms, of W k] by blast

theorem one_shot_writes_witness:
  "\<exists>d'. Db_put demo_order MemoryStore list_wal demo_db [1] [2] = Some (Inr (Timestamp 1), d')
     \<and> fst (Db_get MemoryStore d' [1]) = Inr (Some [2])"
  using one_shot_writes [OF quiet_Db_new room_Db_new(1) demo_order_ok, of list_wal "[1]" "[2]"]
  by (auto simp: room_Db_new(2,3) recorded_def)

text \<open>The retry loops hide every conflict: whenever a one-shot write returns, its result is a
  timestamp or an error that is not retryable.\<close>

theorem one_shot_writes_hide_conflicts:
  "Db_put ord V W d k v = Some (r, d') \<or> Db_delete ord V W d k = Some (r, d') \<Longrightarrow>
     r = Inl e \<Longrightarrow> \<not> is_retryable e"
proof -
  have put: "\<not> (isl (fst x) \<and> is_retryable (projl (fst x)))" if "Db_put ord V W d k v = Some x" for d x
    by (rule Db_put.raw_induct [where P = "\<lambda>_ _ _ _ _ _ x. \<not> (isl (fst x) \<and> is_retryable (projl (fst x)))",
        OF _ that]) (unfold Let_def, metis option.inject)
  have del: "\<not> (isl (fst x) \<and> is_retryable (projl (fst x)))" if "Db_delete ord V W d k = Some x" for d x
    by (rule Db_delete.raw_induct [where P = "\<lambda>_ _ _ _ _ x. \<not> (isl (fst x) \<and> is_retryable (projl (fst x)))",
        OF _ that]) (unfold Let_def, metis option.inject)
  assume "Db_put ord V W d k v = Some (r, d') \<or> Db_delete ord V W d k = Some (r, d')" "r = Inl e"
  with put [of d "(r, d')"] del [of d "(r, d')"] show "\<not> is_retryable e" by auto
qed

text \<open>A durable database over an empty log.\<close>

abbreviation demo_durable :: "(memory_store, bytes list) inner" where
  "demo_durable \<equiv> demo_db\<lparr>in_log := Some \<lparr>wal = []\<rparr>\<rparr>"

lemma demo_durable_quiet: "quiet wf_store store_hist demo_durable {#}" "oracle_room (in_oracle demo_durable)"
  using quiet_Db_new room_Db_new(1) by simp_all

lemma demo_durable_fails:
  "append_committed full_wal \<lparr>wal = []\<rparr> rec = (Inl (durability ''no space left''), \<lparr>wal = []\<rparr>)"
  by (simp add: append_committed_def)

theorem one_shot_writes_hide_conflicts_witness:
  "\<not> is_retryable (durability ''no space left'')"
proof -
  obtain d' where "Db_put demo_order MemoryStore full_wal demo_durable [1] [2]
      = Some (Inl (durability ''no space left''), d')"
    using mem.quiet_put_unlogged [OF demo_durable_quiet demo_order_ok _ demo_durable_fails, of "[1]" "[2]"]
    by auto
  then show ?thesis using one_shot_writes_hide_conflicts by blast
qed

end
