(* ===== verification/Concurrency.thy ===== *)
theory Concurrency
  imports Database
begin

text \<open>
  Interleavings of transactions, snapshots and garbage collection over one shared database
  (\<open>src/src/db.rs\<close>, \<open>src/src/txn.rs\<close>, and the locking of \<open>src/src/store.rs\<close>). A process
  is one handle or one call in progress: a live transaction, a live snapshot, a commit between two of
  its shared-state accesses, or a collection between two shards. Each step of the relation is one
  critical section or atomic access of the code; between steps any other process may run. A client
  thread that holds several handles is several processes.

  The commit steps are the statements of \<open>Inner::commit_writes\<close> and the drop that ends
  \<open>Transaction::commit\<close>: allocate, validate and apply under the shard locks, append to the log,
  report the timestamp, unregister the reader.

  Two fields record what happened and are read by no step: the commits in the order the store
  applied them, and the values each process got from the store.
\<close>

section \<open>Definitions\<close>

text \<open>The collector visits the store in slices, one lock at a time.\<close>

record 's gc_slices =
  gc_len :: "'s \<Rightarrow> nat"
  gc_step :: "'s \<Rightarrow> timestamp \<Rightarrow> nat \<Rightarrow> nat \<times> 's"

definition MemoryStore_slices :: "memory_store gc_slices" where
  "MemoryStore_slices = \<lparr>gc_len = (\<lambda>s. length (shards s)), gc_step = gc_slice\<rparr>"

datatype process =
    Idle
  | Open transaction
  | Viewing snapshot
  | Allocated transaction timestamp "write_entry list" "bytes list"
  | Validated transaction timestamp "write_entry list" "unit result"
  | Decided transaction timestamp "timestamp result"
  | Released transaction "timestamp result"
  | Returned "timestamp result"
  | Collecting timestamp nat nat

type_synonym observation = "bytes \<times> bytes option"

record commit =
  c_tx :: transaction
  c_ts :: timestamp
  c_seen :: "observation list"

record ('s, 'w) system =
  shared :: "('s, 'w) inner"
  procs :: "nat \<Rightarrow> process"
  history :: "commit list"
  seen :: "nat \<Rightarrow> observation list"

definition start :: "('s, 'w) inner \<Rightarrow> ('s, 'w) system" where
  "start d = \<lparr>shared = d, procs = (\<lambda>_. Idle), history = [], seen = (\<lambda>_. [])\<rparr>"

text \<open>The store reads a get adds to what its process has seen; own writes are not store reads.\<close>

definition store_reads :: "transaction \<Rightarrow> bytes \<Rightarrow> bytes option result \<Rightarrow> observation list" where
  "store_reads tx k r =
     (case map_of (writes tx) k of
        Some own \<Rightarrow> []
      | None \<Rightarrow> (case r of Inr v \<Rightarrow> [(k, v)] | Inl e \<Rightarrow> []))"

definition snapshot_reads :: "bytes \<Rightarrow> bytes option result \<Rightarrow> observation list" where
  "snapshot_reads k r = (case r of Inr v \<Rightarrow> [(k, v)] | Inl e \<Rightarrow> [])"

text \<open>The append of an applied commit: nothing without a log.\<close>

definition log_commit ::
  "'w wal_ops \<Rightarrow> ('s, 'w) inner \<Rightarrow> timestamp \<Rightarrow> write_entry list \<Rightarrow> timestamp result \<times> ('s, 'w) inner" where
  "log_commit W d cts batch =
     (case in_log d of
        None \<Rightarrow> (Inr cts, d)
      | Some log \<Rightarrow>
          (case append_committed W log (encode_for_log cts batch) of
             (Inl err, log') \<Rightarrow> (Inl err, d\<lparr>in_log := Some log'\<rparr>)
           | (Inr _, log') \<Rightarrow> (Inr cts, d\<lparr>in_log := Some log'\<rparr>)))"

inductive step ::
  "'s version_store \<Rightarrow> 'w wal_ops \<Rightarrow> 's gc_slices \<Rightarrow> ('s, 'w) system \<Rightarrow> ('s, 'w) system \<Rightarrow> bool"
  for V :: "'s version_store" and W :: "'w wal_ops" and G :: "'s gc_slices" where
  begin_tx:
    "procs S p = Idle \<Longrightarrow> Transaction_new (shared S) ser = (tx, d) \<Longrightarrow>
     step V W G S (S\<lparr>shared := d, procs := (procs S)(p := Open tx), seen := (seen S)(p := [])\<rparr>)"
| get_tx:
    "procs S p = Open tx \<Longrightarrow> Transaction_get V (shared S) tx k = (r, tx') \<Longrightarrow>
     step V W G S (S\<lparr>procs := (procs S)(p := Open tx'),
       seen := (seen S)(p := seen S p @ store_reads tx k r)\<rparr>)"
| put_tx:
    "procs S p = Open tx \<Longrightarrow>
     step V W G S (S\<lparr>procs := (procs S)(p := Open (Transaction_put tx k v))\<rparr>)"
| delete_tx:
    "procs S p = Open tx \<Longrightarrow>
     step V W G S (S\<lparr>procs := (procs S)(p := Open (Transaction_delete tx k))\<rparr>)"
| rollback_tx:
    "procs S p = Open tx \<Longrightarrow>
     step V W G S (S\<lparr>shared := Transaction_rollback (shared S) tx, procs := (procs S)(p := Idle)\<rparr>)"
| commit_empty:
    "procs S p = Open tx \<Longrightarrow> writes tx = [] \<Longrightarrow>
     step V W G S (S\<lparr>shared := ActiveReader_drop (shared S) (active tx),
       procs := (procs S)(p := Returned (Inr (Transaction_read_timestamp tx)))\<rparr>)"
| commit_alloc:
    "procs S p = Open tx \<Longrightarrow> writes tx \<noteq> [] \<Longrightarrow> hash_order_ok ord \<Longrightarrow>
     alloc_commit_ts (in_oracle (shared S)) = (cts, orc) \<Longrightarrow>
     step V W G S (S\<lparr>shared := (shared S)\<lparr>in_oracle := orc\<rparr>,
       procs := (procs S)(p := Allocated tx cts (order_writes ord (writes tx)) (commit_reads ord tx))\<rparr>)"
| commit_apply:
    "procs S p = Allocated tx cts batch rs \<Longrightarrow>
     vs_try_commit V (in_store (shared S)) (Transaction_read_timestamp tx) cts batch rs = (r, s) \<Longrightarrow>
     step V W G S (S\<lparr>shared := (shared S)\<lparr>in_store := s\<rparr>,
       procs := (procs S)(p := Validated tx cts batch r),
       history := history S @ (if isl r then [] else [\<lparr>c_tx = tx, c_ts = cts, c_seen = seen S p\<rparr>])\<rparr>)"
| commit_conflict:
    "procs S p = Validated tx cts batch (Inl e) \<Longrightarrow>
     step V W G S (S\<lparr>procs := (procs S)(p := Decided tx cts (Inl e))\<rparr>)"
| commit_log_step:
    "procs S p = Validated tx cts batch (Inr u) \<Longrightarrow> log_commit W (shared S) cts batch = (r, d) \<Longrightarrow>
     step V W G S (S\<lparr>shared := d, procs := (procs S)(p := Decided tx cts r)\<rparr>)"
| commit_done_step:
    "procs S p = Decided tx cts r \<Longrightarrow>
     step V W G S (S\<lparr>shared := done_step cts (shared S), procs := (procs S)(p := Released tx r)\<rparr>)"
| commit_drop:
    "procs S p = Released tx r \<Longrightarrow>
     step V W G S (S\<lparr>shared := ActiveReader_drop (shared S) (active tx), procs := (procs S)(p := Returned r)\<rparr>)"
| open_snapshot:
    "procs S p = Idle \<Longrightarrow> Snapshot_new (shared S) = (sn, d) \<Longrightarrow>
     step V W G S (S\<lparr>shared := d, procs := (procs S)(p := Viewing sn), seen := (seen S)(p := [])\<rparr>)"
| get_snapshot:
    "procs S p = Viewing sn \<Longrightarrow> Snapshot_get V (shared S) sn k = r \<Longrightarrow>
     step V W G S (S\<lparr>seen := (seen S)(p := seen S p @ snapshot_reads k r)\<rparr>)"
| drop_snapshot:
    "procs S p = Viewing sn \<Longrightarrow>
     step V W G S (S\<lparr>shared := Snapshot_drop (shared S) sn, procs := (procs S)(p := Idle)\<rparr>)"
| gc_begin:
    "procs S p = Idle \<Longrightarrow>
     step V W G S (S\<lparr>procs := (procs S)(p := Collecting (low_watermark (in_oracle (shared S))) 0 0)\<rparr>)"
| gc_next:
    "procs S p = Collecting low i n \<Longrightarrow> i < gc_len G (in_store (shared S)) \<Longrightarrow>
     gc_step G (in_store (shared S)) low i = (m, s) \<Longrightarrow>
     step V W G S (S\<lparr>shared := (shared S)\<lparr>in_store := s\<rparr>,
       procs := (procs S)(p := Collecting low (Suc i) (n + m))\<rparr>)"
| gc_end:
    "procs S p = Collecting low i n \<Longrightarrow> \<not> i < gc_len G (in_store (shared S)) \<Longrightarrow>
     step V W G S (S\<lparr>procs := (procs S)(p := Idle)\<rparr>)"

text \<open>The states a database reaches while the 64-bit timestamp counter has room.\<close>

inductive reachable ::
  "'s version_store \<Rightarrow> 'w wal_ops \<Rightarrow> 's gc_slices \<Rightarrow> ('s, 'w) inner \<Rightarrow> ('s, 'w) system \<Rightarrow> bool"
  for V W G d where
  reach_start: "reachable V W G d (start d)"
| reach_step: "reachable V W G d S \<Longrightarrow> oracle_room (in_oracle (shared S)) \<Longrightarrow> step V W G S S' \<Longrightarrow>
    reachable V W G d S'"

subsection \<open>What the processes hold\<close>

text \<open>The registered read timestamp of a process, and the commit timestamp it has not reported.\<close>

fun reader_of :: "process \<Rightarrow> timestamp option" where
  "reader_of (Open tx) = Some (Transaction_read_timestamp tx)"
| "reader_of (Viewing sn) = Some (Snapshot_read_timestamp sn)"
| "reader_of (Allocated tx cts batch rs) = Some (Transaction_read_timestamp tx)"
| "reader_of (Validated tx cts batch r) = Some (Transaction_read_timestamp tx)"
| "reader_of (Decided tx cts r) = Some (Transaction_read_timestamp tx)"
| "reader_of (Released tx r) = Some (Transaction_read_timestamp tx)"
| "reader_of Idle = None"
| "reader_of (Returned r) = None"
| "reader_of (Collecting low i n) = None"

fun held :: "process \<Rightarrow> timestamp option" where
  "held (Allocated tx cts batch rs) = Some cts"
| "held (Validated tx cts batch r) = Some cts"
| "held (Decided tx cts r) = Some cts"
| "held _ = None"

definition live_readers :: "(nat \<Rightarrow> process) \<Rightarrow> timestamp multiset" where
  "live_readers P = image_mset (\<lambda>p. the (reader_of (P p))) (mset_set {p. reader_of (P p) \<noteq> None})"

definition held_set :: "(nat \<Rightarrow> process) \<Rightarrow> timestamp set" where
  "held_set P = {t. \<exists>p. held (P p) = Some t}"

subsection \<open>The history without garbage collection\<close>

definition full_hist :: "(bytes \<Rightarrow> version list) \<Rightarrow> commit list \<Rightarrow> bytes \<Rightarrow> version list" where
  "full_hist h0 A k = h0 k @ concat (map (\<lambda>c. own_version (c_ts c) (c_tx c) k) A)"

text \<open>A key-value state, and the effect of one commit on it.\<close>

type_synonym kv = "bytes \<Rightarrow> bytes option"

definition apply_commit :: "kv \<Rightarrow> commit \<Rightarrow> kv" where
  "apply_commit m c = (\<lambda>k. case map_of (writes (c_tx c)) k of Some v \<Rightarrow> v | None \<Rightarrow> m k)"

text \<open>The state one gets by running a list of commits one after the other.\<close>

definition serial_state :: "(bytes \<Rightarrow> version list) \<Rightarrow> commit list \<Rightarrow> kv" where
  "serial_state h0 A = foldl apply_commit (\<lambda>k. latest (h0 k)) A"

subsection \<open>The invariant\<close>

text \<open>Two histories agree at \<open>r\<close>: no read and no validation at \<open>r\<close> tells them apart.\<close>

definition agree :: "version list \<Rightarrow> version list \<Rightarrow> timestamp \<Rightarrow> bool" where
  "agree h h' r \<longleftrightarrow> read_at h r = read_at h' r \<and> changed_since h r = changed_since h' r"

fun tx_of :: "process \<Rightarrow> transaction option" where
  "tx_of (Open tx) = Some tx"
| "tx_of (Allocated tx cts batch rs) = Some tx"
| "tx_of _ = None"

definition tx_inv :: "transaction \<Rightarrow> observation list \<Rightarrow> bool" where
  "tx_inv tx obs \<longleftrightarrow> tx_ok tx \<and> (\<forall>rs. reads tx = Some rs \<longrightarrow> fst ` set obs \<subseteq> set rs)"

definition batch_of :: "transaction \<Rightarrow> write_entry list \<Rightarrow> bytes list \<Rightarrow> bool" where
  "batch_of tx batch rs \<longleftrightarrow> touched batch rs = watched tx
     \<and> (\<forall>cts k. new_versions cts batch k = own_version cts tx k)"

text \<open>What holds of a process given the full history, the live readers and the watermark.\<close>

definition proc_inv ::
  "(bytes \<Rightarrow> version list) \<Rightarrow> timestamp multiset \<Rightarrow> timestamp \<Rightarrow> process \<Rightarrow> observation list \<Rightarrow> bool" where
  "proc_inv fh M rd P obs \<longleftrightarrow>
     (\<forall>r k v. reader_of P = Some r \<longrightarrow> (k, v) \<in> set obs \<longrightarrow> v = read_at (fh k) r)
     \<and> (\<forall>tx. tx_of P = Some tx \<longrightarrow> tx_inv tx obs)
     \<and> (\<forall>tx cts batch rs. P = Allocated tx cts batch rs \<longrightarrow> batch_of tx batch rs)
     \<and> (\<forall>low i n. P = Collecting low i n \<longrightarrow> low \<le> rd \<and> (\<forall>r\<in>#M. low \<le> r))"

text \<open>
  The commits, in the order applied: a commit's snapshot includes every earlier commit to a key it
  wrote or tracked; a serializable commit, and any commit of a key it also wrote, saw the state all
  earlier commits left.
\<close>

definition commit_inv :: "(bytes \<Rightarrow> version list) \<Rightarrow> commit list \<Rightarrow> commit \<Rightarrow> bool" where
  "commit_inv h0 A c \<longleftrightarrow>
     (\<forall>b\<in>set A. \<forall>k\<in>dom (map_of (writes (c_tx b))) \<inter> watched (c_tx c).
        c_ts b \<le> Transaction_read_timestamp (c_tx c))
     \<and> (\<forall>(k, v)\<in>set (c_seen c). reads (c_tx c) \<noteq> None \<or> k \<in> dom (map_of (writes (c_tx c))) \<longrightarrow>
          k \<in> watched (c_tx c) \<and> v = serial_state h0 A k)
     \<and> Transaction_read_timestamp (c_tx c) < c_ts c"

definition history_inv :: "(bytes \<Rightarrow> version list) \<Rightarrow> commit list \<Rightarrow> bool" where
  "history_inv h0 A \<longleftrightarrow> (\<forall>i<length A. commit_inv h0 (take i A) (A ! i))"

definition inv_at ::
  "('s \<Rightarrow> bool) \<Rightarrow> ('s \<Rightarrow> bytes \<Rightarrow> version list) \<Rightarrow> (bytes \<Rightarrow> version list) \<Rightarrow> ('s, 'w) inner
     \<Rightarrow> (nat \<Rightarrow> process) \<Rightarrow> commit list \<Rightarrow> (nat \<Rightarrow> observation list) \<Rightarrow> bool" where
  "inv_at invar hist h0 d P A obs \<longleftrightarrow>
     db_ok invar hist d ({..<next_commit d} - held_set P) (live_readers P)
     \<and> finite {p. reader_of (P p) \<noteq> None}
     \<and> (\<forall>p q t. held (P p) = Some t \<longrightarrow> held (P q) = Some t \<longrightarrow> p = q)
     \<and> (\<forall>t\<in>held_set P. t < next_commit d)
     \<and> (\<forall>k r. r \<in># live_readers P \<or> Oracle_read_ts (in_oracle d) \<le> r \<longrightarrow>
          agree (hist (in_store d) k) (full_hist h0 A k) r)
     \<and> (\<forall>p. proc_inv (full_hist h0 A) (live_readers P) (Oracle_read_ts (in_oracle d)) (P p) (obs p))
     \<and> history_inv h0 A"

definition sys_inv ::
  "('s \<Rightarrow> bool) \<Rightarrow> ('s \<Rightarrow> bytes \<Rightarrow> version list) \<Rightarrow> (bytes \<Rightarrow> version list) \<Rightarrow> ('s, 'w) system \<Rightarrow> bool" where
  "sys_inv invar hist h0 S \<longleftrightarrow> inv_at invar hist h0 (shared S) (procs S) (history S) (seen S)"

text \<open>Commit timestamps are never given twice.\<close>

definition fresh_inv :: "('s, 'w) system \<Rightarrow> bool" where
  "fresh_inv S \<longleftrightarrow> distinct (map c_ts (history S))
     \<and> (\<forall>c\<in>set (history S). c_ts c < next_commit (shared S))
     \<and> (\<forall>p tx cts batch rs. procs S p = Allocated tx cts batch rs \<longrightarrow> cts \<notin> c_ts ` set (history S))"

section \<open>Lemmas\<close>

subsection \<open>Live readers and held timestamps\<close>

lemma live_readers_keep:
  assumes "reader_of x = reader_of (P p)"
  shows "live_readers (P(p := x)) = live_readers P"
proof -
  have "reader_of ((P(p := x)) q) = reader_of (P q)" for q using assms by simp
  then show ?thesis by (simp only: live_readers_def)
qed

lemma live_readers_add:
  assumes "finite {q. reader_of (P q) \<noteq> None}" "reader_of (P p) = None" "reader_of x = Some r"
  shows "live_readers (P(p := x)) = add_mset r (live_readers P)"
proof -
  have "{q. reader_of ((P(p := x)) q) \<noteq> None} = insert p {q. reader_of (P q) \<noteq> None}"
    using assms by auto
  moreover have "image_mset (\<lambda>q. the (reader_of ((P(p := x)) q))) (mset_set {q. reader_of (P q) \<noteq> None})
      = image_mset (\<lambda>q. the (reader_of (P q))) (mset_set {q. reader_of (P q) \<noteq> None})"
    using assms(1,2) by (intro image_mset_cong) auto
  ultimately show ?thesis using assms by (simp add: live_readers_def)
qed

lemma live_readers_remove:
  assumes "finite {q. reader_of (P q) \<noteq> None}" "reader_of (P p) = Some r" "reader_of x = None"
  shows "live_readers (P(p := x)) = live_readers P - {#r#}"
proof -
  have "{q. reader_of ((P(p := x)) q) \<noteq> None} \<subseteq> {q. reader_of (P q) \<noteq> None}"
    using assms by auto
  then have "finite {q. reader_of ((P(p := x)) q) \<noteq> None}"
    using assms(1) by (rule finite_subset)
  then have "live_readers ((P(p := x))(p := P p)) = add_mset r (live_readers (P(p := x)))"
    using assms(2,3) by (intro live_readers_add) simp_all
  then show ?thesis by (simp only: fun_upd_upd fun_upd_triv add_mset_remove_trivial)
qed

lemma live_readers_in:
  "finite {q. reader_of (P q) \<noteq> None} \<Longrightarrow> reader_of (P p) = Some r \<Longrightarrow> r \<in># live_readers P"
  by (force simp: live_readers_def)

lemma live_readersD: "r \<in># live_readers P \<Longrightarrow> \<exists>p. reader_of (P p) = Some r"
  by (cases "finite {q. reader_of (P q) \<noteq> None}") (auto simp: live_readers_def)

lemma finite_readers_upd:
  "finite {q. reader_of (P q) \<noteq> None} \<Longrightarrow> finite {q. reader_of ((P(p := x)) q) \<noteq> None}"
  by (rule finite_subset [of _ "insert p {q. reader_of (P q) \<noteq> None}"]) auto

lemma held_set_upd: "held_set (P(p := x)) = {t. held x = Some t} \<union> {t. \<exists>q. q \<noteq> p \<and> held (P q) = Some t}"
  by (auto simp: held_set_def split: if_splits)

lemma held_set_split: "held_set P = {t. held (P p) = Some t} \<union> {t. \<exists>q. q \<noteq> p \<and> held (P q) = Some t}"
  using held_set_upd [of P p "P p"] by simp

lemma held_set_keep: "held x = held (P p) \<Longrightarrow> held_set (P(p := x)) = held_set P"
  by (simp add: held_set_upd held_set_split [of P p])

lemma held_set_add: "held (P p) = None \<Longrightarrow> held x = Some t \<Longrightarrow> held_set (P(p := x)) = insert t (held_set P)"
  by (simp add: held_set_upd held_set_split [of P p])

lemma held_set_remove:
  assumes "held (P p) = Some t" "held x = None" "\<And>q. held (P q) = Some t \<Longrightarrow> q = p"
  shows "held_set (P(p := x)) = held_set P - {t}"
proof -
  have "\<not> (\<exists>q. q \<noteq> p \<and> held (P q) = Some t)" using assms(3) by blast
  then show ?thesis
    unfolding held_set_upd held_set_split [of P p] assms(1,2) by auto
qed

subsection \<open>The full history\<close>

lemma full_hist_snoc [simp]:
  "full_hist h0 (A @ [c]) k = full_hist h0 A k @ own_version (c_ts c) (c_tx c) k"
  by (simp add: full_hist_def)

lemma full_hist_Nil [simp]: "full_hist h0 [] k = h0 k"
  by (simp add: full_hist_def)

lemma agree_refl [simp]: "agree h h r"
  by (simp add: agree_def)

lemma agree_append: "agree h h' r \<Longrightarrow> agree (h @ x) (h' @ x) r"
  by (simp add: agree_def read_at_def visible_version_append)

lemma agree_pruned: "agree h h' r \<Longrightarrow> pruned low h h'' \<Longrightarrow> low \<le> r \<Longrightarrow> agree h'' h' r"
  by (simp add: agree_def pruned_def)

lemma serial_state_snoc [simp]: "serial_state h0 (A @ [c]) = apply_commit (serial_state h0 A) c"
  by (simp add: serial_state_def)

text \<open>The newest values of the full history are the state the commits leave when run in order.\<close>

lemma latest_full_hist: "latest (full_hist h0 A k) = serial_state h0 A k"
proof (induction A rule: rev_induct)
  case Nil
  then show ?case by (simp add: serial_state_def)
next
  case (snoc c A)
  then show ?case
    by (cases "map_of (writes (c_tx c)) k") (simp_all add: apply_commit_def own_version_def latest_def)
qed

text \<open>
  A snapshot of the full history is the state left by exactly the commits at or below it, each of
  them applied whole.
\<close>

lemma read_at_full_hist:
  assumes "\<And>k v. v \<in> set (h0 k) \<Longrightarrow> commit_ts v \<le> r"
  shows "read_at (full_hist h0 A k) r = serial_state h0 (filter (\<lambda>c. c_ts c \<le> r) A) k"
proof (induction A rule: rev_induct)
  case Nil
  have "\<not> changed_since (h0 k) r" using assms by (auto simp: changed_since_def not_less)
  then show ?case by (simp add: serial_state_def unchanged_read_latest)
next
  case (snoc c A)
  have "\<exists>v\<in>set (own_version (c_ts c) (c_tx c) k). commit_ts v \<le> r"
    if "c_ts c \<le> r" "own_version (c_ts c) (c_tx c) k \<noteq> []"
    using that own_version_ts by (metis last_in_set)
  then show ?case
    using snoc.IH
    by (cases "map_of (writes (c_tx c)) k"; cases "c_ts c \<le> r")
      (simp_all add: apply_commit_def own_version_def read_at_def visible_version_append visible_version_def)
qed

lemma changed_since_full_hist:
  "b \<in> set A \<Longrightarrow> k \<in> dom (map_of (writes (c_tx b))) \<Longrightarrow> r < c_ts b \<Longrightarrow> changed_since (full_hist h0 A k) r"
  by (force simp: full_hist_def changed_since_def own_version_def)

text \<open>A commit above \<open>r\<close> leaves what \<open>r\<close> reads alone.\<close>

lemma read_at_snoc_newer:
  "r < c_ts c \<Longrightarrow> read_at (full_hist h0 (A @ [c]) k) r = read_at (full_hist h0 A k) r"
  by (simp add: read_at_append_newer own_version_ts)

lemma serial_state_filter:
  "(\<And>c. c \<in> set A \<Longrightarrow> k \<in> dom (map_of (writes (c_tx c))) \<Longrightarrow> P c) \<Longrightarrow>
     serial_state h0 (filter P A) k = serial_state h0 A k"
  by (induction A rule: rev_induct) (auto simp: apply_commit_def split: option.split)

lemma history_inv_snoc: "history_inv h0 (A @ [c]) \<longleftrightarrow> history_inv h0 A \<and> commit_inv h0 A c"
  by (auto simp: history_inv_def nth_append less_Suc_eq)

text \<open>The commits at or below a timestamp are a history of their own.\<close>

lemma history_inv_filter:
  "history_inv h0 A \<Longrightarrow> history_inv h0 (filter (\<lambda>c. c_ts c \<le> t) A)"
proof (induction A rule: rev_induct)
  case (snoc c A)
  then have c: "commit_inv h0 A c" and IH: "history_inv h0 (filter (\<lambda>c. c_ts c \<le> t) A)"
    by (simp_all add: history_inv_snoc)
  have "serial_state h0 (filter (\<lambda>c. c_ts c \<le> t) A) k = serial_state h0 A k"
    if "c_ts c \<le> t" "k \<in> watched (c_tx c)" for k
  proof (rule serial_state_filter)
    fix b assume "b \<in> set A" "k \<in> dom (map_of (writes (c_tx b)))"
    then have "c_ts b \<le> Transaction_read_timestamp (c_tx c)"
      using c that(2) unfolding commit_inv_def by blast
    also have "\<dots> < c_ts c" using c by (simp add: commit_inv_def)
    finally show "c_ts b \<le> t" using that(1) by simp
  qed
  then have "commit_inv h0 (filter (\<lambda>c. c_ts c \<le> t) A) c" if "c_ts c \<le> t"
    using c that unfolding commit_inv_def by (auto split: prod.splits)
  with IH show ?case by (simp add: history_inv_snoc)
qed simp

subsection \<open>The processes\<close>

lemma proc_inv_frame:
  assumes "proc_inv fh M rd P obs" "rd \<le> rd'" "\<And>r. r \<in># M' \<Longrightarrow> r \<in># M \<or> rd \<le> r"
  shows "proc_inv fh M' rd' P obs"
proof -
  have "low \<le> rd' \<and> (\<forall>r\<in>#M'. low \<le> r)" if "P = Collecting low i n" for low i n
  proof -
    have low: "low \<le> rd" "\<forall>r\<in>#M. low \<le> r" using assms(1) that by (auto simp: proc_inv_def)
    then show ?thesis using assms(2,3) by (blast intro: order_trans)
  qed
  then show ?thesis using assms(1) by (simp add: proc_inv_def)
qed

lemma proc_inv_history:
  assumes "proc_inv fh M rd P obs" "\<And>r k. reader_of P = Some r \<Longrightarrow> read_at (fh' k) r = read_at (fh k) r"
  shows "proc_inv fh' M rd P obs"
  using assms by (simp add: proc_inv_def)

lemma batch_of_order:
  "hash_order_ok ord \<Longrightarrow> tx_ok tx \<Longrightarrow> batch_of tx (order_writes ord (writes tx)) (commit_reads ord tx)"
  by (simp add: batch_of_def touched_watched new_versions_order)

subsection \<open>What the invariant gives\<close>

lemma inv_atD:
  assumes "inv_at invar hist h0 d P A obs"
  shows "db_ok invar hist d ({..<next_commit d} - held_set P) (live_readers P)"
    "finite {p. reader_of (P p) \<noteq> None}"
    "held (P p) = Some t \<Longrightarrow> held (P q) = Some t \<Longrightarrow> p = q"
    "held (P p) = Some t \<Longrightarrow> t < next_commit d"
    "r \<in># live_readers P \<or> Oracle_read_ts (in_oracle d) \<le> r \<Longrightarrow>
      agree (hist (in_store d) k) (full_hist h0 A k) r"
    "proc_inv (full_hist h0 A) (live_readers P) (Oracle_read_ts (in_oracle d)) (P p) (obs p)"
    "history_inv h0 A"
  using assms unfolding inv_at_def held_set_def by blast+

lemma inv_reader:
  assumes "inv_at invar hist h0 d P A obs" "reader_of (P p) = Some r"
  shows "r \<in># live_readers P" "r \<le> Oracle_read_ts (in_oracle d)"
proof -
  show "r \<in># live_readers P" using inv_atD(2) [OF assms(1)] assms(2) by (rule live_readers_in)
  then show "r \<le> Oracle_read_ts (in_oracle d)"
    using inv_atD(1) [OF assms(1)] orc.reader_le unfolding db_ok_def by blast
qed

text \<open>A timestamp still held is above the watermark, hence above every snapshot.\<close>

lemma inv_held_above:
  assumes "inv_at invar hist h0 d P A obs" "held (P p) = Some t"
  shows "Oracle_read_ts (in_oracle d) < t" "r \<in># live_readers P \<Longrightarrow> r < t"
proof -
  have rep: "oracle_rep (in_oracle d) (next_commit d) ({..<next_commit d} - held_set P) (live_readers P)"
    using inv_atD(1) [OF assms(1)] by (simp add: db_ok_def)
  have "t \<notin> {..<next_commit d} - held_set P" using assms(2) by (auto simp: held_set_def)
  then show above: "Oracle_read_ts (in_oracle d) < t" by (rule orc.read_less_pending [OF rep])
  show "r < t" if "r \<in># live_readers P"
    using orc.reader_le [OF rep that] above by (rule le_less_trans)
qed

text \<open>A step of one process that touches neither the store nor the oracle.\<close>

lemma inv_local:
  assumes inv: "inv_at invar hist h0 d P A obs"
    and d': "in_store d' = in_store d" "in_oracle d' = in_oracle d"
    and x: "reader_of x = reader_of (P p)" "held x = held (P p)"
    and proc: "proc_inv (full_hist h0 A) (live_readers P) (Oracle_read_ts (in_oracle d)) x ob"
  shows "inv_at invar hist h0 d' (P(p := x)) A (obs(p := ob))"
proof -
  have f: "reader_of ((P(p := x)) q) = reader_of (P q)" "held ((P(p := x)) q) = held (P q)" for q
    using x by simp_all
  have "db_ok invar hist d' ({..<next_commit d'} - held_set P) (live_readers P)"
    using inv_atD(1) [OF inv] d' by (simp add: db_ok_def)
  then show ?thesis
    using inv proc unfolding inv_at_def live_readers_keep [of x P p, OF x(1)] held_set_keep [of x P p, OF x(2)] d' f
    by simp
qed

text \<open>A process registers as a reader.\<close>

lemma inv_enter:
  assumes inv: "inv_at invar hist h0 d P A obs"
    and p: "reader_of (P p) = None" "held (P p) = None"
    and x: "reader_of x = Some (Oracle_read_ts (in_oracle d))" "held x = None"
      "\<forall>tx. tx_of x = Some tx \<longrightarrow> tx_inv tx []"
  shows "inv_at invar hist h0 (d\<lparr>in_oracle := snd (begin_reader (in_oracle d))\<rparr>) (P(p := x)) A (obs(p := []))"
proof -
  let ?rd = "Oracle_read_ts (in_oracle d)" and ?d = "d\<lparr>in_oracle := snd (begin_reader (in_oracle d))\<rparr>"
  let ?M = "live_readers (P(p := x))"
  have fin: "finite {q. reader_of (P q) \<noteq> None}" by (rule inv_atD(2) [OF inv])
  have M: "?M = add_mset ?rd (live_readers P)" using fin p(1) x(1) by (rule live_readers_add)
  have H: "held_set (P(p := x)) = held_set P" using p(2) x(2) by (intro held_set_keep) simp
  have eq: "Oracle_read_ts (in_oracle ?d) = ?rd" "next_commit ?d = next_commit d" "in_store ?d = in_store d"
    by (simp_all add: begin_reader_def Let_def Oracle_read_ts_def)
  have "db_ok invar hist ?d ({..<next_commit d} - held_set P) (add_mset ?rd (live_readers P))"
    using db_ok_begin [OF inv_atD(1) [OF inv]] by (simp add: Transaction_new_eq)
  moreover have "finite {q. reader_of ((P(p := x)) q) \<noteq> None}" using fin by (rule finite_readers_upd)
  moreover have "held ((P(p := x)) q) = held (P q)" for q using p x by simp
  moreover have "agree (hist (in_store d) k) (full_hist h0 A k) r"
    if "r \<in># add_mset ?rd (live_readers P) \<or> ?rd \<le> r" for k r
    using that inv_atD(5) [OF inv, of r k] by auto
  moreover have "proc_inv (full_hist h0 A) (add_mset ?rd (live_readers P)) ?rd ((P(p := x)) q) ((obs(p := [])) q)" for q
  proof (cases "q = p")
    case True
    then show ?thesis using x by (auto simp: proc_inv_def)
  next
    case False
    have "proc_inv (full_hist h0 A) (add_mset ?rd (live_readers P)) ?rd (P q) (obs q)"
      by (rule proc_inv_frame [OF inv_atD(6) [OF inv, of q]]) auto
    with False show ?thesis by simp
  qed
  ultimately show ?thesis
    using inv unfolding inv_at_def M H eq by simp
qed

text \<open>A reader is unregistered.\<close>

lemma inv_leave:
  assumes inv: "inv_at invar hist h0 d P A obs"
    and p: "reader_of (P p) = Some r" "held (P p) = None"
    and x: "x = Idle \<or> x = Returned res"
  shows "inv_at invar hist h0 (d\<lparr>in_oracle := end_reader (in_oracle d) r\<rparr>) (P(p := x)) A obs"
proof -
  let ?rd = "Oracle_read_ts (in_oracle d)" and ?d = "d\<lparr>in_oracle := end_reader (in_oracle d) r\<rparr>"
  have x': "reader_of x = None" "held x = None" using x by auto
  have fin: "finite {q. reader_of (P q) \<noteq> None}" by (rule inv_atD(2) [OF inv])
  have M: "live_readers (P(p := x)) = live_readers P - {#r#}"
    using fin p(1) x'(1) by (rule live_readers_remove)
  have H: "held_set (P(p := x)) = held_set P" using p(2) x'(2) by (intro held_set_keep) simp
  have eq: "Oracle_read_ts (in_oracle ?d) = ?rd" "next_commit ?d = next_commit d" "in_store ?d = in_store d"
    by (simp_all add: end_reader_def Let_def Oracle_read_ts_def split: option.split)
  have "db_ok invar hist ?d ({..<next_commit d} - held_set P) (live_readers P - {#r#})"
    using db_ok_drop [OF inv_atD(1) [OF inv], of "\<lparr>active_read_ts = r\<rparr>"] inv_reader(1) [OF inv p(1)]
    by (simp add: ActiveReader_drop_eq)
  moreover have "finite {q. reader_of ((P(p := x)) q) \<noteq> None}" using fin by (rule finite_readers_upd)
  moreover have "held ((P(p := x)) q) = held (P q)" for q using p x' by simp
  moreover have "agree (hist (in_store d) k) (full_hist h0 A k) t"
    if "t \<in># live_readers P - {#r#} \<or> ?rd \<le> t" for k t
    using that inv_atD(5) [OF inv, of t k] by (auto dest: in_diffD)
  moreover have "proc_inv (full_hist h0 A) (live_readers P - {#r#}) ?rd ((P(p := x)) q) (obs q)" for q
  proof (cases "q = p")
    case True
    then show ?thesis using x by (auto simp: proc_inv_def)
  next
    case False
    have "proc_inv (full_hist h0 A) (live_readers P - {#r#}) ?rd (P q) (obs q)"
      by (rule proc_inv_frame [OF inv_atD(6) [OF inv, of q]]) (auto dest: in_diffD)
    with False show ?thesis by simp
  qed
  ultimately show ?thesis
    using inv unfolding inv_at_def M H eq by simp
qed

text \<open>A commit takes its timestamp.\<close>

lemma inv_alloc:
  assumes inv: "inv_at invar hist h0 d P A obs" and room: "oracle_room (in_oracle d)"
    and p: "held (P p) = None" "reader_of x = reader_of (P p)" "held x = Some (next_commit d)"
    and proc: "proc_inv (full_hist h0 A) (live_readers P) (Oracle_read_ts (in_oracle d)) x (obs p)"
  shows "inv_at invar hist h0 (alloc_step d) (P(p := x)) A obs"
proof -
  let ?rd = "Oracle_read_ts (in_oracle d)" and ?n = "next_commit d"
  have M: "live_readers (P(p := x)) = live_readers P" using p(2) by (rule live_readers_keep)
  have H: "held_set (P(p := x)) = insert ?n (held_set P)" using p by (intro held_set_add) simp_all
  have eq: "Oracle_read_ts (in_oracle (alloc_step d)) = ?rd" "in_store (alloc_step d) = in_store d"
    by (simp_all add: alloc_commit_ts_def Oracle_read_ts_def)
  have below: "t < ?n" if "held (P q) = Some t" for q t using inv_atD(4) [OF inv that] .
  have F: "{..<next_commit (alloc_step d)} - insert ?n (held_set P) = {..<?n} - held_set P"
    using alloc_next [OF room] by (auto simp: le_less)
  have "db_ok invar hist (alloc_step d) ({..<next_commit (alloc_step d)} - insert ?n (held_set P)) (live_readers P)"
    unfolding F using db_ok_alloc [OF inv_atD(1) [OF inv] room] .
  moreover have "finite {q. reader_of ((P(p := x)) q) \<noteq> None}"
    using inv_atD(2) [OF inv] by (rule finite_readers_upd)
  moreover have "q = q'" if "held ((P(p := x)) q) = Some t" "held ((P(p := x)) q') = Some t" for q q' t
    using that p below inv_atD(3) [OF inv, of q t q'] by (auto split: if_splits)
  moreover have "\<forall>t\<in>insert ?n (held_set P). t < next_commit (alloc_step d)"
    unfolding alloc_next [OF room] using below by (auto simp: held_set_def less_imp_le)
  moreover have "proc_inv (full_hist h0 A) (live_readers P) ?rd ((P(p := x)) q) (obs q)" for q
    using proc inv_atD(6) [OF inv] by simp
  ultimately show ?thesis
    using inv_atD(5,7) [OF inv] unfolding inv_at_def M H eq by blast
qed

text \<open>A commit reports its timestamp.\<close>

lemma inv_done:
  assumes inv: "inv_at invar hist h0 d P A obs"
    and p: "held (P p) = Some t" "reader_of x = reader_of (P p)" "held x = None" "x = Released tx r"
  shows "inv_at invar hist h0 (done_step t d) (P(p := x)) A obs"
proof -
  let ?d = "done_step t d" and ?rd = "Oracle_read_ts (in_oracle d)"
  let ?F = "{..<next_commit d} - held_set P"
  have ok: "db_ok invar hist d ?F (live_readers P)" by (rule inv_atD(1) [OF inv])
  have t: "t < next_commit d" "t \<in> held_set P" using inv_atD(4) [OF inv p(1)] p(1) by (auto simp: held_set_def)
  have M: "live_readers (P(p := x)) = live_readers P" using p(2) by (rule live_readers_keep)
  have H: "held_set (P(p := x)) = held_set P - {t}"
    using p(1,3) inv_atD(3) [OF inv _ p(1)] by (intro held_set_remove)
  have F: "{..<next_commit ?d} - (held_set P - {t}) = insert t ?F" using t by auto
  have eq: "in_store ?d = in_store d" by simp
  have ok': "db_ok invar hist ?d (insert t ?F) (live_readers P)" using ok t by (intro db_ok_done) simp_all
  have mono: "?rd \<le> Oracle_read_ts (in_oracle ?d)"
    using ok ok' orc.read_mono [of "in_oracle d" "next_commit d" ?F "live_readers P" "in_oracle ?d"]
    unfolding db_ok_def by blast
  have "finite {q. reader_of ((P(p := x)) q) \<noteq> None}"
    using inv_atD(2) [OF inv] by (rule finite_readers_upd)
  moreover have "q = q'" if "held ((P(p := x)) q) = Some u" "held ((P(p := x)) q') = Some u" for q q' u
    using that p(3) inv_atD(3) [OF inv, of q u q'] by (auto split: if_splits)
  moreover have "\<forall>u\<in>held_set P - {t}. u < next_commit ?d"
    using inv_atD(4) [OF inv] by (auto simp: held_set_def)
  moreover have "agree (hist (in_store d) k) (full_hist h0 A k) u"
    if "u \<in># live_readers P \<or> Oracle_read_ts (in_oracle ?d) \<le> u" for k u
    using that inv_atD(5) [OF inv, of u k] mono by (auto intro: order_trans)
  moreover have "proc_inv (full_hist h0 A) (live_readers P) (Oracle_read_ts (in_oracle ?d)) ((P(p := x)) q) (obs q)" for q
  proof (cases "q = p")
    case True
    have "\<forall>k v u. reader_of (P p) = Some u \<longrightarrow> (k, v) \<in> set (obs p) \<longrightarrow> v = read_at (full_hist h0 A k) u"
      using inv_atD(6) [OF inv, of p] by (simp add: proc_inv_def)
    then show ?thesis using True p by (simp add: proc_inv_def)
  next
    case False
    have "proc_inv (full_hist h0 A) (live_readers P) (Oracle_read_ts (in_oracle ?d)) (P q) (obs q)"
      by (rule proc_inv_frame [OF inv_atD(6) [OF inv, of q] mono]) simp
    with False show ?thesis by simp
  qed
  ultimately show ?thesis
    using ok' inv_atD(7) [OF inv] unfolding inv_at_def M H F eq by blast
qed

subsection \<open>Steps on the store\<close>

text \<open>A store whose collector works in slices, each of them invisible at or above the watermark.\<close>

locale sliced_store = store_contract V invar hist
  for V :: "'s version_store" and invar :: "'s \<Rightarrow> bool" and hist :: "'s \<Rightarrow> bytes \<Rightarrow> version list" +
  fixes G :: "'s gc_slices"
  assumes slice_law: "invar s \<Longrightarrow> i < gc_len G s \<Longrightarrow>
    invar (snd (gc_step G s low i)) \<and> pruned low (hist s k) (hist (snd (gc_step G s low i)) k)"
begin

lemma inv_slice:
  assumes inv: "inv_at invar hist h0 d P A obs"
    and p: "P p = Collecting low i n" and i: "i < gc_len G (in_store d)"
    and s: "gc_step G (in_store d) low i = (m, s)"
  shows "inv_at invar hist h0 (d\<lparr>in_store := s\<rparr>) (P(p := Collecting low j l)) A obs"
proof -
  let ?x = "Collecting low j l" and ?d = "d\<lparr>in_store := s\<rparr>"
  have ok: "invar (in_store d)" using inv_atD(1) [OF inv] by (simp add: db_ok_def)
  have pr: "invar s" "pruned low (hist (in_store d) k) (hist s k)" for k
    using slice_law [OF ok i, of low k] s by simp_all
  have low: "low \<le> Oracle_read_ts (in_oracle d)" "\<And>r. r \<in># live_readers P \<Longrightarrow> low \<le> r"
    using inv_atD(6) [OF inv, of p] p by (auto simp: proc_inv_def)
  have "v \<in> set (hist (in_store d) k)" if "v \<in> set (hist s k)" for v k
    using pr(2) [of k] that by (auto simp: pruned_def)
  then have d': "db_ok invar hist ?d ({..<next_commit d} - held_set P) (live_readers P)"
    using inv_atD(1) [OF inv] pr(1) by (auto simp: db_ok_def)
  have ag: "agree (hist s k) (full_hist h0 A k) r"
    if "r \<in># live_readers P \<or> Oracle_read_ts (in_oracle d) \<le> r" for k r
    using agree_pruned [OF inv_atD(5) [OF inv that] pr(2)] low that by (auto intro: order_trans)
  have "inv_at invar hist h0 ?d P A obs"
    using inv d' ag unfolding inv_at_def by simp
  then have "inv_at invar hist h0 ?d (P(p := ?x)) A (obs(p := obs p))"
  proof (rule inv_local)
    show "proc_inv (full_hist h0 A) (live_readers P) (Oracle_read_ts (in_oracle ?d)) ?x (obs p)"
      using low by (simp add: proc_inv_def)
  qed (simp_all add: p)
  then show ?thesis by simp
qed

lemma applied_commit_inv:
  assumes inv: "inv_at invar hist h0 d P A obs" and p: "P p = Allocated tx cts batch rs"
    and ok: "\<forall>k\<in>touched batch rs. \<not> changed_since (hist (in_store d) k) (Transaction_read_timestamp tx)"
  shows "commit_inv h0 A \<lparr>c_tx = tx, c_ts = cts, c_seen = obs p\<rparr>"
proof -
  let ?rts = "Transaction_read_timestamp tx"
  have pi: "batch_of tx batch rs" "tx_inv tx (obs p)"
    "\<And>k v. (k, v) \<in> set (obs p) \<Longrightarrow> v = read_at (full_hist h0 A k) ?rts"
    using inv_atD(6) [OF inv, of p] p by (auto simp: proc_inv_def)
  have live: "?rts \<in># live_readers P" using inv_reader(1) [OF inv, of p] p by simp
  have un: "\<not> changed_since (full_hist h0 A k) ?rts" if "k \<in> watched tx" for k
    using ok pi(1) that inv_atD(5) [OF inv, of ?rts k] live by (auto simp: batch_of_def agree_def)
  have "?rts < cts" using inv_held_above(2) [OF inv, of p cts ?rts] p live by simp
  moreover have "c_ts b \<le> ?rts"
    if "b \<in> set A" "k \<in> dom (map_of (writes (c_tx b)))" "k \<in> watched tx" for b k
    using un [OF that(3)] changed_since_full_hist [OF that(1,2)] not_le by blast
  moreover have now: "k \<in> watched tx \<and> v = serial_state h0 A k"
    if "reads tx \<noteq> None \<or> k \<in> dom (map_of (writes tx))" "(k, v) \<in> set (obs p)" for k v
  proof -
    have "k \<in> watched tx"
    proof (cases "reads tx")
      case None
      then show ?thesis using that(1) by (simp add: watched_def)
    next
      case (Some tracked)
      then have "k \<in> set tracked" using pi(2) that(2) by (force simp: tx_inv_def)
      then show ?thesis using Some by (simp add: watched_def read_set_def)
    qed
    with unchanged_read_latest [OF un [OF this]] pi(3) [OF that(2)] show ?thesis
      by (simp add: latest_full_hist)
  qed
  moreover have "\<forall>(k, v)\<in>set (obs p). reads tx \<noteq> None \<or> k \<in> dom (map_of (writes tx)) \<longrightarrow>
      k \<in> watched tx \<and> v = serial_state h0 A k"
    using now by blast
  ultimately show ?thesis unfolding commit_inv_def commit.select_convs by blast
qed

lemma inv_apply:
  assumes inv: "inv_at invar hist h0 d P A obs" and p: "P p = Allocated tx cts batch rs"
    and s: "vs_try_commit V (in_store d) (Transaction_read_timestamp tx) cts batch rs = (r, s)"
  shows "inv_at invar hist h0 (d\<lparr>in_store := s\<rparr>) (P(p := Validated tx cts batch r))
    (A @ (if isl r then [] else [\<lparr>c_tx = tx, c_ts = cts, c_seen = obs p\<rparr>])) obs"
proof -
  let ?rts = "Transaction_read_timestamp tx" and ?d = "d\<lparr>in_store := s\<rparr>"
  let ?c = "\<lparr>c_tx = tx, c_ts = cts, c_seen = obs p\<rparr>" and ?x = "Validated tx cts batch r"
  have live: "?rts \<in># live_readers P" using inv_reader(1) [OF inv, of p] p by simp
  have lt: "?rts < cts" "cts < next_commit d"
    using inv_held_above(2) [OF inv, of p cts ?rts] inv_atD(4) [OF inv, of p cts] p live by simp_all
  have new: "proc_inv (full_hist h0 A) (live_readers P) (Oracle_read_ts (in_oracle d)) ?x (obs p)"
    using inv_atD(6) [OF inv, of p] p by (simp add: proc_inv_def)
  have st: "invar (in_store d)" using inv_atD(1) [OF inv] by (simp add: db_ok_def)
  then show ?thesis using lt(1)
  proof (cases rule: try_commit_cases [where ws = batch and rs = rs])
    case (conflict k)
    have "inv_at invar hist h0 ?d (P(p := ?x)) A (obs(p := obs p))"
      using inv by (rule inv_local) (use new p conflict s in simp_all)
    then show ?thesis using conflict s by simp
  next
    case (applied s')
    with s have r: "r = Inr ()" and s': "\<And>k. hist s k = hist (in_store d) k @ new_versions cts batch k"
      by simp_all
    let ?A = "A @ [?c]"
    have own: "new_versions cts batch k = own_version cts tx k" for k
      using inv_atD(6) [OF inv, of p] p by (simp add: proc_inv_def batch_of_def)
    have M: "live_readers (P(p := ?x)) = live_readers P" using p by (intro live_readers_keep) simp
    have H: "held_set (P(p := ?x)) = held_set P" using p by (intro held_set_keep) simp
    have "db_ok invar hist ?d ({..<next_commit d} - held_set P) (live_readers P)"
      using db_ok_apply [OF inv_atD(1) [OF inv] lt, of batch rs] s by simp
    moreover have "finite {q. reader_of ((P(p := ?x)) q) \<noteq> None}"
      using inv_atD(2) [OF inv] by (rule finite_readers_upd)
    moreover have "held ((P(p := ?x)) q) = held (P q)" for q using p by simp
    moreover have "agree (hist s k) (full_hist h0 ?A k) u"
      if "u \<in># live_readers P \<or> Oracle_read_ts (in_oracle d) \<le> u" for k u
      using agree_append [OF inv_atD(5) [OF inv that]] by (simp add: s' own)
    moreover have "proc_inv (full_hist h0 ?A) (live_readers P) (Oracle_read_ts (in_oracle d)) ((P(p := ?x)) q) (obs q)" for q
    proof (rule proc_inv_history)
      show "proc_inv (full_hist h0 A) (live_readers P) (Oracle_read_ts (in_oracle d)) ((P(p := ?x)) q) (obs q)"
        using new inv_atD(6) [OF inv, of q] by simp
      fix u k assume "reader_of ((P(p := ?x)) q) = Some u"
      then have "u \<in># live_readers P" using p inv_reader(1) [OF inv, of q u] live by (auto split: if_splits)
      then have "u < cts" using inv_held_above(2) [OF inv, of p cts u] p by simp
      then show "read_at (full_hist h0 ?A k) u = read_at (full_hist h0 A k) u"
        by (intro read_at_snoc_newer) simp
    qed
    moreover have "history_inv h0 ?A"
      using inv_atD(7) [OF inv] applied_commit_inv [OF inv p applied(1)] by (simp add: history_inv_snoc)
    ultimately have "inv_at invar hist h0 ?d (P(p := ?x)) ?A obs"
      using inv unfolding inv_at_def M H by simp
    then show ?thesis by (simp add: r)
  qed
qed

text \<open>A get returns what the full history holds at the snapshot.\<close>

lemma inv_store_get:
  assumes inv: "inv_at invar hist h0 d P A obs" and p: "reader_of (P p) = Some r"
  shows "vs_get V (in_store d) k r = Inr (read_at (full_hist h0 A k) r)"
proof -
  have "invar (in_store d)" using inv_atD(1) [OF inv] by (simp add: db_ok_def)
  moreover have "agree (hist (in_store d) k) (full_hist h0 A k) r"
    using inv_atD(5) [OF inv] inv_reader(1) [OF inv p] by blast
  ultimately show ?thesis by (simp add: get_law agree_def)
qed

lemma get_proc_inv:
  assumes inv: "inv_at invar hist h0 d P A obs" and p: "P p = Open tx"
    and get: "Transaction_get V d tx k = (r, tx')"
  shows "proc_inv (full_hist h0 A) (live_readers P) (Oracle_read_ts (in_oracle d)) (Open tx')
      (obs p @ store_reads tx k r)" "Transaction_read_timestamp tx' = Transaction_read_timestamp tx"
proof -
  let ?rts = "Transaction_read_timestamp tx"
  have pi: "\<And>k v. (k, v) \<in> set (obs p) \<Longrightarrow> v = read_at (full_hist h0 A k) ?rts" "tx_inv tx (obs p)"
    using inv_atD(6) [OF inv, of p] p by (auto simp: proc_inv_def)
  have v: "vs_get V (in_store d) k (active_read_ts (active tx)) = Inr (read_at (full_hist h0 A k) ?rts)"
    using inv_store_get [OF inv, of p ?rts] p by (simp add: Transaction_read_timestamp_def)
  show rts: "Transaction_read_timestamp tx' = ?rts"
    using get by (auto simp: Transaction_get_def Transaction_read_timestamp_def split: option.splits sum.splits)
  show "proc_inv (full_hist h0 A) (live_readers P) (Oracle_read_ts (in_oracle d)) (Open tx')
      (obs p @ store_reads tx k r)"
  proof (cases "map_of (writes tx) k")
    case (Some own)
    then show ?thesis using get pi p inv_atD(6) [OF inv, of p]
      by (simp add: Transaction_get_def store_reads_def)
  next
    case None
    then have r: "r = Inr (read_at (full_hist h0 A k) ?rts)"
      and tx': "tx' = (case reads tx of Some rs \<Rightarrow> tx\<lparr>reads := Some (List.insert k rs)\<rparr> | None \<Rightarrow> tx)"
      using get v by (simp_all add: Transaction_get_def)
    have "tx_inv tx' (obs p @ store_reads tx k r)"
      using pi(2) None by (auto simp: tx' r tx_inv_def tx_ok_def store_reads_def split: option.split)
    then show ?thesis
      using pi(1) None r rts by (auto simp: proc_inv_def store_reads_def)
  qed
qed

lemma tx_inv_buffered:
  assumes "tx_inv tx ob"
  shows "tx_inv (Transaction_put tx k v) ob" "tx_inv (Transaction_delete tx k) ob"
  using assms tx_ok_put [of tx k v] tx_ok_delete [of tx k]
  by (simp_all add: tx_inv_def Transaction_put_def Transaction_delete_def)

lemma read_ts_buffered [simp]:
  "Transaction_read_timestamp (Transaction_put tx k v) = Transaction_read_timestamp tx"
  "Transaction_read_timestamp (Transaction_delete tx k) = Transaction_read_timestamp tx"
  by (simp_all add: Transaction_read_timestamp_def Transaction_put_def Transaction_delete_def)

lemma sys_local:
  assumes inv: "sys_inv invar hist h0 S" and p: "procs S p = y"
    and x: "reader_of x = reader_of y" "held x = held y"
    and d: "in_store d = in_store (shared S)" "in_oracle d = in_oracle (shared S)"
    and proc: "proc_inv (full_hist h0 (history S)) (live_readers (procs S))
      (Oracle_read_ts (in_oracle (shared S))) y (seen S p) \<Longrightarrow>
      proc_inv (full_hist h0 (history S)) (live_readers (procs S))
      (Oracle_read_ts (in_oracle (shared S))) x ob"
  shows "sys_inv invar hist h0 (S\<lparr>shared := d, procs := (procs S)(p := x), seen := (seen S)(p := ob)\<rparr>)"
proof -
  have inv': "inv_at invar hist h0 (shared S) (procs S) (history S) (seen S)"
    using inv by (simp add: sys_inv_def)
  from inv_local [OF inv' d _ _ proc, of p] inv_atD(6) [OF inv', of p] p x show ?thesis
    by (simp add: sys_inv_def)
qed

lemma sys_local_procs:
  assumes "sys_inv invar hist h0 S" "procs S p = y" "reader_of x = reader_of y" "held x = held y"
    "proc_inv (full_hist h0 (history S)) (live_readers (procs S))
      (Oracle_read_ts (in_oracle (shared S))) y (seen S p) \<Longrightarrow>
     proc_inv (full_hist h0 (history S)) (live_readers (procs S))
      (Oracle_read_ts (in_oracle (shared S))) x (seen S p)"
  shows "sys_inv invar hist h0 (S\<lparr>procs := (procs S)(p := x)\<rparr>)"
  using sys_local [OF assms(1-4) refl refl assms(5)] by simp

lemma sys_enter:
  assumes "sys_inv invar hist h0 S" "procs S p = Idle"
    "reader_of x = Some (Oracle_read_ts (in_oracle (shared S)))" "held x = None"
    "\<forall>tx. tx_of x = Some tx \<longrightarrow> tx_inv tx []"
  shows "sys_inv invar hist h0 (S\<lparr>shared := (shared S)\<lparr>in_oracle := snd (begin_reader (in_oracle (shared S)))\<rparr>,
    procs := (procs S)(p := x), seen := (seen S)(p := [])\<rparr>)"
  using inv_enter [of invar hist h0 "shared S" "procs S" "history S" "seen S" p x] assms
  by (simp add: sys_inv_def)

lemma sys_leave:
  assumes "sys_inv invar hist h0 S" "reader_of (procs S p) = Some (active_read_ts a)"
    "held (procs S p) = None" "x = Idle \<or> x = Returned res"
  shows "sys_inv invar hist h0 (S\<lparr>shared := ActiveReader_drop (shared S) a, procs := (procs S)(p := x)\<rparr>)"
  using inv_leave [of invar hist h0 "shared S" "procs S" "history S" "seen S" p "active_read_ts a" x res] assms
  by (simp add: sys_inv_def ActiveReader_drop_eq)

lemma sys_get:
  assumes inv: "sys_inv invar hist h0 S" and p: "procs S p = Open tx"
    and get: "Transaction_get V (shared S) tx k = (r, tx')"
  shows "sys_inv invar hist h0 (S\<lparr>procs := (procs S)(p := Open tx'),
    seen := (seen S)(p := seen S p @ store_reads tx k r)\<rparr>)"
proof -
  have "inv_at invar hist h0 (shared S) (procs S) (history S) (seen S)"
    using inv by (simp add: sys_inv_def)
  note g = get_proc_inv [OF this p get]
  from sys_local [OF inv p _ _ refl refl g(1)] g(2) show ?thesis by simp
qed

lemma sys_snapshot_get:
  assumes inv: "sys_inv invar hist h0 S" and p: "procs S p = Viewing sn"
  shows "sys_inv invar hist h0 (S\<lparr>seen := (seen S)(p := seen S p @
    snapshot_reads k (Snapshot_get V (shared S) sn k))\<rparr>)"
proof -
  have inv': "inv_at invar hist h0 (shared S) (procs S) (history S) (seen S)"
    using inv by (simp add: sys_inv_def)
  have r: "Snapshot_get V (shared S) sn k = Inr (read_at (full_hist h0 (history S) k) (Snapshot_read_timestamp sn))"
    using inv_store_get [OF inv', of p "Snapshot_read_timestamp sn" k] p
    by (simp add: Snapshot_get_def Snapshot_read_timestamp_def)
  have "sys_inv invar hist h0 (S\<lparr>shared := shared S, procs := (procs S)(p := Viewing sn),
      seen := (seen S)(p := seen S p @ snapshot_reads k (Snapshot_get V (shared S) sn k))\<rparr>)"
    using inv p by (rule sys_local) (auto simp: r proc_inv_def snapshot_reads_def)
  then show ?thesis using p by (simp add: fun_upd_idem)
qed

lemma sys_alloc:
  assumes inv: "sys_inv invar hist h0 S" and p: "procs S p = Open tx" and ord: "hash_order_ok ord"
    and room: "oracle_room (in_oracle (shared S))"
  shows "sys_inv invar hist h0 (S\<lparr>shared := alloc_step (shared S),
    procs := (procs S)(p := Allocated tx (next_commit (shared S)) (order_writes ord (writes tx)) (commit_reads ord tx))\<rparr>)"
proof -
  let ?x = "Allocated tx (next_commit (shared S)) (order_writes ord (writes tx)) (commit_reads ord tx)"
  have inv': "inv_at invar hist h0 (shared S) (procs S) (history S) (seen S)"
    using inv by (simp add: sys_inv_def)
  have pi: "proc_inv (full_hist h0 (history S)) (live_readers (procs S))
      (Oracle_read_ts (in_oracle (shared S))) (Open tx) (seen S p)"
    using inv_atD(6) [OF inv', of p] p by simp
  then have "tx_ok tx" by (simp add: proc_inv_def tx_inv_def)
  then have "batch_of tx (order_writes ord (writes tx)) (commit_reads ord tx)"
    using ord by (intro batch_of_order)
  with pi have "proc_inv (full_hist h0 (history S)) (live_readers (procs S))
      (Oracle_read_ts (in_oracle (shared S))) ?x (seen S p)"
    by (simp add: proc_inv_def)
  from inv_alloc [OF inv' room _ _ _ this] p show ?thesis by (simp add: sys_inv_def)
qed

text \<open>Every step keeps the invariant.\<close>

lemma step_inv:
  assumes "step V W G S S'" "oracle_room (in_oracle (shared S))" "sys_inv invar hist h0 S"
  shows "sys_inv invar hist h0 S'"
  using assms
proof (cases rule: step.cases)
  case (begin_tx p ser tx d)
  then show ?thesis
    using sys_enter [OF assms(3), of p "Open tx"]
    by (auto simp: Transaction_new_eq Transaction_read_timestamp_def tx_inv_def tx_ok_def)
next
  case (get_tx p tx k r tx')
  with sys_get [OF assms(3)] show ?thesis by simp
next
  case (put_tx p tx k v)
  then show ?thesis
    using sys_local_procs [OF assms(3) put_tx(2), of "Open (Transaction_put tx k v)"]
    by (simp add: proc_inv_def tx_inv_buffered)
next
  case (delete_tx p tx k)
  then show ?thesis
    using sys_local_procs [OF assms(3) delete_tx(2), of "Open (Transaction_delete tx k)"]
    by (simp add: proc_inv_def tx_inv_buffered)
next
  case (rollback_tx p tx)
  then show ?thesis
    using sys_leave [OF assms(3), of p "active tx" Idle]
    by (simp add: Transaction_rollback_def Transaction_read_timestamp_def)
next
  case (commit_empty p tx)
  then show ?thesis
    using sys_leave [OF assms(3), of p "active tx"] by (simp add: Transaction_read_timestamp_def)
next
  case (commit_alloc p tx ord cts orc)
  then have "cts = next_commit (shared S)" "orc = snd (alloc_commit_ts (in_oracle (shared S)))"
    using alloc_fst [of "shared S"] by (metis fst_conv, simp)
  then show ?thesis
    using sys_alloc [OF assms(3) commit_alloc(2,4) assms(2)] commit_alloc(1) by simp
next
  case (commit_apply p tx cts batch rs r s)
  then show ?thesis
    using inv_apply [of h0 "shared S" "procs S" "history S" "seen S"] assms(3) by (simp add: sys_inv_def)
next
  case (commit_conflict p tx cts batch e)
  then show ?thesis
    using sys_local_procs [OF assms(3) commit_conflict(2), of "Decided tx cts (Inl e)"]
    by (simp add: proc_inv_def)
next
  case (commit_log_step p tx cts batch u r d)
  have d: "in_store d = in_store (shared S)" "in_oracle d = in_oracle (shared S)"
    using commit_log_step(3) by (auto simp: log_commit_def split: option.splits prod.splits sum.splits)
  show ?thesis
    using sys_local [OF assms(3) commit_log_step(2) _ _ d, of "Decided tx cts r" "seen S p"] commit_log_step(1)
    by (simp add: proc_inv_def)
next
  case (commit_done_step p tx cts r)
  then show ?thesis
    using inv_done [of invar hist h0 "shared S" "procs S" "history S" "seen S" p cts "Released tx r" tx r]
      assms(3)
    by (simp add: sys_inv_def)
next
  case (commit_drop p tx r)
  then show ?thesis
    using sys_leave [OF assms(3), of p "active tx"] by (simp add: Transaction_read_timestamp_def)
next
  case (open_snapshot p sn d)
  then show ?thesis
    using sys_enter [OF assms(3), of p "Viewing sn"]
    by (auto simp: Snapshot_new_def ActiveReader_new_def Inner_begin_reader_def
        Snapshot_read_timestamp_def begin_reader_def Oracle_read_ts_def Let_def)
next
  case (get_snapshot p sn k r)
  show ?thesis
    unfolding get_snapshot(1) get_snapshot(3) [symmetric]
    by (rule sys_snapshot_get [OF assms(3) get_snapshot(2)])
next
  case (drop_snapshot p sn)
  then show ?thesis
    using sys_leave [OF assms(3), of p "snap_active sn" Idle]
    by (simp add: Snapshot_drop_def Snapshot_read_timestamp_def)
next
  case (gc_begin p)
  have inv': "inv_at invar hist h0 (shared S) (procs S) (history S) (seen S)"
    using assms(3) by (simp add: sys_inv_def)
  have rep: "oracle_rep (in_oracle (shared S)) (next_commit (shared S))
      ({..<next_commit (shared S)} - held_set (procs S)) (live_readers (procs S))"
    using inv_atD(1) [OF inv'] by (simp add: db_ok_def)
  show ?thesis
    using sys_local_procs [OF assms(3) gc_begin(2), of "Collecting (low_watermark (in_oracle (shared S))) 0 0"]
      orc.low_le_reader [OF rep] orc.low_le_read [OF rep] gc_begin(1)
    by (simp add: proc_inv_def)
next
  case (gc_next p low i n m s)
  then show ?thesis
    using inv_slice [of h0 "shared S" "procs S" "history S" "seen S"] assms(3) by (simp add: sys_inv_def)
next
  case (gc_end p low i n)
  then show ?thesis
    using sys_local_procs [OF assms(3) gc_end(2), of Idle] by (simp add: proc_inv_def)
qed

lemma start_inv:
  assumes "quiet invar hist d {#}"
  shows "sys_inv invar hist (hist (in_store d)) (start d)"
proof -
  have "live_readers (\<lambda>_. Idle) = {#}" "held_set (\<lambda>_. Idle) = {}"
    by (simp_all add: live_readers_def held_set_def)
  then show ?thesis
    using assms by (auto simp: sys_inv_def inv_at_def start_def proc_inv_def history_inv_def full_hist_def)
qed

lemma reachable_inv:
  assumes "reachable V W G d S" "quiet invar hist d {#}"
  shows "sys_inv invar hist (hist (in_store d)) S"
  using assms by (induction rule: reachable.induct) (auto intro: start_inv step_inv)

lemma reachable_at:
  "reachable V W G d S \<Longrightarrow> quiet invar hist d {#} \<Longrightarrow>
     inv_at invar hist (hist (in_store d)) (shared S) (procs S) (history S) (seen S)"
  using reachable_inv by (simp add: sys_inv_def)

text \<open>The newest values in the store are the state the commits leave, run in the order applied.\<close>

lemma reachable_latest:
  assumes "reachable V W G d S" "quiet invar hist d {#}"
  shows "latest (hist (in_store (shared S)) k) = serial_state (hist (in_store d)) (history S) k"
proof -
  let ?top = "from_raw (- 1)"
  have top: "t \<le> ?top" for t by (simp add: less_eq_timestamp_def)
  have "agree (hist (in_store (shared S)) k) (full_hist (hist (in_store d)) (history S) k) ?top"
    using inv_atD(5) [OF reachable_at [OF assms]] top by blast
  moreover have "\<not> changed_since h ?top" for h
    using top by (auto simp: changed_since_def not_less)
  ultimately show ?thesis
    by (simp add: agree_def unchanged_read_latest latest_full_hist)
qed

lemma reachable_commit:
  assumes "reachable V W G d S" "quiet invar hist d {#}" "i < length (history S)"
  shows "commit_inv (hist (in_store d)) (take i (history S)) (history S ! i)"
  using inv_atD(7) [OF reachable_at [OF assms(1,2)]] assms(3) by (simp add: history_inv_def)

text \<open>The watermark never moves back, and a new reader starts at it.\<close>

lemma read_ts_simps [simp]:
  "Oracle_read_ts (snd (begin_reader orc)) = Oracle_read_ts orc"
  "Oracle_read_ts (end_reader orc t) = Oracle_read_ts orc"
  "Oracle_read_ts (snd (alloc_commit_ts orc)) = Oracle_read_ts orc"
  by (simp_all add: begin_reader_def end_reader_def alloc_commit_ts_def Oracle_read_ts_def Let_def
      split: option.split)

lemma done_read_mono:
  assumes inv: "inv_at invar hist h0 d P A obs" and p: "held (P p) = Some t"
  shows "Oracle_read_ts (in_oracle d) \<le> Oracle_read_ts (commit_done (in_oracle d) t)"
proof -
  let ?F = "{..<next_commit d} - held_set P"
  have rep: "oracle_rep (in_oracle d) (next_commit d) ?F (live_readers P)"
    using inv_atD(1) [OF inv] by (simp add: db_ok_def)
  moreover have "oracle_rep (commit_done (in_oracle d) t) (next_commit d) (insert t ?F) (live_readers P)"
    using rep inv_atD(4) [OF inv p] p by (intro oracle_commit_done) (auto simp: held_set_def)
  ultimately show ?thesis by (rule orc.read_mono) auto
qed

lemma step_readers:
  assumes "step V W G S S'" "sys_inv invar hist h0 S"
  shows "Oracle_read_ts (in_oracle (shared S)) \<le> Oracle_read_ts (in_oracle (shared S'))"
    "reader_of (procs S' p) = Some r \<Longrightarrow>
      reader_of (procs S p) = Some r \<or> r = Oracle_read_ts (in_oracle (shared S))"
proof -
  have inv: "inv_at invar hist h0 (shared S) (procs S) (history S) (seen S)"
    using assms(2) by (simp add: sys_inv_def)
  show "Oracle_read_ts (in_oracle (shared S)) \<le> Oracle_read_ts (in_oracle (shared S'))"
    using assms(1)
  proof (cases rule: step.cases)
    case (commit_done_step p tx cts r)
    then show ?thesis using done_read_mono [OF inv, of p cts] by simp
  next
    case (commit_alloc p tx ord cts orc)
    then have "orc = snd (alloc_commit_ts (in_oracle (shared S)))" by simp
    with commit_alloc(1) show ?thesis by simp
  next
    case (begin_tx p ser tx d)
    then show ?thesis by (auto simp: Transaction_new_eq)
  next
    case (open_snapshot p sn d)
    then show ?thesis
      by (auto simp: Snapshot_new_def ActiveReader_new_def Inner_begin_reader_def split: prod.splits)
        (metis order_refl read_ts_simps(1) snd_conv)
  next
    case (commit_log_step p tx cts batch u r d)
    then show ?thesis
      by (auto simp: log_commit_def split: option.splits prod.splits sum.splits)
  qed (simp_all add: Transaction_rollback_def ActiveReader_drop_eq Snapshot_drop_def)
  show "reader_of (procs S p) = Some r \<or> r = Oracle_read_ts (in_oracle (shared S))"
    if "reader_of (procs S' p) = Some r"
    using assms(1)
  proof (cases rule: step.cases)
    case (get_tx q tx k res tx')
    then show ?thesis using that get_proc_inv(2) [OF inv get_tx(2,3)] by (auto split: if_splits)
  next
    case (open_snapshot q sn d)
    then show ?thesis using that
      by (auto simp: Snapshot_new_def ActiveReader_new_def Inner_begin_reader_def begin_reader_def
          Oracle_read_ts_def Let_def Snapshot_read_timestamp_def split: if_splits)
  qed (use that in \<open>auto simp: Transaction_new_eq Transaction_read_timestamp_def
      Transaction_put_def Transaction_delete_def split: if_splits\<close>)
qed

lemma reachable_readers:
  assumes "reachable V W G d S" "quiet invar hist d {#}"
  shows "Oracle_read_ts (in_oracle d) \<le> Oracle_read_ts (in_oracle (shared S))
    \<and> (\<forall>p r. reader_of (procs S p) = Some r \<longrightarrow> Oracle_read_ts (in_oracle d) \<le> r)"
  using assms
proof (induction rule: reachable.induct)
  case reach_start
  then show ?case by (simp add: start_def)
next
  case (reach_step S S')
  then have inv: "sys_inv invar hist (hist (in_store d)) S" by (intro reachable_inv)
  note st = step_readers [OF reach_step.hyps(3) inv]
  have IH: "Oracle_read_ts (in_oracle d) \<le> Oracle_read_ts (in_oracle (shared S))"
    "\<And>p r. reader_of (procs S p) = Some r \<Longrightarrow> Oracle_read_ts (in_oracle d) \<le> r"
    using reach_step by blast+
  have "Oracle_read_ts (in_oracle d) \<le> r" if "reader_of (procs S' p) = Some r" for p r
    using st(2) [OF that] IH by blast
  with st(1) IH(1) show ?case by (blast intro: order_trans)
qed

text \<open>What a live process reads: the state left by exactly the commits at or below its snapshot.\<close>

lemma reachable_snapshot:
  assumes r: "reachable V W G d S" and q: "quiet invar hist d {#}"
    and p: "reader_of (procs S p) = Some t"
  shows "read_at (full_hist (hist (in_store d)) (history S) k) t =
    serial_state (hist (in_store d)) (filter (\<lambda>c. c_ts c \<le> t) (history S)) k"
proof (rule read_at_full_hist)
  fix k v assume v: "v \<in> set (hist (in_store d) k)"
  then have "commit_ts v \<le> Oracle_read_ts (in_oracle d)"
    using quiet_no_change [OF q, of k] by (auto simp: changed_since_def not_less)
  then show "commit_ts v \<le> t" using reachable_readers [OF r q] p by (blast intro: order_trans)
qed

lemma reachable_get:
  assumes r: "reachable V W G d S" and q: "quiet invar hist d {#}"
    and p: "reader_of (procs S p) = Some t"
  shows "vs_get V (in_store (shared S)) k t =
    Inr (serial_state (hist (in_store d)) (filter (\<lambda>c. c_ts c \<le> t) (history S)) k)"
  using inv_store_get [OF reachable_at [OF r q] p] reachable_snapshot [OF r q p] by simp

text \<open>Whatever a live process has read, it would read again.\<close>

lemma reachable_seen:
  assumes r: "reachable V W G d S" and q: "quiet invar hist d {#}"
    and p: "reader_of (procs S p) = Some t" and kv: "(k, v) \<in> set (seen S p)"
  shows "vs_get V (in_store (shared S)) k t = Inr v"
  using inv_store_get [OF reachable_at [OF r q] p] inv_atD(6) [OF reachable_at [OF r q], of p] p kv
  by (simp add: proc_inv_def)

text \<open>The watermark is held back by nothing but the timestamps commits still hold.\<close>

lemma reachable_watermark:
  assumes "reachable V W G d S" "quiet invar hist d {#}"
  shows "t \<le> Oracle_read_ts (in_oracle (shared S)) \<longleftrightarrow>
    (\<forall>u\<le>t. u < next_commit (shared S) \<and> u \<notin> held_set (procs S))"
proof -
  have "oracle_rep (in_oracle (shared S)) (next_commit (shared S))
      ({..<next_commit (shared S)} - held_set (procs S)) (live_readers (procs S))"
    using inv_atD(1) [OF reachable_at [OF assms]] by (simp add: db_ok_def)
  from orc.watermark [OF this, of t] show ?thesis by simp
qed

lemma next_commit_simps [simp]:
  "next_ts (snd (begin_reader orc)) = next_ts orc"
  by (simp add: begin_reader_def Let_def)

text \<open>Steps other than allocation and application.\<close>

lemma step_next_commit:
  assumes "step V W G S S'" "oracle_room (in_oracle (shared S))"
  shows "next_commit (shared S) \<le> next_commit (shared S')"
  using assms(1)
proof (cases rule: step.cases)
  case (commit_alloc p tx ord cts orc)
  then have "orc = snd (alloc_commit_ts (in_oracle (shared S)))" by simp
  with alloc_next [OF assms(2), of "next_commit (shared S)"] commit_alloc(1) show ?thesis
    by (simp add: less_imp_le)
next
  case (open_snapshot p sn d)
  then show ?thesis
    by (auto simp: Snapshot_new_def ActiveReader_new_def Inner_begin_reader_def begin_reader_def Let_def)
next
  case (commit_log_step p tx cts batch u r d)
  then show ?thesis by (auto simp: log_commit_def split: option.splits prod.splits sum.splits)
qed (auto simp: Transaction_new_eq Transaction_rollback_def ActiveReader_drop_eq Snapshot_drop_def)

lemma step_history:
  assumes "step V W G S S'"
  obtains (same) "history S' = history S"
      "\<And>q tx cts batch rs. procs S' q = Allocated tx cts batch rs \<Longrightarrow>
        procs S q = Allocated tx cts batch rs \<or> cts = next_commit (shared S)"
  | (applied) p tx cts batch rs where "procs S p = Allocated tx cts batch rs"
      "history S' = history S @ [\<lparr>c_tx = tx, c_ts = cts, c_seen = seen S p\<rparr>]"
      "\<And>q. q \<noteq> p \<Longrightarrow> procs S' q = procs S q" "\<nexists>tx cts batch rs. procs S' p = Allocated tx cts batch rs"
  using assms
proof (cases rule: step.cases)
  case (commit_apply p tx cts batch rs r s)
  show thesis
  proof (cases "isl r")
    case True
    show thesis by (rule same) (use commit_apply True in \<open>auto split: if_splits\<close>)
  next
    case False
    show thesis by (rule applied [of p tx cts batch rs]) (use commit_apply False in simp_all)
  qed
next
  case (commit_alloc p tx ord cts orc)
  then have "cts = next_commit (shared S)" using alloc_fst [of "shared S"] by (metis fst_conv)
  then show thesis by (intro same) (use commit_alloc in \<open>auto split: if_splits\<close>)
qed (rule same; auto split: if_splits)+

lemma step_fresh:
  assumes st: "step V W G S S'" and room: "oracle_room (in_oracle (shared S))"
    and inv: "sys_inv invar hist h0 S" and fresh: "fresh_inv S"
  shows "fresh_inv S'"
proof -
  have at: "inv_at invar hist h0 (shared S) (procs S) (history S) (seen S)"
    using inv by (simp add: sys_inv_def)
  have nx: "t < next_commit (shared S')" if "t < next_commit (shared S)" for t
    using that step_next_commit [OF st room] by (rule less_le_trans)
  have old: "c_ts c < next_commit (shared S)" if "c \<in> set (history S)" for c
    using fresh that by (simp add: fresh_inv_def)
  from st show ?thesis
  proof (cases rule: step_history)
    case same
    have "cts \<notin> c_ts ` set (history S)" if "procs S' p = Allocated tx cts batch rs" for p tx cts batch rs
      using same(2) [OF that]
    proof
      assume "procs S p = Allocated tx cts batch rs"
      then show ?thesis using fresh unfolding fresh_inv_def by blast
    next
      assume "cts = next_commit (shared S)"
      then show ?thesis using old by force
    qed
    then show ?thesis using fresh nx same(1) by (simp add: fresh_inv_def)
  next
    case (applied p tx cts batch rs)
    have cts: "cts \<notin> c_ts ` set (history S)" "cts < next_commit (shared S)"
      using fresh applied(1) inv_atD(4) [OF at, of p cts] unfolding fresh_inv_def by (blast, simp)
    have "u \<notin> c_ts ` set (history S) \<and> u \<noteq> cts" if "procs S' q = Allocated tx' u b r" for q tx' u b r
    proof -
      have "q \<noteq> p" using applied(4) that by blast
      then have q: "procs S q = Allocated tx' u b r" using applied(3) that by simp
      then have "u \<notin> c_ts ` set (history S)" using fresh unfolding fresh_inv_def by blast
      with q \<open>q \<noteq> p\<close> applied(1) inv_atD(3) [OF at, of q u p] show ?thesis by auto
    qed
    then show ?thesis using fresh nx cts applied(2) by (auto simp: fresh_inv_def)
  qed
qed

lemma reachable_fresh:
  assumes "reachable V W G d S" "quiet invar hist d {#}"
  shows "fresh_inv S"
  using assms
proof (induction rule: reachable.induct)
  case reach_start
  then show ?case by (simp add: fresh_inv_def start_def)
next
  case (reach_step S S')
  then show ?case using step_fresh reachable_inv by blast
qed

text \<open>What is at or below the watermark is final.\<close>

lemma step_frozen:
  assumes "step V W G S S'" "sys_inv invar hist h0 S" "t \<le> Oracle_read_ts (in_oracle (shared S))"
  shows "filter (\<lambda>c. c_ts c \<le> t) (history S') = filter (\<lambda>c. c_ts c \<le> t) (history S)"
  using assms(1)
proof (cases rule: step_history)
  case (applied p tx cts batch rs)
  have "Oracle_read_ts (in_oracle (shared S)) < cts"
    using inv_held_above(1) [of invar hist h0 "shared S" "procs S" "history S" "seen S" p cts]
      assms(2) applied(1) by (simp add: sys_inv_def)
  with assms(3) have "\<not> cts \<le> t" by auto
  then show ?thesis by (simp add: applied(2))
qed simp

text \<open>A run continued from a reachable state.\<close>

lemma continued:
  assumes "(\<lambda>S S'. oracle_room (in_oracle (shared S)) \<and> step V W G S S')\<^sup>*\<^sup>* S S'"
    "reachable V W G d S" "quiet invar hist d {#}"
  shows "reachable V W G d S'
    \<and> Oracle_read_ts (in_oracle (shared S)) \<le> Oracle_read_ts (in_oracle (shared S'))
    \<and> (\<forall>t\<le>Oracle_read_ts (in_oracle (shared S)).
        filter (\<lambda>c. c_ts c \<le> t) (history S') = filter (\<lambda>c. c_ts c \<le> t) (history S))"
  using assms(1)
proof (induction rule: rtranclp_induct)
  case base
  then show ?case using assms(2) by simp
next
  case (step T U)
  have inv: "sys_inv invar hist (hist (in_store d)) T" using step.IH assms(3) reachable_inv by blast
  have "reachable V W G d U" using step.IH step.hyps(2) by (blast intro: reach_step)
  moreover note step_readers(1) [OF conjunct2 [OF step.hyps(2)] inv]
    step_frozen [OF conjunct2 [OF step.hyps(2)] inv]
  ultimately show ?case using step.IH by (auto intro: order_trans)
qed

end

subsection \<open>A commit and a collection run alone\<close>

text \<open>The steps of a commit, with no other process in between, are \<open>Transaction::commit\<close>.\<close>

lemma commit_writes_steps:
  "commit_writes V W d rts batch rs =
    (let (r, s) = vs_try_commit V (in_store d) rts (next_commit d) batch rs;
         d1 = alloc_step d\<lparr>in_store := s\<rparr>;
         (res, d2) = (case r of Inl e \<Rightarrow> (Inl e, d1) | Inr _ \<Rightarrow> log_commit W d1 (next_commit d) batch)
     in (res, done_step (next_commit d) d2))"
  by (auto simp: commit_writes_def log_commit_def alloc_commit_ts_def Let_def
      split: prod.splits sum.splits option.splits)

lemma commit_alone:
  assumes p: "procs S p = Open tx" and ord: "hash_order_ok ord"
    and com: "Transaction_commit ord V W (shared S) tx = (r, d)"
  shows "\<exists>S'. (step V W G)\<^sup>*\<^sup>* S S' \<and> procs S' p = Returned r \<and> shared S' = d
    \<and> (\<forall>q. q \<noteq> p \<longrightarrow> procs S' q = procs S q)"
proof (cases "writes tx = []")
  case True
  then have "r = Inr (Transaction_read_timestamp tx)" "d = ActiveReader_drop (shared S) (active tx)"
    using com by (simp_all add: Transaction_commit_def Transaction_read_timestamp_def)
  then show ?thesis
    using r_into_rtranclp [of "step V W G", OF step.commit_empty [of S p tx V W G, OF p True]] by force
next
  case False
  let ?n = "next_commit (shared S)" and ?batch = "order_writes ord (writes tx)"
  let ?rs = "commit_reads ord tx" and ?rts = "Transaction_read_timestamp tx"
  define S1 where "S1 = S\<lparr>shared := alloc_step (shared S), procs := (procs S)(p := Allocated tx ?n ?batch ?rs)\<rparr>"
  obtain res s where tc: "vs_try_commit V (in_store (shared S)) ?rts ?n ?batch ?rs = (res, s)" by force
  define S2 where "S2 = S1\<lparr>shared := (shared S1)\<lparr>in_store := s\<rparr>,
    procs := (procs S1)(p := Validated tx ?n ?batch res),
    history := history S1 @ (if isl res then [] else [\<lparr>c_tx = tx, c_ts = ?n, c_seen = seen S1 p\<rparr>])\<rparr>"
  obtain out d3 where out: "(case res of Inl e \<Rightarrow> (Inl e, shared S2) | Inr _ \<Rightarrow> log_commit W (shared S2) ?n ?batch)
      = (out, d3)" by force
  define S3 where "S3 = S2\<lparr>shared := d3, procs := (procs S2)(p := Decided tx ?n out)\<rparr>"
  define S4 where "S4 = S3\<lparr>shared := done_step ?n (shared S3), procs := (procs S3)(p := Released tx out)\<rparr>"
  define S5 where "S5 = S4\<lparr>shared := ActiveReader_drop (shared S4) (active tx), procs := (procs S4)(p := Returned out)\<rparr>"
  have sh2: "shared S2 = alloc_step (shared S)\<lparr>in_store := s\<rparr>" by (simp add: S2_def S1_def)
  have s1: "step V W G S S1"
    unfolding S1_def using p False ord by (intro step.commit_alloc) (simp_all add: alloc_commit_ts_def)
  have s2: "step V W G S1 S2"
    unfolding S2_def using tc by (intro step.commit_apply) (simp_all add: S1_def)
  have s3: "step V W G S2 S3"
  proof (cases res)
    case (Inl e)
    with out have "S3 = S2\<lparr>procs := (procs S2)(p := Decided tx ?n (Inl e))\<rparr>" by (auto simp: S3_def)
    then show ?thesis using Inl step.commit_conflict [of S2 p tx ?n ?batch e V W G] by (simp add: S2_def)
  next
    case (Inr u)
    then show ?thesis
      unfolding S3_def using out by (intro step.commit_log_step) (auto simp: S2_def)
  qed
  have s4: "step V W G S3 S4"
    unfolding S4_def by (rule step.commit_done_step) (simp add: S3_def)
  have s5: "step V W G S4 S5"
    unfolding S5_def by (rule step.commit_drop) (simp add: S4_def)
  from s1 s2 s3 s4 s5 have steps: "(step V W G)\<^sup>*\<^sup>* S S5"
    by (meson rtranclp.rtrancl_into_rtrancl rtranclp.rtrancl_refl)
  have "commit_writes V W (shared S) ?rts ?batch ?rs = (out, done_step ?n d3)"
    using out unfolding commit_writes_steps tc sh2 Let_def prod.case by simp
  then have "r = out" "d = shared S5"
    using com False by (simp_all add: Transaction_commit_def Transaction_read_timestamp_def S5_def S4_def S3_def)
  moreover have "procs S5 q = procs S q" if "q \<noteq> p" for q
    using that by (simp add: S5_def S4_def S3_def S2_def S1_def)
  ultimately show ?thesis using steps by (intro exI [of _ S5]) (simp add: S5_def)
qed

section \<open>The in-memory store\<close>

interpretation mems: sliced_store MemoryStore wf_store store_hist MemoryStore_slices
proof unfold_locales
  fix s :: memory_store and i low k
  assume "wf_store s" "i < gc_len MemoryStore_slices s"
  then show "wf_store (snd (gc_step MemoryStore_slices s low i))
      \<and> pruned low (store_hist s k) (store_hist (snd (gc_step MemoryStore_slices s low i)) k)"
    by (simp add: MemoryStore_slices_def wf_store_gc_slice gc_slice_pruned)
qed

text \<open>The slices of one collection, run through, are \<open>MemoryStore::collect_garbage\<close>.\<close>

lemma collect_slices:
  assumes "procs S p = Collecting low i n" "i + m = length (shards (in_store (shared S)))"
    "gc_loop low [i..<i + m] n (in_store (shared S)) = (n', s)"
  shows "\<exists>S'. (step MemoryStore W MemoryStore_slices)\<^sup>*\<^sup>* S S'
    \<and> shared S' = (shared S)\<lparr>in_store := s\<rparr> \<and> procs S' = (procs S)(p := Collecting low (i + m) n')"
  using assms
proof (induction m arbitrary: i n S)
  case 0
  then show ?case by (intro exI [of _ S]) auto
next
  case (Suc m)
  obtain k t where t: "gc_slice (in_store (shared S)) low i = (k, t)" by force
  define T where "T = S\<lparr>shared := (shared S)\<lparr>in_store := t\<rparr>, procs := (procs S)(p := Collecting low (Suc i) (n + k))\<rparr>"
  have st: "step MemoryStore W MemoryStore_slices S T"
    unfolding T_def using Suc.prems(1,2) t
    by (intro step.gc_next) (simp_all add: MemoryStore_slices_def)
  have "length (shards t) = length (shards (in_store (shared S)))"
    using length_shards_gc_slice [of "in_store (shared S)" low i] t by simp
  moreover have "[i..<i + Suc m] = i # [Suc i..<Suc i + m]" by (simp add: upt_conv_Cons)
  then have "gc_loop low [Suc i..<Suc i + m] (n + k) t = (n', s)" using Suc.prems(3) t by simp
  ultimately obtain S' where S': "(step MemoryStore W MemoryStore_slices)\<^sup>*\<^sup>* T S'"
    "shared S' = (shared T)\<lparr>in_store := s\<rparr>" "procs S' = (procs T)(p := Collecting low (Suc i + m) n')"
    using Suc.IH [of T "Suc i" "n + k"] Suc.prems(2) unfolding T_def by force
  have "(step MemoryStore W MemoryStore_slices)\<^sup>*\<^sup>* S S'"
    using st S'(1) by (rule converse_rtranclp_into_rtranclp)
  then show ?case
    using S'(2,3) by (intro exI [of _ S']) (simp add: T_def)
qed

lemma collect_alone:
  assumes p: "procs S p = Idle" and gc: "Inner_collect_garbage MemoryStore (shared S) = (n, d)"
  shows "\<exists>U low S'. (step MemoryStore W MemoryStore_slices)\<^sup>*\<^sup>* S U
    \<and> procs U p = Collecting low (length (shards (in_store (shared U)))) n
    \<and> step MemoryStore W MemoryStore_slices U S' \<and> shared S' = d \<and> procs S' = procs S"
proof -
  let ?low = "low_watermark (in_oracle (shared S))" and ?len = "length (shards (in_store (shared S)))"
  define T where "T = S\<lparr>procs := (procs S)(p := Collecting ?low 0 0)\<rparr>"
  obtain s where s: "gc_loop ?low [0..<?len] 0 (in_store (shared S)) = (n, s)" "d = (shared S)\<lparr>in_store := s\<rparr>"
    using gc by (auto simp: Inner_collect_garbage_def MemoryStore_def MemoryStore_collect_garbage_def
        split: prod.splits)
  have s1: "step MemoryStore W MemoryStore_slices S T"
    unfolding T_def using p by (rule step.gc_begin)
  obtain U where U: "(step MemoryStore W MemoryStore_slices)\<^sup>*\<^sup>* T U" "shared U = d"
    "procs U = (procs T)(p := Collecting ?low ?len n)"
    using collect_slices [of T p ?low 0 0 ?len n s W] s by (auto simp: T_def)
  have "length (shards s) = ?len"
    using length_shards_gc_loop [of ?low "[0..<?len]" 0 "in_store (shared S)"] s(1) by simp
  then have "step MemoryStore W MemoryStore_slices U (U\<lparr>procs := (procs U)(p := Idle)\<rparr>)"
    using U(2,3) s(2) by (intro step.gc_end) (auto simp: MemoryStore_slices_def)
  moreover have "(procs U)(p := Idle) = procs S" using U(3) p by (auto simp: T_def)
  moreover have "(step MemoryStore W MemoryStore_slices)\<^sup>*\<^sup>* S U"
    using s1 U(1) by (rule converse_rtranclp_into_rtranclp)
  moreover have "length (shards (in_store (shared U))) = ?len"
    using \<open>length (shards s) = ?len\<close> U(2) s(2) by simp
  ultimately show ?thesis
    using U(2,3) by (intro exI [of _ U] exI [of _ ?low] exI [of _ "U\<lparr>procs := (procs U)(p := Idle)\<rparr>"]) simp
qed

end
