(* ===== verification/Isolation.thy ===== *)
theory Isolation
  imports Concurrency
begin

text \<open>
  What the isolation levels guarantee over every interleaving, and what they do not. The properties
  are about the states the step relation of theory \<open>Concurrency\<close> reaches over the in-memory store;
  the scheduler is the executable form of the relation that the concrete runs use.
\<close>

section \<open>Schedules\<close>

text \<open>An executable scheduler: a schedule is a list of process identifiers and what each does next.\<close>

datatype action =
    Begin bool
  | Get bytes
  | Put bytes bytes
  | Delete bytes
  | Rollback
  | Commit
  | Snap
  | Collect

definition with_proc :: "('s, 'w) system \<Rightarrow> nat \<Rightarrow> process \<Rightarrow> ('s, 'w) system" where
  "with_proc S p x = S\<lparr>procs := (procs S)(p := x)\<rparr>"

definition observe :: "nat \<Rightarrow> observation list \<Rightarrow> ('s, 'w) system \<Rightarrow> ('s, 'w) system" where
  "observe p obs S = S\<lparr>seen := (seen S)(p := obs)\<rparr>"

text \<open>The next step of a commit; \<open>Commit\<close> is scheduled once per shared-state access.\<close>

fun commit_next ::
  "'s version_store \<Rightarrow> 'w wal_ops \<Rightarrow> ('s, 'w) system \<Rightarrow> nat \<Rightarrow> process \<Rightarrow> ('s, 'w) system option" where
  "commit_next V W S p (Open tx) =
     (if writes tx = []
      then Some (with_proc (S\<lparr>shared := ActiveReader_drop (shared S) (active tx)\<rparr>) p
             (Returned (Inr (Transaction_read_timestamp tx))))
      else let (cts, orc) = alloc_commit_ts (in_oracle (shared S))
           in Some (with_proc (S\<lparr>shared := (shared S)\<lparr>in_oracle := orc\<rparr>\<rparr>) p
                (Allocated tx cts (order_writes demo_order (writes tx)) (commit_reads demo_order tx))))"
| "commit_next V W S p (Allocated tx cts batch rs) =
     (let (r, s) = vs_try_commit V (in_store (shared S)) (Transaction_read_timestamp tx) cts batch rs
      in Some ((with_proc (S\<lparr>shared := (shared S)\<lparr>in_store := s\<rparr>\<rparr>) p (Validated tx cts batch r))
           \<lparr>history := history S @ (if isl r then [] else [\<lparr>c_tx = tx, c_ts = cts, c_seen = seen S p\<rparr>])\<rparr>))"
| "commit_next V W S p (Validated tx cts batch (Inl e)) = Some (with_proc S p (Decided tx cts (Inl e)))"
| "commit_next V W S p (Validated tx cts batch (Inr u)) =
     (let (r, d) = log_commit W (shared S) cts batch
      in Some (with_proc (S\<lparr>shared := d\<rparr>) p (Decided tx cts r)))"
| "commit_next V W S p (Decided tx cts r) =
     Some (with_proc (S\<lparr>shared := done_step cts (shared S)\<rparr>) p (Released tx r))"
| "commit_next V W S p (Released tx r) =
     Some (with_proc (S\<lparr>shared := ActiveReader_drop (shared S) (active tx)\<rparr>) p (Returned r))"
| "commit_next V W S p _ = None"

fun perform ::
  "'s version_store \<Rightarrow> 'w wal_ops \<Rightarrow> 's gc_slices \<Rightarrow> ('s, 'w) system \<Rightarrow> nat \<Rightarrow> action \<Rightarrow> ('s, 'w) system option"
where
  "perform V W G S p (Begin ser) =
     (case procs S p of
        Idle \<Rightarrow> (let (tx, d) = Transaction_new (shared S) ser
                 in Some (observe p [] (with_proc (S\<lparr>shared := d\<rparr>) p (Open tx))))
      | _ \<Rightarrow> None)"
| "perform V W G S p (Get k) =
     (case procs S p of
        Open tx \<Rightarrow> (let (r, tx') = Transaction_get V (shared S) tx k
                    in Some (observe p (seen S p @ store_reads tx k r) (with_proc S p (Open tx'))))
      | Viewing sn \<Rightarrow> Some (observe p (seen S p @ snapshot_reads k (Snapshot_get V (shared S) sn k)) S)
      | _ \<Rightarrow> None)"
| "perform V W G S p (Put k v) =
     (case procs S p of Open tx \<Rightarrow> Some (with_proc S p (Open (Transaction_put tx k v))) | _ \<Rightarrow> None)"
| "perform V W G S p (Delete k) =
     (case procs S p of Open tx \<Rightarrow> Some (with_proc S p (Open (Transaction_delete tx k))) | _ \<Rightarrow> None)"
| "perform V W G S p Rollback =
     (case procs S p of
        Open tx \<Rightarrow> Some (with_proc (S\<lparr>shared := Transaction_rollback (shared S) tx\<rparr>) p Idle)
      | Viewing sn \<Rightarrow> Some (with_proc (S\<lparr>shared := Snapshot_drop (shared S) sn\<rparr>) p Idle)
      | _ \<Rightarrow> None)"
| "perform V W G S p Commit = commit_next V W S p (procs S p)"
| "perform V W G S p Snap =
     (case procs S p of
        Idle \<Rightarrow> (let (sn, d) = Snapshot_new (shared S)
                 in Some (observe p [] (with_proc (S\<lparr>shared := d\<rparr>) p (Viewing sn))))
      | _ \<Rightarrow> None)"
| "perform V W G S p Collect =
     (case procs S p of
        Idle \<Rightarrow> Some (with_proc S p (Collecting (low_watermark (in_oracle (shared S))) 0 0))
      | Collecting low i n \<Rightarrow>
          (if i < gc_len G (in_store (shared S))
           then let (m, s) = gc_step G (in_store (shared S)) low i
                in Some (with_proc (S\<lparr>shared := (shared S)\<lparr>in_store := s\<rparr>\<rparr>) p (Collecting low (Suc i) (n + m)))
           else Some (with_proc S p Idle))
      | _ \<Rightarrow> None)"

fun run ::
  "'s version_store \<Rightarrow> 'w wal_ops \<Rightarrow> 's gc_slices \<Rightarrow> (nat \<times> action) list \<Rightarrow> ('s, 'w) system
     \<Rightarrow> ('s, 'w) system option" where
  "run V W G [] S = Some S"
| "run V W G ((p, a) # as) S =
     (if oracle_room (in_oracle (shared S))
      then Option.bind (perform V W G S p a) (run V W G as)
      else None)"

section \<open>Two runs\<close>

text \<open>An empty database with one shard.\<close>

abbreviation key_x :: bytes where "key_x \<equiv> [120]"
abbreviation key_y :: bytes where "key_y \<equiv> [121]"

definition one_shard :: "(memory_store, bytes list) inner" where
  "one_shard = Db_with_store \<lparr>shards = [[]], shard_mask = 0\<rparr>"

lemma quiet_one_shard: "quiet wf_store store_hist one_shard {#}"
proof -
  let ?s = "\<lparr>shards = [[]], shard_mask = 0\<rparr> :: memory_store"
  have "wf_store ?s" by (simp add: wf_store_def wf_chains_def)
  moreover have "store_hist ?s k = []" for k
    by (simp add: store_hist_def chain_of_def shard_of_def)
  ultimately show ?thesis
    using Oracle_new_rep less_one_ZERO
    by (simp add: db_ok_def one_shard_def Db_with_store_def Inner_new_def) (simp add: Oracle_new_def)
qed


text \<open>
  Process 0 writes \<open>x\<close>; process 1 reads \<open>x\<close> and writes \<open>y\<close>, takes the later timestamp and
  is applied first; process 2 begins when only process 0 has reported its timestamp.
\<close>

definition anomaly :: "(nat \<times> action) list" where
  "anomaly =
     [(0, Begin True), (0, Put key_x [1]),
      (1, Begin True), (1, Get key_x), (1, Put key_y [2]),
      (0, Commit), (1, Commit), (1, Commit), (0, Commit), (0, Commit), (0, Commit), (0, Commit),
      (2, Begin True), (2, Get key_x), (2, Get key_y), (2, Commit),
      (1, Commit), (1, Commit), (1, Commit)]"

text \<open>The commit of process 1 is acknowledged while the earlier timestamp of process 0 is pending.\<close>

definition overtaking :: "(nat \<times> action) list" where
  "overtaking =
     [(0, Begin False), (0, Put key_x [1]), (0, Commit),
      (1, Begin False), (1, Put key_y [2]),
      (1, Commit), (1, Commit), (1, Commit), (1, Commit), (1, Commit),
      (2, Begin False), (2, Get key_y)]"

lemma with_proc_simps [simp]:
  "shared (with_proc S p x) = shared S" "procs (with_proc S p x) = (procs S)(p := x)"
  "history (with_proc S p x) = history S" "seen (with_proc S p x) = seen S"
  by (simp_all add: with_proc_def)

text \<open>The scheduler takes only steps of the relation.\<close>

lemma commit_next_step:
  "procs S p = x \<Longrightarrow> commit_next V W S p x = Some S' \<Longrightarrow> step V W G S S'"
proof (induction V W S p x rule: commit_next.induct)
  case (1 V W S p tx)
  then show ?case
    using step.commit_empty [of S p tx] step.commit_alloc [of S p tx demo_order] demo_order_ok
    by (auto simp: with_proc_def split: if_splits prod.splits)
next
  case (2 V W S p tx cts batch rs)
  then show ?case
    using step.commit_apply [of S p tx cts batch rs] by (auto simp: with_proc_def split: prod.splits)
next
  case (3 V W S p tx cts batch e)
  then show ?case using step.commit_conflict [of S p tx cts batch e] by (auto simp: with_proc_def)
next
  case (4 V W S p tx cts batch u)
  then show ?case
    using step.commit_log_step [of S p tx cts batch u W] by (auto simp: with_proc_def split: prod.splits)
next
  case (5 V W S p tx cts r)
  then show ?case using step.commit_done_step [of S p tx cts r] by (auto simp: with_proc_def)
next
  case (6 V W S p tx r)
  then show ?case using step.commit_drop [of S p tx r] by (auto simp: with_proc_def)
qed simp_all

lemma perform_step: "perform V W G S p a = Some S' \<Longrightarrow> step V W G S S'"
proof (cases a)
  case (Begin ser)
  then show "perform V W G S p a = Some S' \<Longrightarrow> step V W G S S'"
    using step.begin_tx [of S p ser]
    by (auto simp: with_proc_def observe_def split: process.splits prod.splits)
next
  case (Get k)
  then show "perform V W G S p a = Some S' \<Longrightarrow> step V W G S S'"
    using step.get_tx [of S p _ V k] step.get_snapshot [of S p _ V k]
    by (auto simp: with_proc_def observe_def split: process.splits prod.splits)
next
  case (Put k v)
  then show "perform V W G S p a = Some S' \<Longrightarrow> step V W G S S'"
    using step.put_tx [of S p _ V W G k v] by (auto simp: with_proc_def split: process.splits)
next
  case (Delete k)
  then show "perform V W G S p a = Some S' \<Longrightarrow> step V W G S S'"
    using step.delete_tx [of S p _ V W G k] by (auto simp: with_proc_def split: process.splits)
next
  case Rollback
  then show "perform V W G S p a = Some S' \<Longrightarrow> step V W G S S'"
    using step.rollback_tx [of S p] step.drop_snapshot [of S p]
    by (auto simp: with_proc_def split: process.splits)
next
  case Commit
  then show "perform V W G S p a = Some S' \<Longrightarrow> step V W G S S'"
    by (simp add: commit_next_step [OF refl])
next
  case Snap
  then show "perform V W G S p a = Some S' \<Longrightarrow> step V W G S S'"
    using step.open_snapshot [of S p]
    by (auto simp: with_proc_def observe_def split: process.splits prod.splits)
next
  case Collect
  then show "perform V W G S p a = Some S' \<Longrightarrow> step V W G S S'"
    using step.gc_begin [of S p] step.gc_next [of S p] step.gc_end [of S p]
    by (auto simp: with_proc_def split: process.splits prod.splits if_splits)
qed

lemma run_reachable:
  "run V W G as S = Some S' \<Longrightarrow> reachable V W G d S \<Longrightarrow> reachable V W G d S'"
proof (induction as arbitrary: S)
  case (Cons pa as)
  obtain p a where pa: "pa = (p, a)" by (cases pa)
  then obtain T where T: "oracle_room (in_oracle (shared S))" "perform V W G S p a = Some T"
    "run V W G as T = Some S'"
    using Cons.prems(1) by (auto split: if_splits bind_splits)
  have "reachable V W G d T"
    using reach_step [OF Cons.prems(2) T(1) perform_step [OF T(2)]] .
  with Cons.IH T(3) show ?case .
qed simp

abbreviation mem_reachable ::
  "'w wal_ops \<Rightarrow> (memory_store, 'w) inner \<Rightarrow> (memory_store, 'w) system \<Rightarrow> bool" where
  "mem_reachable W d S \<equiv> reachable MemoryStore W MemoryStore_slices d S"

abbreviation tx_x :: transaction where
  "tx_x \<equiv> \<lparr>active = \<lparr>active_read_ts = Timestamp 0\<rparr>, writes = [(key_x, Some [1])], reads = Some []\<rparr>"

abbreviation tx_y :: transaction where
  "tx_y \<equiv> \<lparr>active = \<lparr>active_read_ts = Timestamp 0\<rparr>, writes = [(key_y, Some [2])], reads = Some [key_x]\<rparr>"

abbreviation commit_x :: commit where
  "commit_x \<equiv> \<lparr>c_tx = tx_x, c_ts = Timestamp 1, c_seen = []\<rparr>"

abbreviation commit_y :: commit where
  "commit_y \<equiv> \<lparr>c_tx = tx_y, c_ts = Timestamp 2, c_seen = [(key_x, None)]\<rparr>"

lemma anomaly_run:
  "map_option (\<lambda>S. (seen S 2, procs S 2, history S))
     (run MemoryStore list_wal MemoryStore_slices anomaly (start one_shard)) =
   Some ([(key_x, Some [1]), (key_y, None)], Returned (Inr (Timestamp 1)), [commit_y, commit_x])"
  by code_simp

text \<open>The same run up to the second read of process 2, which is still live.\<close>

lemma anomaly_live:
  "map_option (\<lambda>S. (seen S 2, reader_of (procs S 2), history S))
     (run MemoryStore list_wal MemoryStore_slices (take 15 anomaly) (start one_shard)) =
   Some ([(key_x, Some [1]), (key_y, None)], Some (Timestamp 1), [commit_y, commit_x])"
  by code_simp

text \<open>Two transactions in turn write the same key.\<close>

definition handoff :: "(nat \<times> action) list" where
  "handoff =
     [(0, Begin False), (0, Put key_x [1]),
      (0, Commit), (0, Commit), (0, Commit), (0, Commit), (0, Commit),
      (1, Begin False), (1, Put key_x [2]),
      (1, Commit), (1, Commit), (1, Commit), (1, Commit), (1, Commit)]"

lemma handoff_run:
  "map_option history (run MemoryStore list_wal MemoryStore_slices handoff (start one_shard)) =
   Some [\<lparr>c_tx = \<lparr>active = \<lparr>active_read_ts = Timestamp 0\<rparr>, writes = [(key_x, Some [1])], reads = None\<rparr>,
       c_ts = Timestamp 1, c_seen = []\<rparr>,
     \<lparr>c_tx = \<lparr>active = \<lparr>active_read_ts = Timestamp 1\<rparr>, writes = [(key_x, Some [2])], reads = None\<rparr>,
       c_ts = Timestamp 2, c_seen = []\<rparr>]"
  by code_simp

lemma run_obtain:
  assumes "map_option f (run MemoryStore W MemoryStore_slices as (start d)) = Some x"
  obtains S where "mem_reachable W d S" "f S = x"
proof -
  obtain S where S: "run MemoryStore W MemoryStore_slices as (start d) = Some S" "f S = x"
    using assms by blast
  show thesis by (rule that [OF run_reachable [OF S(1) reach_start] S(2)])
qed

lemma store_hist_one_shard [simp]: "store_hist (in_store one_shard) = (\<lambda>_. [])"
  by (simp add: one_shard_def Db_with_store_def Inner_new_def store_hist_def chain_of_def shard_of_def
      fun_eq_iff)

section \<open>Properties\<close>

text \<open>C1. Committed transactions are serializable: whatever the interleaving, collections included,
  the order in which commits were applied is a serial order of them. The newest values in the store
  are what running them one after the other leaves, and every commit of a serializable transaction
  read from the store exactly the state left by the commits before it. So did every commit at either
  level of the keys it also wrote: a read-modify-write never works on a stale value.\<close>

theorem serializable_commits:
  assumes "mem_reachable W d S" "quiet wf_store store_hist d {#}"
  shows "(\<forall>k. latest (store_hist (in_store (shared S)) k) =
      serial_state (store_hist (in_store d)) (history S) k)
    \<and> (\<forall>i<length (history S). \<forall>(k, v)\<in>set (c_seen (history S ! i)).
        reads (c_tx (history S ! i)) \<noteq> None \<or> k \<in> dom (map_of (writes (c_tx (history S ! i)))) \<longrightarrow>
          v = serial_state (store_hist (in_store d)) (take i (history S)) k)"
  using mems.reachable_latest [OF assms] mems.reachable_commit [OF assms]
  unfolding commit_inv_def by blast

theorem serializable_commits_witness:
  "\<exists>S. mem_reachable list_wal one_shard S
     \<and> latest (store_hist (in_store (shared S)) key_y) = Some [2]
     \<and> None = serial_state (\<lambda>_. []) (take 0 (history S)) key_x"
proof -
  obtain S where S: "mem_reachable list_wal one_shard S" "history S = [commit_y, commit_x]"
    by (rule run_obtain [OF anomaly_run]) simp
  have "serial_state (\<lambda>_. []) [commit_y, commit_x] key_y = Some [2]" by code_simp
  moreover have "latest (store_hist (in_store (shared S)) key_y) = serial_state (\<lambda>_. []) (history S) key_y"
    using conjunct1 [OF serializable_commits [OF S(1) quiet_one_shard]] by simp
  moreover have "None = serial_state (\<lambda>_. []) (take 0 (history S)) key_x"
    using conjunct2 [OF serializable_commits [OF S(1) quiet_one_shard], rule_format, of 0 "(key_x, None)"]
    by (simp add: S(2))
  ultimately show ?thesis using S by auto
qed

text \<open>C3. First committer wins: if two commits were applied in this order and the first wrote a key
  the second wrote, or read in serializable mode, then the second one's snapshot includes the first.
  Concurrent transactions never both commit a write to one key: no update is lost.\<close>

theorem first_committer_wins:
  assumes "mem_reachable W d S" "quiet wf_store store_hist d {#}"
    "i < j" "j < length (history S)"
    "k \<in> dom (map_of (writes (c_tx (history S ! i))))" "k \<in> watched (c_tx (history S ! j))"
  shows "c_ts (history S ! i) \<le> Transaction_read_timestamp (c_tx (history S ! j))"
proof -
  have "history S ! i \<in> set (take j (history S))"
    using assms(3,4) by (auto simp: in_set_conv_nth)
  then show ?thesis
    using mems.reachable_commit [OF assms(1,2,4)] assms(5,6) by (auto simp: commit_inv_def)
qed

theorem first_committer_wins_witness:
  "\<exists>S. mem_reachable list_wal one_shard S
     \<and> c_ts (history S ! 0) \<le> Transaction_read_timestamp (c_tx (history S ! 1))"
proof -
  obtain S where S: "mem_reachable list_wal one_shard S" "history S =
    [\<lparr>c_tx = \<lparr>active = \<lparr>active_read_ts = Timestamp 0\<rparr>, writes = [(key_x, Some [1])], reads = None\<rparr>,
       c_ts = Timestamp 1, c_seen = []\<rparr>,
     \<lparr>c_tx = \<lparr>active = \<lparr>active_read_ts = Timestamp 1\<rparr>, writes = [(key_x, Some [2])], reads = None\<rparr>,
       c_ts = Timestamp 2, c_seen = []\<rparr>]"
    by (rule run_obtain [OF handoff_run]) simp
  have "c_ts (history S ! 0) \<le> Transaction_read_timestamp (c_tx (history S ! 1))"
    by (rule first_committer_wins [OF S(1) quiet_one_shard, of 0 1 key_x])
      (simp_all add: S(2) watched_def)
  with S(1) show ?thesis by blast
qed

text \<open>C2. Snapshots are atomic and consistent: a get by a live transaction or snapshot returns the
  state left by exactly the commits with a timestamp at or below its read timestamp, each of them
  whole and all others left out, no matter what was committed or collected since it began.\<close>

theorem atomic_snapshots:
  assumes "mem_reachable W d S" "quiet wf_store store_hist d {#}" "reader_of (procs S p) = Some t"
  shows "MemoryStore_get (in_store (shared S)) k t =
    Inr (serial_state (store_hist (in_store d)) (filter (\<lambda>c. c_ts c \<le> t) (history S)) k)"
  using mems.reachable_get [OF assms] by (simp add: MemoryStore_def)

theorem atomic_snapshots_witness:
  "\<exists>S. mem_reachable list_wal one_shard S
     \<and> MemoryStore_get (in_store (shared S)) key_y (Timestamp 1) = Inr None"
proof -
  obtain S where S: "mem_reachable list_wal one_shard S" "reader_of (procs S 2) = Some (Timestamp 1)"
    "history S = [commit_y, commit_x]"
    by (rule run_obtain [OF anomaly_live]) simp
  have "serial_state (\<lambda>_. []) (filter (\<lambda>c. c_ts c \<le> Timestamp 1) [commit_y, commit_x]) key_y = None"
    by code_simp
  with S(1,3) atomic_snapshots [OF S(1) quiet_one_shard S(2), of key_y] show ?thesis by auto
qed

text \<open>C4. Reads repeat: whatever value a live transaction or snapshot has read from the store, a
  get of the same key returns it again, across commits of other transactions and collections,
  including a collection that is part-way through the shards.\<close>

theorem repeatable_reads:
  assumes "mem_reachable W d S" "quiet wf_store store_hist d {#}" "reader_of (procs S p) = Some t"
    "(k, v) \<in> set (seen S p)"
  shows "MemoryStore_get (in_store (shared S)) k t = Inr v"
  using mems.reachable_seen [OF assms] by (simp add: MemoryStore_def)

theorem repeatable_reads_witness:
  "\<exists>S. mem_reachable list_wal one_shard S
     \<and> MemoryStore_get (in_store (shared S)) key_x (Timestamp 1) = Inr (Some [1])"
proof -
  obtain S where S: "mem_reachable list_wal one_shard S" "reader_of (procs S 2) = Some (Timestamp 1)"
    "(key_x, Some [1]) \<in> set (seen S 2)"
    by (rule run_obtain [OF anomaly_live]) simp
  from S(1) repeatable_reads [OF S(1) quiet_one_shard S(2,3)] show ?thesis by blast
qed

text \<open>Steps taken while the counter has room.\<close>

abbreviation mem_steps ::
  "'w wal_ops \<Rightarrow> (memory_store, 'w) system \<Rightarrow> (memory_store, 'w) system \<Rightarrow> bool" where
  "mem_steps W \<equiv> (\<lambda>S S'. oracle_room (in_oracle (shared S)) \<and> step MemoryStore W MemoryStore_slices S S')\<^sup>*\<^sup>*"

text \<open>C9. The watermark is final: it never moves back, and in every continuation of a run the commits
  at or below it are the ones that were there already. A snapshot taken now can never acquire or lose
  a commit.\<close>

theorem watermark_is_final:
  assumes "mem_reachable W d S" "quiet wf_store store_hist d {#}" "mem_steps W S S'"
    "t \<le> Oracle_read_ts (in_oracle (shared S))"
  shows "Oracle_read_ts (in_oracle (shared S)) \<le> Oracle_read_ts (in_oracle (shared S'))
    \<and> filter (\<lambda>c. c_ts c \<le> t) (history S') = filter (\<lambda>c. c_ts c \<le> t) (history S)"
  using mems.continued [OF assms(3,1,2)] assms(4) by blast

theorem watermark_is_final_witness:
  "\<exists>S. mem_reachable list_wal one_shard S \<and> filter (\<lambda>c. c_ts c \<le> Timestamp 0) (history S) = []"
proof -
  have room: "oracle_room (in_oracle (shared (start one_shard)))"
    by (simp add: start_def one_shard_def Db_with_store_def Inner_new_def Oracle_new_def oracle_room_def)
  have st: "step MemoryStore list_wal MemoryStore_slices (start one_shard)
      (start one_shard\<lparr>procs := (procs (start one_shard))(0 :=
        Collecting (low_watermark (in_oracle (shared (start one_shard)))) 0 0)\<rparr>)" (is "step _ _ _ _ ?S")
    by (rule step.gc_begin) (simp add: start_def)
  then have "mem_steps list_wal (start one_shard) ?S" using room by (simp add: r_into_rtranclp)
  moreover have "Timestamp 0 \<le> Oracle_read_ts (in_oracle (shared (start one_shard)))"
    by (simp add: start_def one_shard_def Db_with_store_def Inner_new_def Oracle_new_def Oracle_read_ts_def
        less_eq_timestamp_def)
  ultimately have "filter (\<lambda>c. c_ts c \<le> Timestamp 0) (history ?S) = []"
    using watermark_is_final [OF reach_start quiet_one_shard, of list_wal ?S "Timestamp 0"]
    by (simp add: start_def)
  moreover have "mem_reachable list_wal one_shard ?S" using reach_step [OF reach_start room st] .
  ultimately show ?thesis by blast
qed

text \<open>C7. Only commits in flight hold the watermark back: a timestamp is readable exactly when it and
  every earlier one have been handed out and reported. When no commit is in flight a new snapshot
  sees every commit made so far, whether or not some of them were rejected.\<close>

theorem watermark_live:
  assumes "mem_reachable W d S" "quiet wf_store store_hist d {#}"
  shows "(t \<le> Oracle_read_ts (in_oracle (shared S)) \<longleftrightarrow>
      (\<forall>u\<le>t. u < next_commit (shared S) \<and> u \<notin> held_set (procs S)))
    \<and> (held_set (procs S) = {} \<longrightarrow> (\<forall>c\<in>set (history S). c_ts c \<le> Oracle_read_ts (in_oracle (shared S))))"
proof -
  note wm = mems.reachable_watermark [OF assms]
  have "c_ts c < next_commit (shared S)" if "c \<in> set (history S)" for c
    using mems.reachable_fresh [OF assms] that by (simp add: fresh_inv_def)
  then show ?thesis using wm by (auto intro: le_less_trans)
qed

theorem watermark_live_witness:
  "\<exists>S. mem_reachable list_wal one_shard S \<and> commit_y \<in> set (history S)
     \<and> c_ts commit_y \<le> Oracle_read_ts (in_oracle (shared S))"
proof -
  have "map_option (\<lambda>S. (history S, Oracle_read_ts (in_oracle (shared S)), next_commit (shared S)))
      (run MemoryStore list_wal MemoryStore_slices anomaly (start one_shard)) =
    Some ([commit_y, commit_x], Timestamp 2, Timestamp 3)" by code_simp
  then obtain S where S: "mem_reachable list_wal one_shard S" "history S = [commit_y, commit_x]"
    "Oracle_read_ts (in_oracle (shared S)) = Timestamp 2"
    by (rule run_obtain) simp
  then have "Timestamp 2 \<notin> held_set (procs S)"
    using watermark_live [OF S(1) quiet_one_shard, of "Timestamp 2"] by auto
  with S show ?thesis by (intro exI [of _ S]) simp
qed

text \<open>Commit timestamps identify commits: no two applied commits share one, each is above the
  snapshot its transaction read from, and below the next timestamp to be handed out.\<close>

theorem commit_timestamps_unique:
  assumes "mem_reachable W d S" "quiet wf_store store_hist d {#}"
  shows "distinct (map c_ts (history S))
    \<and> (\<forall>c\<in>set (history S). Transaction_read_timestamp (c_tx c) < c_ts c \<and> c_ts c < next_commit (shared S))"
proof -
  have "Transaction_read_timestamp (c_tx c) < c_ts c" if "c \<in> set (history S)" for c
    using mems.reachable_commit [OF assms] that by (force simp: in_set_conv_nth commit_inv_def)
  then show ?thesis using mems.reachable_fresh [OF assms] by (simp add: fresh_inv_def)
qed

theorem commit_timestamps_unique_witness:
  "\<exists>S. mem_reachable list_wal one_shard S \<and> length (history S) = 2 \<and> distinct (map c_ts (history S))"
proof -
  obtain S where S: "mem_reachable list_wal one_shard S" "history S = [commit_y, commit_x]"
    by (rule run_obtain [OF anomaly_run]) simp
  from S commit_timestamps_unique [OF S(1) quiet_one_shard] show ?thesis by (intro exI [of _ S]) simp
qed

text \<open>C13. The interleaved model contains the sequential one: from any state, the steps of one
  process's commit with no other process in between produce the result and the shared state of
  \<open>Transaction::commit\<close>, and those of a collection the number of reclaimed versions and the shared
  state of \<open>Db::collect_garbage\<close>.\<close>

theorem uninterrupted_operations:
  assumes "procs S p = Open tx" "procs S q = Idle" "hash_order_ok ord"
  shows "(\<exists>S' r. (step MemoryStore W MemoryStore_slices)\<^sup>*\<^sup>* S S'
      \<and> Transaction_commit ord MemoryStore W (shared S) tx = (r, shared S')
      \<and> procs S' p = Returned r \<and> (\<forall>u. u \<noteq> p \<longrightarrow> procs S' u = procs S u))
    \<and> (\<exists>U low S'. (step MemoryStore W MemoryStore_slices)\<^sup>*\<^sup>* S U
      \<and> procs U q = Collecting low (length (shards (in_store (shared U)))) (fst (Db_collect_garbage MemoryStore (shared S)))
      \<and> step MemoryStore W MemoryStore_slices U S'
      \<and> shared S' = snd (Db_collect_garbage MemoryStore (shared S)) \<and> procs S' = procs S)"
proof -
  obtain r d where com: "Transaction_commit ord MemoryStore W (shared S) tx = (r, d)" by force
  show ?thesis
    using commit_alone [OF assms(1,3) com, of MemoryStore_slices] com
      collect_alone [OF assms(2) prod.collapse [symmetric], of W]
    by (auto simp: Db_collect_garbage_def)
qed

theorem uninterrupted_operations_witness:
  "\<exists>S S' tx r. procs S 0 = Open tx \<and> writes tx = [(key_x, Some [1])] \<and> procs S' 0 = Returned r
     \<and> (step MemoryStore list_wal MemoryStore_slices)\<^sup>*\<^sup>* S S'"
proof -
  let ?tx = "Transaction_put (fst (Db_begin one_shard)) key_x [1]"
  let ?S = "(start one_shard)\<lparr>procs := (\<lambda>_. Idle)(0 := Open ?tx)\<rparr>"
  have p: "procs ?S 0 = Open ?tx" "procs ?S 1 = Idle" by simp_all
  have w: "writes ?tx = [(key_x, Some [1])]" by code_simp
  obtain S' r where "(step MemoryStore list_wal MemoryStore_slices)\<^sup>*\<^sup>* ?S S'" "procs S' 0 = Returned r"
    using conjunct1 [OF uninterrupted_operations [OF p demo_order_ok, of list_wal]] by blast
  then show ?thesis using p(1) w by (intro exI [of _ ?S] exI [of _ S'] exI [of _ ?tx] exI [of _ r] conjI)
qed

text \<open>A list of commits is a serial explanation when each read the state its predecessors left.\<close>

definition explains :: "(bytes \<Rightarrow> version list) \<Rightarrow> commit list \<Rightarrow> bool" where
  "explains h0 A \<longleftrightarrow>
     (\<forall>i<length A. \<forall>(k, v)\<in>set (c_seen (A ! i)). v = serial_state h0 (take i A) k)"

abbreviation reader_xy :: commit where
  "reader_xy \<equiv> \<lparr>c_tx = \<lparr>active = \<lparr>active_read_ts = Timestamp 1\<rparr>, writes = [], reads = Some [key_y, key_x]\<rparr>,
     c_ts = Timestamp 1, c_seen = [(key_x, Some [1]), (key_y, None)]\<rparr>"

text \<open>Process 1 precedes process 0, process 0 precedes the reader, the reader precedes process 1.\<close>

lemma not_explained_orders:
  "\<not> explains (\<lambda>_. []) [commit_y, commit_x, reader_xy]" "\<not> explains (\<lambda>_. []) [commit_y, reader_xy, commit_x]"
  "\<not> explains (\<lambda>_. []) [commit_x, commit_y, reader_xy]" "\<not> explains (\<lambda>_. []) [commit_x, reader_xy, commit_y]"
  "\<not> explains (\<lambda>_. []) [reader_xy, commit_x, commit_y]" "\<not> explains (\<lambda>_. []) [reader_xy, commit_y, commit_x]"
  by code_simp+

lemma three_orders:
  assumes "mset A = mset [x, y, z]"
  shows "A \<in> {[x, y, z], [x, z, y], [y, x, z], [y, z, x], [z, y, x], [z, x, y]}"
proof -
  have "length A = 3" using assms by (metis size_mset length_Cons list.size(3) numeral_3_eq_3)
  then obtain a b c where A: "A = [a, b, c]" by (auto simp: numeral_3_eq_3 length_Suc_conv)
  then have "add_mset a (add_mset b {#c#}) = add_mset x (add_mset y {#z#})" using assms by simp
  then show ?thesis unfolding A by (auto simp: add_eq_conv_ex)
qed

lemma not_explained:
  assumes "mset A = mset [commit_y, commit_x, reader_xy]"
  shows "\<not> explains (\<lambda>_. []) A"
  using three_orders [OF assms] not_explained_orders by blast


end
