(* ===== verification/Client_Programs.thy ===== *)
theory Client_Programs
  imports Isolation
begin

text \<open>
  The example programs as clients of the engine (\<open>src/examples/bank_transfer.rs\<close>,
  \<open>concurrent_counter.rs\<close>, \<open>serializable_doctors.rs\<close>), and what the isolation guarantees make of
  them when their transactions run concurrently. A program's own panics (an \<open>expect\<close>, a slice of a
  value that is too short) are values; its additions wrap, as in a release build.

  The locale \<open>client_invariant\<close> is the interface between the engine and a client: a client shows that
  one commit, working on current values, keeps an invariant of the key-value state, and gets that the
  store and every snapshot satisfy it in every reachable state.
\<close>

section \<open>Definitions\<close>

text \<open>A byte-string literal, and the value of an expression that can panic.\<close>

definition lit :: "string \<Rightarrow> bytes" where
  "lit s = map of_char s"

datatype 'a panics = Panic | Fine (fine: 'a)

subsection \<open>Bank transfer\<close>

fun balance :: "bytes option \<Rightarrow> u64 panics" where
  "balance None = Fine 0"
| "balance (Some bs) = (if length bs < 8 then Panic else Fine (u64_from_le_bytes (take 8 bs)))"

definition set_balance :: "transaction \<Rightarrow> bytes \<Rightarrow> u64 \<Rightarrow> transaction" where
  "set_balance tx account v = Transaction_put tx account (u64_to_le_bytes v)"

text \<open>One round of the loop of \<open>transfer\<close>, up to the commit.\<close>

definition transfer_body ::
  "'s version_store \<Rightarrow> ('s, 'w) inner \<Rightarrow> transaction \<Rightarrow> bytes \<Rightarrow> bytes \<Rightarrow> u64 \<Rightarrow> unit result panics \<times> transaction"
where
  "transfer_body V d tx src dst amount =
     (case Transaction_get V d tx src of
        (Inl e, tx) \<Rightarrow> (Fine (Inl e), tx)
      | (Inr v, tx) \<Rightarrow>
          (case balance v of
             Panic \<Rightarrow> (Panic, tx)
           | Fine from_balance \<Rightarrow>
               (case Transaction_get V d tx dst of
                  (Inl e, tx) \<Rightarrow> (Fine (Inl e), tx)
                | (Inr v, tx) \<Rightarrow>
                    (case balance v of
                       Panic \<Rightarrow> (Panic, tx)
                     | Fine to_balance \<Rightarrow>
                         if from_balance < amount
                         then (Fine (Inl (store_error ''transfer'' ''insufficient funds'')), tx)
                         else (Fine (Inr ()),
                           set_balance (set_balance tx src (from_balance - amount)) dst (to_balance + amount))))))"

partial_function (option) transfer ::
  "hash_order \<Rightarrow> 's version_store \<Rightarrow> 'w wal_ops \<Rightarrow> ('s, 'w) inner \<Rightarrow> bytes \<Rightarrow> bytes \<Rightarrow> u64
     \<Rightarrow> (unit result panics \<times> ('s, 'w) inner) option" where
  "transfer ord V W d src dst amount =
     (let (tx, d) = Db_begin d;
          (r, tx) = transfer_body V d tx src dst amount
      in if r = Fine (Inr ())
         then (let (res, d) = Transaction_commit ord V W d tx
               in if \<not> isl res then Some (Fine (Inr ()), d)
                  else if is_retryable (projl res) then transfer ord V W d src dst amount
                  else Some (Fine (Inl (projl res)), d))
         else Some (r, ActiveReader_drop d (active tx)))"

subsection \<open>Concurrent counter\<close>

abbreviation counter :: bytes where "counter \<equiv> lit ''counter''"

definition read_u64_value :: "bytes \<Rightarrow> u64 panics" where
  "read_u64_value bs = (if length bs < 8 then Panic else Fine (u64_from_le_bytes (take 8 bs)))"

text \<open>One round of the loop of \<open>increment_many\<close>, up to the commit.\<close>

definition increment_body ::
  "'s version_store \<Rightarrow> ('s, 'w) inner \<Rightarrow> transaction \<Rightarrow> unit panics \<times> transaction" where
  "increment_body V d tx =
     (case Transaction_get V d tx counter of
        (Inl e, tx) \<Rightarrow> (Panic, tx)
      | (Inr v, tx) \<Rightarrow>
          (case (case v of None \<Rightarrow> Fine 0 | Some b \<Rightarrow> read_u64_value b) of
             Panic \<Rightarrow> (Panic, tx)
           | Fine current \<Rightarrow> (Fine (), Transaction_put tx counter (u64_to_le_bytes (current + 1)))))"

text \<open>The loop around one increment; it counts the commits that had to retry.\<close>

partial_function (option) increment ::
  "hash_order \<Rightarrow> 's version_store \<Rightarrow> 'w wal_ops \<Rightarrow> ('s, 'w) inner \<Rightarrow> u64
     \<Rightarrow> (u64 panics \<times> ('s, 'w) inner) option" where
  "increment ord V W d retries =
     (let (tx, d) = Db_begin d;
          (r, tx) = increment_body V d tx
      in if r = Panic then Some (Panic, ActiveReader_drop d (active tx))
         else (let (res, d) = Transaction_commit ord V W d tx
               in if \<not> isl res then Some (Fine retries, d)
                  else if is_retryable (projl res) then increment ord V W d (retries + 1)
                  else Some (Panic, d)))"

fun increment_many ::
  "hash_order \<Rightarrow> 's version_store \<Rightarrow> 'w wal_ops \<Rightarrow> ('s, 'w) inner \<Rightarrow> nat \<Rightarrow> u64
     \<Rightarrow> (u64 panics \<times> ('s, 'w) inner) option" where
  "increment_many ord V W d 0 retries = Some (Fine retries, d)"
| "increment_many ord V W d (Suc n) retries =
     (case increment ord V W d retries of
        None \<Rightarrow> None
      | Some (Panic, d) \<Rightarrow> Some (Panic, d)
      | Some (Fine retries, d) \<Rightarrow> increment_many ord V W d n retries)"

subsection \<open>Doctors on call\<close>

abbreviation ALICE :: bytes where "ALICE \<equiv> lit ''on_call:alice''"
abbreviation BOB :: bytes where "BOB \<equiv> lit ''on_call:bob''"

datatype level = Snapshot | Serializable

record outcome =
  alice_committed :: bool
  bob_committed :: bool
  on_call :: nat

definition begin_tx_at :: "('s, 'w) inner \<Rightarrow> level \<Rightarrow> transaction \<times> ('s, 'w) inner" where
  "begin_tx_at d l = (case l of Snapshot \<Rightarrow> Db_begin d | Serializable \<Rightarrow> Db_begin_serializable d)"

text \<open>The doctors of the list a transaction sees on call.\<close>

fun count_on_call ::
  "'s version_store \<Rightarrow> ('s, 'w) inner \<Rightarrow> transaction \<Rightarrow> bytes list \<Rightarrow> nat \<times> transaction" where
  "count_on_call V d tx [] = (0, tx)"
| "count_on_call V d tx (doctor # ds) =
     (let (r, tx) = Transaction_get V d tx doctor;
          (n, tx) = count_on_call V d tx ds
      in ((if r = Inr (Some [1]) then 1 else 0) + n, tx))"

definition try_go_off_call ::
  "'s version_store \<Rightarrow> ('s, 'w) inner \<Rightarrow> transaction \<Rightarrow> bytes \<Rightarrow> bool \<times> transaction" where
  "try_go_off_call V d tx doctor =
     (let (on_call, tx) = count_on_call V d tx [ALICE, BOB]
      in if 2 \<le> on_call then (True, Transaction_put tx doctor [0]) else (False, tx))"

text \<open>
  The schedule of \<open>run\<close>: both transactions begin, both decide, both commit. A transaction that is not
  committed lives until the end, when the values still in scope are dropped.
\<close>

definition run_doctors ::
  "hash_order \<Rightarrow> 's version_store \<Rightarrow> 'w wal_ops \<Rightarrow> ('s, 'w) inner \<Rightarrow> level \<Rightarrow> outcome result \<times> ('s, 'w) inner"
where
  "run_doctors ord V W d l =
     (let (seed, d) = Db_begin d;
          seed = Transaction_put seed ALICE [1];
          seed = Transaction_put seed BOB [1];
          (r, d) = Transaction_commit ord V W d seed
      in case r of
           Inl e \<Rightarrow> (Inl e, d)
         | Inr _ \<Rightarrow>
             (let (alice, d) = begin_tx_at d l;
                  (bob, d) = begin_tx_at d l;
                  (a, alice) = try_go_off_call V d alice ALICE;
                  (b, bob) = try_go_off_call V d bob BOB;
                  (ra, da) = Transaction_commit ord V W d alice;
                  d = (if a then da else d);
                  (rb, db) = Transaction_commit ord V W d bob;
                  d = (if b then db else d);
                  (snap, d) = Db_snapshot d;
                  n = length (filter (\<lambda>doctor. Snapshot_get V d snap doctor = Inr (Some [1])) [ALICE, BOB]);
                  d = Snapshot_drop d snap;
                  d = (if b then d else ActiveReader_drop d (active bob));
                  d = (if a then d else ActiveReader_drop d (active alice))
              in (Inr \<lparr>alice_committed = a \<and> \<not> isl ra, bob_committed = b \<and> \<not> isl rb, on_call = n\<rparr>, d)))"

section \<open>Client invariants\<close>

locale client_invariant =
  fixes allowed :: "commit \<Rightarrow> bool" and I :: "nat \<Rightarrow> kv \<Rightarrow> bool"
  assumes keeps:
    "allowed c \<Longrightarrow> I n m \<Longrightarrow>
      (\<And>k v. (k, v) \<in> set (c_seen c) \<Longrightarrow> reads (c_tx c) \<noteq> None \<or> k \<in> dom (map_of (writes (c_tx c))) \<Longrightarrow> v = m k) \<Longrightarrow>
      I (Suc n) (apply_commit m c)"
begin

lemma history_keeps:
  "history_inv h0 A \<Longrightarrow> \<forall>c\<in>set A. allowed c \<Longrightarrow> I 0 (\<lambda>k. latest (h0 k)) \<Longrightarrow> I (length A) (serial_state h0 A)"
proof (induction A rule: rev_induct)
  case (snoc c A)
  then have c: "commit_inv h0 A c" "allowed c" "I (length A) (serial_state h0 A)"
    by (simp_all add: history_inv_snoc)
  have "v = serial_state h0 A k"
    if "(k, v) \<in> set (c_seen c)" "reads (c_tx c) \<noteq> None \<or> k \<in> dom (map_of (writes (c_tx c)))" for k v
    using c(1) that unfolding commit_inv_def by blast
  then show ?case using keeps [OF c(2,3)] by simp
qed (simp add: serial_state_def)

lemma holds:
  assumes r: "mem_reachable W d S" and q: "quiet wf_store store_hist d {#}"
    and all: "\<forall>c\<in>set (history S). allowed c" and init: "I 0 (\<lambda>k. latest (store_hist (in_store d) k))"
  shows "I (length (history S)) (\<lambda>k. latest (store_hist (in_store (shared S)) k))"
    and "reader_of (procs S p) = Some t \<Longrightarrow> \<exists>m. (\<forall>k. vs_get MemoryStore (in_store (shared S)) k t = Inr (m k))
      \<and> I (length (filter (\<lambda>c. c_ts c \<le> t) (history S))) m"
proof -
  note hist = inv_atD(7) [OF mems.reachable_at [OF r q]]
  show "I (length (history S)) (\<lambda>k. latest (store_hist (in_store (shared S)) k))"
    using history_keeps [OF hist all init] by (simp add: mems.reachable_latest [OF r q])
  assume p: "reader_of (procs S p) = Some t"
  have "I (length (filter (\<lambda>c. c_ts c \<le> t) (history S)))
      (serial_state (store_hist (in_store d)) (filter (\<lambda>c. c_ts c \<le> t) (history S)))"
    using history_keeps [OF history_inv_filter [OF hist] _ init] all by simp
  then show "\<exists>m. (\<forall>k. vs_get MemoryStore (in_store (shared S)) k t = Inr (m k))
      \<and> I (length (filter (\<lambda>c. c_ts c \<le> t) (history S))) m"
    using mems.reachable_get [OF r q p] by blast
qed

end


section \<open>Bank transfer\<close>

text \<open>
  A commit that one round of \<open>transfer src dst amount\<close> made, from what it saw. The code does not
  compare the two accounts; for the money to be conserved they must differ.
\<close>

definition transfers :: "bytes \<Rightarrow> bytes \<Rightarrow> u64 \<Rightarrow> commit \<Rightarrow> bool" where
  "transfers src dst amount c \<longleftrightarrow>
     (\<exists>(d :: (memory_store, unit) inner) tx v w. writes tx = [] \<and> c_seen c = [(src, v), (dst, w)]
        \<and> fst (Transaction_get MemoryStore d tx src) = Inr v \<and> fst (Transaction_get MemoryStore d tx dst) = Inr w
        \<and> transfer_body MemoryStore d tx src dst amount = (Fine (Inr ()), c_tx c))"

definition transfers_within :: "bytes set \<Rightarrow> commit \<Rightarrow> bool" where
  "transfers_within accounts c \<longleftrightarrow>
     (\<exists>src\<in>accounts. \<exists>dst\<in>accounts. src \<noteq> dst \<and> (\<exists>amount. transfers src dst amount c))"

definition funds :: "kv \<Rightarrow> bytes \<Rightarrow> nat" where
  "funds m a = unat (fine (balance (m a)))"

definition total_is :: "bytes set \<Rightarrow> nat \<Rightarrow> kv \<Rightarrow> bool" where
  "total_is accounts T m \<longleftrightarrow> finite accounts \<and> T < 2 ^ 64 \<and> (\<forall>a\<in>accounts. balance (m a) \<noteq> Panic)
     \<and> (\<Sum>a\<in>accounts. funds m a) = T"

lemma balance_bytes [simp]: "balance (Some (u64_to_le_bytes x)) = Fine x"
  by (simp add: u64_le_roundtrip)

lemma Transaction_get_writes [simp]:
  "writes (snd (Transaction_get V d tx k)) = writes tx" "active (snd (Transaction_get V d tx k)) = active tx"
  by (simp_all add: Transaction_get_def split: option.split sum.split)

lemma Transaction_get_result:
  "fst (Transaction_get V d (snd (Transaction_get V d tx k)) k') = fst (Transaction_get V d tx k')"
  by (simp add: Transaction_get_def split: option.split sum.split)

text \<open>What a round that gets as far as the commit has read and buffered.\<close>

lemma transfer_body_cases:
  assumes "fst (Transaction_get V d tx src) = Inr v" "fst (Transaction_get V d tx dst) = Inr w"
    "transfer_body V d tx src dst amount = (r, tx')"
  obtains (panic) "r = Panic" "balance v = Panic \<or> balance w = Panic"
  | (poor) x y where "balance v = Fine x" "balance w = Fine y" "x < amount"
      "r = Fine (Inl (store_error ''transfer'' ''insufficient funds''))" "writes tx' = writes tx" "active tx' = active tx"
  | (moved) x y where "balance v = Fine x" "balance w = Fine y" "amount \<le> x" "r = Fine (Inr ())"
      "writes tx' = hm_insert dst (Some (u64_to_le_bytes (y + amount)))
        (hm_insert src (Some (u64_to_le_bytes (x - amount))) (writes tx))" "active tx' = active tx"
proof -
  define tx1 where "tx1 = snd (Transaction_get V d tx src)"
  define tx2 where "tx2 = snd (Transaction_get V d tx1 dst)"
  have g: "Transaction_get V d tx src = (Inr v, tx1)" "Transaction_get V d tx1 dst = (Inr w, tx2)"
    "writes tx2 = writes tx" "active tx2 = active tx"
    using assms(1,2) Transaction_get_result [of V d tx src dst]
    by (simp_all add: tx1_def tx2_def prod_eq_iff)
  then show thesis
    using assms(3) that
    by (auto simp: transfer_body_def set_balance_def Transaction_put_def not_less split: panics.splits if_splits)
qed

lemma funds_moved:
  assumes I: "total_is accounts T m" and acc: "src \<in> accounts" "dst \<in> accounts" "src \<noteq> dst"
    and bal: "balance (m src) = Fine x" "balance (m dst) = Fine y" "amount \<le> x"
    and m': "\<And>a. m' a = (if a = dst then Some (u64_to_le_bytes (y + amount))
      else if a = src then Some (u64_to_le_bytes (x - amount)) else m a)"
  shows "total_is accounts T m'"
proof -
  let ?rest = "accounts - {src} - {dst}"
  have fin: "finite accounts" using I by (simp add: total_is_def)
  have split: "(\<Sum>a\<in>accounts. funds f a) = funds f src + (funds f dst + (\<Sum>a\<in>?rest. funds f a))" for f
    using fin acc by (simp add: sum.remove [of accounts src] sum.remove [of "accounts - {src}" dst])
  have tot: "unat x + (unat y + (\<Sum>a\<in>?rest. funds m a)) = T" "T < 2 ^ 64"
    using I split [of m] bal by (simp_all add: total_is_def funds_def)
  have le: "unat amount \<le> unat x" using bal(3) by (simp add: word_le_nat_alt)
  then have "unat (y + amount) = unat y + unat amount"
    using tot by (intro unat_add_lem [THEN iffD1]) simp
  moreover have "unat (x - amount) = unat x - unat amount" using bal(3) by (rule unat_sub)
  moreover have "(\<Sum>a\<in>?rest. funds m' a) = (\<Sum>a\<in>?rest. funds m a)"
    by (rule sum.cong) (simp_all add: m' funds_def)
  moreover have "funds m' src = unat (x - amount)" "funds m' dst = unat (y + amount)"
    using acc(3) by (simp_all add: funds_def m' u64_le_roundtrip)
  ultimately have "(\<Sum>a\<in>accounts. funds m' a) = T"
    unfolding split [of m'] using tot(1) le by simp
  moreover have "balance (m' a) \<noteq> Panic" if "a \<in> accounts" for a
    using I that by (simp add: m' total_is_def)
  ultimately show ?thesis using fin tot(2) by (simp add: total_is_def)
qed

interpretation bank: client_invariant "transfers_within accounts" "\<lambda>n. total_is accounts T" for accounts T
proof
  fix c and m :: kv
  assume c: "transfers_within accounts c" and I: "total_is accounts T m"
    and seen: "\<And>k v. (k, v) \<in> set (c_seen c) \<Longrightarrow>
      reads (c_tx c) \<noteq> None \<or> k \<in> dom (map_of (writes (c_tx c))) \<Longrightarrow> v = m k"
  from c obtain d :: "(memory_store, unit) inner" and tx src dst amount v w where t: "writes tx = []"
    "c_seen c = [(src, v), (dst, w)]" "fst (Transaction_get MemoryStore d tx src) = Inr v"
    "fst (Transaction_get MemoryStore d tx dst) = Inr w"
    "transfer_body MemoryStore d tx src dst amount = (Fine (Inr ()), c_tx c)"
    "src \<in> accounts" "dst \<in> accounts" "src \<noteq> dst"
    unfolding transfers_within_def transfers_def by blast
  from t(3-5) show "total_is accounts T (apply_commit m c)"
  proof (cases rule: transfer_body_cases)
    case (moved x y)
    then have w: "writes (c_tx c) = [(src, Some (u64_to_le_bytes (x - amount))), (dst, Some (u64_to_le_bytes (y + amount)))]"
      using t(1,8) by simp
    then have "v = m src" "w = m dst" using seen [of src v] seen [of dst w] t(2) by simp_all
    then have "balance (m src) = Fine x" "balance (m dst) = Fine y" using moved(1,2) by simp_all
    moreover have "apply_commit m c a = (if a = dst then Some (u64_to_le_bytes (y + amount))
      else if a = src then Some (u64_to_le_bytes (x - amount)) else m a)" for a
      using t(8) by (simp add: apply_commit_def w)
    ultimately show ?thesis by (intro funds_moved [OF I t(6-8) _ _ moved(3)])
  qed simp_all
qed


section \<open>Concurrent counter\<close>

text \<open>A commit that one round of \<open>increment_many\<close> made.\<close>

definition increments :: "commit \<Rightarrow> bool" where
  "increments c \<longleftrightarrow>
     (\<exists>(d :: (memory_store, unit) inner) tx v. writes tx = [] \<and> c_seen c = [(counter, v)]
        \<and> fst (Transaction_get MemoryStore d tx counter) = Inr v
        \<and> increment_body MemoryStore d tx = (Fine (), c_tx c))"

definition counter_is :: "u64 \<Rightarrow> nat \<Rightarrow> kv \<Rightarrow> bool" where
  "counter_is x n m \<longleftrightarrow> (case m counter of None \<Rightarrow> Fine 0 | Some b \<Rightarrow> read_u64_value b) = Fine (x + word_of_nat n)"

lemma read_u64_bytes [simp]: "read_u64_value (u64_to_le_bytes x) = Fine x"
  by (simp add: read_u64_value_def u64_le_roundtrip)

lemma increment_body_done:
  assumes "fst (Transaction_get V d tx counter) = Inr v" "increment_body V d tx = (Fine u, tx')"
  obtains x where "(case v of None \<Rightarrow> Fine 0 | Some b \<Rightarrow> read_u64_value b) = Fine x"
    "writes tx' = hm_insert counter (Some (u64_to_le_bytes (x + 1))) (writes tx)" "active tx' = active tx"
proof -
  obtain tx1 where g: "Transaction_get V d tx counter = (Inr v, tx1)" "writes tx1 = writes tx" "active tx1 = active tx"
    using assms(1) Transaction_get_writes [of V d tx counter] by (metis prod.collapse)
  then show thesis
    using assms(2) that
    by (cases "case v of None \<Rightarrow> Fine 0 | Some b \<Rightarrow> read_u64_value b") (auto simp: increment_body_def Transaction_put_def)
qed

interpretation count: client_invariant increments "counter_is x" for x
proof
  fix c n m
  assume c: "increments c" and I: "counter_is x n m"
    and seen: "\<And>k v. (k, v) \<in> set (c_seen c) \<Longrightarrow>
      reads (c_tx c) \<noteq> None \<or> k \<in> dom (map_of (writes (c_tx c))) \<Longrightarrow> v = m k"
  from c obtain d :: "(memory_store, unit) inner" and tx v where t: "writes tx = []" "c_seen c = [(counter, v)]"
    "fst (Transaction_get MemoryStore d tx counter) = Inr v"
    "increment_body MemoryStore d tx = (Fine (), c_tx c)"
    unfolding increments_def by blast
  from t(3,4) obtain y where y: "(case v of None \<Rightarrow> Fine 0 | Some b \<Rightarrow> read_u64_value b) = Fine y"
    "writes (c_tx c) = hm_insert counter (Some (u64_to_le_bytes (y + 1))) (writes tx)"
    by (rule increment_body_done)
  have w: "writes (c_tx c) = [(counter, Some (u64_to_le_bytes (y + 1)))]" using y(2) t(1) by simp
  then have "v = m counter" using seen [of counter v] t(2) by simp
  then have "y = x + word_of_nat n" using y(1) I by (simp add: counter_is_def)
  then show "counter_is x (Suc n) (apply_commit m c)"
    by (simp add: counter_is_def apply_commit_def w ac_simps)
qed

section \<open>Doctors on call\<close>

text \<open>A serializable commit that \<open>try_go_off_call\<close> made.\<close>

definition goes_off_call :: "commit \<Rightarrow> bool" where
  "goes_off_call c \<longleftrightarrow>
     (\<exists>(d :: (memory_store, unit) inner) tx v w doctor. writes tx = [] \<and> reads tx \<noteq> None
        \<and> c_seen c = [(ALICE, v), (BOB, w)]
        \<and> fst (Transaction_get MemoryStore d tx ALICE) = Inr v \<and> fst (Transaction_get MemoryStore d tx BOB) = Inr w
        \<and> try_go_off_call MemoryStore d tx doctor = (True, c_tx c) \<and> doctor \<in> {ALICE, BOB})"

definition someone_on_call :: "kv \<Rightarrow> bool" where
  "someone_on_call m \<longleftrightarrow> (\<exists>doctor\<in>{ALICE, BOB}. m doctor = Some [1])"

lemma ALICE_BOB [simp]: "ALICE \<noteq> BOB"
  by (simp add: lit_def)

lemma Transaction_get_tracks [simp]: "reads (snd (Transaction_get V d tx k)) = None \<longleftrightarrow> reads tx = None"
  by (auto simp: Transaction_get_def split: option.split sum.split)

lemma try_go_off_call_done:
  assumes "fst (Transaction_get V d tx ALICE) = Inr v" "fst (Transaction_get V d tx BOB) = Inr w"
    "try_go_off_call V d tx doctor = (True, tx')"
  shows "v = Some [1] \<and> w = Some [1] \<and> writes tx' = hm_insert doctor (Some [0]) (writes tx)
    \<and> (reads tx \<noteq> None \<longrightarrow> reads tx' \<noteq> None)"
proof -
  define tx1 where "tx1 = snd (Transaction_get V d tx ALICE)"
  define tx2 where "tx2 = snd (Transaction_get V d tx1 BOB)"
  have g: "Transaction_get V d tx ALICE = (Inr v, tx1)" "Transaction_get V d tx1 BOB = (Inr w, tx2)"
    "writes tx2 = writes tx" "reads tx2 = None \<longleftrightarrow> reads tx = None"
    using assms(1,2) Transaction_get_result [of V d tx ALICE BOB]
    by (simp_all add: tx1_def tx2_def prod_eq_iff)
  then show ?thesis
    using assms(3) by (auto simp: try_go_off_call_def Transaction_put_def split: if_splits)
qed

interpretation doctors: client_invariant goes_off_call "\<lambda>n. someone_on_call"
proof
  fix c and m :: kv
  assume c: "goes_off_call c" and I: "someone_on_call m"
    and seen: "\<And>k v. (k, v) \<in> set (c_seen c) \<Longrightarrow>
      reads (c_tx c) \<noteq> None \<or> k \<in> dom (map_of (writes (c_tx c))) \<Longrightarrow> v = m k"
  from c obtain d :: "(memory_store, unit) inner" and tx v w doctor where t: "writes tx = []" "reads tx \<noteq> None"
    "c_seen c = [(ALICE, v), (BOB, w)]" "fst (Transaction_get MemoryStore d tx ALICE) = Inr v"
    "fst (Transaction_get MemoryStore d tx BOB) = Inr w"
    "try_go_off_call MemoryStore d tx doctor = (True, c_tx c)" "doctor \<in> {ALICE, BOB}"
    unfolding goes_off_call_def by blast
  note off = try_go_off_call_done [OF t(4-6)]
  then have "reads (c_tx c) \<noteq> None" using t(2) by blast
  then have "v = m ALICE" "w = m BOB" using seen [of ALICE v] seen [of BOB w] unfolding t(3) by simp_all
  then have on: "m ALICE = Some [1]" "m BOB = Some [1]" using off by simp_all
  have w: "writes (c_tx c) = [(doctor, Some [0])]" using off t(1) by simp
  have "apply_commit m c BOB = Some [1]" if "doctor = ALICE"
    using on(2) that not_sym [OF ALICE_BOB] by (simp add: apply_commit_def w)
  moreover have "apply_commit m c ALICE = Some [1]" if "doctor = BOB"
    using on(1) that ALICE_BOB by (simp add: apply_commit_def w)
  ultimately show "someone_on_call (apply_commit m c)"
    using t(7) unfolding someone_on_call_def by blast
qed


section \<open>Sequential runs\<close>

lemma begin_tx_at_eq:
  "begin_tx_at d l = Transaction_new d (l = Serializable)"
  by (cases l) (simp_all add: begin_tx_at_def Db_begin_def Db_begin_serializable_def)

lemma new_tx_frame [simp]:
  "in_store (snd (Transaction_new d b)) = in_store d" "in_log (snd (Transaction_new d b)) = in_log d"
  "next_ts (in_oracle (snd (Transaction_new d b))) = next_ts (in_oracle d)"
  "Oracle_read_ts (in_oracle (snd (Transaction_new d b))) = Oracle_read_ts (in_oracle d)"
  by (simp_all add: Transaction_new_eq)

lemma quiet_begin:
  "quiet invar hist d M \<Longrightarrow>
     quiet invar hist (snd (Transaction_new d b)) (add_mset (Oracle_read_ts (in_oracle d)) M)"
  using db_ok_begin [of invar hist d "{..<next_commit d}" M b] by simp

text \<open>A transaction begun and dropped leaves no trace.\<close>

lemma quiet_begin_drop:
  assumes "quiet invar hist d M"
  shows "quiet invar hist (ActiveReader_drop (snd (Db_begin d)) (active (fst (Db_begin d)))) M"
proof -
  let ?d = "ActiveReader_drop (snd (Db_begin d)) (active (fst (Db_begin d)))"
  have "next_ts (in_oracle ?d) = next_ts (in_oracle d)" by (simp add: ActiveReader_drop_eq Db_begin_def)
  then have "quiet invar hist ?d (add_mset (Oracle_read_ts (in_oracle d)) M - {#active_read_ts (active (fst (Db_begin d)))#})"
    using db_ok_drop [OF db_ok_begin [OF assms, of False], of "active (fst (Db_begin d))"]
    by (simp add: Db_begin_def Transaction_new_eq)
  then show ?thesis by (simp add: Db_begin_def Transaction_new_eq)
qed

lemma room_after:
  assumes "next_ts (in_oracle d) < - 3"
  shows "next_ts (in_oracle d') = next_ts (in_oracle d) \<Longrightarrow> oracle_room (in_oracle d')"
    "next_ts (in_oracle d') = next_ts (in_oracle d) + 1 \<Longrightarrow> oracle_room (in_oracle d')"
    "next_ts (in_oracle d') = next_ts (in_oracle d) + 1 + 1 \<Longrightarrow> oracle_room (in_oracle d')"
proof -
  have "next_ts (in_oracle d) \<noteq> - 1" "next_ts (in_oracle d) \<noteq> - 2" "next_ts (in_oracle d) \<noteq> - 3"
    using assms by auto
  moreover have "x + 1 = - 1 \<longleftrightarrow> x = - 2" "x + 1 + 1 = - 1 \<longleftrightarrow> x = - 3" for x :: u64
    by (simp_all add: eq_diff_eq [symmetric] add.assoc)
  ultimately show "next_ts (in_oracle d') = next_ts (in_oracle d) \<Longrightarrow> oracle_room (in_oracle d')"
    "next_ts (in_oracle d') = next_ts (in_oracle d) + 1 \<Longrightarrow> oracle_room (in_oracle d')"
    "next_ts (in_oracle d') = next_ts (in_oracle d) + 1 + 1 \<Longrightarrow> oracle_room (in_oracle d')"
    by (simp_all add: oracle_room_def)
qed

lemma room_for: "unat (next_ts orc) + Suc n < 2 ^ 64 \<Longrightarrow> oracle_room orc"
proof -
  have "unat (- 1 :: u64) = 2 ^ 64 - 1" by (simp only: unsigned_minus_1_eq_mask mask_eq_exp_minus_1) simp
  then show "unat (next_ts orc) + Suc n < 2 ^ 64 \<Longrightarrow> oracle_room orc" by (auto simp: oracle_room_def)
qed

context store_contract
begin

text \<open>A commit with no other in flight and no log.\<close>

lemma quiet_commit_cases:
  assumes q: "quiet invar hist d M" and room: "oracle_room (in_oracle d)" and ord: "hash_order_ok ord"
    and log: "in_log d = None" and tx: "tx_ok tx" "writes tx \<noteq> []" "Transaction_read_timestamp tx \<in># M"
  obtains (conflict) k d' where "k \<in> watched tx" "changed_since (hist (in_store d) k) (Transaction_read_timestamp tx)"
      "Transaction_commit ord V W d tx = (Inl (conflict (length k)), d')" "in_store d' = in_store d"
      "in_log d' = None" "quiet invar hist d' (M - {#Transaction_read_timestamp tx#})"
      "next_ts (in_oracle d') = next_ts (in_oracle d) + 1"
  | (applied) d' where "\<And>k. k \<in> watched tx \<Longrightarrow> \<not> changed_since (hist (in_store d) k) (Transaction_read_timestamp tx)"
      "Transaction_commit ord V W d tx = (Inr (next_commit d), d')"
      "\<And>k. hist (in_store d') k = hist (in_store d) k @ own_version (next_commit d) tx k"
      "in_log d' = None" "quiet invar hist d' (M - {#Transaction_read_timestamp tx#})"
      "next_ts (in_oracle d') = next_ts (in_oracle d) + 1"
  using q room ord tx
proof (cases rule: commit_cases [where W = W])
  case (conflict k d')
  then show thesis using quiet_insert [OF room, of d'] log by (intro that(1) [of k d']) simp_all
next
  case (applied d')
  then show thesis using quiet_insert [OF room, of d'] log by (intro that(2) [of d']) auto
next
  case (unlogged e l l' d')
  then show thesis using log by simp
qed

lemma quiet_read_latest:
  assumes "quiet invar hist d M"
  shows "vs_get V (in_store d) k (Oracle_read_ts (in_oracle d)) = Inr (latest (hist (in_store d) k))"
  using assms quiet_no_change [OF assms] by (simp add: db_ok_def get_law unchanged_read_latest)

text \<open>A get and a commit of a transaction begun on a quiet database.\<close>

lemma quiet_begin_get:
  assumes "quiet invar hist d M"
  shows "fst (Transaction_get V (snd (Db_begin d)) (fst (Db_begin d)) k) = Inr (latest (hist (in_store d) k))"
  using quiet_read_latest [OF assms, of k]
  by (simp add: Db_begin_def Transaction_new_eq Transaction_get_def)

lemma quiet_begin_commit:
  assumes q: "quiet invar hist d M" and room: "oracle_room (in_oracle d)" and ord: "hash_order_ok ord"
    and log: "in_log d = None" and tx: "tx_ok tx" "writes tx \<noteq> []" "active tx = active (fst (Db_begin d))"
  obtains d' where "Transaction_commit ord V W (snd (Db_begin d)) tx = (Inr (next_commit d), d')" "in_log d' = None"
    "quiet invar hist d' M" "next_ts (in_oracle d') = next_ts (in_oracle d) + 1"
    "\<And>k. hist (in_store d') k = hist (in_store d) k @ own_version (next_commit d) tx k"
proof -
  let ?b = "snd (Db_begin d)"
  have b: "in_store ?b = in_store d" "in_log ?b = None" "next_ts (in_oracle ?b) = next_ts (in_oracle d)"
    using log by (simp_all add: Db_begin_def)
  have ts: "Transaction_read_timestamp tx = Oracle_read_ts (in_oracle d)"
    using tx(3) by (simp add: Transaction_read_timestamp_def Db_begin_def Transaction_new_eq)
  have "oracle_room (in_oracle ?b)" using room b(3) by (simp add: oracle_room_def)
  then show thesis
  proof (cases rule: quiet_commit_cases [OF quiet_begin [OF q, of False, folded Db_begin_def] _ ord b(2) tx(1,2), where W = W])
    case (3 k d')
    then show thesis using quiet_no_change [OF q] ts b by simp
  next
    case (4 d')
    then show thesis using b ts by (intro that [of d']) simp_all
  qed (simp_all add: ts)
qed

lemma quiet_transfer:
  assumes q: "quiet invar hist d M" and room: "oracle_room (in_oracle d)" and ord: "hash_order_ok ord"
    and log: "in_log d = None" and bal: "balance (latest (hist (in_store d) src)) = Fine x"
      "balance (latest (hist (in_store d) dst)) = Fine y"
  shows "\<exists>r d'. transfer ord V W d src dst amount = Some (r, d') \<and> quiet invar hist d' M \<and> in_log d' = None \<and>
    (if x < amount then r = Fine (Inl (store_error ''transfer'' ''insufficient funds'')) \<and> in_store d' = in_store d
     else r = Fine (Inr ()) \<and> next_ts (in_oracle d') = next_ts (in_oracle d) + 1 \<and> (\<forall>k. latest (hist (in_store d') k) =
       (if k = dst then Some (u64_to_le_bytes (y + amount)) else if k = src then Some (u64_to_le_bytes (x - amount))
        else latest (hist (in_store d) k))))"
proof -
  let ?tx = "fst (Db_begin d)" and ?b = "snd (Db_begin d)"
  have new: "writes ?tx = []" "active_read_ts (active ?tx) = Oracle_read_ts (in_oracle d)"
    by (simp_all add: Db_begin_def Transaction_new_eq)
  obtain r tx where body: "transfer_body V ?b ?tx src dst amount = (r, tx)" by force
  note get = quiet_begin_get [OF q]
  from get [of src] get [of dst] body show ?thesis
  proof (cases rule: transfer_body_cases)
    case (poor x' y')
    have "quiet invar hist (ActiveReader_drop ?b (active tx)) M"
      using db_ok_drop [OF quiet_begin [OF q, of False, folded Db_begin_def], of "active tx"] poor(6) new(2)
      by (simp add: ActiveReader_drop_eq Db_begin_def)
    moreover have "in_store (ActiveReader_drop ?b (active tx)) = in_store d" "in_log (ActiveReader_drop ?b (active tx)) = None"
      using log by (simp_all add: ActiveReader_drop_eq Db_begin_def)
    ultimately show ?thesis
      using poor bal body by (simp add: transfer.simps [of ord V W d] split_beta)
  next
    case (moved x' y')
    then have xy: "x' = x" "y' = y" using bal by simp_all
    have tx: "tx_ok tx" "writes tx \<noteq> []" "active tx = active ?tx"
      using moved(5,6) new(1) by (auto simp: tx_ok_def)
    obtain d' where d': "Transaction_commit ord V W ?b tx = (Inr (next_commit d), d')" "quiet invar hist d' M"
      "in_log d' = None" "next_ts (in_oracle d') = next_ts (in_oracle d) + 1"
      "\<And>k. hist (in_store d') k = hist (in_store d) k @ own_version (next_commit d) tx k"
      by (rule quiet_begin_commit [OF q room ord log tx, where W = W]) blast
    have "map_of (writes tx) k = (if k = dst then Some (Some (u64_to_le_bytes (y + amount)))
        else if k = src then Some (Some (u64_to_le_bytes (x - amount))) else None)" for k
      using moved(5) new(1) xy by simp
    then have "latest (hist (in_store d') k) = (if k = dst then Some (u64_to_le_bytes (y + amount))
        else if k = src then Some (u64_to_le_bytes (x - amount)) else latest (hist (in_store d) k))" for k
      by (simp add: d'(5) own_version_def latest_def)
    then show ?thesis
      using moved xy body d'(1-4) by (simp add: transfer.simps [of ord V W d] split_beta not_less)
  qed (use bal in simp)
qed

lemma quiet_increment:
  assumes q: "quiet invar hist d M" and room: "oracle_room (in_oracle d)" and ord: "hash_order_ok ord"
    and log: "in_log d = None" and cur: "counter_is x n (\<lambda>k. latest (hist (in_store d) k))"
  obtains d' where "increment ord V W d retries = Some (Fine retries, d')" "quiet invar hist d' M" "in_log d' = None"
    "next_ts (in_oracle d') = next_ts (in_oracle d) + 1" "counter_is x (Suc n) (\<lambda>k. latest (hist (in_store d') k))"
proof -
  let ?tx = "fst (Db_begin d)" and ?b = "snd (Db_begin d)"
  have new: "writes ?tx = []" by (simp add: Db_begin_def Transaction_new_eq)
  obtain r tx where body: "increment_body V ?b ?tx = (r, tx)" by force
  have "r = Fine ()"
    using quiet_begin_get [OF q, of counter] cur body
    by (auto simp: increment_body_def counter_is_def split: prod.splits sum.splits panics.splits)
  with quiet_begin_get [OF q, of counter] body obtain y where
    y: "(case latest (hist (in_store d) counter) of None \<Rightarrow> Fine 0 | Some b \<Rightarrow> read_u64_value b) = Fine y"
      "writes tx = [(counter, Some (u64_to_le_bytes (y + 1)))]" "active tx = active ?tx"
    by (auto elim!: increment_body_done simp: new)
  have yx: "y = x + word_of_nat n" using y(1) cur by (simp add: counter_is_def)
  have tx: "tx_ok tx" "writes tx \<noteq> []" using y(2) by (simp_all add: tx_ok_def)
  obtain d' where d': "Transaction_commit ord V W ?b tx = (Inr (next_commit d), d')" "in_log d' = None"
    "quiet invar hist d' M" "next_ts (in_oracle d') = next_ts (in_oracle d) + 1"
    "\<And>k. hist (in_store d') k = hist (in_store d) k @ own_version (next_commit d) tx k"
    by (rule quiet_begin_commit [OF q room ord log tx y(3), where W = W]) blast
  have "counter_is x (Suc n) (\<lambda>k. latest (hist (in_store d') k))"
    by (simp add: counter_is_def d'(5) own_version_def y(2) latest_def yx ac_simps)
  moreover have "increment ord V W d retries = Some (Fine retries, d')"
    using body \<open>r = Fine ()\<close> d'(1) by (simp add: increment.simps [of ord V W d] split_beta)
  ultimately show thesis using d' by (intro that [of d']) simp_all
qed

lemma quiet_increment_many:
  assumes "quiet invar hist d M" "unat (next_ts (in_oracle d)) + n < 2 ^ 64" "hash_order_ok ord" "in_log d = None"
    "counter_is x i (\<lambda>k. latest (hist (in_store d) k))"
  shows "\<exists>d'. increment_many ord V W d n retries = Some (Fine retries, d') \<and> quiet invar hist d' M
    \<and> counter_is x (i + n) (\<lambda>k. latest (hist (in_store d') k))"
  using assms
proof (induction n arbitrary: d i)
  case (Suc n)
  have room: "oracle_room (in_oracle d)" using Suc.prems(2) by (rule room_for)
  obtain d' where d': "increment ord V W d retries = Some (Fine retries, d')" "quiet invar hist d' M" "in_log d' = None"
    "next_ts (in_oracle d') = next_ts (in_oracle d) + 1" "counter_is x (Suc i) (\<lambda>k. latest (hist (in_store d') k))"
    by (rule quiet_increment [OF Suc.prems(1) room Suc.prems(3-5), where W = W]) blast
  have "unat (next_ts (in_oracle d')) = unat (next_ts (in_oracle d)) + 1"
    using Suc.prems(2) by (simp add: d'(4) unat_word_ariths)
  then show ?case using Suc.IH [OF d'(2) _ Suc.prems(3) d'(3,5)] Suc.prems(2) d'(1) by simp
qed auto

lemma quiet_snapshot:
  assumes "quiet invar hist d M"
  shows "Snapshot_get V (snd (Db_snapshot d)) (fst (Db_snapshot d)) k = Inr (latest (hist (in_store d) k))"
  using quiet_get [OF assms, of k] by (simp add: Db_get_def split: prod.splits)

text \<open>Both doctors on call, a transaction reading at the newest state.\<close>

lemma go_off_call:
  assumes "quiet invar hist d M" "\<And>k. k \<in> {ALICE, BOB} \<Longrightarrow> latest (hist (in_store d) k) = Some [1]"
    "tx = fst (Transaction_new d' b)" "Oracle_read_ts (in_oracle d') = Oracle_read_ts (in_oracle d)"
  shows "try_go_off_call V d tx doctor =
    (True, tx\<lparr>reads := (if b then Some [BOB, ALICE] else None), writes := [(doctor, Some [0])]\<rparr>)"
  using quiet_read_latest [OF assms(1), of ALICE] quiet_read_latest [OF assms(1), of BOB] assms(2-4)
  by (simp add: try_go_off_call_def Transaction_get_def Transaction_put_def Transaction_new_eq
      not_sym [OF ALICE_BOB])

lemma doctors_outcome:
  assumes q: "quiet invar hist d M" and room: "next_ts (in_oracle d) < - 3"
    and ord: "hash_order_ok ord" and log: "in_log d = None"
  shows "fst (run_doctors ord V W d l) = Inr \<lparr>alice_committed = True, bob_committed = (l = Snapshot),
    on_call = (if l = Snapshot then 0 else 1)\<rparr>"
proof -
  let ?seed = "Transaction_put (Transaction_put (fst (Db_begin d)) ALICE [1]) BOB [1]" and ?b = "l = Serializable"
  note seed = quiet_begin [OF q, of False, folded Db_begin_def]
  have s: "tx_ok ?seed" "writes ?seed = [(ALICE, Some [1]), (BOB, Some [1])]"
    "Transaction_read_timestamp ?seed = Oracle_read_ts (in_oracle d)"
    by (simp_all add: Db_begin_def Transaction_new_eq Transaction_put_def tx_ok_def Transaction_read_timestamp_def)
  have dB: "in_store (snd (Db_begin d)) = in_store d" "in_log (snd (Db_begin d)) = None"
    "next_ts (in_oracle (snd (Db_begin d))) = next_ts (in_oracle d)" using log by (simp_all add: Db_begin_def)
  obtain t d1 where d1: "Transaction_commit ord V W (snd (Db_begin d)) ?seed = (Inr t, d1)" "in_log d1 = None"
    "quiet invar hist d1 M" "next_ts (in_oracle d1) = next_ts (in_oracle d) + 1"
    "\<And>k. k \<in> {ALICE, BOB} \<Longrightarrow> latest (hist (in_store d1) k) = Some [1]"
  proof (cases rule: quiet_commit_cases [OF seed room_after(1) [OF room dB(3)] ord dB(2) s(1), where W = W])
    case (3 k d')
    then show thesis using quiet_no_change [OF q] s(3) dB by simp
  next
    case (4 d')
    then show thesis using s dB
      by (intro that [of "next_commit d" d']) (auto simp: own_version_def latest_def not_sym [OF ALICE_BOB])
  qed (use s in simp_all)
  let ?r = "Oracle_read_ts (in_oracle d1)"
  obtain alice d2 where al: "begin_tx_at d1 l = (alice, d2)" by force
  obtain bob d3 where bo: "begin_tx_at d2 l = (bob, d3)" by force
  have d2: "d2 = snd (Transaction_new d1 ?b)" "alice = fst (Transaction_new d1 ?b)"
    and d3: "d3 = snd (Transaction_new d2 ?b)" "bob = fst (Transaction_new d2 ?b)"
    using al bo by (simp_all add: begin_tx_at_eq)
  have q3: "quiet invar hist d3 (add_mset ?r (add_mset ?r M))"
    using quiet_begin [OF quiet_begin [OF d1(3), of ?b], of ?b] by (simp add: d2 d3)
  have same: "in_store d3 = in_store d1" "in_log d3 = None" "next_ts (in_oracle d3) = next_ts (in_oracle d) + 1"
    "Oracle_read_ts (in_oracle d3) = ?r" "Oracle_read_ts (in_oracle d2) = ?r"
    using d1 by (simp_all add: d2 d3)
  define alice' where "alice' = alice\<lparr>reads := (if ?b then Some [BOB, ALICE] else None), writes := [(ALICE, Some [0])]\<rparr>"
  define bob' where "bob' = bob\<lparr>reads := (if ?b then Some [BOB, ALICE] else None), writes := [(BOB, Some [0])]\<rparr>"
  have off: "try_go_off_call V d3 alice ALICE = (True, alice')" "try_go_off_call V d3 bob BOB = (True, bob')"
    using go_off_call [OF q3, of alice d1 ?b ALICE] go_off_call [OF q3, of bob d2 ?b BOB] d1(5) same d2 d3
    by (simp_all add: alice'_def bob'_def)
  have tx: "tx_ok alice'" "writes alice' = [(ALICE, Some [0])]" "Transaction_read_timestamp alice' = ?r"
    "tx_ok bob'" "writes bob' = [(BOB, Some [0])]" "Transaction_read_timestamp bob' = ?r"
    "watched bob' = (if ?b then {ALICE, BOB} else {BOB})"
    using same by (auto simp: alice'_def bob'_def d2(2) d3(2) tx_ok_def Transaction_read_timestamp_def
        Transaction_new_eq watched_def read_set_def)
  have un: "\<not> changed_since (hist (in_store d1) k) ?r" for k using quiet_no_change [OF d1(3)] .
  let ?n = "next_commit d3"
  obtain d4 where d4: "Transaction_commit ord V W d3 alice' = (Inr ?n, d4)" "in_log d4 = None"
    "quiet invar hist d4 (add_mset ?r M)" "next_ts (in_oracle d4) = next_ts (in_oracle d) + 1 + 1"
    "\<And>k. hist (in_store d4) k = hist (in_store d1) k @ own_version ?n alice' k"
  proof (cases rule: quiet_commit_cases [OF q3 room_after(2) [OF room same(3)] ord same(2) tx(1), where W = W])
    case (3 k d')
    then show thesis using un same tx by simp
  next
    case (4 d')
    then show thesis using same tx(3) by (intro that [of d']) simp_all
  qed (use tx in simp_all)
  have "?r < ?n" using db_ok_reader [OF q3, of ?r] by simp
  then have ch: "changed_since (hist (in_store d4) ALICE) ?r"
    by (simp add: d4(5) changed_since_def own_version_def tx(2))
  have un4: "\<not> changed_since (hist (in_store d4) BOB) ?r"
    using un [of BOB] not_sym [OF ALICE_BOB] by (simp add: d4(5) own_version_def tx(2))
  obtain res d5 M' where d5: "Transaction_commit ord V W d4 bob' = (res, d5)" "isl res \<longleftrightarrow> ?b" "quiet invar hist d5 M'"
    "\<And>k. hist (in_store d5) k = hist (in_store d4) k @ (if ?b then [] else own_version (next_commit d4) bob' k)"
  proof (cases rule: quiet_commit_cases [OF d4(3) room_after(3) [OF room d4(4)] ord d4(2) tx(4), where W = W])
    case (3 k d')
    then have ?b using un4 tx by (auto split: if_splits)
    with 3 show thesis by (intro that [of "Inl (Txn_Error.conflict (length k))" d']) simp_all
  next
    case (4 d')
    then have "\<not> ?b" using ch tx by auto
    with 4 show thesis by (intro that [of "Inr (next_commit d4)" d']) simp_all
  qed (use tx in simp_all)
  have "latest (hist (in_store d5) BOB) = Some [1]" if ?b
    using that d1(5) [of BOB] not_sym [OF ALICE_BOB] by (simp add: d5(4) d4(5) own_version_def tx)
  moreover have "latest (hist (in_store d5) ALICE) = Some [0]" "latest (hist (in_store d5) BOB) = Some [0]" if "\<not> ?b"
    using that by (simp_all add: d5(4) d4(5) own_version_def tx latest_def)
  moreover have "latest (hist (in_store d5) ALICE) = Some [0]" if ?b
    using that by (simp add: d5(4) d4(5) own_version_def tx latest_def)
  ultimately have fin: "latest (hist (in_store d5) ALICE) = Some [0]"
    "latest (hist (in_store d5) BOB) = (if ?b then Some [1] else Some [0])"
    by (cases ?b; simp)+
  obtain sn d6 where sn: "Db_snapshot d5 = (sn, d6)" by force
  have snap: "Snapshot_get V d6 sn k = Inr (latest (hist (in_store d5) k))" for k
    using quiet_snapshot [OF d5(3), of k] sn by simp
  have "l = Snapshot \<longleftrightarrow> \<not> ?b" by (cases l) simp_all
  then show ?thesis
    using d5(2) by (simp add: run_doctors_def Let_def split_beta d1(1) al bo off d4(1) d5(1) sn snap fin)
qed

end

section \<open>Concrete runs\<close>

text \<open>With one shard no key has to be hashed.\<close>

lemma shard_of_unsharded [code]:
  "shard_of s key = (if shard_mask s = 0 then 0 else unat (hash_key key AND shard_mask s))"
  by (simp add: shard_of_def)

abbreviation alice :: bytes where "alice \<equiv> lit ''alice''"
abbreviation bob :: bytes where "bob \<equiv> lit ''bob''"

text \<open>The one-shard database after a first commit.\<close>

definition seeded :: "(transaction \<Rightarrow> transaction) \<Rightarrow> (memory_store, bytes list) inner" where
  "seeded f = snd (Transaction_commit demo_order MemoryStore list_wal (snd (Db_begin one_shard)) (f (fst (Db_begin one_shard))))"

lemma seeded_quiet:
  assumes "\<And>tx. tx_ok tx \<Longrightarrow> writes tx = [] \<Longrightarrow> tx_ok (f tx) \<and> writes (f tx) \<noteq> [] \<and> active (f tx) = active tx"
  shows "quiet wf_store store_hist (seeded f) {#}"
    "writes (f (fst (Db_begin one_shard))) = ws \<Longrightarrow> distinct (map fst ws) \<Longrightarrow>
       latest (store_hist (in_store (seeded f)) k) = (case map_of ws k of Some v \<Rightarrow> v | None \<Rightarrow> None)"
proof -
  let ?tx = "f (fst (Db_begin one_shard))"
  note q = quiet_begin [OF quiet_one_shard, of False, folded Db_begin_def]
  have d: "in_log (snd (Db_begin one_shard)) = None" "oracle_room (in_oracle (snd (Db_begin one_shard)))"
    by (simp_all add: Db_begin_def one_shard_def Db_with_store_def Inner_new_def Oracle_new_def oracle_room_def)
  have tx: "tx_ok ?tx" "writes ?tx \<noteq> []" "Transaction_read_timestamp ?tx = Oracle_read_ts (in_oracle one_shard)"
    using assms [of "fst (Db_begin one_shard)"]
    by (simp_all add: Db_begin_def Transaction_new_eq tx_ok_def Transaction_read_timestamp_def)
  obtain t d' where d': "Transaction_commit demo_order MemoryStore list_wal (snd (Db_begin one_shard)) ?tx = (Inr t, d')"
    "quiet wf_store store_hist d' {#}" "\<And>k. store_hist (in_store d') k = own_version t ?tx k"
  proof (cases rule: mem.quiet_commit_cases [OF q d(2) demo_order_ok d(1) tx(1,2), where W = list_wal])
    case (2 k d')
    then show thesis using mem.quiet_no_change [OF quiet_one_shard] tx(3) by (simp add: Db_begin_def)
  next
    case (3 d')
    then show thesis using tx(3) by (intro that [of "next_commit (snd (Db_begin one_shard))" d']) (simp_all add: Db_begin_def)
  qed (use tx(3) in simp)
  then show "quiet wf_store store_hist (seeded f) {#}"
    by (simp add: seeded_def)
  show "latest (store_hist (in_store (seeded f)) k) = (case map_of ws k of Some v \<Rightarrow> v | None \<Rightarrow> None)"
    if "writes ?tx = ws"
    using d' that by (simp add: seeded_def own_version_def latest_def split: option.split)
qed

text \<open>A transfer with a snapshot taken while it is applied but not yet visible.\<close>

definition funded :: "(memory_store, bytes list) inner" where
  "funded = seeded (\<lambda>tx. set_balance tx alice 100)"

definition transfer_schedule :: "(nat \<times> action) list" where
  "transfer_schedule =
     [(0, Begin False), (0, Get alice), (0, Get bob), 
      (0, Put alice (u64_to_le_bytes 70)), (0, Put bob (u64_to_le_bytes 30)),
      (0, Commit), (0, Commit), (1, Snap), (0, Commit), (0, Commit), (0, Commit)]"

abbreviation tx1 :: "write_entry list \<Rightarrow> transaction" where
  "tx1 ws \<equiv> \<lparr>active = \<lparr>active_read_ts = Timestamp 1\<rparr>, writes = ws, reads = None\<rparr>"

abbreviation transfer_commit :: commit where
  "transfer_commit \<equiv> \<lparr>c_tx = tx1 [(alice, Some [70,0,0,0,0,0,0,0]), (bob, Some [30,0,0,0,0,0,0,0])],
     c_ts = Timestamp 2, c_seen = [(alice, Some [100,0,0,0,0,0,0,0]), (bob, None)]\<rparr>"

lemma transfer_run:
  "map_option (\<lambda>S. (history S, reader_of (procs S 1)))
    (run MemoryStore list_wal MemoryStore_slices transfer_schedule (start funded)) =
   Some ([transfer_commit], Some (Timestamp 1))"
  by code_simp

lemma transfer_ok:
  "transfers alice bob 30 transfer_commit" "alice \<noteq> bob"
proof -
  let ?d = "\<lparr>in_store = in_store funded, in_oracle = in_oracle funded, in_log = None\<rparr> :: (memory_store, unit) inner"
  have "fst (Transaction_get MemoryStore ?d (tx1 []) alice) = Inr (Some [100,0,0,0,0,0,0,0])"
    "fst (Transaction_get MemoryStore ?d (tx1 []) bob) = Inr None"
    "transfer_body MemoryStore ?d (tx1 []) alice bob 30 = (Fine (Inr ()), tx1 [(alice, Some [70,0,0,0,0,0,0,0]), (bob, Some [30,0,0,0,0,0,0,0])])"
    by code_simp+
  then show "transfers alice bob 30 transfer_commit" unfolding transfers_def
    by (intro exI [of _ ?d] exI [of _ "tx1 []"]
        exI [of _ "Some [100,0,0,0,0,0,0,0]"] exI [of _ None]) simp
  show "alice \<noteq> bob" by code_simp
qed

lemma funded_ok:
  "quiet wf_store store_hist funded {#}" "total_is {alice, bob} 100 (\<lambda>k. latest (store_hist (in_store funded) k))"
proof -
  let ?f = "\<lambda>tx. set_balance tx alice 100"
  have f: "tx_ok tx \<Longrightarrow> writes tx = [] \<Longrightarrow> tx_ok (?f tx) \<and> writes (?f tx) \<noteq> [] \<and> active (?f tx) = active tx" for tx
    by (simp add: set_balance_def Transaction_put_def tx_ok_def)
  show "quiet wf_store store_hist funded {#}" unfolding funded_def by (rule seeded_quiet [OF f])
  have w: "writes (?f (fst (Db_begin one_shard))) = [(alice, Some (u64_to_le_bytes 100))]"
    by (simp add: set_balance_def Transaction_put_def Db_begin_def Transaction_new_eq)
  have "latest (store_hist (in_store funded) k) = (if k = alice then Some (u64_to_le_bytes 100) else None)" for k
    using seeded_quiet(2) [of ?f, OF f w] by (simp add: funded_def)
  moreover have "alice \<noteq> bob" by (simp add: lit_def)
  ultimately show "total_is {alice, bob} 100 (\<lambda>k. latest (store_hist (in_store funded) k))"
    by (simp add: total_is_def funds_def u64_le_roundtrip not_sym)
qed

text \<open>One increment on an empty database, a snapshot taken after it.\<close>

definition increment_schedule :: "(nat \<times> action) list" where
  "increment_schedule =
     [(0, Begin False), (0, Get counter), (0, Put counter (u64_to_le_bytes 1)),
      (0, Commit), (0, Commit), (0, Commit), (0, Commit), (0, Commit), (1, Snap)]"

abbreviation increment_commit :: commit where
  "increment_commit \<equiv> \<lparr>c_tx = \<lparr>active = \<lparr>active_read_ts = Timestamp 0\<rparr>,
       writes = [(counter, Some [1,0,0,0,0,0,0,0])], reads = None\<rparr>,
     c_ts = Timestamp 1, c_seen = [(counter, None)]\<rparr>"

lemma increment_run:
  "map_option (\<lambda>S. (history S, reader_of (procs S 1)))
    (run MemoryStore list_wal MemoryStore_slices increment_schedule (start one_shard)) =
   Some ([increment_commit], Some (Timestamp 1))"
  by code_simp

lemma increment_ok: "increments increment_commit"
proof -
  let ?d = "\<lparr>in_store = in_store one_shard, in_oracle = in_oracle one_shard, in_log = None\<rparr> :: (memory_store, unit) inner"
  let ?tx = "\<lparr>active = \<lparr>active_read_ts = Timestamp 0\<rparr>, writes = [], reads = None\<rparr>"
  have "fst (Transaction_get MemoryStore ?d ?tx counter) = Inr None"
    "increment_body MemoryStore ?d ?tx = (Fine (), c_tx increment_commit)"
    by code_simp+
  then show ?thesis unfolding increments_def
    by (intro exI [of _ ?d] exI [of _ ?tx] exI [of _ None]) simp
qed

text \<open>Both doctors try at once; Bob is rejected.\<close>

definition both_on_call :: "(memory_store, bytes list) inner" where
  "both_on_call = seeded (\<lambda>tx. Transaction_put (Transaction_put tx ALICE [1]) BOB [1])"

definition doctors_schedule :: "(nat \<times> action) list" where
  "doctors_schedule =
     [(0, Begin True), (1, Begin True), (0, Get ALICE), (0, Get BOB), (1, Get ALICE), (1, Get BOB),
      (0, Put ALICE [0]), (1, Put BOB [0]),
      (0, Commit), (0, Commit), (0, Commit), (0, Commit), (0, Commit),
      (1, Commit), (1, Commit), (1, Commit), (1, Commit), (1, Commit)]"

abbreviation alice_off :: commit where
  "alice_off \<equiv> \<lparr>c_tx = \<lparr>active = \<lparr>active_read_ts = Timestamp 1\<rparr>, writes = [(ALICE, Some [0])],
       reads = Some [BOB, ALICE]\<rparr>,
     c_ts = Timestamp 2, c_seen = [(ALICE, Some [1]), (BOB, Some [1])]\<rparr>"

lemma doctors_run:
  "map_option (\<lambda>S. (history S, procs S 1))
    (run MemoryStore list_wal MemoryStore_slices doctors_schedule (start both_on_call)) =
   Some ([alice_off], Returned (Inl (Conflict 13)))"
  by code_simp

lemma doctors_ok: "goes_off_call alice_off"
proof -
  let ?d = "\<lparr>in_store = in_store both_on_call, in_oracle = in_oracle both_on_call, in_log = None\<rparr> :: (memory_store, unit) inner"
  let ?tx = "\<lparr>active = \<lparr>active_read_ts = Timestamp 1\<rparr>, writes = [], reads = Some []\<rparr>"
  have "fst (Transaction_get MemoryStore ?d ?tx ALICE) = Inr (Some [1])"
    "fst (Transaction_get MemoryStore ?d ?tx BOB) = Inr (Some [1])"
    "try_go_off_call MemoryStore ?d ?tx ALICE = (True, c_tx alice_off)"
    by code_simp+
  then show ?thesis unfolding goes_off_call_def
    by (intro exI [of _ ?d] exI [of _ ?tx] exI [of _ "Some [1]"] exI [of _ ALICE]) simp
qed

lemma both_on_call_ok:
  "quiet wf_store store_hist both_on_call {#}" "someone_on_call (\<lambda>k. latest (store_hist (in_store both_on_call) k))"
proof -
  let ?f = "\<lambda>tx. Transaction_put (Transaction_put tx ALICE [1]) BOB [1]"
  have f: "tx_ok tx \<Longrightarrow> writes tx = [] \<Longrightarrow> tx_ok (?f tx) \<and> writes (?f tx) \<noteq> [] \<and> active (?f tx) = active tx" for tx
    by (simp add: Transaction_put_def tx_ok_def)
  show "quiet wf_store store_hist both_on_call {#}" unfolding both_on_call_def by (rule seeded_quiet [OF f])
  have w: "writes (?f (fst (Db_begin one_shard))) = [(ALICE, Some [1]), (BOB, Some [1])]"
    by (simp add: Transaction_put_def Db_begin_def Transaction_new_eq)
  have "latest (store_hist (in_store both_on_call) BOB) = Some [1]"
    using seeded_quiet(2) [of ?f, OF f w] by (simp add: both_on_call_def)
  then show "someone_on_call (\<lambda>k. latest (store_hist (in_store both_on_call) k))"
    by (simp add: someone_on_call_def)
qed

section \<open>Properties\<close>

text \<open>C22. Money is conserved. If every commit of a run was made by \<open>transfer\<close> between two different
  accounts, then however the transfers, snapshots and collections interleave the balances in the store
  add up to what they were at the start, and so do the balances any live transaction or snapshot reads,
  halfway through other transfers; no balance ever overdraws or overflows.\<close>

theorem transfers_conserve_money:
  assumes "mem_reachable W d S" "quiet wf_store store_hist d {#}"
    "\<forall>c\<in>set (history S). \<exists>src\<in>accounts. \<exists>dst\<in>accounts. src \<noteq> dst \<and> (\<exists>amount. transfers src dst amount c)"
    "total_is accounts T (\<lambda>k. latest (store_hist (in_store d) k))"
  shows "total_is accounts T (\<lambda>k. latest (store_hist (in_store (shared S)) k))
    \<and> (\<forall>p t. reader_of (procs S p) = Some t \<longrightarrow>
        (\<exists>m. (\<forall>k. vs_get MemoryStore (in_store (shared S)) k t = Inr (m k)) \<and> total_is accounts T m))"
  using bank.holds [OF assms(1,2) assms(3) [folded transfers_within_def] assms(4)] by blast

theorem transfers_conserve_money_witness:
  "\<exists>S. mem_reachable list_wal funded S \<and> history S = [transfer_commit] \<and> reader_of (procs S 1) = Some (Timestamp 1)
     \<and> total_is {alice, bob} 100 (\<lambda>k. latest (store_hist (in_store (shared S)) k))"
proof -
  obtain S where S: "mem_reachable list_wal funded S" "(history S, reader_of (procs S 1)) = ([transfer_commit], Some (Timestamp 1))"
    by (rule run_obtain [OF transfer_run]) blast
  have "\<forall>c\<in>set (history S). \<exists>src\<in>{alice, bob}. \<exists>dst\<in>{alice, bob}. src \<noteq> dst \<and> (\<exists>amount. transfers src dst amount c)"
    using S(2) transfer_ok by auto
  from transfers_conserve_money [OF S(1) funded_ok(1) this funded_ok(2)] S show ?thesis by auto
qed

text \<open>C23. No increment is lost: if every commit of a run was made by \<open>increment_many\<close>, the counter is
  what it was plus the number of commits, and a snapshot reads what it was plus the number of commits
  at or below its timestamp.\<close>

theorem no_increment_lost:
  assumes "mem_reachable W d S" "quiet wf_store store_hist d {#}" "\<forall>c\<in>set (history S). increments c"
    "counter_is x 0 (\<lambda>k. latest (store_hist (in_store d) k))"
  shows "counter_is x (length (history S)) (\<lambda>k. latest (store_hist (in_store (shared S)) k))
    \<and> (\<forall>p t. reader_of (procs S p) = Some t \<longrightarrow>
        (\<exists>m. (\<forall>k. vs_get MemoryStore (in_store (shared S)) k t = Inr (m k))
          \<and> counter_is x (length (filter (\<lambda>c. c_ts c \<le> t) (history S))) m))"
  using count.holds [OF assms] by blast

theorem no_increment_lost_witness:
  "\<exists>S. mem_reachable list_wal one_shard S \<and> history S = [increment_commit]
     \<and> counter_is 0 1 (\<lambda>k. latest (store_hist (in_store (shared S)) k))"
proof -
  obtain S where S: "mem_reachable list_wal one_shard S" "(history S, reader_of (procs S 1)) = ([increment_commit], Some (Timestamp 1))"
    by (rule run_obtain [OF increment_run]) blast
  have "\<forall>c\<in>set (history S). increments c" using S(2) increment_ok by simp
  moreover have "counter_is 0 0 (\<lambda>k. latest (store_hist (in_store one_shard) k))"
    by (simp add: counter_is_def latest_def)
  ultimately show ?thesis
    using no_increment_lost [OF S(1) quiet_one_shard] S by fastforce
qed

text \<open>C24. Under serializable isolation a doctor stays on call: if every commit of a run was made by
  \<open>try_go_off_call\<close> in a serializable transaction, then with someone on call at the start someone is on
  call in every reachable state, and in whatever any live transaction or snapshot sees.\<close>

theorem serializable_keeps_doctor_on_call:
  assumes "mem_reachable W d S" "quiet wf_store store_hist d {#}" "\<forall>c\<in>set (history S). goes_off_call c"
    "someone_on_call (\<lambda>k. latest (store_hist (in_store d) k))"
  shows "someone_on_call (\<lambda>k. latest (store_hist (in_store (shared S)) k))
    \<and> (\<forall>p t. reader_of (procs S p) = Some t \<longrightarrow>
        (\<exists>m. (\<forall>k. vs_get MemoryStore (in_store (shared S)) k t = Inr (m k)) \<and> someone_on_call m))"
  using doctors.holds [OF assms] by blast

theorem serializable_keeps_doctor_on_call_witness:
  "\<exists>S. mem_reachable list_wal both_on_call S \<and> history S = [alice_off]
     \<and> someone_on_call (\<lambda>k. latest (store_hist (in_store (shared S)) k))"
proof -
  obtain S where S: "mem_reachable list_wal both_on_call S" "(history S, procs S 1) = ([alice_off], Returned (Inl (Conflict 13)))"
    by (rule run_obtain [OF doctors_run]) blast
  have "\<forall>c\<in>set (history S). goes_off_call c" using S(2) doctors_ok by simp
  from serializable_keeps_doctor_on_call [OF S(1) both_on_call_ok(1) this both_on_call_ok(2)] S show ?thesis by auto
qed

text \<open>With no commit in flight \<open>transfer\<close> returns on the first attempt: it reports insufficient funds
  and leaves the store alone, or it takes the amount from one account and adds it to the other and
  leaves every other key alone.\<close>

theorem transfer_returns:
  assumes "quiet wf_store store_hist d M" "oracle_room (in_oracle d)" "hash_order_ok ord" "in_log d = None"
    "balance (latest (store_hist (in_store d) src)) = Fine x" "balance (latest (store_hist (in_store d) dst)) = Fine y"
    "src \<noteq> dst"
  shows "\<exists>r d'. transfer ord MemoryStore W d src dst amount = Some (r, d') \<and> quiet wf_store store_hist d' M \<and>
    (if x < amount then r = Fine (Inl (store_error ''transfer'' ''insufficient funds'')) \<and> in_store d' = in_store d
     else r = Fine (Inr ()) \<and> balance (latest (store_hist (in_store d') src)) = Fine (x - amount)
       \<and> balance (latest (store_hist (in_store d') dst)) = Fine (y + amount)
       \<and> (\<forall>k. k \<noteq> src \<longrightarrow> k \<noteq> dst \<longrightarrow> latest (store_hist (in_store d') k) = latest (store_hist (in_store d) k)))"
  using mem.quiet_transfer [OF assms(1-6), of W amount] assms(7)
  by (cases "x < amount") (auto simp del: balance.simps)

lemma funded_room: "oracle_room (in_oracle funded)" "in_log funded = None"
  by code_simp+

theorem transfer_returns_witness:
  "\<exists>d'. transfer demo_order MemoryStore list_wal funded alice bob 30 = Some (Fine (Inr ()), d')
     \<and> balance (latest (store_hist (in_store d') alice)) = Fine 70
     \<and> balance (latest (store_hist (in_store d') bob)) = Fine 30"
proof -
  have b: "balance (latest (store_hist (in_store funded) alice)) = Fine 100"
    "balance (latest (store_hist (in_store funded) bob)) = Fine 0" "alice \<noteq> bob"
    by code_simp+
  show ?thesis
    using transfer_returns [OF funded_ok(1) funded_room(1) demo_order_ok funded_room(2) b, of list_wal 30]
    by (auto simp del: balance.simps)
qed

text \<open>Between an account and itself the same loop creates money: the second put overwrites the first.\<close>

theorem self_transfer_creates_money:
  assumes "quiet wf_store store_hist d M" "oracle_room (in_oracle d)" "hash_order_ok ord" "in_log d = None"
    "balance (latest (store_hist (in_store d) k)) = Fine x" "amount \<le> x"
  shows "\<exists>d'. transfer ord MemoryStore W d k k amount = Some (Fine (Inr ()), d')
    \<and> balance (latest (store_hist (in_store d') k)) = Fine (x + amount)"
  using mem.quiet_transfer [OF assms(1-5,5), of W amount] assms(6)
  by (auto simp del: balance.simps simp: not_less)

text \<open>With no other commit in flight \<open>increment_many\<close> returns without a retry, and the counter has
  grown by the number of increments asked for.\<close>

theorem increment_many_returns:
  assumes "quiet wf_store store_hist d M" "unat (next_ts (in_oracle d)) + n < 2 ^ 64" "hash_order_ok ord"
    "in_log d = None" "counter_is x 0 (\<lambda>k. latest (store_hist (in_store d) k))"
  shows "\<exists>d'. increment_many ord MemoryStore W d n 0 = Some (Fine 0, d')
    \<and> counter_is x n (\<lambda>k. latest (store_hist (in_store d') k))"
  using mem.quiet_increment_many [OF assms, of W 0] by auto

theorem increment_many_returns_witness:
  "\<exists>d'. increment_many demo_order MemoryStore list_wal one_shard 1000 0 = Some (Fine 0, d')
     \<and> counter_is 0 1000 (\<lambda>k. latest (store_hist (in_store d') k))"
proof (rule increment_many_returns [OF quiet_one_shard _ demo_order_ok])
  show "counter_is 0 0 (\<lambda>k. latest (store_hist (in_store one_shard) k))"
    by (simp add: counter_is_def latest_def)
qed (simp_all add: one_shard_def Db_with_store_def Inner_new_def Oracle_new_def)

text \<open>The schedule of the doctors example, on any quiet database and for any iteration order of the
  buffers: under snapshot isolation both transactions commit and nobody is left on call; under
  serializable isolation the second commit is rejected and one doctor stays.\<close>

theorem write_skew_schedule:
  assumes "quiet wf_store store_hist d M" "next_ts (in_oracle d) < - 3" "hash_order_ok ord" "in_log d = None"
  shows "fst (run_doctors ord MemoryStore W d l) = Inr \<lparr>alice_committed = True, bob_committed = (l = Snapshot),
    on_call = (if l = Snapshot then 0 else 1)\<rparr>"
  by (rule mem.doctors_outcome [OF assms])

theorem write_skew_schedule_witness:
  "fst (run_doctors demo_order MemoryStore list_wal Db_new Serializable)
     = Inr \<lparr>alice_committed = True, bob_committed = False, on_call = 1\<rparr>"
proof -
  have "next_ts (in_oracle (Db_new :: (memory_store, bytes list) inner)) < - 3"
    by (simp add: Db_new_def Db_with_store_def Inner_new_def Oracle_new_def word_less_def)
  from write_skew_schedule [OF quiet_Db_new this demo_order_ok, of list_wal Serializable] show ?thesis
    by (simp add: Db_new_def Db_with_store_def Inner_new_def)
qed

end
