(* ===== verification/Recovery.thy ===== *)
theory Recovery
  imports Database
begin

text \<open>
  Durable databases: opening one replays the commit log into an empty store
  (\<open>src/src/db.rs\<close>, \<open>Db::open\<close>), and a commit is acknowledged only once its record is in
  the log. The write-ahead log is the parameter \<open>W\<close>; what it promises is \<open>wal_appends\<close> and
  \<open>wal_reopens\<close>.
\<close>

section \<open>Definitions\<close>

text \<open>The record of a commit, and the history that a list of commits gives a key.\<close>

definition record_of :: "RecoveredCommit \<Rightarrow> bytes" where
  "record_of c = encode_for_log (rc_commit_ts c) (rc_writes c)"

definition recovered_hist :: "RecoveredCommit list \<Rightarrow> bytes \<Rightarrow> version list" where
  "recovered_hist cs k = concat (map (\<lambda>c. new_versions (rc_commit_ts c) (rc_writes c) k) cs)"

text \<open>Records the format can hold.\<close>

definition recordable :: "RecoveredCommit \<Rightarrow> bool" where
  "recordable c \<longleftrightarrow> batch_fits (rc_writes c) \<and> length (record_of c) < 2 ^ 64"

text \<open>
  The log and the store of a durable database agree: the log holds the records of \<open>cs\<close>, whose
  timestamps are distinct, all given out, and which in timestamp order leave the store's newest
  values.
\<close>

definition log_agrees ::
  "'w wal_ops \<Rightarrow> ('s \<Rightarrow> bytes \<Rightarrow> version list) \<Rightarrow> ('s, 'w) inner \<Rightarrow> RecoveredCommit list \<Rightarrow> bool" where
  "log_agrees W hist d cs \<longleftrightarrow>
     (\<exists>log. in_log d = Some log \<and> wal_holds W (wal log) (map record_of cs))
     \<and> list_all recordable cs \<and> distinct (map rc_commit_ts cs)
     \<and> (\<forall>c\<in>set cs. rc_commit_ts c < next_commit d)
     \<and> (\<forall>k. latest (hist (in_store d) k) = latest (recovered_hist (sort_key rc_commit_ts cs) k))"

section \<open>Replay\<close>

lemma recovered_hist_Nil [simp]: "recovered_hist [] k = []"
  by (simp add: recovered_hist_def)

lemma recovered_hist_snoc [simp]:
  "recovered_hist (cs @ [c]) k = recovered_hist cs k @ new_versions (rc_commit_ts c) (rc_writes c) k"
  by (simp add: recovered_hist_def)

lemma recovered_hist_ts:
  "v \<in> set (recovered_hist cs k) \<Longrightarrow> \<exists>c\<in>set cs. commit_ts v = rc_commit_ts c"
  by (auto simp: recovered_hist_def dest: new_versions_ts)

lemma install_recovered_push_all: "install_recovered s cts ws = push_all cts ws s"
  by (induction s cts ws rule: install_recovered.induct) (simp_all add: push_def)

lemma replay_spec:
  assumes "sorted (map rc_commit_ts cs)" "wf_store s" "\<forall>c\<in>set cs. highest \<le> rc_commit_ts c"
    "\<And>k v. v \<in> set (store_hist s k) \<Longrightarrow> commit_ts v \<le> highest"
    "replay highest s cs = (h, s')"
  shows "wf_store s' \<and> (\<forall>k. store_hist s' k = store_hist s k @ recovered_hist cs k)
    \<and> h = foldl max highest (map rc_commit_ts cs)"
  using assms
proof (induction highest s cs rule: replay.induct)
  case (2 highest s c cs)
  let ?ts = "rc_commit_ts c" and ?s = "push_all (rc_commit_ts c) (rc_writes c) s"
  have mx: "max highest ?ts = ?ts" using "2.prems"(3) by simp
  have old: "\<not> changed_since (store_hist s k) ?ts" for k
    using "2.prems"(3,4) by (force simp: changed_since_def not_less intro: order_trans)
  have wf: "wf_store ?s" using "2.prems"(2) old by (intro push_all_wf) simp_all
  have hist: "store_hist ?s k = store_hist s k @ new_versions ?ts (rc_writes c) k" for k
    using "2.prems"(2) old by (intro push_all_hist) simp_all
  have below: "commit_ts v \<le> ?ts" if "v \<in> set (store_hist ?s k)" for k v
    using that "2.prems"(3,4) by (auto simp: hist dest!: new_versions_ts intro: order_trans)
  have rest: "sorted (map rc_commit_ts cs)" "\<forall>d\<in>set cs. max highest ?ts \<le> rc_commit_ts d"
    "replay (max highest ?ts) ?s cs = (h, s')"
    using "2.prems"(1,3,5) by (simp_all add: install_recovered_push_all)
  from "2.IH" [unfolded install_recovered_push_all, OF rest(1) wf rest(2) _ rest(3)] below
  show ?case by (simp add: mx hist recovered_hist_def)
qed simp

lemma foldl_max_in: "foldl max a ts \<in> insert a (set ts)" for a :: timestamp
proof (induction ts arbitrary: a)
  case (Cons t ts)
  have "max a t = a \<or> max a t = t" by (simp add: max_def)
  then show ?case using Cons.IH [of "max a t"] by auto
qed simp

lemma foldl_max_upper: "x \<le> a \<or> x \<in> set ts \<Longrightarrow> x \<le> foldl max a ts" for a :: timestamp
proof (induction ts arbitrary: a)
  case (Cons t ts)
  have "a \<le> max a t" "t \<le> max a t" by simp_all
  then have "x \<le> max a t \<or> x \<in> set ts" using Cons.prems by (auto intro: order_trans)
  then show ?case using Cons.IH [of "max a t"] by simp
qed simp

section \<open>Opening\<close>

text \<open>What \<open>Db::open\<close> makes of an intact log, whatever its timestamps are.\<close>

lemma open_state:
  assumes W: "wal_reopens W" "wal_holds W path (map record_of cs)" and fit: "list_all recordable cs"
  obtains log s h where "Db_open W path = Inr (Inner_recovered s (Oracle_recovered h) log)"
    "wal_holds W (wal log) (map record_of cs)" "wf_store s"
    "\<forall>k. store_hist s k = recovered_hist (sort_key rc_commit_ts cs) k"
    "\<forall>c\<in>set cs. rc_commit_ts c \<le> h" "h \<in> insert ZERO (rc_commit_ts ` set cs)"
proof -
  have "decode_entries (map Inr (map record_of cs)) = Inr cs"
    unfolding record_of_def
    by (rule decode_entries_encodings) (use fit in \<open>simp add: list_all_iff recordable_def record_of_def\<close>)
  from CommitLog_open_holds [OF W this] obtain log where log: "CommitLog_open W path = Inr (log, cs)"
    "wal_holds W (wal log) (map record_of cs)" by blast
  let ?cs = "sort_key rc_commit_ts cs"
  obtain h s where r: "replay ZERO MemoryStore_new ?cs = (h, s)" by force
  have zero: "ZERO \<le> t" for t by (simp add: ZERO_def less_eq_timestamp_def)
  have s: "wf_store s" "\<forall>k. store_hist s k = recovered_hist ?cs k"
    "h = foldl max ZERO (map rc_commit_ts ?cs)"
    using replay_spec [of ?cs MemoryStore_new ZERO h s] r zero wf_MemoryStore_new
    by (simp_all add: store_hist_new)
  have "rc_commit_ts c \<le> h" if "c \<in> set cs" for c
    unfolding s(3) using that by (intro foldl_max_upper) simp
  moreover have "h \<in> insert ZERO (rc_commit_ts ` set cs)"
    using foldl_max_in [of ZERO "map rc_commit_ts ?cs"] s(3) by simp
  moreover have "Db_open W path = Inr (Inner_recovered s (Oracle_recovered h) log)"
    by (simp add: Db_open_def log r)
  ultimately show thesis using log(2) s(1,2) by (intro that [of s h log]) simp_all
qed

text \<open>When none of them is the last one, the database opens in its invariant.\<close>

lemma open_spec:
  assumes W: "wal_reopens W" "wal_holds W path (map record_of cs)" and fit: "list_all recordable cs"
    and room: "\<forall>c\<in>set cs. rc_commit_ts c \<noteq> Timestamp (- 1)"
  obtains log d where "Db_open W path = Inr d" "in_log d = Some log" "wal_holds W (wal log) (map record_of cs)"
    "quiet wf_store store_hist d {#}" "\<forall>c\<in>set cs. rc_commit_ts c < next_commit d"
    "\<forall>k. store_hist (in_store d) k = recovered_hist (sort_key rc_commit_ts cs) k"
proof -
  from W fit obtain log s h where op: "Db_open W path = Inr (Inner_recovered s (Oracle_recovered h) log)"
    "wal_holds W (wal log) (map record_of cs)" "wf_store s"
    "\<forall>k. store_hist s k = recovered_hist (sort_key rc_commit_ts cs) k"
    "\<forall>c\<in>set cs. rc_commit_ts c \<le> h" "h \<in> insert ZERO (rc_commit_ts ` set cs)"
    by (rule open_state)
  have h: "h \<noteq> Timestamp (- 1)" using op(6) room by (auto simp: ZERO_def)
  then obtain w where w: "h = Timestamp w" "w \<noteq> - 1" by (cases h) auto
  let ?d = "Inner_recovered s (Oracle_recovered h) log"
  have nx: "next_commit ?d = from_raw (ts_get h + 1)"
    by (simp add: Inner_recovered_def Oracle_recovered_def Let_def)
  have lt: "t < next_commit ?d \<longleftrightarrow> t \<le> h" for t
    unfolding nx using w by (simp add: less_timestamp_def less_eq_timestamp_def less_inc_iff)
  have "{..<next_commit ?d} = {..h}" using lt by auto
  moreover have "\<forall>v\<in>set (store_hist s k). commit_ts v \<le> h" for k
    using op(4,5) recovered_hist_ts by fastforce
  ultimately have "quiet wf_store store_hist ?d {#}"
    using Oracle_recovered_rep [OF h] op(3) lt
    by (simp add: db_ok_def Inner_recovered_def) (simp add: Oracle_recovered_def Let_def)
  then show thesis
    using op(1,2,4,5) lt by (intro that [of ?d log]) (simp_all add: Inner_recovered_def)
qed

text \<open>One entry that cannot be read or decoded is enough to fail.\<close>

lemma decode_entries_bad:
  "(\<exists>m. Inl m \<in> set entries) \<or> (\<exists>rec e. Inr rec \<in> set entries \<and> decode_commit rec = Inl e) \<Longrightarrow>
     \<exists>e. decode_entries entries = Inl e \<and> is_fatal e"
proof (induction entries)
  case (Cons x entries)
  show ?case
  proof (cases x)
    case (Inr data)
    note Inr' = Inr
    show ?thesis
    proof (cases "decode_commit data")
      case (Inl f)
      then show ?thesis using Inr' decode_commit_fatal [OF Inl] by simp
    next
      case (Inr c)
      then have "\<exists>e. decode_entries entries = Inl e \<and> is_fatal e" using Cons Inr' by auto
      then show ?thesis using Inr Inr' by (auto simp: and_then_def)
    qed
  qed simp
qed simp

section \<open>Log and store stay in agreement\<close>

lemma latest_append: "latest (h @ x) = (if x = [] then latest h else latest x)"
  by (simp add: latest_def)

lemma sort_key_snoc:
  assumes "\<forall>c\<in>set cs. f c < f c'"
  shows "sort_key f (cs @ [c']) = sort_key f cs @ [c']"
proof (rule properties_for_sort_key)
  fix k assume "k \<in> set (sort_key f cs @ [c'])"
  have "filter (\<lambda>x. f k = f x) (sort_key f cs) = filter (\<lambda>x. f k = f x) cs"
    using sort_key_stable [of f "f k" cs] by (simp add: eq_commute)
  then show "filter (\<lambda>x. f k = f x) (sort_key f cs @ [c']) = filter (\<lambda>x. f k = f x) (cs @ [c'])"
    by simp
qed (use assms in \<open>auto simp: sorted_append intro: less_imp_le\<close>)

text \<open>One more commit, above all those recorded.\<close>

lemma log_agrees_snoc:
  assumes ag: "log_agrees W hist d cs" and W: "wal_appends W"
    and log: "in_log d = Some log" "in_log d' = Some log'"
      "append_committed W log (record_of c) = (Inr (), log')"
    and c: "recordable c" "rc_commit_ts c = next_commit d"
    and nx: "\<And>t. t < next_commit d' \<longleftrightarrow> t \<le> next_commit d"
    and st: "\<And>k. hist (in_store d') k = hist (in_store d) k @ new_versions (rc_commit_ts c) (rc_writes c) k"
  shows "log_agrees W hist d' (cs @ [c])"
proof -
  have below: "\<forall>b\<in>set cs. rc_commit_ts b < rc_commit_ts c" using ag c(2) by (simp add: log_agrees_def)
  have "wal_holds W (wal log') (map record_of cs @ [record_of c])"
    using append_committed_holds [OF W _ log(3)] ag log(1) by (auto simp: log_agrees_def)
  moreover have "distinct (map rc_commit_ts (cs @ [c]))"
    using ag below by (auto simp: log_agrees_def)
  moreover have "\<forall>b\<in>set (cs @ [c]). rc_commit_ts b < next_commit d'"
    using below c(2) unfolding nx by auto
  moreover have "latest (hist (in_store d') k) = latest (recovered_hist (sort_key rc_commit_ts (cs @ [c])) k)" for k
    using ag by (simp add: st sort_key_snoc [OF below] latest_append log_agrees_def)
  ultimately show ?thesis using ag log(2) c(1) by (simp add: log_agrees_def)
qed

text \<open>A step that leaves the log and the newest values alone.\<close>

lemma log_agrees_frame:
  assumes "log_agrees W hist d cs" "in_log d' = in_log d" "next_commit d \<le> next_commit d'"
    "\<And>k. latest (hist (in_store d') k) = latest (hist (in_store d) k)"
  shows "log_agrees W hist d' cs"
  using assms by (auto simp: log_agrees_def intro: less_le_trans)

lemma log_agrees_commit:
  assumes ok: "db_ok wf_store store_hist d F M" and room: "oracle_room (in_oracle d)"
    and ord: "hash_order_ok ord" and tx: "tx_ok tx" "writes tx \<noteq> []"
    and live: "Transaction_read_timestamp tx \<in># M"
    and ag: "log_agrees W store_hist d cs" and W: "wal_appends W"
    and fit: "recordable \<lparr>rc_commit_ts = next_commit d, rc_writes = order_writes ord (writes tx)\<rparr>" (is "recordable ?c")
    and com: "Transaction_commit ord MemoryStore W d tx = (r, d')" and fine: "\<not> (\<exists>e. r = Inl e \<and> is_fatal e)"
  shows "log_agrees W store_hist d' (if isl r then cs else cs @ [?c])"
  using ok room ord tx live
proof (cases rule: mem.commit_cases [where W = W])
  case (conflict k d2)
  then have d': "r = Inl (Txn_Error.conflict (length k))" "d2 = d'" using com by simp_all
  have "next_commit d \<le> next_commit d'"
    using alloc_next [OF room, of "next_commit d"] conflict(7) d'(2) by (simp add: alloc_commit_ts_def less_imp_le)
  with conflict ag d' show ?thesis by (auto intro: log_agrees_frame)
next
  case (applied d2)
  then have d': "r = Inr (next_commit d)" "d2 = d'" using com by simp_all
  obtain log log' where log: "in_log d = Some log" "in_log d' = Some log'"
    "append_committed W log (record_of ?c) = (Inr (), log')"
    using applied(4) ag d'(2) by (auto simp: log_agrees_def record_of_def)
  have "t < next_commit d' \<longleftrightarrow> t \<le> next_commit d" for t
    using alloc_next [OF room, of t] applied(6) d'(2) by (simp add: alloc_commit_ts_def)
  then have "log_agrees W store_hist d' (cs @ [?c])"
    using applied(3) new_versions_order [OF ord tx(1)] d'(2)
    by (intro log_agrees_snoc [OF ag W log fit]) simp_all
  with d' show ?thesis by simp
next
  case (unlogged e l l' d2)
  then show ?thesis using com fine append_committed_error by fastforce
qed

lemma log_agrees_collect:
  assumes ok: "db_ok wf_store store_hist d F M" and ag: "log_agrees W store_hist d cs"
  shows "log_agrees W store_hist (snd (Db_collect_garbage MemoryStore d)) cs"
proof -
  let ?s = "snd (vs_collect_garbage MemoryStore (in_store d) (low_watermark (in_oracle d)))"
  have d': "snd (Db_collect_garbage MemoryStore d) = d\<lparr>in_store := ?s\<rparr>"
    by (simp add: Db_collect_garbage_def Inner_collect_garbage_def split: prod.split)
  have "latest (store_hist ?s k) = latest (store_hist (in_store d) k)" for k
    using ok mem.gc_law [of "in_store d" "low_watermark (in_oracle d)" k] pruned_latest
    by (auto simp: db_ok_def)
  then show ?thesis unfolding d' using ag by (intro log_agrees_frame [OF ag]) simp_all
qed

section \<open>Properties\<close>

text \<open>A transaction on an empty durable database, and a log with two records out of order.\<close>

abbreviation demo_live :: "(memory_store, bytes list) inner" where
  "demo_live \<equiv> snd (Db_begin demo_durable)"

lemma demo_live_facts:
  "in_store demo_live = MemoryStore_new" "in_log demo_live = Some \<lparr>wal = []\<rparr>"
  "oracle_room (in_oracle demo_live)" "next_commit demo_live = Timestamp 1"
  "db_ok wf_store store_hist demo_live {..<Timestamp 1} {#ZERO#}"
proof -
  show "in_store demo_live = MemoryStore_new" "in_log demo_live = Some \<lparr>wal = []\<rparr>"
    "oracle_room (in_oracle demo_live)" "next_commit demo_live = Timestamp 1"
    by (simp_all add: Db_begin_def Transaction_new_eq Db_new_def Db_with_store_def Inner_new_def
        Oracle_new_def oracle_room_def from_raw_def begin_reader_def)
  have "in_oracle demo_durable = in_oracle demo_db" by simp
  then have "Oracle_read_ts (in_oracle demo_durable) = ZERO" "next_commit demo_durable = Timestamp 1"
    using demo_begin(1) room_Db_new(3) by (simp_all add: Db_begin_def Transaction_new_eq)
  with db_ok_begin [OF demo_durable_quiet(1), of False]
  show "db_ok wf_store store_hist demo_live {..<Timestamp 1} {#ZERO#}"
    by (simp add: Db_begin_def)
qed

lemma demo_durable_agrees: "log_agrees list_wal store_hist demo_durable []" "log_agrees list_wal store_hist demo_live []"
  by (simp_all add: log_agrees_def demo_live_facts store_hist_new)
    (simp add: Db_new_def Db_with_store_def Inner_new_def store_hist_new)

abbreviation demo_commits :: "RecoveredCommit list" where
  "demo_commits \<equiv> [\<lparr>rc_commit_ts = Timestamp 2, rc_writes = [([97], Some [2])]\<rparr>,
     \<lparr>rc_commit_ts = Timestamp 1, rc_writes = [([97], Some [1]), ([98], Some [3])]\<rparr>]"

lemma demo_commits_ok: "list_all recordable demo_commits" "\<forall>c\<in>set demo_commits. rc_commit_ts c \<noteq> Timestamp (- 1)"
  by (simp_all add: recordable_def record_of_def batch_fits_def entry_fits_def encode_for_log_def encode_write_def)

text \<open>C14. Opening an intact log replays it: whatever order the records lie in, every key reads as the
  newest recorded commit that wrote it left it, every recorded commit is visible to the first
  reader, and the next commit gets a timestamp above all of them.\<close>

theorem open_replays_log:
  assumes "wal_reopens W" "wal_holds W path (map record_of cs)" "list_all recordable cs"
    "\<forall>c\<in>set cs. rc_commit_ts c \<noteq> Timestamp (- 1)"
  shows "\<exists>d. Db_open W path = Inr d \<and> quiet wf_store store_hist d {#}
    \<and> (\<forall>c\<in>set cs. rc_commit_ts c \<le> Db_last_committed d \<and> rc_commit_ts c < next_commit d)
    \<and> (\<forall>k. fst (Db_get MemoryStore d k) = Inr (latest (recovered_hist (sort_key rc_commit_ts cs) k)))"
proof -
  from assms obtain log d where d: "Db_open W path = Inr d" "quiet wf_store store_hist d {#}"
    "\<forall>c\<in>set cs. rc_commit_ts c < next_commit d"
    "\<forall>k. store_hist (in_store d) k = recovered_hist (sort_key rc_commit_ts cs) k"
    by (rule open_spec)
  have "\<forall>c\<in>set cs. rc_commit_ts c \<le> Db_last_committed d"
    using d(3) quiet_read [OF d(2)] by (simp add: Db_last_committed_def Inner_read_ts_def)
  with d mem.quiet_get [OF d(2)] show ?thesis by auto
qed

theorem open_replays_log_witness:
  "\<exists>d. Db_open list_wal (map record_of demo_commits) = Inr d \<and> fst (Db_get MemoryStore d [97]) = Inr (Some [2])
     \<and> fst (Db_get MemoryStore d [98]) = Inr (Some [3])"
proof -
  have "wal_holds list_wal (map record_of demo_commits) (map record_of demo_commits)" by simp
  from open_replays_log [OF list_wal_ok(2) this demo_commits_ok] obtain d
    where d: "Db_open list_wal (map record_of demo_commits) = Inr d"
      "\<And>k. fst (Db_get MemoryStore d k) = Inr (latest (recovered_hist (sort_key rc_commit_ts demo_commits) k))"
    by blast
  have "latest (recovered_hist (sort_key rc_commit_ts demo_commits) [97]) = Some [2]"
    "latest (recovered_hist (sort_key rc_commit_ts demo_commits) [98]) = Some [3]"
    by code_simp+
  with d(1) d(2) [of "[97]"] d(2) [of "[98]"] show ?thesis by (intro exI [of _ d]) simp
qed

text \<open>Restarting loses nothing: when log and store agree, closing the database and opening its log
  again gives a database in which every key reads as it did before, and log and store agree again.\<close>

theorem reopen_restores_state:
  assumes "log_agrees W store_hist d cs" "wal_reopens W" "\<forall>c\<in>set cs. rc_commit_ts c \<noteq> Timestamp (- 1)"
  shows "\<exists>log d'. in_log d = Some log \<and> Db_open W (wal log) = Inr d' \<and> quiet wf_store store_hist d' {#}
    \<and> log_agrees W store_hist d' cs
    \<and> (\<forall>k. fst (Db_get MemoryStore d' k) = Inr (latest (store_hist (in_store d) k)))"
proof -
  obtain log where log: "in_log d = Some log" "wal_holds W (wal log) (map record_of cs)" "list_all recordable cs"
    using assms(1) by (auto simp: log_agrees_def)
  obtain log' d' where d': "Db_open W (wal log) = Inr d'" "in_log d' = Some log'"
    "wal_holds W (wal log') (map record_of cs)" "quiet wf_store store_hist d' {#}"
    "\<forall>c\<in>set cs. rc_commit_ts c < next_commit d'"
    "\<forall>k. store_hist (in_store d') k = recovered_hist (sort_key rc_commit_ts cs) k"
    by (rule open_spec [OF assms(2) log(2,3) assms(3)])
  have "log_agrees W store_hist d' cs" using assms(1) d' by (simp add: log_agrees_def)
  with log d' mem.quiet_get [OF d'(4)] assms(1) show ?thesis by (auto simp: log_agrees_def)
qed

theorem reopen_restores_state_witness:
  "\<exists>d'. Db_open list_wal [] = Inr d' \<and> fst (Db_get MemoryStore d' [1]) = Inr None"
  using reopen_restores_state [OF demo_durable_agrees(1) list_wal_ok(2)]
  by (auto simp: Db_new_def Db_with_store_def Inner_new_def store_hist_new latest_def)

text \<open>An acknowledged commit is in the log: a commit that returns its timestamp adds its record, a
  rejected one adds nothing, and a collection changes nothing, so log and store keep agreeing. The
  only outcome that breaks the agreement is the fatal error of a failed append.\<close>

theorem commits_are_logged:
  assumes "db_ok wf_store store_hist d F M" "oracle_room (in_oracle d)" "hash_order_ok ord"
    "tx_ok tx" "writes tx \<noteq> []" "Transaction_read_timestamp tx \<in># M"
    "log_agrees W store_hist d cs" "wal_appends W"
    "recordable \<lparr>rc_commit_ts = next_commit d, rc_writes = order_writes ord (writes tx)\<rparr>"
    "Transaction_commit ord MemoryStore W d tx = (r, d')" "\<not> (\<exists>e. r = Inl e \<and> is_fatal e)"
  shows "log_agrees W store_hist d' (if isl r then cs
      else cs @ [\<lparr>rc_commit_ts = next_commit d, rc_writes = order_writes ord (writes tx)\<rparr>])
    \<and> log_agrees W store_hist (snd (Db_collect_garbage MemoryStore d)) cs"
  using log_agrees_commit [OF assms] log_agrees_collect [OF assms(1,7)] by blast

theorem commits_are_logged_witness:
  "\<exists>r d' c. Transaction_commit demo_order MemoryStore list_wal demo_live demo_tx = (Inr r, d')
     \<and> log_agrees list_wal store_hist d' [c]"
proof -
  let ?c = "\<lparr>rc_commit_ts = next_commit demo_live, rc_writes = order_writes demo_order (writes demo_tx)\<rparr>"
  have live: "Transaction_read_timestamp demo_tx \<in># {#ZERO#}" "writes demo_tx \<noteq> []"
    using demo_tx_facts(2,3) by simp_all
  have c: "recordable ?c"
    unfolding demo_tx_facts(2)
    by (simp add: recordable_def record_of_def batch_fits_def entry_fits_def encode_for_log_def encode_write_def)
  obtain r d' where com: "Transaction_commit demo_order MemoryStore list_wal demo_live demo_tx = (r, d')" by force
  from demo_live_facts(5,3) demo_order_ok demo_tx_facts(1) live(2,1)
  have ok: "\<exists>t. r = Inr t"
  proof (cases rule: mem.commit_cases [where W = list_wal])
    case (conflict k d2)
    then show ?thesis by (simp add: demo_live_facts(1) store_hist_new)
  next
    case (applied d2)
    then show ?thesis using com by simp
  next
    case (unlogged e l l' d2)
    then show ?thesis by (simp add: append_committed_def)
  qed
  then obtain t where t: "r = Inr t" by blast
  from commits_are_logged [OF demo_live_facts(5,3) demo_order_ok demo_tx_facts(1) live(2,1)
      demo_durable_agrees(2) list_wal_ok(1) c com]
  have "log_agrees list_wal store_hist d' [?c]" using t by simp
  with com t show ?thesis by blast
qed

text \<open>C16. A commit that could not be made durable is nevertheless applied, until a restart. When
  appending its record fails and leaves the log as it was, the put returns the fatal durability
  error, yet the very next read sees the value; after the log is opened again the key reads as it
  did before the put.\<close>

theorem failed_append_visible_until_restart:
  assumes "quiet wf_store store_hist d M" "oracle_room (in_oracle d)" "hash_order_ok ord"
    "log_agrees W store_hist d cs" "wal_reopens W" "\<forall>c\<in>set cs. rc_commit_ts c \<noteq> Timestamp (- 1)"
    "in_log d = Some log"
    "append_committed W log (encode_for_log (next_commit d) [(k, Some v)]) = (Inl e, log')"
    "wal_holds W (wal log') (map record_of cs)"
  shows "is_fatal e \<and> (\<exists>d' d''. Db_put ord MemoryStore W d k v = Some (Inl e, d')
    \<and> fst (Db_get MemoryStore d' k) = Inr (Some v)
    \<and> Db_open W (wal log') = Inr d'' \<and> fst (Db_get MemoryStore d'' k) = fst (Db_get MemoryStore d k))"
proof -
  obtain d' where d': "Db_put ord MemoryStore W d k v = Some (Inl e, d')"
    "fst (Db_get MemoryStore d' k) = Inr (Some v)"
    using mem.quiet_put_unlogged [OF assms(1-3,7,8)] by blast
  have cs: "list_all recordable cs" using assms(4) by (simp add: log_agrees_def)
  obtain l d'' where d'': "Db_open W (wal log') = Inr d''" "in_log d'' = Some l"
    "wal_holds W (wal l) (map record_of cs)" "quiet wf_store store_hist d'' {#}"
    "\<forall>c\<in>set cs. rc_commit_ts c < next_commit d''"
    "\<forall>k. store_hist (in_store d'') k = recovered_hist (sort_key rc_commit_ts cs) k"
    by (rule open_spec [OF assms(5,9) cs assms(6)])
  have "fst (Db_get MemoryStore d'' k) = fst (Db_get MemoryStore d k)"
    unfolding mem.quiet_get [OF d''(4)] mem.quiet_get [OF assms(1)]
    using assms(4) d''(6) by (simp add: log_agrees_def)
  with d' d''(1) append_committed_error [OF assms(8)] show ?thesis by blast
qed

theorem failed_append_visible_until_restart_witness:
  "\<exists>d' d''. Db_put demo_order MemoryStore full_wal demo_durable [1] [2]
      = Some (Inl (durability ''no space left''), d')
    \<and> fst (Db_get MemoryStore d' [1]) = Inr (Some [2])
    \<and> Db_open full_wal [] = Inr d'' \<and> fst (Db_get MemoryStore d'' [1]) = fst (Db_get MemoryStore demo_durable [1])"
proof -
  have ag: "log_agrees full_wal store_hist demo_durable []"
    using demo_durable_agrees(1) by (simp add: log_agrees_def)
  show ?thesis
    using failed_append_visible_until_restart [OF demo_durable_quiet demo_order_ok ag list_wal_ok(3) _ _
        demo_durable_fails, of "[1]" "[2]"]
    by simp
qed

text \<open>C17. Opening refuses what it cannot read: if the log cannot be opened or iterated, or any of its entries
  fails to be read, or any record fails to decode, \<open>Db::open\<close> returns a fatal error and no database,
  wherever the entry lies and however many good records are around it.\<close>

theorem open_rejects_malformed_log:
  assumes "(\<exists>m. wal_open W path = Inl m) \<or> (\<exists>w. wal_open W path = Inr w \<and> ((\<exists>m. wal_iter W w = Inl m)
    \<or> (\<exists>entries. wal_iter W w = Inr entries
        \<and> ((\<exists>m. Inl m \<in> set entries) \<or> (\<exists>rec e. Inr rec \<in> set entries \<and> decode_commit rec = Inl e)))))"
  shows "\<exists>e. Db_open W path = Inl e \<and> is_fatal e"
proof -
  consider m where "wal_open W path = Inl m" | w m where "wal_open W path = Inr w" "wal_iter W w = Inl m"
    | w entries where "wal_open W path = Inr w" "wal_iter W w = Inr entries" "\<exists>e. decode_entries entries = Inl e \<and> is_fatal e"
    using assms decode_entries_bad by blast
  then have "\<exists>e. CommitLog_open W path = Inl e \<and> is_fatal e"
    by cases (auto simp: CommitLog_open_def)
  then show ?thesis by (auto simp: Db_open_def)
qed

text \<open>A log whose second entry cannot be read.\<close>

definition torn_wal :: "bytes list wal_ops" where
  "torn_wal = list_wal\<lparr>wal_iter := (\<lambda>w. Inr (map Inr w @ [Inl ''bad checksum'']))\<rparr>"

theorem open_rejects_malformed_log_witness:
  "\<exists>e. Db_open torn_wal [record_of (hd demo_commits)] = Inl e \<and> is_fatal e"
  using open_rejects_malformed_log [of torn_wal "[record_of (hd demo_commits)]"] by (simp add: torn_wal_def)

text \<open>C40. An acknowledged commit can make the whole log unreadable. A durable commit whose record overflows
  a 32-bit field, because it has \<open>2 ^ 32\<close> writes or more or its last value has \<open>2 ^ 32\<close> bytes or more,
  is acknowledged and read like any other; but the lengths in its record are truncated, the decoder
  finds bytes left over, and from then on opening the log is a fatal error: every commit in it is lost,
  not only this one.\<close>

theorem oversized_commit_loses_the_log:
  assumes "quiet wf_store store_hist d M" "oracle_room (in_oracle d)" "hash_order_ok ord"
    "in_log d = Some log" "wal_holds W (wal log) recs" "wal_appends W" "wal_reopens W"
    "tx_ok tx" "Transaction_read_timestamp tx = Oracle_read_ts (in_oracle d)"
    "overflows (order_writes ord (writes tx))"
    "length (encode_for_log (next_commit d) (order_writes ord (writes tx))) < 2 ^ 64"
    "append_committed W log (encode_for_log (next_commit d) (order_writes ord (writes tx))) = (Inr (), log')"
  shows "\<exists>d'. Transaction_commit ord MemoryStore W (snd (Db_begin d)) tx = (Inr (next_commit d), d')
    \<and> in_log d' = Some log'
    \<and> (\<forall>k v. map_of (writes tx) k = Some v \<longrightarrow> fst (Db_get MemoryStore d' k) = Inr v)
    \<and> (\<exists>e. Db_open W (wal log') = Inl e \<and> is_fatal e)"
proof -
  let ?ws = "order_writes ord (writes tx)"
  let ?rec = "encode_for_log (next_commit d) ?ws"
  have "?ws \<noteq> []" using assms(10) by (auto simp: overflows_def)
  moreover have "mset ?ws = mset (writes tx)" using assms(3) by (simp add: hash_order_ok_def)
  ultimately have ne: "writes tx \<noteq> []" by auto
  obtain r d' where d': "Transaction_commit ord MemoryStore W (snd (Db_begin d)) tx = (r, d')"
    "(r, in_log d') = recorded W (in_log d) (next_commit d) ?ws" "quiet wf_store store_hist d' M"
    "\<And>k. store_hist (in_store d') k = store_hist (in_store d) k @ own_version (next_commit d) tx k"
    by (rule mem.quiet_commit_recorded [OF assms(1-3,8) ne assms(9)]) blast
  have r: "r = Inr (next_commit d)" "in_log d' = Some log'" using d'(2) assms(4,12) by (simp_all add: recorded_def)
  have "wal_holds W (wal log') (recs @ [?rec])" by (rule append_committed_holds [OF assms(6,5,12)])
  then obtain w where w: "wal_open W (wal log') = Inr w" "wal_iter W w = Inr (map Inr (recs @ [?rec]))"
    using assms(7) unfolding wal_reopens_def wal_holds_def by blast
  have "\<exists>e. decode_entries (map Inr (recs @ [?rec])) = Inl e \<and> is_fatal e"
    using overflows_unreadable [OF assms(10,11)] by (intro decode_entries_bad disjI2) auto
  then have "\<exists>e. Db_open W (wal log') = Inl e \<and> is_fatal e"
    using w by (auto simp: Db_open_def CommitLog_open_def)
  moreover have "fst (Db_get MemoryStore d' k) = Inr v" if "map_of (writes tx) k = Some v" for k v
    using that by (simp add: mem.quiet_get [OF d'(3)] d'(4) own_version_def latest_def)
  ultimately show ?thesis using d'(1) r by (intro exI [of _ d']) simp
qed

text \<open>A put of a value of four gibibytes on an empty durable database.\<close>

theorem oversized_commit_loses_the_log_witness:
  "\<exists>d' log. Transaction_commit demo_order MemoryStore list_wal (snd (Db_begin demo_durable))
       (Transaction_put (fst (Db_begin demo_durable)) [1] (replicate (2 ^ 32) 0)) = (Inr (Timestamp 1), d')
     \<and> in_log d' = Some log \<and> fst (Db_get MemoryStore d' [1]) = Inr (Some (replicate (2 ^ 32) 0))
     \<and> (\<exists>e. Db_open list_wal (wal log) = Inl e \<and> is_fatal e)"
proof -
  obtain v :: bytes where v: "v = replicate (2 ^ 32) 0" "length v = 2 ^ 32" by simp
  let ?tx = "Transaction_put (fst (Db_begin demo_durable)) [1] v"
  have tx: "writes ?tx = [([1], Some v)]" "tx_ok ?tx"
    "Transaction_read_timestamp ?tx = Oracle_read_ts (in_oracle demo_durable)"
    by (auto simp: Db_begin_def Transaction_new_eq Transaction_put_def Transaction_read_timestamp_def tx_ok_def)
  have "overflows [([1], Some v)]"
    unfolding overflows_def
    by (intro disjI2 exI [of _ "[]"] exI [of _ "[1]"] exI [of _ v]) (simp add: batch_fits_def entry_fits_def v(2))
  moreover have "length (encode_for_log t [([1], Some v)]) < 2 ^ 64" for t
    by (simp add: encode_for_log_def encode_write_def v(2))
  ultimately have big: "overflows (order_writes demo_order (writes ?tx))"
    "length (encode_for_log (next_commit demo_durable) (order_writes demo_order (writes ?tx))) < 2 ^ 64"
    unfolding tx(1) mem.order_writes_single [OF demo_order_ok] by blast+
  have app: "append_committed list_wal \<lparr>wal = []\<rparr> rec = (Inr (), \<lparr>wal = [rec]\<rparr>)" for rec
    by (simp add: append_committed_def)
  have "next_commit demo_durable = Timestamp 1" using room_Db_new(3) by simp
  with oversized_commit_loses_the_log [OF demo_durable_quiet demo_order_ok _ _ list_wal_ok(1,2) tx(2,3) big app, of "[]"]
  show ?thesis unfolding v(1) [symmetric] by (auto simp: tx(1))
qed

end
