(* ===== verification/Durability.thy ===== *)
theory Durability
  imports Isolation Recovery
begin

text \<open>
  A crash in the middle of concurrent commits (\<open>src/src/db.rs\<close>, \<open>src/src/durable.rs\<close>). The
  database runs as in theory \<open>Concurrency\<close>, over a log whose appends may fail; a crash keeps the log
  and loses everything else, at any point between two steps. The lemmas relate the records in the
  log to the commits applied and to where each commit is, and the properties say what \<open>Db::open\<close>
  finds afterwards.
\<close>

section \<open>Definitions\<close>

text \<open>
  An append that fails leaves the records of the log as they were, or has added the whole record: every
  record is framed with its length and checksum, and what a failed write leaves of one is discarded.
\<close>

definition wal_keeps :: "'w wal_ops \<Rightarrow> bool" where
  "wal_keeps W \<longleftrightarrow> (\<forall>w w' e rec recs. wal_holds W w recs \<longrightarrow> wal_append_and_sync W w rec = (Inl e, w') \<longrightarrow>
     wal_holds W w' recs \<or> wal_holds W w' (recs @ [rec]))"

text \<open>A log on which every append succeeds, as on a disk that does not fail and is not full.\<close>

definition wal_syncs :: "'w wal_ops \<Rightarrow> bool" where
  "wal_syncs W \<longleftrightarrow> (\<forall>w rec. \<exists>lsn w'. wal_append_and_sync W w rec = (Inr lsn, w'))"

text \<open>The writes of a transaction fit a record.\<close>

definition tx_fits :: "transaction \<Rightarrow> bool" where
  "tx_fits tx \<longleftrightarrow> batch_fits (writes tx) \<and> length (encode_for_log ZERO (writes tx)) < 2 ^ 64"

text \<open>An applied commit whose record is still to be appended, and one that is about to return.\<close>

fun pending_append :: "process \<Rightarrow> (transaction \<times> RecoveredCommit) option" where
  "pending_append (Validated tx cts batch (Inr u)) = Some (tx, \<lparr>rc_commit_ts = cts, rc_writes = batch\<rparr>)"
| "pending_append _ = None"

fun acknowledged :: "process \<Rightarrow> (transaction \<times> timestamp) option" where
  "acknowledged (Decided tx cts (Inr t)) = Some (tx, t)"
| "acknowledged (Released tx (Inr t)) = Some (tx, t)"
| "acknowledged _ = None"

definition in_flight :: "('s, 'w) system \<Rightarrow> commit \<Rightarrow> bool" where
  "in_flight S c \<longleftrightarrow> (\<exists>p tx r. pending_append (procs S p) = Some (tx, r) \<and> rc_commit_ts r = c_ts c)"

text \<open>The commits whose records the log holds, and those of a run among them, in the order applied.\<close>

fun decoded :: "string + bytes \<Rightarrow> RecoveredCommit list" where
  "decoded (Inl e) = []"
| "decoded (Inr rec) = (case decode_commit rec of Inl e \<Rightarrow> [] | Inr c \<Rightarrow> [c])"

definition logged :: "'w wal_ops \<Rightarrow> ('s, 'w) inner \<Rightarrow> RecoveredCommit list" where
  "logged W d =
     (case in_log d of
        None \<Rightarrow> []
      | Some log \<Rightarrow> (case wal_iter W (wal log) of Inl e \<Rightarrow> [] | Inr entries \<Rightarrow> concat (map decoded entries)))"

definition durable :: "'w wal_ops \<Rightarrow> ('s, 'w) system \<Rightarrow> commit list" where
  "durable W S = filter (\<lambda>c. c_ts c \<in> rc_commit_ts ` set (logged W (shared S))) (history S)"

text \<open>A record is that of a commit.\<close>

definition records :: "RecoveredCommit \<Rightarrow> commit \<Rightarrow> bool" where
  "records r c \<longleftrightarrow> rc_commit_ts r = c_ts c \<and> mset (rc_writes r) = mset (writes (c_tx c))
     \<and> (\<forall>k. new_versions (rc_commit_ts r) (rc_writes r) k = own_version (c_ts c) (c_tx c) k)"

text \<open>
  The log holds \<open>old\<close> and then \<open>L\<close>, records of commits of the run: of every one that has been
  acknowledged and, when no append fails, of every one no longer in flight.
\<close>

definition log_inv ::
  "'w wal_ops \<Rightarrow> RecoveredCommit list \<Rightarrow> RecoveredCommit list \<Rightarrow> ('s, 'w) system \<Rightarrow> bool" where
  "log_inv W old L S \<longleftrightarrow>
     (\<exists>log. in_log (shared S) = Some log \<and> wal_holds W (wal log) (map record_of (old @ L)))
     \<and> distinct (map rc_commit_ts L)
     \<and> (\<forall>r\<in>set L. \<exists>c\<in>set (history S). records r c)
     \<and> (\<forall>p tx r. pending_append (procs S p) = Some (tx, r) \<longrightarrow>
          rc_commit_ts r \<notin> rc_commit_ts ` set L \<and> (\<exists>c\<in>set (history S). records r c \<and> c_tx c = tx))
     \<and> (wal_syncs W \<longrightarrow> (\<forall>c\<in>set (history S). in_flight S c \<or> c_ts c \<in> rc_commit_ts ` set L))
     \<and> (\<forall>p tx t. acknowledged (procs S p) = Some (tx, t) \<longrightarrow>
          t \<in> rc_commit_ts ` set L \<and> (\<exists>c\<in>set (history S). c_tx c = tx \<and> c_ts c = t))
     \<and> (\<forall>p tx cts batch rs. procs S p = Allocated tx cts batch rs \<longrightarrow> mset batch = mset (writes tx))"

section \<open>Lemmas\<close>

subsection \<open>The steps and the log\<close>

lemma in_log_simps [simp]:
  "in_log (snd (Transaction_new d b)) = in_log d" "in_log (snd (Snapshot_new d)) = in_log d"
  "in_log (ActiveReader_drop d a) = in_log d" "in_log (Transaction_rollback d tx) = in_log d"
  "in_log (Snapshot_drop d sn) = in_log d"
  by (simp_all add: Transaction_new_eq Snapshot_new_def ActiveReader_new_def Inner_begin_reader_def
      ActiveReader_drop_eq Transaction_rollback_def Snapshot_drop_def split: prod.split)

lemma step_log:
  assumes "step V W G S S'"
  obtains (applied) p tx cts batch rs c where "procs S p = Allocated tx cts batch rs"
      "history S' = history S @ [c]" "c_tx c = tx" "c_ts c = cts"
      "procs S' = (procs S)(p := Validated tx cts batch (Inr ()))" "in_log (shared S') = in_log (shared S)"
  | (logged) p tx cts batch u r where "procs S p = Validated tx cts batch (Inr u)"
      "log_commit W (shared S) cts batch = (r, shared S')" "procs S' = (procs S)(p := Decided tx cts r)"
      "history S' = history S"
  | (other) "history S' = history S" "in_log (shared S') = in_log (shared S)"
      "\<And>q. pending_append (procs S' q) = pending_append (procs S q)"
      "\<And>q x. acknowledged (procs S' q) = Some x \<Longrightarrow> acknowledged (procs S q) = Some x"
      "\<And>q tx cts batch rs. procs S' q = Allocated tx cts batch rs \<Longrightarrow>
        procs S q = Allocated tx cts batch rs \<or> mset batch = mset (writes tx)"
  using assms
proof (cases rule: step.cases)
  case (commit_apply p tx cts batch rs r s)
  show thesis
  proof (cases r)
    case (Inl e)
    with commit_apply show thesis by (intro other) (auto split: if_splits)
  next
    case (Inr u)
    with commit_apply show thesis
      by (intro applied [of p tx cts batch rs "\<lparr>c_tx = tx, c_ts = cts, c_seen = seen S p\<rparr>"]) simp_all
  qed
next
  case (commit_log_step p tx cts batch u r d)
  then show thesis by (intro logged [of p tx cts batch u r]) simp_all
next
  case (commit_alloc p tx ord cts orc)
  then show thesis by (intro other) (auto simp: hash_order_ok_def split: if_splits)
next
  case (commit_conflict p tx cts batch e)
  then show thesis by (intro other) (auto split: if_splits)
next
  case (commit_done_step p tx cts r)
  then show thesis by (intro other) (cases r; auto split: if_splits)+
next
  case (commit_drop p tx r)
  then show thesis by (intro other) (cases r; auto split: if_splits)+
next
  case (begin_tx p ser tx d)
  then show thesis using in_log_simps(1) [of "shared S" ser] by (intro other) (auto split: if_splits)
next
  case (open_snapshot p sn d)
  then show thesis using in_log_simps(2) [of "shared S"] by (intro other) (auto split: if_splits)
qed (rule other; auto split: if_splits)+


lemma log_invD:
  assumes "log_inv W old L S"
  shows "\<exists>log. in_log (shared S) = Some log \<and> wal_holds W (wal log) (map record_of (old @ L))"
    "distinct (map rc_commit_ts L)" "r \<in> set L \<Longrightarrow> \<exists>c\<in>set (history S). records r c"
    "pending_append (procs S p) = Some (tx, r) \<Longrightarrow> rc_commit_ts r \<notin> rc_commit_ts ` set L"
    "pending_append (procs S p) = Some (tx, r) \<Longrightarrow> \<exists>c\<in>set (history S). records r c \<and> c_tx c = tx"
    "wal_syncs W \<Longrightarrow> c \<in> set (history S) \<Longrightarrow> in_flight S c \<or> c_ts c \<in> rc_commit_ts ` set L"
    "acknowledged (procs S p) = Some (tx, t) \<Longrightarrow>
      t \<in> rc_commit_ts ` set L \<and> (\<exists>c\<in>set (history S). c_tx c = tx \<and> c_ts c = t)"
    "procs S p = Allocated tx cts batch rs \<Longrightarrow> mset batch = mset (writes tx)"
  using assms unfolding log_inv_def by blast+

lemma log_inv_applied:
  assumes inv: "log_inv W old L S" and p: "procs S p = Allocated tx cts batch rs"
    and S': "history S' = history S @ [c]" "c_tx c = tx" "c_ts c = cts"
      "procs S' = (procs S)(p := Validated tx cts batch (Inr ()))" "in_log (shared S') = in_log (shared S)"
    and fresh: "cts \<notin> c_ts ` set (history S)" and batch: "batch_of tx batch rs"
  shows "log_inv W old L S'"
proof -
  have rec: "records \<lparr>rc_commit_ts = cts, rc_writes = batch\<rparr> c"
    using batch log_invD(8) [OF inv p] S'(2,3) by (simp add: records_def batch_of_def)
  have new: "cts \<notin> rc_commit_ts ` set L"
    using log_invD(3) [OF inv] fresh by (fastforce simp: records_def)
  have fl: "in_flight S' b" if "in_flight S b \<or> b = c" for b
    using that
  proof
    assume "in_flight S b"
    then obtain q tx' r where q: "pending_append (procs S q) = Some (tx', r)" "rc_commit_ts r = c_ts b"
      unfolding in_flight_def by blast
    with p have "q \<noteq> p" by auto
    with q show ?thesis unfolding in_flight_def S'(4) by (intro exI [of _ q]) auto
  next
    assume "b = c"
    then show ?thesis unfolding in_flight_def S'(4) using S'(3) by (intro exI [of _ p]) simp
  qed
  have pend: "rc_commit_ts r \<notin> rc_commit_ts ` set L \<and> (\<exists>c\<in>set (history S'). records r c \<and> c_tx c = tx')"
    if "pending_append (procs S' q) = Some (tx', r)" for q tx' r
    using that log_invD(4,5) [OF inv, of q tx' r] rec new S' by (cases "q = p") auto
  have ack: "t \<in> rc_commit_ts ` set L \<and> (\<exists>c\<in>set (history S'). c_tx c = tx' \<and> c_ts c = t)"
    if "acknowledged (procs S' q) = Some (tx', t)" for q tx' t
    using that log_invD(7) [OF inv, of q tx' t] S' by (cases "q = p") auto
  have alloc: "mset b = mset (writes tx')" if "procs S' q = Allocated tx' u b r" for q tx' u b r
    using that log_invD(8) [OF inv, of q tx' u b r] S' by (cases "q = p") auto
  show ?thesis
    unfolding log_inv_def
  proof (intro conjI allI impI ballI)
    fix b assume "wal_syncs W" "b \<in> set (history S')"
    then show "in_flight S' b \<or> c_ts b \<in> rc_commit_ts ` set L"
      using log_invD(6) [OF inv, of b] fl S'(1) by auto
  next
    fix r assume "r \<in> set L"
    then show "\<exists>c\<in>set (history S'). records r c" using log_invD(3) [OF inv] S'(1) by auto
  qed (use log_invD(1,2) [OF inv] pend ack alloc S'(5) in auto)
qed

text \<open>The append of a record: it is in the log afterwards, or the append failed and the log is as before.\<close>

lemma log_commit_keeps:
  assumes W: "wal_appends W" "wal_keeps W" and log: "in_log d = Some log" "wal_holds W (wal log) recs"
    and com: "log_commit W d cts batch = (r, d')"
  obtains (written) log' where "in_log d' = Some log'" "wal_holds W (wal log') (recs @ [encode_for_log cts batch])"
      "r = Inr cts \<or> isl r"
  | (lost) log' e where "in_log d' = Some log'" "wal_holds W (wal log') recs" "r = Inl e" "\<not> wal_syncs W"
proof -
  obtain x w' where ap: "wal_append_and_sync W (wal log) (encode_for_log cts batch) = (x, w')" by force
  show thesis
  proof (cases x)
    case (Inl e)
    then have "r = Inl (durability e)" "in_log d' = Some (log\<lparr>wal := w'\<rparr>)"
      using com ap log(1) by (auto simp: log_commit_def append_committed_def)
    moreover have "\<not> wal_syncs W" using ap Inl unfolding wal_syncs_def by (metis Inl_Inr_False prod.inject)
    moreover have "wal_holds W w' recs \<or> wal_holds W w' (recs @ [encode_for_log cts batch])"
      using W(2) log(2) ap Inl unfolding wal_keeps_def by blast
    ultimately show thesis using written lost by force
  next
    case (Inr lsn)
    then have "r = Inr cts" "in_log d' = Some (log\<lparr>wal := w'\<rparr>)"
      using com ap log(1) by (auto simp: log_commit_def append_committed_def)
    moreover have "wal_holds W w' (recs @ [encode_for_log cts batch])"
      using W(1) log(2) ap Inr unfolding wal_appends_def by blast
    ultimately show thesis using written by force
  qed
qed

lemma log_inv_written:
  assumes inv: "log_inv W old L S"
    and p: "procs S p = Validated tx cts batch (Inr u)" and res: "res = Inr cts \<or> isl res"
      "\<exists>log'. in_log (shared S') = Some log' \<and> wal_holds W (wal log') (map record_of (old @ L @ [\<lparr>rc_commit_ts = cts, rc_writes = batch\<rparr>]))"
    and S': "procs S' = (procs S)(p := Decided tx cts res)" "history S' = history S"
    and uniq: "\<And>q. held (procs S q) = Some cts \<Longrightarrow> q = p"
  shows "log_inv W old (L @ [\<lparr>rc_commit_ts = cts, rc_writes = batch\<rparr>]) S'"
proof -
  let ?r = "\<lparr>rc_commit_ts = cts, rc_writes = batch\<rparr>"
  have pp: "pending_append (procs S p) = Some (tx, ?r)" by (simp add: p)
  obtain c where c: "c \<in> set (history S)" "records ?r c" "c_tx c = tx"
    using log_invD(5) [OF inv pp] by blast
  have held: "held (procs S q) = Some (rc_commit_ts r)" if "pending_append (procs S q) = Some (tx', r)" for q tx' r
    using that by (cases "procs S q" rule: pending_append.cases) auto
  have fl: "in_flight S' b \<or> c_ts b = cts" if b: "in_flight S b" for b
  proof -
    obtain q tx' r where q: "pending_append (procs S q) = Some (tx', r)" "rc_commit_ts r = c_ts b"
      using b unfolding in_flight_def by blast
    show ?thesis
    proof (cases "q = p")
      case True
      then show ?thesis using q p by auto
    next
      case False
      then show ?thesis unfolding in_flight_def S'(1) using q by (intro disjI1 exI [of _ q]) auto
    qed
  qed
  have pend: "rc_commit_ts r \<notin> rc_commit_ts ` set (L @ [?r]) \<and> (\<exists>c\<in>set (history S'). records r c \<and> c_tx c = tx')"
    if "pending_append (procs S' q) = Some (tx', r)" for q tx' r
  proof -
    have "q \<noteq> p" using that S'(1) by auto
    then have q: "pending_append (procs S q) = Some (tx', r)" using that S'(1) by simp
    have "rc_commit_ts r \<noteq> cts" using uniq held [OF q] \<open>q \<noteq> p\<close> by metis
    then show ?thesis using log_invD(4,5) [OF inv q] S'(2) by simp
  qed
  have ack: "t \<in> rc_commit_ts ` set (L @ [?r]) \<and> (\<exists>c\<in>set (history S'). c_tx c = tx' \<and> c_ts c = t)"
    if "acknowledged (procs S' q) = Some (tx', t)" for q tx' t
    using that log_invD(7) [OF inv, of q tx' t] S' res(1) c
    by (cases "q = p"; cases res) (auto simp: records_def)
  have alloc: "mset b = mset (writes tx')" if "procs S' q = Allocated tx' v b r" for q tx' v b r
    using that log_invD(8) [OF inv, of q tx' v b r] S'(1) by (cases "q = p") auto
  show ?thesis
    unfolding log_inv_def
  proof (intro conjI allI impI ballI)
    show "distinct (map rc_commit_ts (L @ [?r]))"
      using log_invD(2) [OF inv] log_invD(4) [OF inv pp] by simp
  next
    fix b assume "wal_syncs W" "b \<in> set (history S')"
    then show "in_flight S' b \<or> c_ts b \<in> rc_commit_ts ` set (L @ [?r])"
      using log_invD(6) [OF inv, of b] fl [of b] S'(2) by auto
  next
    fix r assume "r \<in> set (L @ [?r])"
    then show "\<exists>c\<in>set (history S'). records r c" using log_invD(3) [OF inv] c S'(2) by auto
  qed (use res(2) pend ack alloc in auto)
qed

lemma log_inv_lost:
  assumes inv: "log_inv W old L S" and no: "\<not> wal_syncs W"
    and log: "in_log (shared S') = Some log'" "wal_holds W (wal log') (map record_of (old @ L))"
    and S': "procs S' = (procs S)(p := Decided tx cts (Inl e))" "history S' = history S"
  shows "log_inv W old L S'"
proof -
  have "pending_append (procs S' q) = Some x \<Longrightarrow> pending_append (procs S q) = Some x" for q x
    using S'(1) by (auto split: if_splits)
  moreover have "acknowledged (procs S' q) = Some x \<Longrightarrow> acknowledged (procs S q) = Some x" for q x
    using S'(1) by (auto split: if_splits)
  moreover have "procs S' q = Allocated t u b v \<Longrightarrow> procs S q = Allocated t u b v" for q t u b v
    using S'(1) by (auto split: if_splits)
  ultimately show ?thesis
    using log_invD [OF inv] no log unfolding log_inv_def S'(2) by meson
qed

lemma log_inv_logged:
  assumes inv: "log_inv W old L S" and W: "wal_appends W" "wal_keeps W"
    and p: "procs S p = Validated tx cts batch (Inr u)" "log_commit W (shared S) cts batch = (res, shared S')"
    and S': "procs S' = (procs S)(p := Decided tx cts res)" "history S' = history S"
    and uniq: "\<And>q. held (procs S q) = Some cts \<Longrightarrow> q = p"
  shows "\<exists>M. log_inv W old (L @ M) S'"
proof -
  obtain log where log: "in_log (shared S) = Some log" "wal_holds W (wal log) (map record_of (old @ L))"
    using log_invD(1) [OF inv] by blast
  from W log p(2) show ?thesis
  proof (cases rule: log_commit_keeps)
    case (written log')
    then have "\<exists>log'. in_log (shared S') = Some log'
        \<and> wal_holds W (wal log') (map record_of (old @ L @ [\<lparr>rc_commit_ts = cts, rc_writes = batch\<rparr>]))"
      by (simp add: record_of_def)
    from log_inv_written [OF inv p(1) written(3) this S' uniq] show ?thesis by blast
  next
    case (lost log' e)
    have "log_inv W old (L @ []) S'"
      using log_inv_lost [OF inv lost(4,1) _ _ S'(2), of p tx cts e] lost(2,3) S'(1) by simp
    then show ?thesis by blast
  qed
qed

lemma log_inv_other:
  assumes inv: "log_inv W old L S"
    and S': "history S' = history S" "in_log (shared S') = in_log (shared S)"
      "\<And>q. pending_append (procs S' q) = pending_append (procs S q)"
      "\<And>q x. acknowledged (procs S' q) = Some x \<Longrightarrow> acknowledged (procs S q) = Some x"
      "\<And>q tx cts batch rs. procs S' q = Allocated tx cts batch rs \<Longrightarrow>
        procs S q = Allocated tx cts batch rs \<or> mset batch = mset (writes tx)"
  shows "log_inv W old L S'"
proof -
  have fl: "in_flight S' = in_flight S" by (simp add: in_flight_def S'(3) fun_eq_iff)
  have alloc: "\<forall>q tx cts b rs. procs S' q = Allocated tx cts b rs \<longrightarrow> mset b = mset (writes tx)"
    using S'(5) log_invD(8) [OF inv] by blast
  have ack: "\<forall>q tx t. acknowledged (procs S' q) = Some (tx, t) \<longrightarrow>
      t \<in> rc_commit_ts ` set L \<and> (\<exists>c\<in>set (history S). c_tx c = tx \<and> c_ts c = t)"
    using S'(4) log_invD(7) [OF inv] by blast
  show ?thesis
    using inv ack alloc unfolding log_inv_def S'(1,2,3) fl by (elim conjE) (intro conjI; assumption)
qed


subsection \<open>Runs\<close>

context sliced_store
begin

lemma log_inv_step:
  assumes st: "step V W G S S'" and W: "wal_appends W" "wal_keeps W"
    and inv: "sys_inv invar hist h0 S" and fresh: "fresh_inv S" and log: "log_inv W old L S"
  shows "\<exists>M. log_inv W old (L @ M) S'"
proof -
  have at: "inv_at invar hist h0 (shared S) (procs S) (history S) (seen S)"
    using inv by (simp add: sys_inv_def)
  from st show ?thesis
  proof (cases rule: step_log)
    case (applied p tx cts batch rs c)
    have "cts \<notin> c_ts ` set (history S)" using fresh applied(1) unfolding fresh_inv_def by blast
    moreover have "batch_of tx batch rs"
      using inv_atD(6) [OF at, of p] applied(1) by (simp add: proc_inv_def)
    ultimately have "log_inv W old (L @ []) S'" using log_inv_applied [OF log applied] by simp
    then show ?thesis by blast
  next
    case (logged p tx cts batch u r)
    have "q = p" if "held (procs S q) = Some cts" for q
      using inv_atD(3) [OF at that, of p] logged(1) by simp
    from log_inv_logged [OF log W logged this] show ?thesis by blast
  next
    case other
    from log_inv_other [OF log other] show ?thesis by (intro exI [of _ "[]"]) simp
  qed
qed

lemma reachable_log:
  assumes "reachable V W G d S" "quiet invar hist d {#}" "wal_appends W" "wal_keeps W"
    "in_log d = Some log" "wal_holds W (wal log) (map record_of old)"
  shows "\<exists>L. log_inv W old L S"
  using assms
proof (induction rule: reachable.induct)
  case reach_start
  then have "log_inv W old [] (start d)" by (simp add: log_inv_def start_def)
  then show ?case by blast
next
  case (reach_step S S')
  then obtain L where "log_inv W old L S" by blast
  from log_inv_step [OF reach_step.hyps(3) reach_step.prems(2,3) reachable_inv reachable_fresh this]
  show ?case using reach_step.hyps(1) reach_step.prems(1) by blast
qed

lemma continued_log:
  assumes "(\<lambda>S S'. oracle_room (in_oracle (shared S)) \<and> step V W G S S')\<^sup>*\<^sup>* S S'"
    "reachable V W G d S" "quiet invar hist d {#}" "wal_appends W" "wal_keeps W" "log_inv W old L S"
  shows "\<exists>M. log_inv W old (L @ M) S' \<and> (\<exists>A. history S' = history S @ A)"
  using assms(1)
proof (induction rule: rtranclp_induct)
  case base
  then show ?case using assms(6) by (intro exI [of _ "[]"]) simp
next
  case (step T U)
  then obtain M A where M: "log_inv W old (L @ M) T" "history T = history S @ A" by blast
  have T: "reachable V W G d T" using continued [OF step.hyps(1) assms(2,3)] by blast
  obtain M' where "log_inv W old ((L @ M) @ M') U"
    using log_inv_step [OF conjunct2 [OF step.hyps(2)] assms(4,5) reachable_inv reachable_fresh M(1)] T assms(3)
    by blast
  moreover from conjunct2 [OF step.hyps(2)] have "\<exists>B. history U = history T @ B"
    by (cases rule: step_history) auto
  ultimately show ?case using M(2) by (intro exI [of _ "M @ M'"]) auto
qed

lemma agreed_log:
  assumes "reachable V W G d S" "quiet invar hist d {#}" "log_agrees W hist d old" "wal_appends W" "wal_keeps W"
  shows "\<exists>L. log_inv W old L S"
proof -
  obtain log where "in_log d = Some log" "wal_holds W (wal log) (map record_of old)"
    using assms(3) by (auto simp: log_agrees_def)
  then show ?thesis using reachable_log [OF assms(1,2,4,5)] by blast
qed

text \<open>Every commit of the run is above the timestamps finished before it.\<close>

lemma reachable_above:
  assumes "reachable V W G d S" "quiet invar hist d {#}" "c \<in> set (history S)"
  shows "Oracle_read_ts (in_oracle d) < c_ts c"
  using assms
proof (induction rule: reachable.induct)
  case (reach_step S S')
  from reach_step.hyps(3) show ?case
  proof (cases rule: step_history)
    case same
    then show ?thesis using reach_step by simp
  next
    case (applied p tx cts batch rs)
    have "Oracle_read_ts (in_oracle (shared S)) < cts"
      using inv_held_above(1) [OF reachable_at [OF reach_step.hyps(1) reach_step.prems(1)], of p cts] applied(1)
      by simp
    then have "Oracle_read_ts (in_oracle d) < cts"
      using reachable_readers [OF reach_step.hyps(1) reach_step.prems(1)] by (blast intro: le_less_trans)
    then show ?thesis using reach_step applied(2) by auto
  qed
qed (simp add: start_def)

text \<open>A commit at or below the watermark is no longer in flight.\<close>

lemma reachable_landed:
  assumes "reachable V W G d S" "quiet invar hist d {#}" "in_flight S c"
  shows "Oracle_read_ts (in_oracle (shared S)) < c_ts c"
proof -
  obtain p tx r where p: "pending_append (procs S p) = Some (tx, r)" "rc_commit_ts r = c_ts c"
    using assms(3) unfolding in_flight_def by blast
  then have "held (procs S p) = Some (c_ts c)" by (cases "procs S p" rule: pending_append.cases) auto
  then show ?thesis using inv_held_above(1) [OF reachable_at [OF assms(1,2)]] by blast
qed

end

subsection \<open>What replay makes of the records\<close>

lemma sort_key_append_less:
  assumes "\<And>x y. x \<in> set xs \<Longrightarrow> y \<in> set ys \<Longrightarrow> f x < f y"
  shows "sort_key f (xs @ ys) = sort_key f xs @ sort_key f ys"
proof (rule properties_for_sort_key)
  have "filter (\<lambda>x. k = f x) (sort_key f zs) = filter (\<lambda>x. k = f x) zs" for k zs
    using sort_key_stable [of f k zs] by (simp add: eq_commute)
  then show "filter (\<lambda>x. f k = f x) (sort_key f xs @ sort_key f ys) = filter (\<lambda>x. f k = f x) (xs @ ys)" for k
    by simp
qed (use assms in \<open>auto simp: sorted_append intro: less_imp_le\<close>)

text \<open>A concatenation of at most one version per element, in strictly ascending order.\<close>

lemma sorted_concat:
  assumes "\<And>x. x \<in> set xs \<Longrightarrow> length (g x) \<le> 1" "\<And>x v. x \<in> set xs \<Longrightarrow> v \<in> set (g x) \<Longrightarrow> commit_ts v = f x"
    "sorted_wrt (\<lambda>x y. g x \<noteq> [] \<longrightarrow> g y \<noteq> [] \<longrightarrow> f x < f y) xs"
  shows "sorted_wrt (<) (map commit_ts (concat (map g xs)))"
  using assms
proof (induction xs)
  case (Cons x xs)
  have "sorted_wrt (<) (map commit_ts (concat (map g xs)))" using Cons by auto
  moreover have "commit_ts v < commit_ts w" if "v \<in> set (g x)" "y \<in> set xs" "w \<in> set (g y)" for v y w
  proof -
    have "g x \<noteq> []" "g y \<noteq> []" using that by auto
    then have "f x < f y" using Cons.prems(3) that(2) by simp
    then show ?thesis using Cons.prems(2) [of x v] Cons.prems(2) [of y w] that by simp
  qed
  moreover have "sorted_wrt (<) (map commit_ts (g x))"
    using Cons.prems(1) [of x] by (cases "g x"; cases "tl (g x)") auto
  ultimately show ?case by (auto simp: sorted_wrt_append)
qed simp

lemma sorted_versions_unique:
  assumes "sorted_wrt (<) (map commit_ts X)" "sorted_wrt (<) (map commit_ts Y)" "set X = set Y"
  shows "X = Y"
proof (rule map_sorted_distinct_set_unique [where f = commit_ts])
  have "distinct (map commit_ts X)" "distinct (map commit_ts Y)" "sorted (map commit_ts X)" "sorted (map commit_ts Y)"
    using assms(1,2) by (simp_all add: strict_sorted_iff)
  then show "inj_on commit_ts (set X \<union> set Y)" "sorted (map commit_ts X)" "distinct (map commit_ts X)"
    "sorted (map commit_ts Y)" "distinct (map commit_ts Y)"
    using assms(3) by (simp_all add: distinct_map)
qed (rule assms(3))

lemma own_version_length: "length (own_version t tx k) \<le> 1"
  by (simp add: own_version_def split: option.split)

text \<open>Commits applied to the same key have ascending timestamps.\<close>

lemma history_ascending:
  assumes "history_inv h0 A"
  shows "sorted_wrt (\<lambda>b c. own_version (c_ts b) (c_tx b) k \<noteq> [] \<longrightarrow> own_version (c_ts c) (c_tx c) k \<noteq> []
    \<longrightarrow> c_ts b < c_ts c) A"
  unfolding sorted_wrt_iff_nth_less
proof (intro allI impI)
  fix i j assume ij: "i < j" "j < length A"
    and w: "own_version (c_ts (A ! i)) (c_tx (A ! i)) k \<noteq> []" "own_version (c_ts (A ! j)) (c_tx (A ! j)) k \<noteq> []"
  have c: "commit_inv h0 (take j A) (A ! j)" using assms ij(2) by (simp add: history_inv_def)
  have "A ! i \<in> set (take j A)" using ij by (auto simp: in_set_conv_nth)
  moreover have "k \<in> dom (map_of (writes (c_tx (A ! i)))) \<inter> watched (c_tx (A ! j))"
    using w by (auto simp: own_version_def watched_def split: option.splits)
  ultimately have "c_ts (A ! i) \<le> Transaction_read_timestamp (c_tx (A ! j))"
    using c unfolding commit_inv_def by blast
  also have "\<dots> < c_ts (A ! j)" using c by (simp add: commit_inv_def)
  finally show "c_ts (A ! i) < c_ts (A ! j)" .
qed

lemma recovered_hist_append: "recovered_hist (xs @ ys) k = recovered_hist xs k @ recovered_hist ys k"
  by (simp add: recovered_hist_def)

text \<open>Replayed in timestamp order, the records give every key the versions the durable commits gave it.\<close>

lemma recovered_durable:
  assumes log: "log_inv W old L S" and hist: "history_inv h0 (history S)"
    and dist: "distinct (map c_ts (history S))"
  shows "recovered_hist (sort_key rc_commit_ts L) k =
    full_hist (\<lambda>_. []) (filter (\<lambda>c. c_ts c \<in> rc_commit_ts ` set L) (history S)) k" (is "_ = full_hist _ ?kept k")
proof (rule sorted_versions_unique)
  let ?own = "\<lambda>c::commit. own_version (c_ts c) (c_tx c) k" and ?new = "\<lambda>r. new_versions (rc_commit_ts r) (rc_writes r) k"
  have new: "\<exists>c. ?new r = ?own c" if "r \<in> set L" for r
    using log_invD(3) [OF log that] unfolding records_def by metis
  have "sorted_wrt (<) (map rc_commit_ts (sort_key rc_commit_ts L))"
    using log_invD(2) [OF log] by (simp add: strict_sorted_iff distinct_map)
  then have "sorted_wrt (\<lambda>x y. ?new x \<noteq> [] \<longrightarrow> ?new y \<noteq> [] \<longrightarrow> rc_commit_ts x < rc_commit_ts y) (sort_key rc_commit_ts L)"
    unfolding sorted_wrt_map by (rule sorted_wrt_mono_rel [rotated]) simp
  moreover have "length (?new r) \<le> 1" if "r \<in> set L" for r
    using new [OF that] own_version_length by metis
  ultimately show "sorted_wrt (<) (map commit_ts (recovered_hist (sort_key rc_commit_ts L) k))"
    unfolding recovered_hist_def by (intro sorted_concat) (auto dest: new_versions_ts)
  show "sorted_wrt (<) (map commit_ts (full_hist (\<lambda>_. []) ?kept k))"
    unfolding full_hist_def append_Nil
    using sorted_wrt_filter [OF history_ascending [OF hist, of k]]
    by (intro sorted_concat [where f = c_ts] own_version_length) (auto dest: own_version_ts)
  have same: "(\<exists>r\<in>set L. v \<in> set (?new r)) \<longleftrightarrow> (\<exists>c\<in>set ?kept. v \<in> set (?own c))" for v
  proof
    assume "\<exists>r\<in>set L. v \<in> set (?new r)"
    then obtain r c where r: "r \<in> set L" "v \<in> set (?new r)" "c \<in> set (history S)" "records r c"
      using log_invD(3) [OF log] by blast
    then show "\<exists>c\<in>set ?kept. v \<in> set (?own c)" by (intro bexI [of _ c]) (auto simp: records_def intro: rev_image_eqI)
  next
    assume "\<exists>c\<in>set ?kept. v \<in> set (?own c)"
    then obtain c r where c: "c \<in> set (history S)" "v \<in> set (?own c)" and r: "r \<in> set L" "rc_commit_ts r = c_ts c"
      by auto
    obtain b where b: "b \<in> set (history S)" "records r b" using log_invD(3) [OF log r(1)] by blast
    then have "b = c"
      using c(1) r(2) dist by (auto simp: records_def distinct_map inj_on_def)
    moreover have "?new r = ?own b" using b(2) unfolding records_def by blast
    ultimately have "v \<in> set (?new r)" using c(2) by simp
    with r(1) show "\<exists>r\<in>set L. v \<in> set (?new r)" by blast
  qed
  obtain K where K: "K = ?kept" by blast
  from same show "set (recovered_hist (sort_key rc_commit_ts L) k) = set (full_hist (\<lambda>_. []) ?kept k)"
    unfolding K [symmetric] by (auto simp: recovered_hist_def full_hist_def)
qed

lemma record_length: "length (encode_for_log t ws) = 13 + (\<Sum>w\<in>#mset ws. length (encode_write w))"
proof -
  have "length (concat (map encode_write ws)) = (\<Sum>w\<in>#mset ws. length (encode_write w))"
    by (induction ws) simp_all
  then show ?thesis by (simp add: encode_for_log_def)
qed

lemma recordable_records:
  assumes "records r c" "tx_fits (c_tx c)"
  shows "recordable r"
proof -
  have m: "mset (rc_writes r) = mset (writes (c_tx c))" using assms(1) by (simp add: records_def)
  then have "length (rc_writes r) = length (writes (c_tx c))" "set (rc_writes r) = set (writes (c_tx c))"
    by (metis size_mset, metis set_mset_mset)
  then have "batch_fits (rc_writes r)" using assms(2) by (simp add: tx_fits_def batch_fits_def list_all_iff)
  then show ?thesis using assms(2) by (simp add: recordable_def record_of_def tx_fits_def record_length m)
qed

lemma serial_state_base: "(\<And>k. latest (h k) = latest (h' k)) \<Longrightarrow> serial_state h A = serial_state h' A"
  by (simp add: serial_state_def)

lemma decoded_records:
  "list_all recordable cs \<Longrightarrow> concat (map (decoded \<circ> Inr \<circ> record_of) cs) = cs"
proof (induction cs)
  case (Cons c cs)
  then have "decode_commit (record_of c) = Inr c"
    using decode_encode_append [of "rc_writes c" "rc_commit_ts c" "[]"] by (simp add: recordable_def record_of_def)
  with Cons show ?case by simp
qed simp

text \<open>Opening the log after a crash in any reachable state.\<close>

lemma crash_open:
  assumes r: "mem_reachable W d S" and q: "quiet wf_store store_hist d {#}"
    and ag: "log_agrees W store_hist d cs" and W: "wal_reopens W" and L: "log_inv W cs L S"
    and fit: "\<forall>c\<in>set (history S). tx_fits (c_tx c)"
  obtains log d' h where "in_log (shared S) = Some log" "wal_holds W (wal log) (map record_of (cs @ L))"
    "Db_open W (wal log) = Inr d'" "durable W S = filter (\<lambda>c. c_ts c \<in> rc_commit_ts ` set L) (history S)"
    "quiet wf_store store_hist d' {#}" "\<exists>cs'. log_agrees W store_hist d' cs'"
    "\<And>k. store_hist (in_store d') k = full_hist h (durable W S) k"
    "\<And>k. latest (h k) = latest (store_hist (in_store d) k)"
    "\<And>k v. v \<in> set (h k) \<Longrightarrow> commit_ts v \<le> Oracle_read_ts (in_oracle d)"
    "\<And>c. c \<in> set (durable W S) \<Longrightarrow> c_ts c \<le> Db_last_committed d'"
proof -
  have old: "list_all recordable cs" "distinct (map rc_commit_ts cs)" "\<forall>c\<in>set cs. rc_commit_ts c < next_commit d"
      "\<And>k. latest (store_hist (in_store d) k) = latest (recovered_hist (sort_key rc_commit_ts cs) k)"
    using ag by (auto simp: log_agrees_def)
  obtain log where log: "in_log (shared S) = Some log" "wal_holds W (wal log) (map record_of (cs @ L))"
    using log_invD(1) [OF L] by blast
  have fits: "list_all recordable (cs @ L)"
    using old(1) log_invD(3) [OF L] fit recordable_records by (fastforce simp: list_all_iff)
  have below: "rc_commit_ts c \<le> Oracle_read_ts (in_oracle d)" if "c \<in> set cs" for c
    using quiet_read [OF q] old(3) that by blast
  have above: "Oracle_read_ts (in_oracle d) < rc_commit_ts c \<and> rc_commit_ts c < next_commit (shared S)"
    if "c \<in> set L" for c
    using log_invD(3) [OF L that] mems.reachable_above [OF r q] mems.reachable_fresh [OF r q]
    by (auto simp: records_def fresh_inv_def)
  have room: "\<forall>c\<in>set (cs @ L). rc_commit_ts c \<noteq> Timestamp (- 1)"
  proof -
    have "\<not> Timestamp (- 1) < t" for t by (cases t) (simp add: less_timestamp_def not_less)
    then show ?thesis using old(3) above by fastforce
  qed
  obtain log' d' where d': "Db_open W (wal log) = Inr d'" "in_log d' = Some log'"
    "wal_holds W (wal log') (map record_of (cs @ L))" "quiet wf_store store_hist d' {#}"
    "\<forall>c\<in>set (cs @ L). rc_commit_ts c < next_commit d'"
    "\<forall>k. store_hist (in_store d') k = recovered_hist (sort_key rc_commit_ts (cs @ L)) k"
    by (rule open_spec [OF W log(2) fits room])
  have dist: "distinct (map c_ts (history S))" using mems.reachable_fresh [OF r q] by (simp add: fresh_inv_def)
  have srt: "sort_key rc_commit_ts (cs @ L) = sort_key rc_commit_ts cs @ sort_key rc_commit_ts L"
    using below above by (intro sort_key_append_less) (blast intro: le_less_trans)
  have "concat (map (decoded \<circ> Inr \<circ> record_of) (cs @ L)) = cs @ L"
    using fits by (rule decoded_records)
  then have "logged W (shared S) = cs @ L" using log by (simp add: logged_def wal_holds_def comp_def del: decoded.simps)
  moreover have "c_ts c \<notin> rc_commit_ts ` set cs" if "c \<in> set (history S)" for c
    using mems.reachable_above [OF r q that] below by (fastforce simp: not_less [symmetric])
  ultimately have dur: "durable W S = filter (\<lambda>c. c_ts c \<in> rc_commit_ts ` set L) (history S)"
    unfolding durable_def by (intro filter_cong) auto
  let ?h = "recovered_hist (sort_key rc_commit_ts cs)"
  have hist: "store_hist (in_store d') k = full_hist ?h (durable W S) k" for k
    using d'(6) recovered_durable [OF L inv_atD(7) [OF mems.reachable_at [OF r q]] dist, of k]
    by (simp add: srt recovered_hist_append full_hist_def dur)
  have "distinct (map rc_commit_ts (cs @ L))"
    using old(2) log_invD(2) [OF L] below above by (fastforce simp: not_less [symmetric])
  then have "log_agrees W store_hist d' (cs @ L)"
    using d' fits by (simp add: log_agrees_def)
  moreover have "commit_ts v \<le> Oracle_read_ts (in_oracle d)" if "v \<in> set (?h k)" for k v
    using recovered_hist_ts [OF that] below by auto
  moreover have "c_ts c \<le> Db_last_committed d'" if "c \<in> set (durable W S)" for c
    using that d'(5) quiet_read [OF d'(4)] by (auto simp: dur Db_last_committed_def Inner_read_ts_def)
  ultimately show thesis
    using log d'(1,4) hist old(4) dur by (intro that [of log d' ?h]) (auto simp del: set_append)
qed



section \<open>Properties\<close>

text \<open>
  A durable database over an empty log. Process 0 commits a write of \<open>x\<close>; process 1 writes \<open>y\<close> and
  gets as far as the store, its record not yet appended.
\<close>

lemma full_wal_ok: "wal_appends full_wal" "wal_keeps full_wal"
  by (simp_all add: wal_appends_def wal_keeps_def)

definition logged_shard :: "(memory_store, bytes list) inner" where
  "logged_shard = one_shard\<lparr>in_log := Some \<lparr>wal = []\<rparr>\<rparr>"

definition half_done :: "(nat \<times> action) list" where
  "half_done =
     [(0, Begin False), (0, Put key_x [1]),
      (0, Commit), (0, Commit), (0, Commit), (0, Commit), (0, Commit),
      (1, Begin False), (1, Get key_x), (1, Put key_y [2]), (1, Commit), (1, Commit)]"

lemma logged_shard_ok:
  "quiet wf_store store_hist logged_shard {#}" "log_agrees list_wal store_hist logged_shard []"
  "in_log logged_shard = Some \<lparr>wal = []\<rparr>" "store_hist (in_store logged_shard) = (\<lambda>_. [])" "wal_syncs list_wal" "wal_keeps list_wal"
proof -
  have "in_oracle logged_shard = in_oracle one_shard" by (simp add: logged_shard_def)
  with quiet_one_shard show "quiet wf_store store_hist logged_shard {#}"
    by (simp add: logged_shard_def)
  show "log_agrees list_wal store_hist logged_shard []"
    by (simp add: log_agrees_def logged_shard_def store_hist_one_shard)
qed (simp_all add: logged_shard_def store_hist_one_shard wal_syncs_def wal_keeps_def)

lemma half_done_run:
  "map_option (\<lambda>S. (history S, pending_append (procs S 1), Oracle_read_ts (in_oracle (shared S)), reader_of (procs S 1)))
     (run MemoryStore list_wal MemoryStore_slices half_done (start logged_shard)) =
   Some ([\<lparr>c_tx = \<lparr>active = \<lparr>active_read_ts = Timestamp 0\<rparr>, writes = [(key_x, Some [1])], reads = None\<rparr>,
       c_ts = Timestamp 1, c_seen = []\<rparr>,
     \<lparr>c_tx = \<lparr>active = \<lparr>active_read_ts = Timestamp 1\<rparr>, writes = [(key_y, Some [2])], reads = None\<rparr>,
       c_ts = Timestamp 2, c_seen = [(key_x, Some [1])]\<rparr>],
     Some (\<lparr>active = \<lparr>active_read_ts = Timestamp 1\<rparr>, writes = [(key_y, Some [2])], reads = None\<rparr>,
       \<lparr>rc_commit_ts = Timestamp 2, rc_writes = [(key_y, Some [2])]\<rparr>),
     Timestamp 1, Some (Timestamp 1))"
  by code_simp



text \<open>C6. An acknowledged commit is in the log for good. From the moment the append of its record has returned
  and \<open>commit_writes\<close> is to return its timestamp, in every later state of the run, whatever other appends
  have failed by then, the log holds the record of the commit, and the database a crash recovers has each
  of its writes as a version at its timestamp, below the watermark it opens with. If no append fails the
  same holds of every commit at or below the watermark, that is every commit a transaction could read.\<close>

theorem acknowledged_commits_survive:
  assumes "mem_reachable W d S" "quiet wf_store store_hist d {#}" "log_agrees W store_hist d cs"
    "wal_appends W" "wal_keeps W" "wal_reopens W"
    "(\<lambda>S S'. oracle_room (in_oracle (shared S)) \<and> step MemoryStore W MemoryStore_slices S S')\<^sup>*\<^sup>* S S'"
    "\<forall>c\<in>set (history S'). tx_fits (c_tx c)"
  shows "\<exists>log recs d'. in_log (shared S') = Some log \<and> wal_iter W (wal log) = Inr (map Inr recs) \<and> Db_open W (wal log) = Inr d'
    \<and> (\<forall>p tx t. acknowledged (procs S p) = Some (tx, t) \<longrightarrow>
        (\<exists>batch. mset batch = mset (writes tx) \<and> encode_for_log t batch \<in> set recs)
        \<and> t \<le> Db_last_committed d'
        \<and> (\<forall>k v. map_of (writes tx) k = Some v \<longrightarrow> \<lparr>commit_ts = t, val = v\<rparr> \<in> set (store_hist (in_store d') k)))
    \<and> (wal_syncs W \<longrightarrow> (\<forall>c\<in>set (history S). c_ts c \<le> Oracle_read_ts (in_oracle (shared S)) \<longrightarrow>
        (\<forall>k v. map_of (writes (c_tx c)) k = Some v \<longrightarrow>
          \<lparr>commit_ts = c_ts c, val = v\<rparr> \<in> set (store_hist (in_store d') k))))"
proof -
  obtain L where L: "log_inv W cs L S" using mems.agreed_log [OF assms(1-5)] by blast
  obtain M A where M: "log_inv W cs (L @ M) S'" "history S' = history S @ A"
    using mems.continued_log [OF assms(7,1,2,4,5) L] by blast
  note S' = mems.continued [OF assms(7,1,2)]
  note dist = conjunct1 [OF mems.reachable_fresh [OF conjunct1 [OF S'] assms(2), unfolded fresh_inv_def]]
  from conjunct1 [OF S'] assms(2,3,6) M(1) assms(8) obtain log d' h where o: "in_log (shared S') = Some log"
    "wal_holds W (wal log) (map record_of (cs @ L @ M))" "Db_open W (wal log) = Inr d'"
    "durable W S' = filter (\<lambda>c. c_ts c \<in> rc_commit_ts ` set (L @ M)) (history S')"
    "\<And>k. store_hist (in_store d') k = full_hist h (durable W S') k"
    "\<And>c. c \<in> set (durable W S') \<Longrightarrow> c_ts c \<le> Db_last_committed d'"
    by (rule crash_open) blast
  have kept: "\<lparr>commit_ts = c_ts c, val = v\<rparr> \<in> set (store_hist (in_store d') k)"
    if "c \<in> set (durable W S')" "map_of (writes (c_tx c)) k = Some v" for c k v
    unfolding o(5) full_hist_def using that by (auto simp: own_version_def intro!: bexI [of _ c])
  have ack: "(\<exists>batch. mset batch = mset (writes tx) \<and> encode_for_log t batch \<in> set (map record_of (cs @ L @ M)))
      \<and> t \<le> Db_last_committed d'
      \<and> (\<forall>k v. map_of (writes tx) k = Some v \<longrightarrow> \<lparr>commit_ts = t, val = v\<rparr> \<in> set (store_hist (in_store d') k))"
    if a: "acknowledged (procs S p) = Some (tx, t)" for p tx t
  proof -
    obtain c where c: "c \<in> set (history S')" "c_tx c = tx" "c_ts c = t" "t \<in> rc_commit_ts ` set L"
      using log_invD(7) [OF L a] M(2) by auto
    then have dur: "c \<in> set (durable W S')" by (auto simp: o(4))
    obtain r where r: "r \<in> set L" "rc_commit_ts r = t" using c(4) by blast
    then obtain b where b: "b \<in> set (history S')" "records r b" using log_invD(3) [OF M(1), of r] by auto
    then have "b = c" using c(1,3) r(2) dist by (auto simp: records_def distinct_map inj_on_def)
    then have "mset (rc_writes r) = mset (writes tx)" using b(2) c(2) by (simp add: records_def)
    moreover have "record_of r \<in> set (map record_of (cs @ L @ M))" using r(1) by simp
    ultimately have "\<exists>batch. mset batch = mset (writes tx) \<and> encode_for_log t batch \<in> set (map record_of (cs @ L @ M))"
      using r(2) unfolding record_of_def by blast
    then show ?thesis using o(6) [OF dur] kept [OF dur] c(2,3) by blast
  qed
  have "c \<in> set (durable W S')"
    if "wal_syncs W" "c \<in> set (history S)" "c_ts c \<le> Oracle_read_ts (in_oracle (shared S))" for c
    using log_invD(6) [OF M(1) that(1), of c] mems.reachable_landed [OF conjunct1 [OF S'] assms(2), of c] S' that M(2)
    by (auto simp: o(4))
  then show ?thesis
    using o(1-3) ack kept
    by (intro exI [of _ log] exI [of _ "map record_of (cs @ L @ M)"] exI [of _ d']) (simp add: wal_holds_def)
qed

lemma half_done_ack:
  "map_option (\<lambda>S. (acknowledged (procs S 0), map c_tx (history S)))
     (run MemoryStore list_wal MemoryStore_slices (take 5 half_done) (start logged_shard)) =
   Some (Some (\<lparr>active = \<lparr>active_read_ts = Timestamp 0\<rparr>, writes = [(key_x, Some [1])], reads = None\<rparr>, Timestamp 1),
     [\<lparr>active = \<lparr>active_read_ts = Timestamp 0\<rparr>, writes = [(key_x, Some [1])], reads = None\<rparr>])"
  by code_simp

theorem acknowledged_commits_survive_witness:
  "\<exists>S log d'. mem_reachable list_wal logged_shard S \<and> in_log (shared S) = Some log \<and> Db_open list_wal (wal log) = Inr d'
     \<and> \<lparr>commit_ts = Timestamp 1, val = Some [1]\<rparr> \<in> set (store_hist (in_store d') key_x)"
proof -
  obtain S where S: "mem_reachable list_wal logged_shard S" "(acknowledged (procs S 0), map c_tx (history S)) =
    (Some (\<lparr>active = \<lparr>active_read_ts = Timestamp 0\<rparr>, writes = [(key_x, Some [1])], reads = None\<rparr>, Timestamp 1),
     [\<lparr>active = \<lparr>active_read_ts = Timestamp 0\<rparr>, writes = [(key_x, Some [1])], reads = None\<rparr>])"
    by (rule run_obtain [OF half_done_ack]) (rule that)
  have fit: "\<forall>c\<in>set (history S). tx_fits (c_tx c)"
    using S(2) by (auto simp: tx_fits_def batch_fits_def entry_fits_def encode_for_log_def encode_write_def)
  obtain log recs d' where o: "in_log (shared S) = Some log" "Db_open list_wal (wal log) = Inr d'"
    "\<forall>p tx t. acknowledged (procs S p) = Some (tx, t) \<longrightarrow>
        (\<exists>batch. mset batch = mset (writes tx) \<and> encode_for_log t batch \<in> set recs) \<and> t \<le> Db_last_committed d'
        \<and> (\<forall>k v. map_of (writes tx) k = Some v \<longrightarrow> \<lparr>commit_ts = t, val = v\<rparr> \<in> set (store_hist (in_store d') k))"
    using acknowledged_commits_survive [OF S(1) logged_shard_ok(1,2) list_wal_ok(1) logged_shard_ok(6) list_wal_ok(2)
      rtranclp.rtrancl_refl fit] by (elim exE conjE)
  have "\<forall>k v. map_of [(key_x, Some [1])] k = Some v \<longrightarrow> \<lparr>commit_ts = Timestamp 1, val = v\<rparr> \<in> set (store_hist (in_store d') k)"
    using spec [OF o(3), of 0] S(2) by simp
  then have "\<lparr>commit_ts = Timestamp 1, val = Some [1]\<rparr> \<in> set (store_hist (in_store d') key_x)" by simp
  with S(1) o(1,2) show ?thesis by blast
qed

text \<open>The converse fails: a crash between the append and the return of the commit keeps a commit that nobody
  was told of.\<close>

lemma half_done_appended:
  "map_option (\<lambda>S. (procs S 0, Oracle_read_ts (in_oracle (shared S)), map_option wal (in_log (shared S))))
     (run MemoryStore list_wal MemoryStore_slices (take 5 half_done) (start logged_shard)) =
   Some (Decided \<lparr>active = \<lparr>active_read_ts = Timestamp 0\<rparr>, writes = [(key_x, Some [1])], reads = None\<rparr>
       (Timestamp 1) (Inr (Timestamp 1)), Timestamp 0, Some [encode_for_log (Timestamp 1) [(key_x, Some [1])]])"
  by code_simp

theorem unacknowledged_commit_can_survive:
  "\<exists>S tx log d. mem_reachable list_wal logged_shard S \<and> procs S 0 = Decided tx (Timestamp 1) (Inr (Timestamp 1))
     \<and> Oracle_read_ts (in_oracle (shared S)) < Timestamp 1 \<and> in_log (shared S) = Some log
     \<and> Db_open list_wal (wal log) = Inr d \<and> fst (Db_get MemoryStore d key_x) = Inr (Some [1])"
proof -
  let ?c = "\<lparr>rc_commit_ts = Timestamp 1, rc_writes = [(key_x, Some [1])]\<rparr>"
  let ?tx = "\<lparr>active = \<lparr>active_read_ts = Timestamp 0\<rparr>, writes = [(key_x, Some [1])], reads = None\<rparr>"
  obtain S where S: "mem_reachable list_wal logged_shard S"
    "(procs S 0, Oracle_read_ts (in_oracle (shared S)), map_option wal (in_log (shared S))) =
      (Decided ?tx (Timestamp 1) (Inr (Timestamp 1)), Timestamp 0, Some [record_of ?c])"
    by (rule run_obtain [OF half_done_appended]) (simp add: record_of_def)
  obtain log where log: "in_log (shared S) = Some log" "wal_holds list_wal (wal log) (map record_of [?c])"
    using S(2) by auto
  have fit: "list_all recordable [?c]" "\<forall>c\<in>set [?c]. rc_commit_ts c \<noteq> Timestamp (- 1)"
    by (simp_all add: recordable_def record_of_def batch_fits_def entry_fits_def encode_for_log_def encode_write_def)
  obtain d where d: "Db_open list_wal (wal log) = Inr d" "quiet wf_store store_hist d {#}"
    "\<forall>k. store_hist (in_store d) k = recovered_hist (sort_key rc_commit_ts [?c]) k"
    by (rule open_spec [OF list_wal_ok(2) log(2) fit]) blast
  have "fst (Db_get MemoryStore d key_x) = Inr (Some [1])"
    by (simp add: mem.quiet_get [OF d(2)] d(3) recovered_hist_def new_versions_def latest_def)
  moreover have "Timestamp 0 < Timestamp 1" by (simp add: less_timestamp_def)
  ultimately show ?thesis using S log(1) d(1) by (intro exI [of _ S] exI [of _ ?tx] exI [of _ log] exI [of _ d]) simp
qed

end
