(* ===== verification/Example_Mains.thy ===== *)
theory Example_Mains
  imports Client_Programs Durability
begin

text \<open>
  The example programs that run on one thread from start to end
  (\<open>src/examples/quick_start.rs\<close>, \<open>snapshot_reads.rs\<close>, \<open>garbage_collection.rs\<close>,
  \<open>durable_store.rs\<close>). Each definition returns what the program prints, before it is formatted; an
  error that \<open>?\<close> propagates ends the program. What they compute is what the documentation of the
  engine promises, end to end: commits become visible at once, snapshots stay as they are, collection
  reclaims what no reader needs and nothing else, and a reopened log gives the committed state back.
\<close>

section \<open>Definitions\<close>

subsection \<open>Quick start\<close>

abbreviation user_name :: bytes where "user_name \<equiv> lit ''user:1:name''"
abbreviation user_role :: bytes where "user_role \<equiv> lit ''user:1:role''"
abbreviation other_name :: bytes where "other_name \<equiv> lit ''user:2:name''"

record quick_output =
  committed_at :: timestamp
  name_read :: "bytes option"
  role_read :: "bytes option"
  missing_present :: bool

definition quick_start :: "hash_order \<Rightarrow> 'w wal_ops \<Rightarrow> quick_output result" where
  "quick_start ord W =
     (let (tx, d) = Db_begin Db_new;
          tx = Transaction_put tx user_name (lit ''ada'');
          tx = Transaction_put tx user_role (lit ''admin'');
          (r, d) = Transaction_commit ord MemoryStore W d tx
      in and_then r (\<lambda>commit_ts.
        let (tx, d) = Db_begin d;
            (r, tx) = Transaction_get MemoryStore d tx user_name
        in and_then r (\<lambda>name.
          let (r, tx) = Transaction_get MemoryStore d tx user_role
          in and_then r (\<lambda>role.
            let (r, tx) = Transaction_get MemoryStore d tx other_name
            in and_then r (\<lambda>missing.
              Inr \<lparr>committed_at = commit_ts, name_read = name, role_read = role,
                missing_present = (missing \<noteq> None)\<rparr>)))))"

subsection \<open>Snapshot reads\<close>

abbreviation mode_key :: bytes where "mode_key \<equiv> lit ''config:mode''"
abbreviation limit_key :: bytes where "limit_key \<equiv> lit ''config:limit''"

definition put_config ::
  "hash_order \<Rightarrow> 's version_store \<Rightarrow> 'w wal_ops \<Rightarrow> ('s, 'w) inner \<Rightarrow> bytes \<Rightarrow> bytes
     \<Rightarrow> timestamp result \<times> ('s, 'w) inner" where
  "put_config ord V W d mode limit =
     (let (tx, d) = Db_begin d;
          tx = Transaction_put tx mode_key mode;
          tx = Transaction_put tx limit_key limit
      in Transaction_commit ord V W d tx)"

definition print_config ::
  "'s version_store \<Rightarrow> ('s, 'w) inner \<Rightarrow> snapshot \<Rightarrow> (bytes option \<times> bytes option) result" where
  "print_config V d snap =
     and_then (Snapshot_get V d snap mode_key) (\<lambda>mode.
       and_then (Snapshot_get V d snap limit_key) (\<lambda>limit. Inr (mode, limit)))"

type_synonym config_output = "timestamp \<times> bytes option \<times> bytes option"

definition snapshot_reads_main :: "hash_order \<Rightarrow> 'w wal_ops \<Rightarrow> (config_output \<times> config_output) result" where
  "snapshot_reads_main ord W =
     (let (r, d) = put_config ord MemoryStore W Db_new (lit ''safe'') (lit ''10'')
      in and_then r (\<lambda>_.
        let (v1, d) = Db_snapshot d;
            (r, d) = put_config ord MemoryStore W d (lit ''fast'') (lit ''1000'')
        in and_then r (\<lambda>_.
          let (v2, d) = Db_snapshot d
          in and_then (print_config MemoryStore d v1) (\<lambda>c1.
            and_then (print_config MemoryStore d v2) (\<lambda>c2.
              Inr ((Snapshot_read_timestamp v1, c1), (Snapshot_read_timestamp v2, c2)))))))"

subsection \<open>Garbage collection\<close>

text \<open>One transaction for each value written to the counter.\<close>

fun write_each ::
  "hash_order \<Rightarrow> 's version_store \<Rightarrow> 'w wal_ops \<Rightarrow> ('s, 'w) inner \<Rightarrow> u32 list
     \<Rightarrow> unit result \<times> ('s, 'w) inner" where
  "write_each ord V W d [] = (Inr (), d)"
| "write_each ord V W d (v # vs) =
     (let (tx, d) = Db_begin d;
          tx = Transaction_put tx counter (u32_to_le_bytes v);
          (r, d) = Transaction_commit ord V W d tx
      in case r of Inl e \<Rightarrow> (Inl e, d) | Inr _ \<Rightarrow> write_each ord V W d vs)"

text \<open>The value a snapshot reads; an absent or short value is a panic.\<close>

definition read_counter ::
  "'s version_store \<Rightarrow> ('s, 'w) inner \<Rightarrow> snapshot \<Rightarrow> u32 panics result" where
  "read_counter V d snap =
     and_then (Snapshot_get V d snap counter) (\<lambda>v.
       case v of
         None \<Rightarrow> Inr Panic
       | Some bs \<Rightarrow> Inr (if length bs < 4 then Panic else Fine (u32_from_le_bytes (take 4 bs))))"

record gc_output =
  reclaimed_while_pinned :: nat
  pinned_value :: u32
  reclaimed_after :: nat
  latest_value :: u32
  reclaimed_again :: nat

text \<open>
  The body of \<open>main\<close>, with the values of its two loops as arguments. A panic in \<open>read\<close> ends the
  program.
\<close>

definition collect_around_snapshot ::
  "hash_order \<Rightarrow> 'w wal_ops \<Rightarrow> u32 list \<Rightarrow> u32 list \<Rightarrow> gc_output panics result" where
  "collect_around_snapshot ord W before during =
     (let (r, d) = write_each ord MemoryStore W Db_new before
      in and_then r (\<lambda>_.
        let (pinned, d) = Db_snapshot d;
            (r, d) = write_each ord MemoryStore W d during
        in and_then r (\<lambda>_.
          let (n1, d) = Db_collect_garbage MemoryStore d
          in and_then (read_counter MemoryStore d pinned) (\<lambda>p.
            case p of
              Panic \<Rightarrow> Inr Panic
            | Fine v \<Rightarrow>
                (let d = Snapshot_drop d pinned;
                     (n2, d) = Db_collect_garbage MemoryStore d;
                     (latest, d) = Db_snapshot d
                 in and_then (read_counter MemoryStore d latest) (\<lambda>q.
                   case q of
                     Panic \<Rightarrow> Inr Panic
                   | Fine w \<Rightarrow>
                       (let (n3, d) = Db_collect_garbage MemoryStore d
                        in Inr (Fine \<lparr>reclaimed_while_pinned = n1, pinned_value = v, reclaimed_after = n2,
                          latest_value = w, reclaimed_again = n3\<rparr>))))))))"

definition garbage_collection :: "hash_order \<Rightarrow> 'w wal_ops \<Rightarrow> gc_output panics result" where
  "garbage_collection ord W =
     collect_around_snapshot ord W (map word_of_nat [0..<1000]) (map word_of_nat [1000..<1500])"

subsection \<open>Durable store\<close>

abbreviation carol :: bytes where "carol \<equiv> lit ''carol''"

fun stored_balance :: "bytes option \<Rightarrow> u64 panics" where
  "stored_balance None = Fine 0"
| "stored_balance (Some bs) = (if length bs < 8 then Panic else Fine (u64_from_le_bytes (take 8 bs)))"

text \<open>The log file a database leaves behind when it is dropped.\<close>

definition left_behind :: "'w \<Rightarrow> ('s, 'w) inner \<Rightarrow> 'w" where
  "left_behind path d = (case in_log d of None \<Rightarrow> path | Some log \<Rightarrow> wal log)"

definition first_session :: "hash_order \<Rightarrow> 'w wal_ops \<Rightarrow> 'w \<Rightarrow> (timestamp \<times> 'w) result" where
  "first_session ord W path =
     and_then (Db_open W path) (\<lambda>d.
       let (tx, d) = Db_begin d;
           tx = Transaction_put tx alice (u64_to_le_bytes 100);
           tx = Transaction_put tx bob (u64_to_le_bytes 50);
           (r, d) = Transaction_commit ord MemoryStore W d tx
       in and_then r (\<lambda>ts.
         let (pending, d) = Db_begin d;
             pending = Transaction_put pending carol (u64_to_le_bytes 999);
             d = ActiveReader_drop d (active pending)
         in Inr (ts, left_behind path d)))"

record restart_output =
  watermark_read :: timestamp
  alice_read :: u64
  bob_read :: u64
  carol_present :: bool
  transferred_at :: timestamp

text \<open>A value that goes through \<open>balance\<close>: an error ends the session, and so does a short value.\<close>

definition with_balance ::
  "bytes option result \<Rightarrow> (u64 \<Rightarrow> 'a panics result) \<Rightarrow> 'a panics result" where
  "with_balance r f = and_then r (\<lambda>v. case stored_balance v of Panic \<Rightarrow> Inr Panic | Fine x \<Rightarrow> f x)"

definition second_session ::
  "hash_order \<Rightarrow> 'w wal_ops \<Rightarrow> 'w \<Rightarrow> (restart_output \<times> 'w) panics result" where
  "second_session ord W path =
     and_then (Db_open W path) (\<lambda>d.
       let watermark = Db_last_committed d;
           (snap, d) = Db_snapshot d
       in with_balance (Snapshot_get MemoryStore d snap alice) (\<lambda>a.
          with_balance (Snapshot_get MemoryStore d snap bob) (\<lambda>b.
          and_then (Snapshot_get MemoryStore d snap carol) (\<lambda>c.
            let (tx, d) = Db_begin d;
                (r, tx) = Transaction_get MemoryStore d tx alice
            in with_balance r (\<lambda>x.
              let (r, tx) = Transaction_get MemoryStore d tx bob
              in with_balance r (\<lambda>y.
                let tx = Transaction_put tx alice (u64_to_le_bytes (x - 25));
                    tx = Transaction_put tx bob (u64_to_le_bytes (y + 25));
                    (r, d) = Transaction_commit ord MemoryStore W d tx
                in and_then r (\<lambda>ts.
                  Inr (Fine (\<lparr>watermark_read = watermark, alice_read = a, bob_read = b,
                    carol_present = (c \<noteq> None), transferred_at = ts\<rparr>,
                    left_behind path (Snapshot_drop d snap))))))))))"

definition durable_store ::
  "hash_order \<Rightarrow> 'w wal_ops \<Rightarrow> 'w \<Rightarrow> (timestamp \<times> restart_output \<times> 'w) panics result" where
  "durable_store ord W path =
     and_then (first_session ord W path) (\<lambda>(ts, path).
       and_then (second_session ord W path) (\<lambda>p.
         Inr (case p of Panic \<Rightarrow> Panic | Fine out \<Rightarrow> Fine (ts, out))))"

section \<open>A commit and a snapshot on a quiet database\<close>

lemma Snapshot_new_eq:
  "Db_snapshot d = (\<lparr>snap_active = \<lparr>active_read_ts = Oracle_read_ts (in_oracle d)\<rparr>\<rparr>,
     snd (Db_begin d))"
  by (simp add: inner_defs begin_reader_def Oracle_read_ts_def Let_def)

lemma u32_bytes_value [simp]:
  "length (u32_to_le_bytes x) = 4" "u32_from_le_bytes (u32_to_le_bytes x) = x"
  by (simp_all add: u32_le_roundtrip length_u32_to_le_bytes)

context store_contract
begin

lemma quiet_snapshot_ok:
  "quiet invar hist d M \<Longrightarrow>
     quiet invar hist (snd (Db_snapshot d)) (add_mset (Oracle_read_ts (in_oracle d)) M)"
  using quiet_begin [of invar hist d M False] by (simp add: Snapshot_new_eq Db_begin_def)

lemma snapshot_get_hist:
  "quiet invar hist d M \<Longrightarrow> Snapshot_get V d \<lparr>snap_active = \<lparr>active_read_ts = r\<rparr>\<rparr> k = Inr (read_at (hist (in_store d) k) r)"
  by (simp add: Snapshot_get_def db_ok_def get_law)

text \<open>The watermark of a quiet database is the timestamp before the next one.\<close>

lemma quiet_read_ts:
  assumes "quiet invar hist d M"
  shows "Oracle_read_ts (in_oracle d) = from_raw (next_ts (in_oracle d) - 1)"
proof -
  let ?n = "next_ts (in_oracle d)"
  have lt: "Oracle_read_ts (in_oracle d) < next_commit d"
    using assms orc.read_less_next unfolding db_ok_def by blast
  then have n: "?n \<noteq> 0" by (auto simp: less_timestamp_def)
  have u: "unat (?n - 1) = unat ?n - 1" "0 < unat ?n"
    using n by (simp_all add: unat_minus_one unat_gt_0)
  then have "?n - 1 < ?n" by (simp add: word_less_nat_alt)
  then have "from_raw (?n - 1) \<le> Oracle_read_ts (in_oracle d)"
    by (intro quiet_read [OF assms]) (simp add: less_timestamp_def)
  moreover have "ts_get (Oracle_read_ts (in_oracle d)) \<le> ?n - 1"
    using lt u by (simp add: less_timestamp_def word_le_nat_alt word_less_nat_alt)
  ultimately show ?thesis by (simp add: less_eq_timestamp_def ts_get_eq_iff order_antisym)
qed

text \<open>Two keys written in one transaction.\<close>

lemma quiet_put_two:
  assumes q: "quiet invar hist d M" and room: "oracle_room (in_oracle d)" and ord: "hash_order_ok ord"
    and log: "in_log d = None" and k: "k \<noteq> l"
  obtains d' where
    "Transaction_commit ord V W (snd (Db_begin d)) (Transaction_put (Transaction_put (fst (Db_begin d)) k v) l w)
       = (Inr (next_commit d), d')" "in_log d' = None" "quiet invar hist d' M"
    "next_ts (in_oracle d') = next_ts (in_oracle d) + 1"
    "\<And>a. hist (in_store d') a = hist (in_store d) a @
       (if a = k then [\<lparr>commit_ts = next_commit d, val = Some v\<rparr>]
        else if a = l then [\<lparr>commit_ts = next_commit d, val = Some w\<rparr>] else [])"
proof -
  let ?tx = "Transaction_put (Transaction_put (fst (Db_begin d)) k v) l w"
  have tx: "tx_ok ?tx" "writes ?tx = [(k, Some v), (l, Some w)]" "active ?tx = active (fst (Db_begin d))"
    using k by (simp_all add: Transaction_put_def Db_begin_def Transaction_new_eq tx_ok_def)
  have ne: "writes ?tx \<noteq> []" by (simp add: tx(2))
  show thesis
    by (rule quiet_begin_commit [OF q room ord log tx(1) ne tx(3), where W = W])
      (use k in \<open>auto intro!: that simp: own_version_def tx(2)\<close>)
qed

lemma quiet_put_config:
  assumes "quiet invar hist d M" "oracle_room (in_oracle d)" "hash_order_ok ord" "in_log d = None"
  obtains d' where "put_config ord V W d mode limit = (Inr (next_commit d), d')" "in_log d' = None"
    "quiet invar hist d' M" "next_ts (in_oracle d') = next_ts (in_oracle d) + 1"
    "\<And>a. hist (in_store d') a = hist (in_store d) a @
       (if a = mode_key then [\<lparr>commit_ts = next_commit d, val = Some mode\<rparr>]
        else if a = limit_key then [\<lparr>commit_ts = next_commit d, val = Some limit\<rparr>] else [])"
proof -
  have "mode_key \<noteq> limit_key" by (simp add: lit_def)
  from quiet_put_two [OF assms this, where W = W] that show thesis
    by (simp add: put_config_def split_beta) blast
qed

lemma quiet_write_each:
  assumes "quiet invar hist d M" "unat (next_ts (in_oracle d)) + length vs < 2 ^ 64" "hash_order_ok ord"
    "in_log d = None"
  shows "\<exists>d' new. write_each ord V W d vs = (Inr (), d') \<and> quiet invar hist d' M \<and> in_log d' = None
    \<and> unat (next_ts (in_oracle d')) = unat (next_ts (in_oracle d)) + length vs
    \<and> (\<forall>k. hist (in_store d') k = hist (in_store d) k @ (if k = counter then new else []))
    \<and> map val new = map (\<lambda>v. Some (u32_to_le_bytes v)) vs \<and> (\<forall>v\<in>set new. next_commit d \<le> commit_ts v)"
  using assms
proof (induction vs arbitrary: d)
  case Nil
  show ?case by (rule exI [of _ d]) (simp add: Nil)
next
  case (Cons v vs)
  let ?tx = "Transaction_put (fst (Db_begin d)) counter (u32_to_le_bytes v)"
  have room: "oracle_room (in_oracle d)" using Cons.prems(2) by (intro room_for [of _ "length vs"]) simp
  have tx: "tx_ok ?tx" "writes ?tx = [(counter, Some (u32_to_le_bytes v))]" "active ?tx = active (fst (Db_begin d))"
    by (simp_all add: Transaction_put_def Db_begin_def Transaction_new_eq tx_ok_def)
  have ne: "writes ?tx \<noteq> []" by (simp add: tx(2))
  obtain d1 where d1: "Transaction_commit ord V W (snd (Db_begin d)) ?tx = (Inr (next_commit d), d1)" "in_log d1 = None"
    "quiet invar hist d1 M" "next_ts (in_oracle d1) = next_ts (in_oracle d) + 1"
    "\<And>k. hist (in_store d1) k = hist (in_store d) k @ own_version (next_commit d) ?tx k"
    by (rule quiet_begin_commit [OF Cons.prems(1) room Cons.prems(3,4) tx(1) ne tx(3), where W = W]) blast
  have nx: "unat (next_ts (in_oracle d1)) = unat (next_ts (in_oracle d)) + 1"
    using Cons.prems(2) by (simp add: d1(4) unat_word_ariths)
  then have le: "next_commit d \<le> next_commit d1" by (simp add: less_eq_timestamp_def word_le_nat_alt)
  obtain d' new where d': "write_each ord V W d1 vs = (Inr (), d')" "quiet invar hist d' M" "in_log d' = None"
    "unat (next_ts (in_oracle d')) = unat (next_ts (in_oracle d1)) + length vs"
    "\<And>k. hist (in_store d') k = hist (in_store d1) k @ (if k = counter then new else [])"
    "map val new = map (\<lambda>v. Some (u32_to_le_bytes v)) vs" "\<forall>v\<in>set new. next_commit d1 \<le> commit_ts v"
    using Cons.IH [OF d1(3) _ Cons.prems(3) d1(2)] Cons.prems(2) nx by auto
  have "next_commit d \<le> commit_ts u" if "u \<in> set new" for u using that d'(7) le by (meson order_trans)
  then show ?case
    by (rule_tac exI [of _ d'], rule_tac exI [of _ "\<lparr>commit_ts = next_commit d, val = Some (u32_to_le_bytes v)\<rparr> # new"])
      (use d' nx d1(1) in \<open>auto simp: split_beta d1(5) own_version_def tx(2)\<close>)
qed

end

section \<open>Collecting a store that holds one key\<close>

lemma sum_list_single:
  assumes "i < length ns" "\<And>j. j < length ns \<Longrightarrow> j \<noteq> i \<Longrightarrow> ns ! j = 0"
  shows "sum_list ns = (ns ! i :: nat)"
proof -
  have "sum_list ns = (\<Sum>j<length ns. ns ! j)" by (simp add: sum_list_sum_nth atLeast0LessThan)
  also have "\<dots> = ns ! i + (\<Sum>j\<in>{..<length ns} - {i}. ns ! j)" using assms(1) by (simp add: sum.remove)
  also have "(\<Sum>j\<in>{..<length ns} - {i}. ns ! j) = 0" using assms(2) by (simp add: sum.neutral)
  finally show ?thesis by simp
qed

lemma one_key_count:
  assumes wf: "wf_store s" and one: "\<And>a. a \<noteq> k \<Longrightarrow> store_hist s a = []"
  shows "version_count s = length (store_hist s k)"
proof -
  let ?len = "\<lambda>m. sum_list (map (\<lambda>(a, c). length c) m)" and ?i = "shard_of s k"
  have only: "a = k \<and> j = ?i \<and> store_hist s k = c" if "j < length (shards s)" "(a, c) \<in> set (shards s ! j)" for a c j
  proof -
    have "wf_chains (shard_of s) j (shards s ! j)" using wf that(1) by (simp add: wf_store_def)
    then have c: "shard_of s a = j" "c \<noteq> []" "map_of (shards s ! j) a = Some c"
      using that(2) by (auto simp: wf_chains_def)
    then have "store_hist s a = c" by (simp add: store_hist_def chain_of_def)
    then show ?thesis using one [of a] c by (cases "a = k") auto
  qed
  have i: "?i < length (shards s)"
    using wf shard_of_le_mask [of s k] by (simp add: wf_store_def)
  have "?len (shards s ! j) = 0" if "j < length (shards s)" "j \<noteq> ?i" for j
    using only [OF that(1)] that(2) by (cases "shards s ! j") auto
  then have "version_count s = ?len (shards s ! ?i)"
    unfolding version_count_def using i by (subst sum_list_single [of ?i]) simp_all
  also have "\<dots> = length (store_hist s k)"
  proof -
    have d: "distinct (map fst (shards s ! ?i))" using wf i by (simp add: wf_store_def wf_chains_def)
    show ?thesis
    proof (cases "shards s ! ?i")
      case Nil
      then show ?thesis by (simp add: store_hist_def chain_of_def)
    next
      case (Cons p ps)
      then have "fst p = k" "store_hist s k = snd p" using only [OF i, of "fst p" "snd p"] by auto
      moreover have "ps = []"
      proof (rule ccontr)
        assume "ps \<noteq> []"
        then obtain q where "q \<in> set ps" by (cases ps) auto
        with only [OF i, of "fst q" "snd q"] Cons d \<open>fst p = k\<close> show False by (force simp: image_iff)
      qed
      ultimately show ?thesis using Cons by (simp add: split_beta)
    qed
  qed
  finally show ?thesis .
qed

lemma gc_chain_split:
  assumes "ascending (h @ new)" "\<forall>v\<in>set h. commit_ts v \<le> low" "\<forall>v\<in>set new. low < commit_ts v"
    "h \<noteq> []" "val (last h) \<noteq> None"
  shows "kept (snd (gc_chain low (h @ new))) = last h # new"
proof -
  have "partition_point (\<lambda>v. commit_ts v \<le> low) (h @ new) = length h"
    using assms(2,3) by (simp add: partition_point_ascending [OF assms(1)] not_le filter_id_conv [THEN iffD2] filter_empty_conv [THEN iffD2])
  moreover obtain a v where "h = a @ [v]" using assms(4) by (cases h rule: rev_cases) auto
  ultimately show ?thesis using assms(5) by (auto simp: gc_chain_def Let_def)
qed

text \<open>
  A collection of a database that holds one key, whose history splits at the low watermark: it
  reclaims all but the last of the versions at or below it.
\<close>

lemma collect_one_key:
  assumes q: "quiet wf_store store_hist d M" and one: "\<And>a. a \<noteq> k \<Longrightarrow> store_hist (in_store d) a = []"
    and h: "store_hist (in_store d) k = h @ new" "h \<noteq> []" "val (last h) \<noteq> None"
    and low: "low_watermark (in_oracle d) = low" "\<forall>v\<in>set h. commit_ts v \<le> low" "\<forall>v\<in>set new. low < commit_ts v"
  obtains s where "Db_collect_garbage MemoryStore d = (length h - 1, d\<lparr>in_store := s\<rparr>)"
    "quiet wf_store store_hist (d\<lparr>in_store := s\<rparr>) M" "store_hist s k = last h # new"
    "\<And>a. a \<noteq> k \<Longrightarrow> store_hist s a = []"
proof -
  let ?s = "snd (MemoryStore_collect_garbage (in_store d) low)"
  have wf: "wf_store (in_store d)" using q by (simp add: db_ok_def)
  note spec = collect_garbage_spec [OF wf, of low]
  have "ascending (h @ new)" using store_hist_ascending [OF wf, of k] h(1) by simp
  then have k: "store_hist ?s k = last h # new"
    using gc_chain_split low h by (simp add: spec(2))
  have others: "store_hist ?s a = []" if "a \<noteq> k" for a
    using one [OF that] gc_chain_count [of "[]" low] by (simp add: spec(2))
  have "fst (MemoryStore_collect_garbage (in_store d) low) = length h - 1"
    using spec(3) one_key_count [OF wf one] one_key_count [OF spec(1) others] h k
    by (cases h) simp_all
  then have c: "Db_collect_garbage MemoryStore d = (length h - 1, d\<lparr>in_store := ?s\<rparr>)"
    by (simp add: Db_collect_garbage_def Inner_collect_garbage_def low(1) MemoryStore_def split_beta)
  have "quiet wf_store store_hist (d\<lparr>in_store := ?s\<rparr>) M"
    using mem.db_ok_collect [OF q] c by (simp add: Db_collect_garbage_def)
  then show thesis using c k others by (intro that [of ?s])
qed

lemma low_watermark_quiet:
  assumes "quiet wf_store store_hist d M"
  shows "M = {#} \<Longrightarrow> low_watermark (in_oracle d) = Oracle_read_ts (in_oracle d)"
    "M = {#t#} \<Longrightarrow> low_watermark (in_oracle d) = t"
  using orc.low_law [of "in_oracle d" "next_commit d" "{..<next_commit d}" M] assms by (auto simp: db_ok_def)

lemma quiet_all_below:
  assumes "quiet wf_store store_hist d M" "v \<in> set (store_hist (in_store d) k)"
  shows "commit_ts v \<le> Oracle_read_ts (in_oracle d)"
  using mem.quiet_no_change [OF assms(1), of k] assms(2) by (auto simp: changed_since_def not_less)

lemma read_counter_hist:
  assumes "quiet wf_store store_hist d M" "read_at (store_hist (in_store d) counter) r = Some (u32_to_le_bytes v)"
  shows "read_counter MemoryStore d \<lparr>snap_active = \<lparr>active_read_ts = r\<rparr>\<rparr> = Inr (Fine v)"
  using assms(2) by (simp add: read_counter_def mem.snapshot_get_hist [OF assms(1)])

lemma read_at_last:
  assumes "\<forall>v\<in>set h. commit_ts v \<le> r" "\<forall>v\<in>set new. r < commit_ts v" "h \<noteq> []"
  shows "read_at (h @ new) r = val (last h)"
  using assms by (simp add: read_at_append_newer unchanged_read_latest changed_since_def latest_def not_less)

lemma last_val: "map val h = map f xs \<Longrightarrow> xs \<noteq> [] \<Longrightarrow> val (last h) = f (last xs)"
  by (metis last_map map_is_Nil_conv)

lemma collect_around_snapshot_result:
  fixes W :: "'w wal_ops"
  assumes ord: "hash_order_ok ord" and few: "length before + length during < 2 ^ 64 - 2" and ne: "before \<noteq> []"
  shows "collect_around_snapshot ord W before during = Inr (Fine
    \<lparr>reclaimed_while_pinned = length before - 1, pinned_value = last before,
     reclaimed_after = length during, latest_value = last (before @ during), reclaimed_again = 0\<rparr>)"
proof -
  let ?b = "\<lambda>v. Some (u32_to_le_bytes v)" and ?H = "\<lambda>d. store_hist (in_store d) counter"
  let ?d0 = "Db_new :: (memory_store, 'w) inner"
  have len0: "unat (next_ts (in_oracle ?d0)) + length before < 2 ^ 64" "in_log ?d0 = None" "store_hist (in_store ?d0) = (\<lambda>_. [])"
    using few by (simp_all add: Db_new_def Db_with_store_def Inner_new_def Oracle_new_def store_hist_new fun_eq_iff)
  obtain d1 h where d1: "write_each ord MemoryStore W ?d0 before = (Inr (), d1)" "quiet wf_store store_hist d1 {#}"
    "in_log d1 = None" "unat (next_ts (in_oracle d1)) = unat (next_ts (in_oracle ?d0)) + length before"
    "\<forall>k. store_hist (in_store d1) k = store_hist (in_store ?d0) k @ (if k = counter then h else [])" "map val h = map ?b before"
    using mem.quiet_write_each [OF quiet_Db_new len0(1) ord len0(2), where W = W] by blast
  have h1: "store_hist (in_store d1) k = (if k = counter then h else [])" for k using d1(5) by (simp add: len0(3))
  have h: "h \<noteq> []" "length h = length before" "val (last h) = ?b (last before)"
    using ne map_eq_imp_length_eq [OF d1(6)] last_val [OF d1(6) ne] by auto
  let ?r = "Oracle_read_ts (in_oracle d1)"
  define d2 where "d2 = snd (Db_snapshot d1)"
  have s1: "Db_snapshot d1 = (\<lparr>snap_active = \<lparr>active_read_ts = ?r\<rparr>\<rparr>, d2)"
    by (simp add: d2_def Snapshot_new_eq)
  have q2: "quiet wf_store store_hist d2 {#?r#}" "in_store d2 = in_store d1" "in_log d2 = None"
    "next_ts (in_oracle d2) = next_ts (in_oracle d1)"
    using mem.quiet_snapshot_ok [OF d1(2)] d1(3) by (simp_all add: d2_def Snapshot_new_eq Db_begin_def)
  have len2: "unat (next_ts (in_oracle d2)) + length during < 2 ^ 64"
    using few d1(4) q2(4) by (simp add: Db_new_def Db_with_store_def Inner_new_def Oracle_new_def)
  obtain d3 new where d3: "write_each ord MemoryStore W d2 during = (Inr (), d3)" "quiet wf_store store_hist d3 {#?r#}"
    "\<forall>k. store_hist (in_store d3) k = store_hist (in_store d2) k @ (if k = counter then new else [])"
    "map val new = map ?b during" "\<forall>v\<in>set new. next_commit d2 \<le> commit_ts v"
    using mem.quiet_write_each [OF q2(1) len2 ord q2(3), where W = W] by blast
  have h3: "store_hist (in_store d3) k = (if k = counter then h @ new else [])" for k using d3(3) by (simp add: q2(2) h1)
  have below: "\<forall>v\<in>set h. commit_ts v \<le> ?r" using quiet_all_below [OF d1(2), of _ counter] by (simp add: h1)
  have "?r < next_commit d2" using db_ok_reader [OF q2(1)] by simp
  then have above: "\<forall>v\<in>set new. ?r < commit_ts v" using d3(5) by auto
  have low3: "low_watermark (in_oracle d3) = ?r" by (rule low_watermark_quiet(2) [OF d3(2)]) simp
  obtain s4 where c4: "Db_collect_garbage MemoryStore d3 = (length h - 1, d3\<lparr>in_store := s4\<rparr>)"
    "quiet wf_store store_hist (d3\<lparr>in_store := s4\<rparr>) {#?r#}" "store_hist s4 counter = last h # new"
    "\<And>a. a \<noteq> counter \<Longrightarrow> store_hist s4 a = []"
    using collect_one_key [OF d3(2) _ _ h(1) _ low3 below above, of counter] h(3) by (auto simp: h3)
  let ?d4 = "d3\<lparr>in_store := s4\<rparr>" and ?pin = "\<lparr>snap_active = \<lparr>active_read_ts = ?r\<rparr>\<rparr>"
  have pin: "read_counter MemoryStore ?d4 ?pin = Inr (Fine (last before))"
    using read_at_last [of "[last h]" ?r new] below above h c4(3) by (intro read_counter_hist [OF c4(2)]) simp
  define d5 where "d5 = Snapshot_drop ?d4 ?pin"
  have q5: "quiet wf_store store_hist d5 {#}" "in_store d5 = s4"
    using db_ok_drop [OF c4(2), of "\<lparr>active_read_ts = ?r\<rparr>"]
    by (simp_all add: d5_def Snapshot_drop_def ActiveReader_drop_eq)
  let ?l = "last (last h # new)"
  have l: "val ?l = ?b (last (before @ during))" "length (last h # new) - 1 = length during"
    using h(3) map_eq_imp_length_eq [OF d3(4)] last_val [OF d3(4)] by (cases "during = []"; auto)+
  have all5: "\<forall>v\<in>set (last h # new). commit_ts v \<le> Oracle_read_ts (in_oracle d5)"
    using quiet_all_below [OF q5(1), of _ counter] by (simp add: q5(2) c4(3))
  have h5: "store_hist (in_store d5) counter = (last h # new) @ []" "\<And>a. a \<noteq> counter \<Longrightarrow> store_hist (in_store d5) a = []"
    "val ?l \<noteq> None"
    using c4(3,4) l(1) by (simp_all add: q5(2))
  obtain s6 where c6: "Db_collect_garbage MemoryStore d5 = (length (last h # new) - 1, d5\<lparr>in_store := s6\<rparr>)"
    "quiet wf_store store_hist (d5\<lparr>in_store := s6\<rparr>) {#}" "store_hist s6 counter = ?l # []"
    "\<And>a. a \<noteq> counter \<Longrightarrow> store_hist s6 a = []"
    by (rule collect_one_key [OF q5(1) h5(2) h5(1) list.distinct(2) h5(3) low_watermark_quiet(1) [OF q5(1) refl] all5])
      simp_all
  let ?d6 = "d5\<lparr>in_store := s6\<rparr>" and ?t = "Oracle_read_ts (in_oracle d5)"
  define d7 where "d7 = snd (Db_snapshot ?d6)"
  have s7: "Db_snapshot ?d6 = (\<lparr>snap_active = \<lparr>active_read_ts = ?t\<rparr>\<rparr>, d7)"
    by (simp add: d7_def Snapshot_new_eq)
  have q7: "quiet wf_store store_hist d7 {#?t#}" "in_store d7 = s6"
    using mem.quiet_snapshot_ok [OF c6(2)] by (simp_all add: d7_def Snapshot_new_eq Db_begin_def)
  have all7: "\<forall>v\<in>set [?l]. commit_ts v \<le> ?t" using all5 by (auto simp: last_in_set)
  have now: "read_counter MemoryStore d7 \<lparr>snap_active = \<lparr>active_read_ts = ?t\<rparr>\<rparr> = Inr (Fine (last (before @ during)))"
    using read_at_last [of "[?l]" ?t "[]"] all7 l(1) by (intro read_counter_hist [OF q7(1)]) (simp add: q7(2) c6(3))
  have h7: "store_hist (in_store d7) counter = [?l] @ []" "\<And>a. a \<noteq> counter \<Longrightarrow> store_hist (in_store d7) a = []"
    "val (last [?l]) \<noteq> None"
    using c6(3,4) l(1) by (simp_all add: q7(2))
  obtain s8 where c8: "Db_collect_garbage MemoryStore d7 = (length [?l] - 1, d7\<lparr>in_store := s8\<rparr>)"
    by (rule collect_one_key [OF q7(1) h7(2) h7(1) list.distinct(2) h7(3) low_watermark_quiet(2) [OF q7(1) refl] all7])
      simp_all
  show ?thesis
    by (simp add: collect_around_snapshot_def d1(1) s1 d3(1) c4(1) pin c6(1) [unfolded l(2)] s7 now c8 h(2) flip: d5_def)
qed

section \<open>The first two programs\<close>

lemma quick_start_result:
  fixes W :: "'w wal_ops"
  assumes ord: "hash_order_ok ord"
  shows "quick_start ord W = Inr \<lparr>committed_at = Timestamp 1, name_read = Some (lit ''ada''),
    role_read = Some (lit ''admin''), missing_present = False\<rparr>"
proof -
  let ?d0 = "Db_new :: (memory_store, 'w) inner"
  have ne: "user_name \<noteq> user_role" "user_name \<noteq> other_name" "user_role \<noteq> other_name" by (simp_all add: lit_def)
  obtain d where d: "Transaction_commit ord MemoryStore W (snd (Db_begin ?d0))
      (Transaction_put (Transaction_put (fst (Db_begin ?d0)) user_name (lit ''ada'')) user_role (lit ''admin''))
        = (Inr (next_commit ?d0), d)" "quiet wf_store store_hist d {#}"
    "\<And>a. store_hist (in_store d) a = store_hist (in_store ?d0) a @
       (if a = user_name then [\<lparr>commit_ts = next_commit ?d0, val = Some (lit ''ada'')\<rparr>]
        else if a = user_role then [\<lparr>commit_ts = next_commit ?d0, val = Some (lit ''admin'')\<rparr>] else [])"
    by (rule mem.quiet_put_two [OF quiet_Db_new room_Db_new(1) ord room_Db_new(2) ne(1),
        where W = W and v = "lit ''ada''" and w = "lit ''admin''"]) blast
  have h: "latest (store_hist (in_store d) k) = (if k = user_name then Some (lit ''ada'')
      else if k = user_role then Some (lit ''admin'') else None)" for k
    by (simp add: d(3) latest_def Db_new_def Db_with_store_def Inner_new_def store_hist_new)
  have get: "fst (Transaction_get MemoryStore (snd (Db_begin d)) (fst (Db_begin d)) k) = Inr (if k = user_name then Some (lit ''ada'')
      else if k = user_role then Some (lit ''admin'') else None)" for k
    using mem.quiet_begin_get [OF d(2), of k] by (simp only: h)
  show ?thesis
    using ne by (simp add: quick_start_def split_beta d(1) get Transaction_get_result room_Db_new(3))
qed

lemma print_config_hist:
  assumes "quiet wf_store store_hist d M"
  shows "print_config MemoryStore d \<lparr>snap_active = \<lparr>active_read_ts = r\<rparr>\<rparr> =
    Inr (read_at (store_hist (in_store d) mode_key) r, read_at (store_hist (in_store d) limit_key) r)"
  by (simp add: print_config_def mem.snapshot_get_hist [OF assms])

lemma snapshot_reads_main_result:
  fixes W :: "'w wal_ops"
  assumes ord: "hash_order_ok ord"
  shows "snapshot_reads_main ord W = Inr ((Timestamp 1, Some (lit ''safe''), Some (lit ''10'')),
    (Timestamp 2, Some (lit ''fast''), Some (lit ''1000'')))"
proof -
  let ?d0 = "Db_new :: (memory_store, 'w) inner"
  have ne: "mode_key \<noteq> limit_key" by (simp add: lit_def)
  have d0: "store_hist (in_store ?d0) k = []" "next_ts (in_oracle ?d0) = 1" for k
    by (simp_all add: Db_new_def Db_with_store_def Inner_new_def Oracle_new_def store_hist_new)
  let ?vs = "\<lambda>t m l k. if k = mode_key then [\<lparr>commit_ts = t, val = Some m\<rparr>]
    else if k = limit_key then [\<lparr>commit_ts = t, val = Some l\<rparr>] else []"
  obtain d1 where d1: "put_config ord MemoryStore W ?d0 (lit ''safe'') (lit ''10'') = (Inr (next_commit ?d0), d1)"
    "in_log d1 = None" "quiet wf_store store_hist d1 {#}" "next_ts (in_oracle d1) = next_ts (in_oracle ?d0) + 1"
    "\<And>k. store_hist (in_store d1) k = store_hist (in_store ?d0) k @ ?vs (next_commit ?d0) (lit ''safe'') (lit ''10'') k"
    by (rule mem.quiet_put_config [OF quiet_Db_new room_Db_new(1) ord room_Db_new(2),
        where W = W and mode = "lit ''safe''" and limit = "lit ''10''"]) blast
  define d2 where "d2 = snd (Db_snapshot d1)"
  have r1: "Oracle_read_ts (in_oracle d1) = Timestamp 1"
    using mem.quiet_read_ts [OF d1(3)] by (simp add: d1(4) d0 from_raw_def)
  have s1: "Db_snapshot d1 = (\<lparr>snap_active = \<lparr>active_read_ts = Timestamp 1\<rparr>\<rparr>, d2)"
    by (simp add: d2_def Snapshot_new_eq r1)
  have q2: "quiet wf_store store_hist d2 {#Timestamp 1#}" "in_store d2 = in_store d1" "in_log d2 = None"
    "next_ts (in_oracle d2) = 2" "oracle_room (in_oracle d2)"
    using mem.quiet_snapshot_ok [OF d1(3)] d1(2,4) d0(2) r1
    by (simp_all add: d2_def Snapshot_new_eq Db_begin_def oracle_room_def)
  obtain d3 where d3: "put_config ord MemoryStore W d2 (lit ''fast'') (lit ''1000'') = (Inr (next_commit d2), d3)"
    "quiet wf_store store_hist d3 {#Timestamp 1#}" "next_ts (in_oracle d3) = next_ts (in_oracle d2) + 1"
    "\<And>k. store_hist (in_store d3) k = store_hist (in_store d2) k @ ?vs (next_commit d2) (lit ''fast'') (lit ''1000'') k"
    by (rule mem.quiet_put_config [OF q2(1,5) ord q2(3),
        where W = W and mode = "lit ''fast''" and limit = "lit ''1000''"]) blast
  define d4 where "d4 = snd (Db_snapshot d3)"
  have r3: "Oracle_read_ts (in_oracle d3) = Timestamp 2"
    using mem.quiet_read_ts [OF d3(2)] by (simp add: d3(3) q2(4) from_raw_def)
  have s3: "Db_snapshot d3 = (\<lparr>snap_active = \<lparr>active_read_ts = Timestamp 2\<rparr>\<rparr>, d4)"
    by (simp add: d4_def Snapshot_new_eq r3)
  have q4: "quiet wf_store store_hist d4 {#Timestamp 2, Timestamp 1#}"
    using mem.quiet_snapshot_ok [OF d3(2)] by (simp add: d4_def r3)
  have h: "store_hist (in_store d4) k = ?vs (Timestamp 1) (lit ''safe'') (lit ''10'') k
      @ ?vs (Timestamp 2) (lit ''fast'') (lit ''1000'') k" for k
    by (simp add: d4_def Snapshot_new_eq Db_begin_def d3(4) q2(2,4) d1(5) d0 from_raw_def)
  have "\<not> (2 :: u64) \<le> 1" by (simp add: word_le_nat_alt)
  then show ?thesis
    using ne not_sym [OF ne]
    by (simp add: snapshot_reads_main_def d1(1) s1 d3(1) s3 print_config_hist [OF q4] h Snapshot_read_timestamp_def
        read_at_def visible_version_def less_eq_timestamp_def)
qed

section \<open>Durable store\<close>

lemma replay_highest: "fst (replay h s cs) = foldl max h (map rc_commit_ts cs)"
  by (induction h s cs rule: replay.induct) simp_all

lemma open_watermark:
  assumes "wal_reopens W" "wal_holds W path (map record_of cs)" "list_all recordable cs" "Db_open W path = Inr d"
  shows "Oracle_read_ts (in_oracle d) = foldl max ZERO (map rc_commit_ts (sort_key rc_commit_ts cs))"
    "next_ts (in_oracle d) = ts_get (foldl max ZERO (map rc_commit_ts (sort_key rc_commit_ts cs))) + 1"
proof -
  have "decode_entries (map Inr (map record_of cs)) = Inr cs"
    unfolding record_of_def
    by (rule decode_entries_encodings) (use assms(3) in \<open>simp add: list_all_iff recordable_def record_of_def\<close>)
  from CommitLog_open_holds [OF assms(1,2) this] obtain log where "CommitLog_open W path = Inr (log, cs)" by blast
  then have "in_oracle d = Oracle_recovered (foldl max ZERO (map rc_commit_ts (sort_key rc_commit_ts cs)))"
    using assms(4) replay_highest [of ZERO MemoryStore_new "sort_key rc_commit_ts cs"]
    by (auto simp: Db_open_def Inner_recovered_def split_beta Let_def)
  then show "Oracle_read_ts (in_oracle d) = foldl max ZERO (map rc_commit_ts (sort_key rc_commit_ts cs))"
    "next_ts (in_oracle d) = ts_get (foldl max ZERO (map rc_commit_ts (sort_key rc_commit_ts cs))) + 1"
    by (simp_all add: Oracle_recovered_def Oracle_read_ts_def Let_def)
qed

lemma tx_recordable:
  assumes "tx_fits tx" "hash_order_ok ord"
  shows "recordable \<lparr>rc_commit_ts = t, rc_writes = order_writes ord (writes tx)\<rparr>"
proof -
  have m: "mset (order_writes ord (writes tx)) = mset (writes tx)" using assms(2) by (simp add: hash_order_ok_def)
  then have "length (order_writes ord (writes tx)) = length (writes tx)" "set (order_writes ord (writes tx)) = set (writes tx)"
    by (metis size_mset, metis set_mset_mset)
  then have "batch_fits (order_writes ord (writes tx))" using assms(1) by (simp add: tx_fits_def batch_fits_def list_all_iff)
  then show ?thesis using assms(1) by (simp add: recordable_def record_of_def tx_fits_def record_length m)
qed

text \<open>A transaction begun and committed on a quiet durable database whose log works.\<close>

lemma logged_commit:
  fixes W :: "'w wal_ops"
  assumes q: "quiet wf_store store_hist d M" and room: "oracle_room (in_oracle d)" and ord: "hash_order_ok ord"
    and ag: "log_agrees W store_hist d cs" and W: "wal_appends W" "wal_syncs W"
    and tx: "tx_ok tx" "writes tx \<noteq> []" "active tx = active (fst (Db_begin d))" "tx_fits tx"
  obtains d' where "Transaction_commit ord MemoryStore W (snd (Db_begin d)) tx = (Inr (next_commit d), d')"
    "quiet wf_store store_hist d' M"
    "log_agrees W store_hist d' (cs @ [\<lparr>rc_commit_ts = next_commit d, rc_writes = order_writes ord (writes tx)\<rparr>])"
    "next_ts (in_oracle d') = next_ts (in_oracle d) + 1"
    "\<And>a. store_hist (in_store d') a = store_hist (in_store d) a @ own_version (next_commit d) tx a"
proof -
  let ?b = "snd (Db_begin d)"
  have b: "in_store ?b = in_store d" "in_log ?b = in_log d" "next_ts (in_oracle ?b) = next_ts (in_oracle d)"
    by (simp_all add: Db_begin_def)
  have ts: "Transaction_read_timestamp tx = Oracle_read_ts (in_oracle d)"
    using tx(3) by (simp add: Transaction_read_timestamp_def Db_begin_def Transaction_new_eq)
  have qb: "db_ok wf_store store_hist ?b {..<next_commit d} (add_mset (Oracle_read_ts (in_oracle d)) M)"
    using db_ok_begin [OF q, of False] by (simp add: Db_begin_def)
  have rb: "oracle_room (in_oracle ?b)" using room b(3) by (simp add: oracle_room_def)
  have live: "Transaction_read_timestamp tx \<in># add_mset (Oracle_read_ts (in_oracle d)) M" by (simp add: ts)
  have agb: "log_agrees W store_hist ?b cs" using ag b by (simp add: log_agrees_def)
  let ?c = "\<lparr>rc_commit_ts = next_commit d, rc_writes = order_writes ord (writes tx)\<rparr>"
  from qb rb ord tx(1,2) live show thesis
  proof (cases rule: mem.commit_cases [where W = W])
    case (conflict k d')
    then show thesis using mem.quiet_no_change [OF q] b(1) ts by simp
  next
    case (applied d')
    have "log_agrees W store_hist d' (cs @ [?c])"
      using log_agrees_commit [OF qb rb ord tx(1,2) live agb W(1) _ applied(2)] tx_recordable [OF tx(4) ord] b(3) by simp
    moreover have "quiet wf_store store_hist d' M"
      using applied(5,6) quiet_insert [OF room, of d'] b(3) ts by simp
    ultimately show thesis
      using applied(2,3,6) b by (intro that [of d']) simp_all
  next
    case (unlogged e log log' d')
    have "\<exists>lsn w'. wal_append_and_sync W (wal log) (encode_for_log (next_commit ?b) (order_writes ord (writes tx))) = (Inr lsn, w')"
      using W(2) unfolding wal_syncs_def by blast
    then show thesis using unlogged(6) by (auto simp: append_committed_def)
  qed
qed

lemma logged_put_two:
  fixes W :: "'w wal_ops"
  assumes q: "quiet wf_store store_hist d M" and room: "oracle_room (in_oracle d)" and ord: "hash_order_ok ord"
    and ag: "log_agrees W store_hist d cs" and W: "wal_appends W" "wal_syncs W"
    and tx: "writes tx = [(k, Some v), (l, Some w)]" "active tx = active (fst (Db_begin d))" "k \<noteq> l" "tx_fits tx"
  obtains d' c where "Transaction_commit ord MemoryStore W (snd (Db_begin d)) tx = (Inr (next_commit d), d')"
    "quiet wf_store store_hist d' M" "log_agrees W store_hist d' (cs @ [c])" "rc_commit_ts c = next_commit d"
    "\<And>a. store_hist (in_store d') a = store_hist (in_store d) a @
       (if a = k then [\<lparr>commit_ts = next_commit d, val = Some v\<rparr>]
        else if a = l then [\<lparr>commit_ts = next_commit d, val = Some w\<rparr>] else [])"
proof -
  have "tx_ok tx" "writes tx \<noteq> []" using tx by (simp_all add: tx_ok_def)
  from logged_commit [OF q room ord ag W this tx(2,4)] obtain d' where
    "Transaction_commit ord MemoryStore W (snd (Db_begin d)) tx = (Inr (next_commit d), d')" "quiet wf_store store_hist d' M"
    "log_agrees W store_hist d' (cs @ [\<lparr>rc_commit_ts = next_commit d, rc_writes = order_writes ord (writes tx)\<rparr>])"
    "\<And>a. store_hist (in_store d') a = store_hist (in_store d) a @ own_version (next_commit d) tx a"
    by blast
  then show thesis
    using tx(1,3) by (intro that [of d' "\<lparr>rc_commit_ts = next_commit d, rc_writes = order_writes ord (writes tx)\<rparr>"])
      (simp_all add: own_version_def)
qed

lemma below_top: "t < n \<Longrightarrow> t \<noteq> Timestamp (- 1)"
  by (cases n) (auto simp: less_timestamp_def not_less_iff_gr_or_eq [of "- 1"] dest: word_less_nat_alt [THEN iffD1])

text \<open>Dropping a durable database and opening the file it leaves behind.\<close>

lemma reopen_left_behind:
  assumes ag: "log_agrees W store_hist d cs" and W: "wal_reopens W"
  obtains d' where "Db_open W (left_behind p d) = Inr d'" "quiet wf_store store_hist d' {#}"
    "log_agrees W store_hist d' cs"
    "\<And>k. latest (store_hist (in_store d') k) = latest (store_hist (in_store d) k)"
    "Oracle_read_ts (in_oracle d') = foldl max ZERO (map rc_commit_ts (sort_key rc_commit_ts cs))"
    "next_ts (in_oracle d') = ts_get (foldl max ZERO (map rc_commit_ts (sort_key rc_commit_ts cs))) + 1"
proof -
  obtain log where log: "in_log d = Some log" "wal_holds W (wal log) (map record_of cs)" "list_all recordable cs"
    using ag by (auto simp: log_agrees_def)
  have top: "\<forall>c\<in>set cs. rc_commit_ts c \<noteq> Timestamp (- 1)" using ag below_top by (auto simp: log_agrees_def)
  obtain log' d' where d': "Db_open W (wal log) = Inr d'" "in_log d' = Some log'"
    "wal_holds W (wal log') (map record_of cs)" "quiet wf_store store_hist d' {#}"
    "\<forall>c\<in>set cs. rc_commit_ts c < next_commit d'"
    "\<forall>k. store_hist (in_store d') k = recovered_hist (sort_key rc_commit_ts cs) k"
    by (rule open_spec [OF W log(2,3) top])
  have "log_agrees W store_hist d' cs" using ag d' by (simp add: log_agrees_def)
  moreover have "latest (store_hist (in_store d') k) = latest (store_hist (in_store d) k)" for k
    using d'(6) ag by (simp add: log_agrees_def)
  ultimately show thesis
    using d' log open_watermark [OF W log(2,3) d'(1)] by (intro that [of d']) (simp_all add: left_behind_def)
qed

lemma first_session_result:
  fixes W :: "'w wal_ops"
  assumes ord: "hash_order_ok ord" and W: "wal_appends W" "wal_syncs W" "wal_reopens W" and path: "wal_holds W path []"
  obtains d c where "first_session ord W path = Inr (Timestamp 1, left_behind path d)" "log_agrees W store_hist d [c]"
    "rc_commit_ts c = Timestamp 1"
    "\<And>k. latest (store_hist (in_store d) k) = (if k = alice then Some (u64_to_le_bytes 100)
      else if k = bob then Some (u64_to_le_bytes 50) else None)"
proof -
  have p: "wal_holds W path (map record_of [])" "list_all recordable []" "\<forall>c\<in>set []. rc_commit_ts c \<noteq> Timestamp (- 1)"
    using path by simp_all
  obtain log d0 where d0: "Db_open W path = Inr d0" "in_log d0 = Some log" "wal_holds W (wal log) (map record_of [])"
    "quiet wf_store store_hist d0 {#}" "\<forall>k. store_hist (in_store d0) k = recovered_hist (sort_key rc_commit_ts []) k"
    by (rule open_spec [OF W(3) p]) blast
  have n: "next_ts (in_oracle d0) = 1" using open_watermark(2) [OF W(3) p(1,2) d0(1)] by (simp add: ZERO_def)
  then have room: "oracle_room (in_oracle d0)" by (simp add: oracle_room_def)
  have ag: "log_agrees W store_hist d0 []" using d0 by (simp add: log_agrees_def)
  let ?tx = "Transaction_put (Transaction_put (fst (Db_begin d0)) alice (u64_to_le_bytes 100)) bob (u64_to_le_bytes 50)"
  have ne: "alice \<noteq> bob" by (simp add: lit_def)
  have tx: "writes ?tx = [(alice, Some (u64_to_le_bytes 100)), (bob, Some (u64_to_le_bytes 50))]" "active ?tx = active (fst (Db_begin d0))"
    "tx_fits ?tx"
    using ne by (simp_all add: Transaction_put_def Db_begin_def Transaction_new_eq tx_fits_def batch_fits_def entry_fits_def
        encode_for_log_def encode_write_def lit_def length_u64_to_le_bytes)
  obtain d1 c where d1: "Transaction_commit ord MemoryStore W (snd (Db_begin d0)) ?tx = (Inr (next_commit d0), d1)"
    "log_agrees W store_hist d1 ([] @ [c])" "rc_commit_ts c = next_commit d0"
    "\<And>a. store_hist (in_store d1) a = store_hist (in_store d0) a @
       (if a = alice then [\<lparr>commit_ts = next_commit d0, val = Some (u64_to_le_bytes 100)\<rparr>]
        else if a = bob then [\<lparr>commit_ts = next_commit d0, val = Some (u64_to_le_bytes 50)\<rparr>] else [])"
    by (rule logged_put_two [OF d0(4) room ord ag W(1,2) tx(1,2) ne tx(3)]) blast
  let ?d2 = "ActiveReader_drop (snd (Db_begin d1)) (active (fst (Db_begin d1)))"
  have d2: "in_store ?d2 = in_store d1" "in_log ?d2 = in_log d1" "next_ts (in_oracle ?d2) = next_ts (in_oracle d1)"
    by (simp_all add: ActiveReader_drop_eq Db_begin_def)
  have s: "first_session ord W path = Inr (Timestamp 1, left_behind path ?d2)"
    using d1(1) n by (simp add: first_session_def d0(1) split_beta Transaction_put_def from_raw_def)
  have l: "latest (store_hist (in_store ?d2) k) = (if k = alice then Some (u64_to_le_bytes 100)
      else if k = bob then Some (u64_to_le_bytes 50) else None)" for k
    using d0(5) by (simp add: d2(1) d1(4) latest_def)
  have "log_agrees W store_hist ?d2 [c]" using d1(2) d2 by (simp add: log_agrees_def)
  then show thesis using s d1(3) n l by (intro that [of ?d2 c]) (simp_all add: from_raw_def)
qed

lemma stored_balance_bytes [simp]: "stored_balance (Some (u64_to_le_bytes x)) = Fine x"
  by (simp add: u64_le_roundtrip)

lemma with_balance_bytes [simp]: "with_balance (Inr (Some (u64_to_le_bytes x))) f = f x"
  by (simp add: with_balance_def u64_le_roundtrip del: stored_balance.simps)

lemma second_session_result:
  fixes W :: "'w wal_ops"
  assumes ord: "hash_order_ok ord" and W: "wal_appends W" "wal_syncs W" "wal_reopens W"
    and ag: "log_agrees W store_hist d [c]" "rc_commit_ts c = Timestamp 1"
    and bal: "\<And>k. latest (store_hist (in_store d) k) = (if k = alice then Some (u64_to_le_bytes x)
      else if k = bob then Some (u64_to_le_bytes y) else None)"
  obtains d' cs where "second_session ord W (left_behind p d) = Inr (Fine (\<lparr>watermark_read = Timestamp 1,
      alice_read = x, bob_read = y, carol_present = False, transferred_at = Timestamp 2\<rparr>, left_behind (left_behind p d) d'))"
    "log_agrees W store_hist d' cs"
    "\<And>k. latest (store_hist (in_store d') k) = (if k = alice then Some (u64_to_le_bytes (x - 25))
      else if k = bob then Some (u64_to_le_bytes (y + 25)) else None)"
proof -
  obtain d0 where d0: "Db_open W (left_behind p d) = Inr d0" "quiet wf_store store_hist d0 {#}" "log_agrees W store_hist d0 [c]"
    "\<And>k. latest (store_hist (in_store d0) k) = latest (store_hist (in_store d) k)"
    "Oracle_read_ts (in_oracle d0) = foldl max ZERO (map rc_commit_ts (sort_key rc_commit_ts [c]))"
    "next_ts (in_oracle d0) = ts_get (foldl max ZERO (map rc_commit_ts (sort_key rc_commit_ts [c]))) + 1"
    by (rule reopen_left_behind [OF ag(1) W(3), where p = p]) blast
  have r0: "Oracle_read_ts (in_oracle d0) = Timestamp 1" and n0: "next_ts (in_oracle d0) = 2"
    using d0(5,6) ag(2) ZERO_le [of "Timestamp 1"] by (simp_all add: max_absorb2)
  define d1 where "d1 = snd (Db_snapshot d0)"
  let ?sn = "\<lparr>snap_active = \<lparr>active_read_ts = Timestamp 1\<rparr>\<rparr>"
  have s1: "Db_snapshot d0 = (?sn, d1)" by (simp add: d1_def Snapshot_new_eq r0)
  have same: "in_store d1 = in_store d0" "in_log d1 = in_log d0" "next_ts (in_oracle d1) = 2"
    using n0 by (simp_all add: d1_def Snapshot_new_eq Db_begin_def)
  have q1: "quiet wf_store store_hist d1 {#Timestamp 1#}"
    using mem.quiet_snapshot_ok [OF d0(2)] by (simp add: d1_def r0)
  have ag1: "log_agrees W store_hist d1 [c]" using d0(3) same n0 by (simp add: log_agrees_def)
  have room: "oracle_room (in_oracle d1)" by (simp add: oracle_room_def same(3))
  have h: "latest (store_hist (in_store d1) k) = (if k = alice then Some (u64_to_le_bytes x)
      else if k = bob then Some (u64_to_le_bytes y) else None)" for k
    by (simp only: same(1) d0(4) bal)
  have ne: "alice \<noteq> bob" "alice \<noteq> carol" "bob \<noteq> carol" by (simp_all add: lit_def)
  have snap: "Snapshot_get MemoryStore d1 ?sn k = Inr (if k = alice then Some (u64_to_le_bytes x)
      else if k = bob then Some (u64_to_le_bytes y) else None)" for k
    using mem.quiet_snapshot [OF d0(2), of k] h [of k] by (simp add: s1 same(1))
  have get: "fst (Transaction_get MemoryStore (snd (Db_begin d1)) (fst (Db_begin d1)) k) = Inr (if k = alice then Some (u64_to_le_bytes x)
      else if k = bob then Some (u64_to_le_bytes y) else None)" for k
    using mem.quiet_begin_get [OF q1, of k] by (simp only: h)
  let ?tx0 = "snd (Transaction_get MemoryStore (snd (Db_begin d1)) (snd (Transaction_get MemoryStore (snd (Db_begin d1)) (fst (Db_begin d1)) alice)) bob)"
  let ?tx = "Transaction_put (Transaction_put ?tx0 alice (u64_to_le_bytes (x - 25))) bob (u64_to_le_bytes (y + 25))"
  have new: "writes (fst (Db_begin d1)) = []" by (simp add: Db_begin_def Transaction_new_eq)
  have tx: "writes ?tx = [(alice, Some (u64_to_le_bytes (x - 25))), (bob, Some (u64_to_le_bytes (y + 25)))]"
    "active ?tx = active (fst (Db_begin d1))" "tx_fits ?tx"
    using ne(1) new by (simp_all add: Transaction_put_def tx_fits_def batch_fits_def entry_fits_def
        encode_for_log_def encode_write_def lit_def length_u64_to_le_bytes)
  obtain d2 c' where d2: "Transaction_commit ord MemoryStore W (snd (Db_begin d1)) ?tx = (Inr (next_commit d1), d2)"
    "log_agrees W store_hist d2 ([c] @ [c'])"
    "\<And>a. store_hist (in_store d2) a = store_hist (in_store d1) a @
       (if a = alice then [\<lparr>commit_ts = next_commit d1, val = Some (u64_to_le_bytes (x - 25))\<rparr>]
        else if a = bob then [\<lparr>commit_ts = next_commit d1, val = Some (u64_to_le_bytes (y + 25))\<rparr>] else [])"
    by (rule logged_put_two [OF q1 room ord ag1 W(1,2) tx(1,2) ne(1) tx(3)]) blast
  let ?d3 = "Snapshot_drop d2 ?sn"
  have d3: "in_store ?d3 = in_store d2" "in_log ?d3 = in_log d2" "next_ts (in_oracle ?d3) = next_ts (in_oracle d2)"
    by (simp_all add: Snapshot_drop_def ActiveReader_drop_eq)
  have "second_session ord W (left_behind p d) = Inr (Fine (\<lparr>watermark_read = Timestamp 1,
      alice_read = x, bob_read = y, carol_present = False, transferred_at = Timestamp 2\<rparr>, left_behind (left_behind p d) ?d3))"
    using ne d2(1)
    by (simp add: second_session_def d0(1) split_beta Let_def s1 snap get Transaction_get_result Db_last_committed_def
        Inner_read_ts_def r0 same(3) from_raw_def)
  moreover have "log_agrees W store_hist ?d3 [c, c']" using d2(2) d3 by (simp add: log_agrees_def)
  moreover have "latest (store_hist (in_store ?d3) k) = (if k = alice then Some (u64_to_le_bytes (x - 25))
      else if k = bob then Some (u64_to_le_bytes (y + 25)) else None)" for k
    using h [of k] by (simp add: d3(1) d2(3) latest_append) (simp add: latest_def)
  ultimately show thesis by (rule that)
qed

section \<open>Properties\<close>

text \<open>The collection the \<open>garbage_collection\<close> program demonstrates, for any numbers of writes: a
  snapshot taken after the first writes pins exactly the one version it reads, so collecting while it
  is held reclaims all older ones; once it is dropped a collection reclaims every version but the
  newest, and a further one finds nothing. Both reads return the values their snapshots were taken
  at.\<close>

theorem snapshot_pins_one_version:
  assumes "hash_order_ok ord" "length before + length during < 2 ^ 64 - 2" "before \<noteq> []"
  shows "collect_around_snapshot ord W before during = Inr (Fine
    \<lparr>reclaimed_while_pinned = length before - 1, pinned_value = last before,
     reclaimed_after = length during, latest_value = last (before @ during), reclaimed_again = 0\<rparr>)"
  using assms by (rule collect_around_snapshot_result)

theorem snapshot_pins_one_version_witness:
  "garbage_collection demo_order list_wal = Inr (Fine \<lparr>reclaimed_while_pinned = 999, pinned_value = 999,
     reclaimed_after = 500, latest_value = 1499, reclaimed_again = 0\<rparr>)"
proof -
  have "last (map word_of_nat [0..<1000]) = (999 :: u32)" "last (map word_of_nat [1000..<1500]) = (1499 :: u32)"
    by (simp_all add: last_map del: upt_rec_numeral)
  then show ?thesis
    using snapshot_pins_one_version [OF demo_order_ok,
        of "map word_of_nat [0..<1000]" "map word_of_nat [1000..<1500]" list_wal]
    by (simp add: garbage_collection_def del: upt_rec_numeral)
qed

text \<open>The \<open>durable_store\<close> program, with any log that appends, syncs and reopens as documented and is
  empty at first: the second session finds the balances the first one committed and nothing of the
  transaction it dropped, commits at the next timestamp, and a third opening of the file it leaves
  behind would read the transferred balances.\<close>

theorem committed_state_survives_restart:
  assumes "hash_order_ok ord" "wal_appends W" "wal_syncs W" "wal_reopens W" "wal_holds W path []"
  shows "\<exists>file d. durable_store ord W path = Inr (Fine (Timestamp 1,
      \<lparr>watermark_read = Timestamp 1, alice_read = 100, bob_read = 50, carol_present = False,
       transferred_at = Timestamp 2\<rparr>, file))
    \<and> Db_open W file = Inr d
    \<and> fst (Db_get MemoryStore d alice) = Inr (Some (u64_to_le_bytes 75))
    \<and> fst (Db_get MemoryStore d bob) = Inr (Some (u64_to_le_bytes 75))
    \<and> fst (Db_get MemoryStore d carol) = Inr None"
proof -
  obtain d1 c where d1: "first_session ord W path = Inr (Timestamp 1, left_behind path d1)" "log_agrees W store_hist d1 [c]"
    "rc_commit_ts c = Timestamp 1" "\<And>k. latest (store_hist (in_store d1) k) = (if k = alice then Some (u64_to_le_bytes 100)
      else if k = bob then Some (u64_to_le_bytes 50) else None)"
    by (rule first_session_result [OF assms]) blast
  let ?out = "\<lparr>watermark_read = Timestamp 1, alice_read = 100, bob_read = 50, carol_present = False, transferred_at = Timestamp 2\<rparr>"
  let ?p = "left_behind path d1"
  obtain d2 cs where d2: "second_session ord W ?p = Inr (Fine (?out, left_behind ?p d2))" "log_agrees W store_hist d2 cs"
    "\<And>k. latest (store_hist (in_store d2) k) = (if k = alice then Some (u64_to_le_bytes (100 - 25))
      else if k = bob then Some (u64_to_le_bytes (50 + 25)) else None)"
    by (rule second_session_result [OF assms(1-4) d1(2-4), where p = path]) blast
  obtain d3 where d3: "Db_open W (left_behind ?p d2) = Inr d3" "quiet wf_store store_hist d3 {#}"
    "\<And>k. latest (store_hist (in_store d3) k) = latest (store_hist (in_store d2) k)"
    by (rule reopen_left_behind [OF d2(2) assms(4), where p = ?p]) blast
  have "alice \<noteq> bob" "alice \<noteq> carol" "bob \<noteq> carol" by (simp_all add: lit_def)
  then show ?thesis
    using d1(1) d2(1) d3(1) by (intro exI [of _ "left_behind ?p d2"] exI [of _ d3])
      (simp add: durable_store_def mem.quiet_get [OF d3(2)] d3(3) d2(3))
qed

theorem committed_state_survives_restart_witness:
  "\<exists>file. durable_store demo_order list_wal [] = Inr (Fine (Timestamp 1,
      \<lparr>watermark_read = Timestamp 1, alice_read = 100, bob_read = 50, carol_present = False,
       transferred_at = Timestamp 2\<rparr>, file))"
  using committed_state_survives_restart [OF demo_order_ok list_wal_ok(1) _ list_wal_ok(2), of "[]"]
  by (auto simp: wal_syncs_def)

text \<open>What the two smallest programs print: \<open>quick_start\<close> commits at the first timestamp and reads
  its two values back, and nothing under the key it never wrote; the first snapshot of
  \<open>snapshot_reads\<close> still reads the first configuration after the second one has been committed.\<close>

theorem examples_print:
  assumes "hash_order_ok ord"
  shows "quick_start ord W = Inr \<lparr>committed_at = Timestamp 1, name_read = Some (lit ''ada''),
      role_read = Some (lit ''admin''), missing_present = False\<rparr>
    \<and> snapshot_reads_main ord W = Inr ((Timestamp 1, Some (lit ''safe''), Some (lit ''10'')),
      (Timestamp 2, Some (lit ''fast''), Some (lit ''1000'')))"
  using quick_start_result [OF assms] snapshot_reads_main_result [OF assms] by blast

theorem examples_print_witness:
  "snapshot_reads_main demo_order list_wal = Inr ((Timestamp 1, Some (lit ''safe''), Some (lit ''10'')),
     (Timestamp 2, Some (lit ''fast''), Some (lit ''1000'')))"
  using examples_print [OF demo_order_ok] by blast

end
