(* ===== verification/Custom_Store.thy ===== *)
theory Custom_Store
  imports Isolation
begin

text \<open>
  Stores other than \<open>MemoryStore\<close> under the same engine: the counting wrapper of
  \<open>src/examples/custom_store.rs\<close> and the single-map store of \<open>src/tests/backing_store.rs\<close>. Both keep
  the default \<open>collect_garbage\<close>. Interpreting the store contract on them carries every lemma about the
  coordinator over to databases built on them. The operations of \<open>CountingStore\<close> here are whole calls,
  as a program with one thread makes them; theory \<open>Counting_Engine\<close> has their ticks as steps of their
  own, between which other processes run.
\<close>

section \<open>The counting store\<close>

text \<open>The two counters are shared with the observer; \<open>fetch_add\<close> wraps.\<close>

record counting_store =
  cs_inner :: memory_store
  cs_reads :: u64
  versions_applied :: u64

definition CountingStore_get ::
  "counting_store \<Rightarrow> bytes \<Rightarrow> timestamp \<Rightarrow> bytes option result \<times> counting_store" where
  "CountingStore_get s key rts = (MemoryStore_get (cs_inner s) key rts, s\<lparr>cs_reads := cs_reads s + 1\<rparr>)"

definition CountingStore_try_commit ::
  "counting_store \<Rightarrow> timestamp \<Rightarrow> timestamp \<Rightarrow> write_entry list \<Rightarrow> bytes list \<Rightarrow> unit result \<times> counting_store" where
  "CountingStore_try_commit s rts cts ws rs =
     (let n = word_of_nat (length ws);
          (outcome, m) = MemoryStore_try_commit (cs_inner s) rts cts ws rs
      in (outcome, if isl outcome then s\<lparr>cs_inner := m\<rparr>
                   else s\<lparr>cs_inner := m, versions_applied := versions_applied s + n\<rparr>))"

text \<open>
  The method table. The type of \<open>vs_get\<close> has no place for the store after a get, so here a get reports its
  result only; a program that reads the counters calls \<open>CountingStore_get\<close>, which ticks.
\<close>

definition CountingStore :: "counting_store version_store" where
  "CountingStore = \<lparr>vs_get = (\<lambda>s key rts. fst (CountingStore_get s key rts)),
     vs_try_commit = CountingStore_try_commit, vs_collect_garbage = default_collect_garbage\<rparr>"

text \<open>The default collector takes no lock and changes nothing: it has no slices.\<close>

definition no_slices :: "'s gc_slices" where
  "no_slices = \<lparr>gc_len = (\<lambda>s. 0), gc_step = (\<lambda>s low i. (0, s))\<rparr>"

text \<open>A sequence of calls on the store, and the same calls on the store it wraps.\<close>

datatype store_call =
    Get_call bytes timestamp
  | Commit_call timestamp timestamp "write_entry list" "bytes list"

datatype call_result = Got_value "bytes option result" | Got_outcome "unit result"

fun counting_calls :: "counting_store \<Rightarrow> store_call list \<Rightarrow> call_result list \<times> counting_store" where
  "counting_calls s [] = ([], s)"
| "counting_calls s (Get_call k r # cs) =
     (let (v, s) = CountingStore_get s k r; (rs, s) = counting_calls s cs in (Got_value v # rs, s))"
| "counting_calls s (Commit_call r t ws ks # cs) =
     (let (out, s) = CountingStore_try_commit s r t ws ks; (rs, s) = counting_calls s cs in (Got_outcome out # rs, s))"

fun memory_calls :: "memory_store \<Rightarrow> store_call list \<Rightarrow> call_result list \<times> memory_store" where
  "memory_calls s [] = ([], s)"
| "memory_calls s (Get_call k r # cs) =
     (let (rs, s') = memory_calls s cs in (Got_value (MemoryStore_get s k r) # rs, s'))"
| "memory_calls s (Commit_call r t ws ks # cs) =
     (let (out, s) = MemoryStore_try_commit s r t ws ks; (rs, s) = memory_calls s cs in (Got_outcome out # rs, s))"

fun reads_in :: "store_call list \<Rightarrow> nat" where
  "reads_in [] = 0"
| "reads_in (Get_call k r # cs) = Suc (reads_in cs)"
| "reads_in (Commit_call r t ws ks # cs) = reads_in cs"

text \<open>The versions that the commits which landed applied.\<close>

fun versions_in :: "store_call list \<Rightarrow> call_result list \<Rightarrow> nat" where
  "versions_in (Commit_call r t ws ks # cs) (Got_outcome (Inr u) # os) = length ws + versions_in cs os"
| "versions_in (c # cs) (out # os) = versions_in cs os"
| "versions_in _ _ = 0"

section \<open>The single-map store\<close>

text \<open>A chain is a list of timestamped values in ascending order; the map is an ordered map.\<close>

type_synonym btree_chain = "(timestamp \<times> bytes option) list"
type_synonym btree_store = "(bytes \<times> btree_chain) list"

definition btree_visible :: "btree_chain option \<Rightarrow> timestamp \<Rightarrow> bytes option" where
  "btree_visible chain rts =
     (case chain of
        None \<Rightarrow> None
      | Some c \<Rightarrow> (case partition_point (\<lambda>v. fst v \<le> rts) c of 0 \<Rightarrow> None | Suc i \<Rightarrow> snd (c ! i)))"

definition btree_changed_since :: "btree_chain option \<Rightarrow> timestamp \<Rightarrow> bool" where
  "btree_changed_since chain rts =
     (case chain of None \<Rightarrow> False | Some c \<Rightarrow> (if c = [] then False else rts < fst (last c)))"

definition BTreeStore_get :: "btree_store \<Rightarrow> bytes \<Rightarrow> timestamp \<Rightarrow> bytes option result" where
  "BTreeStore_get s key rts = Inr (btree_visible (map_of s key) rts)"

fun btree_check :: "btree_store \<Rightarrow> timestamp \<Rightarrow> bytes list \<Rightarrow> TxnError option" where
  "btree_check s rts [] = None"
| "btree_check s rts (key # ks) =
     (if btree_changed_since (map_of s key) rts then Some (conflict (length key)) else btree_check s rts ks)"

fun btree_apply :: "timestamp \<Rightarrow> write_entry list \<Rightarrow> btree_store \<Rightarrow> btree_store" where
  "btree_apply cts [] s = s"
| "btree_apply cts ((key, v) # ws) s =
     btree_apply cts ws (hm_insert key ((case map_of s key of Some c \<Rightarrow> c | None \<Rightarrow> []) @ [(cts, v)]) s)"

definition BTreeStore_try_commit ::
  "btree_store \<Rightarrow> timestamp \<Rightarrow> timestamp \<Rightarrow> write_entry list \<Rightarrow> bytes list \<Rightarrow> unit result \<times> btree_store" where
  "BTreeStore_try_commit s rts cts ws rs =
     (case btree_check s rts (map fst ws) of
        Some e \<Rightarrow> (Inl e, s)
      | None \<Rightarrow> (case btree_check s rts rs of Some e \<Rightarrow> (Inl e, s) | None \<Rightarrow> (Inr (), btree_apply cts ws s)))"

definition BTreeStore :: "btree_store version_store" where
  "BTreeStore = \<lparr>vs_get = BTreeStore_get, vs_try_commit = BTreeStore_try_commit,
     vs_collect_garbage = default_collect_garbage\<rparr>"

definition as_versions :: "btree_chain \<Rightarrow> version list" where
  "as_versions c = map (\<lambda>v. \<lparr>commit_ts = fst v, val = snd v\<rparr>) c"

definition btree_hist :: "btree_store \<Rightarrow> bytes \<Rightarrow> version list" where
  "btree_hist s k = (case map_of s k of None \<Rightarrow> [] | Some c \<Rightarrow> as_versions c)"

definition btree_ok :: "btree_store \<Rightarrow> bool" where
  "btree_ok s \<longleftrightarrow> (\<forall>k. ascending (btree_hist s k))"

section \<open>Lemmas\<close>

interpretation counting: store_contract CountingStore "\<lambda>s. wf_store (cs_inner s)" "\<lambda>s. store_hist (cs_inner s)"
proof unfold_locales
  fix s :: counting_store and k r ws rs rts cts low
  assume wf: "wf_store (cs_inner s)"
  show "ascending (store_hist (cs_inner s) k)" using wf by (rule mem.hist_ascending)
  show "vs_get CountingStore s k r = Inr (read_at (store_hist (cs_inner s) k) r)"
    using mem.get_law [OF wf, of k r] by (simp add: CountingStore_def CountingStore_get_def MemoryStore_def)
  have com: "vs_try_commit CountingStore s rts cts ws rs = (o', if isl o' then s\<lparr>cs_inner := m\<rparr>
      else s\<lparr>cs_inner := m, versions_applied := versions_applied s + word_of_nat (length ws)\<rparr>)"
    if "vs_try_commit MemoryStore (cs_inner s) rts cts ws rs = (o', m)" for o' m
    using that by (simp add: CountingStore_def CountingStore_try_commit_def MemoryStore_def)
  show "\<exists>k\<in>touched ws rs. changed_since (store_hist (cs_inner s) k) rts
      \<and> vs_try_commit CountingStore s rts cts ws rs = (Inl (conflict (length k)), s)"
    if ch: "\<exists>k\<in>touched ws rs. changed_since (store_hist (cs_inner s) k) rts"
  proof -
    obtain k where k: "k \<in> touched ws rs" "changed_since (store_hist (cs_inner s) k) rts"
      "vs_try_commit MemoryStore (cs_inner s) rts cts ws rs = (Inl (conflict (length k)), cs_inner s)"
      using mem.conflict_law [OF wf ch, of cts] by blast
    from com [OF k(3)] k(1,2) show ?thesis by (intro bexI [of _ k]) simp_all
  qed
  show "\<exists>s'. vs_try_commit CountingStore s rts cts ws rs = (Inr (), s') \<and> wf_store (cs_inner s')
      \<and> (\<forall>k. store_hist (cs_inner s') k = store_hist (cs_inner s) k @ new_versions cts ws k)"
    if lt: "rts < cts" and un: "\<forall>k\<in>touched ws rs. \<not> changed_since (store_hist (cs_inner s) k) rts"
  proof -
    obtain m where m: "vs_try_commit MemoryStore (cs_inner s) rts cts ws rs = (Inr (), m)" "wf_store m"
      "\<forall>k. store_hist m k = store_hist (cs_inner s) k @ new_versions cts ws k"
      using mem.apply_law [OF wf lt un] by blast
    from com [OF m(1)] m(2,3) show ?thesis by simp
  qed
  show "wf_store (cs_inner (snd (vs_collect_garbage CountingStore s low)))
      \<and> pruned low (store_hist (cs_inner s) k) (store_hist (cs_inner (snd (vs_collect_garbage CountingStore s low))) k)"
    using wf by (simp add: CountingStore_def default_collect_garbage_def)
qed


text \<open>The wrapper answers as the store it wraps, and counts what it was asked and what landed.\<close>

lemma counting_calls_spec:
  "counting_calls s cs = (rs, s') \<Longrightarrow>
     memory_calls (cs_inner s) cs = (rs, cs_inner s') \<and> cs_reads s' = cs_reads s + word_of_nat (reads_in cs)
     \<and> versions_applied s' = versions_applied s + word_of_nat (versions_in cs rs)"
proof (induction s cs arbitrary: rs rule: counting_calls.induct)
  case (2 s k r cs)
  then show ?case by (auto simp: CountingStore_get_def ac_simps split: prod.splits)
next
  case (3 s r t ws ks cs)
  obtain out m where m: "MemoryStore_try_commit (cs_inner s) r t ws ks = (out, m)" by force
  then have c: "CountingStore_try_commit s r t ws ks = (out, if isl out then s\<lparr>cs_inner := m\<rparr>
      else s\<lparr>cs_inner := m, versions_applied := versions_applied s + word_of_nat (length ws)\<rparr>)" (is "_ = (out, ?s)")
    by (simp add: CountingStore_try_commit_def)
  obtain os t' where os: "counting_calls ?s cs = (os, t')" by force
  have rs: "rs = Got_outcome out # os" "s' = t'" using "3.prems" by (simp_all add: c os)
  have IH: "memory_calls m cs = (os, cs_inner t')" "cs_reads t' = cs_reads s + word_of_nat (reads_in cs)"
    "versions_applied t' = versions_applied ?s + word_of_nat (versions_in cs os)"
    using "3.IH" [of "(out, ?s)" out ?s os] c os rs(2) by (auto split: if_splits)
  then show ?case using m rs by (cases out) (simp_all add: ac_simps)
qed auto

subsection \<open>The single-map store meets the contract\<close>

lemma btree_hist_Some: "map_of s k = Some c \<Longrightarrow> btree_hist s k = as_versions c"
  by (simp add: btree_hist_def)

lemma as_versions_simps [simp]:
  "length (as_versions c) = length c" "i < length c \<Longrightarrow> as_versions c ! i = \<lparr>commit_ts = fst (c ! i), val = snd (c ! i)\<rparr>"
  "as_versions c = [] \<longleftrightarrow> c = []" "as_versions (c @ d) = as_versions c @ as_versions d"
  "as_versions [v] = [\<lparr>commit_ts = fst v, val = snd v\<rparr>]" "as_versions [] = []"
  by (simp_all add: as_versions_def)

lemma last_as_versions: "c \<noteq> [] \<Longrightarrow> last (as_versions c) = \<lparr>commit_ts = fst (last c), val = snd (last c)\<rparr>"
  by (simp add: as_versions_def last_map)

lemma btree_partition:
  assumes "ascending (as_versions c)"
  shows "partition_point (\<lambda>v. fst v \<le> r) c = partition_point (\<lambda>v. commit_ts v \<le> r) (as_versions c)"
proof (rule partition_point_unique)
  let ?a = "filter (\<lambda>v. commit_ts v \<le> r) (as_versions c)" and ?b = "filter (\<lambda>v. \<not> commit_ts v \<le> r) (as_versions c)"
  have split: "(as_versions c) = ?a @ ?b" using assms by (rule ascending_split)
  have pp: "partition_point (\<lambda>v. commit_ts v \<le> r) (as_versions c) = length ?a" using assms by (rule partition_point_ascending)
  have le: "length ?a \<le> length c" using length_filter_le [of _ "as_versions c"] by simp
  then show "partition_point (\<lambda>v. commit_ts v \<le> r) (as_versions c) \<le> length c" unfolding pp .
  have nth: "commit_ts (as_versions c ! i) = fst (c ! i)" if "i < length c" for i using that by simp
  show "fst (c ! i) \<le> r" if "i < partition_point (\<lambda>v. commit_ts v \<le> r) (as_versions c)" for i
  proof -
    have i: "i < length ?a" "i < length c" using that le unfolding pp by simp_all
    then have "(as_versions c) ! i = ?a ! i" using split by (metis nth_append)
    then have "(as_versions c) ! i \<in> set ?a" using nth_mem [OF i(1)] by metis
    then show ?thesis using nth [OF i(2)] by simp
  qed
  show "\<not> fst (c ! i) \<le> r" if "partition_point (\<lambda>v. commit_ts v \<le> r) (as_versions c) \<le> i" "i < length c" for i
  proof -
    have "(as_versions c) ! i = ?b ! (i - length ?a)" using split that(1) unfolding pp by (metis nth_append not_le)
    moreover have "i - length ?a < length ?b"
      using that split unfolding pp by (metis add_diff_cancel_left' as_versions_simps(1) diff_less_mono length_append)
    ultimately have "(as_versions c) ! i \<in> set ?b" by (metis nth_mem)
    then show ?thesis using nth [OF that(2)] by simp
  qed
qed

lemma btree_get_hist: "btree_ok s \<Longrightarrow> BTreeStore_get s k r = Inr (read_at (btree_hist s k) r)"
proof (cases "map_of s k")
  case None
  then show ?thesis by (simp add: BTreeStore_get_def btree_visible_def btree_hist_def read_at_def visible_version_def)
next
  case (Some c)
  assume "btree_ok s"
  then have asc: "ascending (btree_hist s k)" by (simp add: btree_ok_def)
  let ?n = "partition_point (\<lambda>v. commit_ts v \<le> r) (btree_hist s k)"
  have n: "?n \<le> length c"
    using partition_point_ascending [OF asc, of r] Some by (metis as_versions_simps(1) btree_hist_Some length_filter_le)
  have "btree_visible (Some c) r = visible_value (Some (btree_hist s k)) r"
    using btree_partition [of c r] asc n
    by (auto simp: btree_visible_def visible_value_def btree_hist_Some [OF Some] Let_def split: nat.split)
  then show ?thesis using visible_value_read_at [OF asc] Some by (simp add: BTreeStore_get_def)
qed

lemma btree_changed: "btree_ok s \<Longrightarrow> btree_changed_since (map_of s k) r \<longleftrightarrow> changed_since (btree_hist s k) r"
proof (cases "map_of s k")
  case None
  then show ?thesis by (simp add: btree_changed_since_def btree_hist_def changed_since_def)
next
  case (Some c)
  assume "btree_ok s"
  then have "newer_than (Some (btree_hist s k)) r \<longleftrightarrow> changed_since (btree_hist s k) r"
    by (intro newer_than_changed) (simp add: btree_ok_def)
  then show ?thesis
    by (cases "c = []") (simp_all add: Some btree_changed_since_def btree_hist_Some newer_than_def last_as_versions)
qed

lemma btree_check_spec:
  assumes "btree_ok s"
  shows "btree_check s r ks = None \<longleftrightarrow> (\<forall>k\<in>set ks. \<not> changed_since (btree_hist s k) r)"
    "btree_check s r ks = Some e \<Longrightarrow> \<exists>k\<in>set ks. changed_since (btree_hist s k) r \<and> e = conflict (length k)"
  by (induction ks) (auto simp: btree_changed [OF assms] split: if_splits)

lemma btree_apply_hist: "btree_hist (btree_apply cts ws s) k = btree_hist s k @ new_versions cts ws k"
  by (induction cts ws s rule: btree_apply.induct)
    (auto simp: btree_hist_def new_versions_def split: option.splits if_splits)

interpretation btree: store_contract BTreeStore btree_ok btree_hist
proof unfold_locales
  fix s :: btree_store and k r ws rs rts cts low
  assume ok: "btree_ok s"
  show "ascending (btree_hist s k)" using ok by (simp add: btree_ok_def)
  show "vs_get BTreeStore s k r = Inr (read_at (btree_hist s k) r)"
    using btree_get_hist [OF ok] by (simp add: BTreeStore_def)
  show "\<exists>k\<in>touched ws rs. changed_since (btree_hist s k) rts
      \<and> vs_try_commit BTreeStore s rts cts ws rs = (Inl (conflict (length k)), s)"
    if ch: "\<exists>k\<in>touched ws rs. changed_since (btree_hist s k) rts"
  proof (cases "btree_check s rts (map fst ws)")
    case None
    then have "btree_check s rts rs \<noteq> None"
      using ch by (auto simp: btree_check_spec(1) [OF ok] touched_def)
    then obtain e where e: "btree_check s rts rs = Some e" by blast
    with None btree_check_spec(2) [OF ok e] show ?thesis
      by (auto simp: BTreeStore_def BTreeStore_try_commit_def touched_def)
  next
    case (Some e)
    with btree_check_spec(2) [OF ok Some] show ?thesis
      by (auto simp: BTreeStore_def BTreeStore_try_commit_def touched_def)
  qed
  show "\<exists>s'. vs_try_commit BTreeStore s rts cts ws rs = (Inr (), s') \<and> btree_ok s'
      \<and> (\<forall>k. btree_hist s' k = btree_hist s k @ new_versions cts ws k)"
    if lt: "rts < cts" and un: "\<forall>k\<in>touched ws rs. \<not> changed_since (btree_hist s k) rts"
  proof -
    have "btree_check s rts (map fst ws) = None" "btree_check s rts rs = None"
      using un by (auto simp: btree_check_spec(1) [OF ok] touched_def)
    moreover have "ascending (btree_hist s k @ new_versions cts ws k)" for k
    proof (cases "k \<in> touched ws rs")
      case True
      then show ?thesis using ok un lt by (intro ascending_append_new [of _ rts]) (auto simp: btree_ok_def)
    next
      case False
      then have "new_versions cts ws k = []" by (simp add: new_versions_Nil_iff touched_def)
      then show ?thesis using ok by (simp add: btree_ok_def)
    qed
    ultimately show ?thesis
      by (simp add: BTreeStore_def BTreeStore_try_commit_def btree_apply_hist btree_ok_def)
  qed
  show "btree_ok (snd (vs_collect_garbage BTreeStore s low))
      \<and> pruned low (btree_hist s k) (btree_hist (snd (vs_collect_garbage BTreeStore s low)) k)"
    using ok by (simp add: BTreeStore_def default_collect_garbage_def)
qed

interpretation btrees: sliced_store BTreeStore btree_ok btree_hist no_slices
  by unfold_locales (simp add: no_slices_def)


text \<open>Two stores with the same histories: one sharded and locked shard by shard, one a single map.\<close>

definition same_contents :: "memory_store \<Rightarrow> btree_store \<Rightarrow> bool" where
  "same_contents s b \<longleftrightarrow> wf_store s \<and> btree_ok b \<and> (\<forall>k. store_hist s k = btree_hist b k)"

lemma btree_check_find:
  "btree_ok b \<Longrightarrow> btree_check b r ks =
     map_option (\<lambda>k. conflict (length k)) (find (\<lambda>k. changed_since (btree_hist b k) r) ks)"
  by (induction ks) (simp_all add: btree_changed)

lemma same_contents_commit:
  assumes R: "same_contents s b" and lt: "rts < cts"
  shows "fst (MemoryStore_try_commit s rts cts ws rs) = fst (BTreeStore_try_commit b rts cts ws rs)"
    "same_contents (snd (MemoryStore_try_commit s rts cts ws rs)) (snd (BTreeStore_try_commit b rts cts ws rs))"
proof -
  have wf: "wf_store s" "btree_ok b" and h: "\<And>k. store_hist s k = btree_hist b k"
    using R by (auto simp: same_contents_def)
  let ?f = "find (\<lambda>k. changed_since (btree_hist b k) rts) (map fst ws @ rs)"
  have m: "MemoryStore_try_commit s rts cts ws rs =
      (case ?f of Some k \<Rightarrow> (Inl (conflict (length k)), s) | None \<Rightarrow> (Inr (), push_all cts ws s))"
    by (simp add: MemoryStore_try_commit_ref [OF wf(1)] try_commit_ref_def h)
  have t: "BTreeStore_try_commit b rts cts ws rs =
      (case ?f of Some k \<Rightarrow> (Inl (conflict (length k)), b) | None \<Rightarrow> (Inr (), btree_apply cts ws b))"
    by (simp add: BTreeStore_try_commit_def btree_check_find [OF wf(2)] find_append split: option.split)
  show "fst (MemoryStore_try_commit s rts cts ws rs) = fst (BTreeStore_try_commit b rts cts ws rs)"
    by (simp add: m t split: option.split)
  have inv: "wf_store (snd (MemoryStore_try_commit s rts cts ws rs))" "btree_ok (snd (BTreeStore_try_commit b rts cts ws rs))"
    using mem.try_commit_invar [OF wf(1) lt, of ws rs] btree.try_commit_invar [OF wf(2) lt, of ws rs]
    by (simp_all add: MemoryStore_def BTreeStore_def)
  show "same_contents (snd (MemoryStore_try_commit s rts cts ws rs)) (snd (BTreeStore_try_commit b rts cts ws rs))"
  proof (cases ?f)
    case None
    then have un: "\<forall>k\<in>touched ws rs. \<not> changed_since (store_hist s k) rts"
      by (auto simp: find_None_iff touched_def h)
    have "store_hist (snd (MemoryStore_try_commit s rts cts ws rs)) k = store_hist s k @ new_versions cts ws k" for k
      using mem.apply_law [OF wf(1) lt un] by (auto simp: MemoryStore_def)
    then show ?thesis using inv None by (simp add: same_contents_def t btree_apply_hist h)
  next
    case (Some k)
    then show ?thesis using R by (simp add: m t)
  qed
qed

section \<open>Properties\<close>

text \<open>The wrapper is transparent: any sequence of gets and commits on a \<open>CountingStore\<close> gives the
  results and leaves the data that the same calls on the wrapped store would, the read counter grows by
  the number of gets, and the version counter by the versions of the commits that landed.\<close>

theorem counting_store_transparent:
  "memory_calls (cs_inner s) cs = (fst (counting_calls s cs), cs_inner (snd (counting_calls s cs)))
   \<and> cs_reads (snd (counting_calls s cs)) = cs_reads s + word_of_nat (reads_in cs)
   \<and> versions_applied (snd (counting_calls s cs)) = versions_applied s
       + word_of_nat (versions_in cs (fst (counting_calls s cs)))"
  using counting_calls_spec [of s cs "fst (counting_calls s cs)" "snd (counting_calls s cs)"] by simp

text \<open>What it does not forward is \<open>collect_garbage\<close>: a database on it never reclaims a version.\<close>

theorem counting_store_never_collects: "Db_collect_garbage CountingStore d = (0, d)"
  by (simp add: Db_collect_garbage_def Inner_collect_garbage_def CountingStore_def default_collect_garbage_def)

text \<open>C32. The sharded store is a map of version chains: from states with the same histories,
  \<open>MemoryStore\<close> and the single-map \<open>BTreeStore\<close>, which shares no code with it, answer every get and
  every commit alike, down to the conflict reported, and end in states with the same histories.\<close>

theorem memory_store_refines_btree:
  assumes "same_contents s b" "rts < cts"
  shows "MemoryStore_get s k r = BTreeStore_get b k r
    \<and> fst (MemoryStore_try_commit s rts cts ws rs) = fst (BTreeStore_try_commit b rts cts ws rs)
    \<and> same_contents (snd (MemoryStore_try_commit s rts cts ws rs)) (snd (BTreeStore_try_commit b rts cts ws rs))"
  using same_contents_commit [OF assms] assms(1)
  by (simp add: same_contents_def MemoryStore_get_hist btree_get_hist)

theorem memory_store_refines_btree_witness:
  "fst (MemoryStore_try_commit MemoryStore_new (Timestamp 0) (Timestamp 1) [([1], Some [2]), ([3], None)] [[4]])
     = fst (BTreeStore_try_commit [] (Timestamp 0) (Timestamp 1) [([1], Some [2]), ([3], None)] [[4]])"
proof -
  have "same_contents MemoryStore_new []"
    by (simp add: same_contents_def wf_MemoryStore_new store_hist_new btree_ok_def btree_hist_def)
  moreover have "Timestamp 0 < Timestamp 1" by (simp add: less_timestamp_def)
  ultimately show ?thesis using memory_store_refines_btree by blast
qed

end
