(* ===== verification/Client_Mains.thy ===== *)
theory Client_Mains
  imports Example_Mains Custom_Store
begin

text \<open>
  The \<open>main\<close> functions of the example programs whose clients are in \<open>Client_Programs\<close> and
  \<open>Custom_Store\<close> (\<open>src/examples/bank_transfer.rs\<close>, \<open>concurrent_counter.rs\<close>,
  \<open>serializable_doctors.rs\<close>, \<open>custom_store.rs\<close>). Each definition returns what the program prints,
  before it is formatted. The threads of the counter are any interleaving of their transactions.
\<close>

section \<open>Definitions\<close>

subsection \<open>Bank transfer\<close>

record bank_output =
  alice_balance :: u64
  bob_balance :: u64
  overdraft :: "unit result"

definition open_accounts :: "hash_order \<Rightarrow> 'w wal_ops \<Rightarrow> timestamp result \<times> (memory_store, 'w) db" where
  "open_accounts ord W =
     (let (tx, d) = Db_begin Db_new;
          tx = set_balance tx alice 100;
          tx = set_balance tx bob 0
      in Transaction_commit ord MemoryStore W d tx)"

text \<open>A result of \<open>transfer\<close> or \<open>balance\<close>, with the rest of \<open>main\<close>; \<open>None\<close> is a loop that never returns.\<close>

definition after_transfer ::
  "(unit result panics \<times> (memory_store, 'w) db) option
     \<Rightarrow> (unit result \<Rightarrow> (memory_store, 'w) db \<Rightarrow> 'a panics result option) \<Rightarrow> 'a panics result option" where
  "after_transfer call then_run =
     (case call of
        None \<Rightarrow> None
      | Some (Panic, d) \<Rightarrow> Some (Inr Panic)
      | Some (Fine r, d) \<Rightarrow> then_run r d)"

definition bank_main :: "hash_order \<Rightarrow> 'w wal_ops \<Rightarrow> bank_output panics result option" where
  "bank_main ord W =
     (let (opened, d) = open_accounts ord W
      in case opened of
           Inl e \<Rightarrow> Some (Inl e)
         | Inr _ \<Rightarrow>
             after_transfer (transfer ord MemoryStore W d alice bob 30) (\<lambda>moved d.
               case moved of
                 Inl e \<Rightarrow> Some (Inl e)
               | Inr _ \<Rightarrow>
                   (let (snap, d) = Db_snapshot d;
                        a = Snapshot_get MemoryStore d snap alice;
                        b = Snapshot_get MemoryStore d snap bob
                    in case (a, b) of
                         (Inr v, Inr w) \<Rightarrow>
                           (case (balance v, balance w) of
                              (Fine x, Fine y) \<Rightarrow>
                                after_transfer (transfer ord MemoryStore W d bob alice 1000) (\<lambda>r d.
                                  Some (Inr (Fine \<lparr>alice_balance = x, bob_balance = y, overdraft = r\<rparr>)))
                            | _ \<Rightarrow> Some (Inr Panic))
                       | (Inl e, _) \<Rightarrow> Some (Inl e)
                       | (_, Inl e) \<Rightarrow> Some (Inl e))))"

subsection \<open>Concurrent counter\<close>

definition THREADS :: nat where
  "THREADS = 8"

definition PER_THREAD :: nat where
  "PER_THREAD = 1000"

text \<open>The database the threads start on, and what \<open>main\<close> reads when it has joined them.\<close>

definition counter_start :: "hash_order \<Rightarrow> 'w wal_ops \<Rightarrow> timestamp result \<times> (memory_store, 'w) db" where
  "counter_start ord W =
     (let (tx, d) = Db_begin Db_new;
          tx = Transaction_put tx counter (u64_to_le_bytes 0)
      in Transaction_commit ord MemoryStore W d tx)"

definition final_counter :: "(memory_store, 'w) db \<Rightarrow> u64 panics result" where
  "final_counter d =
     (let (snap, d) = Db_snapshot d
      in and_then (Snapshot_get MemoryStore d snap counter) (\<lambda>v.
           case v of None \<Rightarrow> Inr Panic | Some b \<Rightarrow> Inr (read_u64_value b)))"

text \<open>
  The threads have been joined: every commit was an increment, \<open>per_thread\<close> of each of them, and none
  is in flight. \<open>thread_of\<close> names the thread of each commit.
\<close>

definition all_joined :: "nat \<Rightarrow> nat \<Rightarrow> (memory_store, 'w) system \<Rightarrow> nat list \<Rightarrow> bool" where
  "all_joined threads per_thread S thread_of \<longleftrightarrow> (\<forall>c\<in>set (history S). increments c) \<and> length thread_of = length (history S)
     \<and> set thread_of \<subseteq> {..<threads} \<and> (\<forall>t<threads. count_list thread_of t = per_thread) \<and> held_set (procs S) = {}"

subsection \<open>Doctors on call\<close>

text \<open>What \<open>report\<close> prints: the outcome, and whether the invariant held.\<close>

definition report :: "outcome \<Rightarrow> outcome \<times> bool" where
  "report out = (out, on_call out \<noteq> 0)"

definition doctors_main :: "hash_order \<Rightarrow> 'w wal_ops \<Rightarrow> ((outcome \<times> bool) \<times> (outcome \<times> bool)) result" where
  "doctors_main ord W =
     and_then (fst (run_doctors ord MemoryStore W Db_new Snapshot)) (\<lambda>si.
       and_then (fst (run_doctors ord MemoryStore W Db_new Serializable)) (\<lambda>ser.
         Inr (report si, report ser)))"

subsection \<open>Counting store\<close>

text \<open>A get of a transaction on a counting store, with the tick of the read counter when it goes to the store.\<close>

definition counting_get ::
  "(counting_store, 'w) db \<Rightarrow> transaction \<Rightarrow> bytes \<Rightarrow> (bytes option result \<times> transaction) \<times> (counting_store, 'w) db" where
  "counting_get d tx key =
     (Transaction_get CountingStore d tx key,
      if map_of (writes tx) key = None
      then d\<lparr>in_store := snd (CountingStore_get (in_store d) key (Transaction_read_timestamp tx))\<rparr> else d)"

definition new_counting_db :: "(counting_store, 'w) db" where
  "new_counting_db = Db_with_store \<lparr>cs_inner = MemoryStore_new, cs_reads = 0, versions_applied = 0\<rparr>"

text \<open>\<open>main\<close> returns the reads served and the versions applied.\<close>

definition counting_main :: "hash_order \<Rightarrow> 'w wal_ops \<Rightarrow> (u64 \<times> u64) result" where
  "counting_main ord W =
     (let (tx, d) = Db_begin new_counting_db;
          tx = Transaction_put tx (lit ''a'') (lit ''1'');
          tx = Transaction_put tx (lit ''b'') (lit ''2'');
          (committed, d) = Transaction_commit ord CountingStore W d tx
      in and_then committed (\<lambda>_.
        let (tx, d) = Db_begin d;
            ((r, tx), d) = counting_get d tx (lit ''a'')
        in and_then r (\<lambda>_.
          let ((r, tx), d) = counting_get d tx (lit ''b'')
          in and_then r (\<lambda>_.
            let ((r, tx), d) = counting_get d tx (lit ''c'')
            in and_then r (\<lambda>_. Inr (cs_reads (in_store d), versions_applied (in_store d)))))))"

section \<open>Lemmas\<close>

lemma bank_main_result:
  fixes W :: "'w wal_ops"
  assumes ord: "hash_order_ok ord"
  shows "bank_main ord W = Some (Inr (Fine \<lparr>alice_balance = 70, bob_balance = 30,
    overdraft = Inl (store_error ''transfer'' ''insufficient funds'')\<rparr>))"
proof -
  let ?d0 = "Db_new :: (memory_store, 'w) db" and ?bal = "\<lambda>d k. balance (latest (store_hist (in_store d) k))"
  have ab: "alice \<noteq> bob" by (simp add: lit_def)
  have h0: "store_hist (in_store ?d0) k = []" for k
    by (simp add: Db_new_def Db_with_store_def Inner_new_def store_hist_new)
  obtain d1 where d1: "Transaction_commit ord MemoryStore W (snd (Db_begin ?d0))
      (Transaction_put (Transaction_put (fst (Db_begin ?d0)) alice (u64_to_le_bytes 100)) bob (u64_to_le_bytes 0))
        = (Inr (next_commit ?d0), d1)" "in_log d1 = None" "quiet wf_store store_hist d1 {#}"
    "next_ts (in_oracle d1) = next_ts (in_oracle ?d0) + 1"
    "\<And>a. store_hist (in_store d1) a = store_hist (in_store ?d0) a @
       (if a = alice then [\<lparr>commit_ts = next_commit ?d0, val = Some (u64_to_le_bytes 100)\<rparr>]
        else if a = bob then [\<lparr>commit_ts = next_commit ?d0, val = Some (u64_to_le_bytes 0)\<rparr>] else [])"
    by (rule mem.quiet_put_two [OF quiet_Db_new room_Db_new(1) ord room_Db_new(2) ab, where W = W]) blast
  have n1: "next_ts (in_oracle d1) = 2"
    using d1(4) by (simp add: Db_new_def Db_with_store_def Inner_new_def Oracle_new_def)
  have b1: "?bal d1 alice = Fine 100" "?bal d1 bob = Fine 0" using ab by (simp_all add: d1(5) h0 latest_def u64_le_roundtrip)
  obtain d2 where d2: "transfer ord MemoryStore W d1 alice bob 30 = Some (Fine (Inr ()), d2)"
    "quiet wf_store store_hist d2 {#}" "in_log d2 = None" "next_ts (in_oracle d2) = 3"
    "?bal d2 alice = Fine 70" "?bal d2 bob = Fine 30"
    using mem.quiet_transfer [OF d1(3) _ ord d1(2) b1, of W 30] ab n1
    by (auto simp: oracle_room_def simp del: balance.simps split: if_splits)
  define d3 where "d3 = snd (Db_snapshot d2)"
  have s: "Db_snapshot d2 = (\<lparr>snap_active = \<lparr>active_read_ts = Oracle_read_ts (in_oracle d2)\<rparr>\<rparr>, d3)"
    by (simp add: d3_def Snapshot_new_eq)
  have q3: "quiet wf_store store_hist d3 {#Oracle_read_ts (in_oracle d2)#}" "in_store d3 = in_store d2" "in_log d3 = None"
    "oracle_room (in_oracle d3)"
    using mem.quiet_snapshot_ok [OF d2(2)] d2(3,4) by (simp_all add: d3_def Snapshot_new_eq Db_begin_def oracle_room_def)
  have g: "Snapshot_get MemoryStore d3 \<lparr>snap_active = \<lparr>active_read_ts = Oracle_read_ts (in_oracle d2)\<rparr>\<rparr> k =
      Inr (latest (store_hist (in_store d2) k))" for k
    using mem.quiet_read_latest [OF d2(2), of k] by (simp add: Snapshot_get_def q3(2))
  obtain d4 where d4: "transfer ord MemoryStore W d3 bob alice 1000 =
      Some (Fine (Inl (store_error ''transfer'' ''insufficient funds'')), d4)"
    using mem.quiet_transfer [OF q3(1,4) ord q3(3), of bob 30 alice 70 W 1000] d2(5,6) by (auto simp: q3(2))
  show ?thesis
    using d2(5,6)
    by (simp add: bank_main_def open_accounts_def set_balance_def split_beta Let_def d1(1) after_transfer_def d2(1) s g d4)
qed

lemma joined_count:
  "set ts \<subseteq> {..<n} \<Longrightarrow> \<forall>t<n. count_list ts t = m \<Longrightarrow> length ts = n * m"
  using sum_count_set [of ts "{..<n}"] by simp

lemma counter_started:
  fixes W :: "'w wal_ops"
  assumes ord: "hash_order_ok ord"
  obtains d where "counter_start ord W = (Inr (Timestamp 1), d)" "quiet wf_store store_hist d {#}"
    "counter_is 0 0 (\<lambda>k. latest (store_hist (in_store d) k))" "latest (store_hist (in_store d) counter) \<noteq> None"
proof -
  let ?d0 = "Db_new :: (memory_store, 'w) db"
  let ?tx = "Transaction_put (fst (Db_begin ?d0)) counter (u64_to_le_bytes 0)"
  have tx: "tx_ok ?tx" "writes ?tx = [(counter, Some (u64_to_le_bytes 0))]" "active ?tx = active (fst (Db_begin ?d0))"
    by (simp_all add: Transaction_put_def Db_begin_def Transaction_new_eq tx_ok_def)
  have ne: "writes ?tx \<noteq> []" by (simp add: tx(2))
  obtain d where d: "Transaction_commit ord MemoryStore W (snd (Db_begin ?d0)) ?tx = (Inr (next_commit ?d0), d)"
    "quiet wf_store store_hist d {#}"
    "\<And>k. store_hist (in_store d) k = store_hist (in_store ?d0) k @ own_version (next_commit ?d0) ?tx k"
    by (rule mem.quiet_begin_commit [OF quiet_Db_new room_Db_new(1) ord room_Db_new(2) tx(1) ne tx(3), where W = W]) blast
  have l: "latest (store_hist (in_store d) counter) = Some (u64_to_le_bytes 0)"
    by (simp add: d(3) own_version_def tx(2) latest_def)
  show thesis
    by (rule that [of d]) (use d l in \<open>simp_all add: counter_start_def split_beta counter_is_def room_Db_new\<close>)
qed

lemma final_counter_quiet:
  assumes "quiet wf_store store_hist d M" "counter_is x n (\<lambda>k. latest (store_hist (in_store d) k))"
    "latest (store_hist (in_store d) counter) \<noteq> None"
  shows "final_counter d = Inr (Fine (x + word_of_nat n))"
proof -
  have "vs_get MemoryStore (in_store d) counter (Oracle_read_ts (in_oracle d)) = Inr (latest (store_hist (in_store d) counter))"
    using assms(1) by (rule mem.quiet_read_latest)
  then show ?thesis
    using assms(2,3) by (auto simp: final_counter_def Snapshot_new_eq Snapshot_get_def Db_begin_def counter_is_def)
qed

lemma increments_write: "increments c \<Longrightarrow> \<exists>v. writes (c_tx c) = [(counter, Some v)]"
  unfolding increments_def by (elim exE conjE) (erule (1) increment_body_done, simp)

lemma serial_counter_present:
  assumes "\<forall>c\<in>set cs. increments c" "latest (h0 counter) \<noteq> None"
  shows "serial_state h0 cs counter \<noteq> None"
proof (cases cs rule: rev_cases)
  case (snoc cs' c)
  then obtain v where "writes (c_tx c) = [(counter, Some v)]" using assms(1) increments_write [of c] by auto
  then show ?thesis by (simp add: snoc apply_commit_def)
qed (use assms(2) in \<open>simp add: serial_state_def\<close>)

text \<open>What a commit of a transaction does to the counters.\<close>

lemma counting_commit_counts:
  assumes "Transaction_commit ord CountingStore W d tx = (Inr ts, d')" "writes tx \<noteq> []" "hash_order_ok ord"
    "in_log d = None"
  shows "cs_reads (in_store d') = cs_reads (in_store d)"
    "versions_applied (in_store d') = versions_applied (in_store d) + word_of_nat (length (writes tx))"
proof -
  have "length (order_writes ord (writes tx)) = length (writes tx)"
    using assms(3) by (metis hash_order_ok_def size_mset)
  with assms show "cs_reads (in_store d') = cs_reads (in_store d)"
    "versions_applied (in_store d') = versions_applied (in_store d) + word_of_nat (length (writes tx))"
    by (auto simp: Transaction_commit_def commit_writes_def ActiveReader_drop_eq CountingStore_def
        CountingStore_try_commit_def Let_def split: prod.splits sum.splits option.splits if_splits)
qed

lemma counting_get_tick:
  assumes "writes tx = []"
  obtains v tx' d' where "counting_get d tx k = ((Inr v, tx'), d')" "writes tx' = []"
    "cs_reads (in_store d') = cs_reads (in_store d) + 1" "versions_applied (in_store d') = versions_applied (in_store d)"
  using assms
  by (intro that [of "projr (fst (fst (counting_get d tx k)))" "snd (fst (counting_get d tx k))" "snd (counting_get d tx k)"])
    (auto simp: counting_get_def Transaction_get_def CountingStore_def CountingStore_get_def MemoryStore_get_def split: option.split)

lemma counting_main_result:
  fixes W :: "'w wal_ops"
  assumes ord: "hash_order_ok ord"
  shows "counting_main ord W = Inr (3, 2)"
proof -
  let ?d0 = "new_counting_db :: (counting_store, 'w) db" and ?a = "lit ''a''" and ?b = "lit ''b''"
  have d0: "in_oracle ?d0 = in_oracle (Db_new :: (memory_store, 'w) db)" "in_log ?d0 = None"
    "in_store ?d0 = \<lparr>cs_inner = MemoryStore_new, cs_reads = 0, versions_applied = 0\<rparr>"
    by (simp_all add: new_counting_db_def Db_new_def Db_with_store_def Inner_new_def)
  have q: "quiet (\<lambda>s. wf_store (cs_inner s)) (\<lambda>s. store_hist (cs_inner s)) ?d0 {#}"
    using quiet_Db_new [where 'a = 'w] by (simp add: db_ok_def d0 Db_new_def Db_with_store_def Inner_new_def)
  have room: "oracle_room (in_oracle ?d0)" using room_Db_new(1) [where 'a = 'w] by (simp add: d0)
  have ab: "?a \<noteq> ?b" by (simp add: lit_def)
  let ?tx = "Transaction_put (Transaction_put (fst (Db_begin ?d0)) ?a (lit ''1'')) ?b (lit ''2'')"
  obtain d where d: "Transaction_commit ord CountingStore W (snd (Db_begin ?d0)) ?tx = (Inr (next_commit ?d0), d)"
    by (rule store_contract.quiet_put_two [OF counting.store_contract_axioms q room ord d0(2) ab, where W = W]) blast
  have w: "writes ?tx = [(?a, Some (lit ''1'')), (?b, Some (lit ''2''))]"
    using ab by (simp add: Transaction_put_def Db_begin_def Transaction_new_eq)
  have counts: "cs_reads (in_store d) = 0" "versions_applied (in_store d) = 2"
    using counting_commit_counts [OF d _ ord] w by (simp_all add: Db_begin_def Transaction_new_eq d0)
  obtain v1 tx1 d1 where g1: "counting_get (snd (Db_begin d)) (fst (Db_begin d)) ?a = ((Inr v1, tx1), d1)" "writes tx1 = []"
    "cs_reads (in_store d1) = 1" "versions_applied (in_store d1) = 2"
    by (rule counting_get_tick [of "fst (Db_begin d)" "snd (Db_begin d)" ?a])
      (use counts in \<open>simp_all add: Db_begin_def Transaction_new_eq\<close>)
  obtain v2 tx2 d2 where g2: "counting_get d1 tx1 ?b = ((Inr v2, tx2), d2)" "writes tx2 = []"
    "cs_reads (in_store d2) = 2" "versions_applied (in_store d2) = 2"
    by (rule counting_get_tick [OF g1(2), of d1 ?b]) (use g1 in simp_all)
  obtain v3 tx3 d3 where g3: "counting_get d2 tx2 (lit ''c'') = ((Inr v3, tx3), d3)"
    "cs_reads (in_store d3) = 3" "versions_applied (in_store d3) = 2"
    by (rule counting_get_tick [OF g2(2), of d2 "lit ''c''"]) (use g2 in simp_all)
  show ?thesis
    by (simp add: counting_main_def split_beta Let_def d g1(1) g2(1) g3)
qed

lemma doctors_main_result:
  fixes W :: "'w wal_ops"
  assumes ord: "hash_order_ok ord"
  shows "doctors_main ord W = Inr
    ((\<lparr>alice_committed = True, bob_committed = True, on_call = 0\<rparr>, False),
     (\<lparr>alice_committed = True, bob_committed = False, on_call = 1\<rparr>, True))"
proof -
  let ?d0 = "Db_new :: (memory_store, 'w) db"
  have "next_ts (in_oracle ?d0) < - 3"
    by (simp add: Db_new_def Db_with_store_def Inner_new_def Oracle_new_def word_less_def)
  note out = mem.doctors_outcome [OF quiet_Db_new this ord room_Db_new(2), where W = W]
  show ?thesis using out [of Snapshot] out [of Serializable] by (simp add: doctors_main_def report_def)
qed

section \<open>Properties\<close>

text \<open>The example programs print what their comments say, for every order in which a commit iterates over
  its buffers: a transfer moves the money and an overdraft is rejected; snapshot isolation leaves no
  doctor on call and serializable isolation leaves one; the wrapped store has served three reads and
  applied two versions.\<close>

theorem client_mains_print:
  assumes "hash_order_ok ord"
  shows "bank_main ord W = Some (Inr (Fine \<lparr>alice_balance = 70, bob_balance = 30,
      overdraft = Inl (store_error ''transfer'' ''insufficient funds'')\<rparr>))
    \<and> doctors_main ord W = Inr
      ((\<lparr>alice_committed = True, bob_committed = True, on_call = 0\<rparr>, False),
       (\<lparr>alice_committed = True, bob_committed = False, on_call = 1\<rparr>, True))
    \<and> counting_main ord W = Inr (3, 2)"
  using bank_main_result [OF assms] doctors_main_result [OF assms] counting_main_result [OF assms] by blast

theorem client_mains_print_witness: "counting_main demo_order list_wal = Inr (3, 2)"
  using client_mains_print [OF demo_order_ok] by blast

text \<open>The assertion at the end of the counter program holds however its threads interleave: when all have
  been joined the counter reads as the number of increments they were asked for.\<close>

theorem joined_counter:
  assumes "hash_order_ok ord" "counter_start ord W = (Inr ts, d)" "mem_reachable W d S"
    "all_joined threads per_thread S thread_of"
  shows "final_counter (shared S) = Inr (Fine (word_of_nat (threads * per_thread)))"
proof -
  have d: "quiet wf_store store_hist d {#}" "counter_is 0 0 (\<lambda>k. latest (store_hist (in_store d) k))"
    "latest (store_hist (in_store d) counter) \<noteq> None"
    using assms(2) by (auto intro: counter_started [OF assms(1), of W])
  have n: "length (history S) = threads * per_thread" and inc: "\<forall>c\<in>set (history S). increments c"
    and quiet: "held_set (procs S) = {}"
    using assms(4) joined_count [of thread_of threads per_thread] by (simp_all add: all_joined_def)
  have "counter_is 0 (length (history S)) (\<lambda>k. latest (store_hist (in_store (shared S)) k))"
    using count.holds [OF assms(3) d(1) inc d(2)] by blast
  moreover have "quiet wf_store store_hist (shared S) (live_readers (procs S))"
    using inv_atD(1) [OF mems.reachable_at [OF assms(3) d(1)]] quiet by simp
  moreover have "latest (store_hist (in_store (shared S)) counter) \<noteq> None"
    using mems.reachable_latest [OF assms(3) d(1), of counter] serial_counter_present [of "history S" "store_hist (in_store d)", OF inc d(3)] by simp
  ultimately show ?thesis using final_counter_quiet n by fastforce
qed

theorem final_counter_printed:
  assumes "hash_order_ok ord" "counter_start ord W = (Inr ts, d)" "mem_reachable W d S"
    "all_joined THREADS PER_THREAD S thread_of"
  shows "final_counter (shared S) = Inr (Fine 8000)"
  using joined_counter [OF assms] by (simp add: THREADS_def PER_THREAD_def)

end
