(* ===== verification/Progress.thy ===== *)
theory Progress
  imports Isolation
begin

text \<open>
  Progress of the commits over the interleaved model (\<open>src/src/db.rs\<close>, \<open>Inner::commit_writes\<close>, and
  the drop that ends \<open>Transaction::commit\<close> in \<open>src/src/txn.rs\<close>): a commit in flight is never stuck
  and takes a bounded number of steps of its own whatever the other processes do, and so from every
  reachable state all commits in flight can finish, after which nothing holds the watermark back.
  The measure counts the accesses to the shared state a commit has still to make.
\<close>

section \<open>Definitions\<close>

fun commit_steps_left :: "process \<Rightarrow> nat" where
  "commit_steps_left (Allocated tx cts batch rs) = 4"
| "commit_steps_left (Validated tx cts batch r) = 3"
| "commit_steps_left (Decided tx cts r) = 2"
| "commit_steps_left (Released tx r) = 1"
| "commit_steps_left _ = 0"

definition committing :: "process \<Rightarrow> bool" where
  "committing P \<longleftrightarrow> commit_steps_left P \<noteq> 0"

section \<open>One commit\<close>

lemma committing_reader: "committing P \<Longrightarrow> reader_of P \<noteq> None"
  by (cases P) (simp_all add: committing_def)

lemma held_committing: "held P = Some t \<Longrightarrow> committing P"
  by (cases P) (simp_all add: committing_def)

text \<open>The step a commit takes next.\<close>

lemma commit_can_step:
  assumes "committing (procs S p)"
  obtains S' x where "step V W G S S'" "procs S' = (procs S)(p := x)" "Suc (commit_steps_left x) = commit_steps_left (procs S p)"
    "next_ts (in_oracle (shared S')) = next_ts (in_oracle (shared S))" "\<exists>B. history S' = history S @ B"
    "committing x \<or> (\<exists>r. x = Returned r)"
  using assms
proof (cases "procs S p")
  case (Allocated tx cts batch rs)
  obtain r s where "vs_try_commit V (in_store (shared S)) (Transaction_read_timestamp tx) cts batch rs = (r, s)" by force
  from step.commit_apply [OF Allocated this] show thesis
    by (rule that [of _ "Validated tx cts batch r"]) (use Allocated in \<open>simp_all add: committing_def\<close>)
next
  case (Validated tx cts batch r)
  show thesis
  proof (cases r)
    case (Inl e)
    show thesis
      by (rule that [OF step.commit_conflict, of _ tx cts batch e "Decided tx cts (Inl e)"])
        (use Validated Inl in \<open>simp_all add: committing_def\<close>)
  next
    case (Inr u)
    obtain out d where out: "log_commit W (shared S) cts batch = (out, d)" by force
    then have "in_oracle d = in_oracle (shared S)"
      by (auto simp: log_commit_def split: option.splits prod.splits sum.splits)
    then show thesis
      by (intro that [OF step.commit_log_step [OF Validated [unfolded Inr] out], of "Decided tx cts out"])
        (use Validated in \<open>simp_all add: committing_def\<close>)
  qed
next
  case (Decided tx cts r)
  from step.commit_done_step [OF Decided] show thesis
    by (rule that [of _ "Released tx r"]) (use Decided in \<open>simp_all add: committing_def\<close>)
next
  case (Released tx r)
  from step.commit_drop [OF Released] show thesis
    by (rule that [of _ "Returned r"]) (use Released in \<open>simp_all add: ActiveReader_drop_eq\<close>)
qed (simp_all add: committing_def)

text \<open>Whatever step is taken, a commit in flight stays where it is or comes one step closer to its end.\<close>

lemma commit_step_progress:
  assumes "step V W G S S'" "committing (procs S p)"
  shows "procs S' p = procs S p \<or> Suc (commit_steps_left (procs S' p)) = commit_steps_left (procs S p)"
  using assms by (cases rule: step.cases) (auto simp: committing_def)

text \<open>So every commit in flight can be brought to its end.\<close>

lemma finish_one:
  assumes "reachable V W G d S" "oracle_room (in_oracle (shared S))" "committing (procs S p)"
  shows "\<exists>S' r. reachable V W G d S' \<and> (step V W G)\<^sup>*\<^sup>* S S' \<and> procs S' = (procs S)(p := Returned r)
    \<and> oracle_room (in_oracle (shared S')) \<and> (\<exists>B. history S' = history S @ B)"
  using assms
proof (induction "commit_steps_left (procs S p)" arbitrary: S rule: less_induct)
  case less
  obtain T x where T: "step V W G S T" "procs T = (procs S)(p := x)" "Suc (commit_steps_left x) = commit_steps_left (procs S p)"
    "next_ts (in_oracle (shared T)) = next_ts (in_oracle (shared S))" "\<exists>B. history T = history S @ B"
    "committing x \<or> (\<exists>r. x = Returned r)"
    by (rule commit_can_step [OF less.prems(3), where V = V and W = W and G = G])
  have reach: "reachable V W G d T" "oracle_room (in_oracle (shared T))"
    using less.prems(1,2) T(1,4) by (auto intro: reach_step simp: oracle_room_def)
  show ?case
  proof (cases "committing x")
    case True
    have dec: "commit_steps_left (procs T p) < commit_steps_left (procs S p)" using T(2,3) by simp
    have "committing (procs T p)" using True T(2) by simp
    from less.hyps [OF dec reach this] obtain U r where U: "reachable V W G d U" "(step V W G)\<^sup>*\<^sup>* T U"
      "procs U = (procs T)(p := Returned r)" "oracle_room (in_oracle (shared U))" "\<exists>B. history U = history T @ B"
      by blast
    then show ?thesis
      using T(1,2,5) by (intro exI [of _ U] exI [of _ r]) (auto intro: converse_rtranclp_into_rtranclp)
  next
    case False
    then show ?thesis using T reach by auto
  qed
qed

lemma finish_all:
  assumes "finite A" "\<forall>p\<in>A. committing (procs S p)" "reachable V W G d S" "oracle_room (in_oracle (shared S))"
  shows "\<exists>S'. reachable V W G d S' \<and> (step V W G)\<^sup>*\<^sup>* S S' \<and> (\<forall>p\<in>A. \<exists>r. procs S' p = Returned r)
    \<and> (\<forall>p. p \<notin> A \<longrightarrow> procs S' p = procs S p) \<and> oracle_room (in_oracle (shared S')) \<and> (\<exists>B. history S' = history S @ B)"
  using assms
proof (induction A arbitrary: S rule: finite_induct)
  case empty
  then show ?case by (intro exI [of _ S]) simp
next
  case (insert p A)
  obtain T r where T: "reachable V W G d T" "(step V W G)\<^sup>*\<^sup>* S T" "procs T = (procs S)(p := Returned r)"
    "oracle_room (in_oracle (shared T))" "\<exists>B. history T = history S @ B"
    using finish_one [OF insert.prems(2,3), of p] insert.prems(1) by blast
  have "\<forall>q\<in>A. committing (procs T q)" using insert.prems(1) insert.hyps(2) T(3) by auto
  from insert.IH [OF this T(1,4)] obtain U where U: "reachable V W G d U" "(step V W G)\<^sup>*\<^sup>* T U"
    "\<forall>q\<in>A. \<exists>r. procs U q = Returned r" "\<forall>q. q \<notin> A \<longrightarrow> procs U q = procs T q"
    "oracle_room (in_oracle (shared U))" "\<exists>B. history U = history T @ B"
    by blast
  then show ?case
    using T insert.hyps(2) by (intro exI [of _ U]) (auto intro: rtranclp_trans)
qed

section \<open>Properties\<close>

text \<open>A commit that waits at its first step while a later one has already returned.\<close>

lemma overtaking_pending:
  "map_option (\<lambda>S. (commit_steps_left (procs S 0), map c_ts (history S), Oracle_read_ts (in_oracle (shared S)),
      oracle_room (in_oracle (shared S))))
     (run MemoryStore list_wal MemoryStore_slices overtaking (start one_shard)) =
   Some (4, [Timestamp 2], Timestamp 0, True)"
  by code_simp

text \<open>A commit in flight is wait-free: it can always take its next step, whatever the other processes
  hold; no step of another process moves it; and each step of its own brings it one closer to the end,
  at most four away.\<close>

theorem commit_wait_free:
  assumes "committing (procs S p)"
  shows "(\<exists>S' x. step V W G S S' \<and> procs S' = (procs S)(p := x)
      \<and> Suc (commit_steps_left x) = commit_steps_left (procs S p) \<and> (committing x \<or> (\<exists>r. x = Returned r)))
    \<and> (\<forall>S'. step V W G S S' \<longrightarrow> procs S' p = procs S p
      \<or> Suc (commit_steps_left (procs S' p)) = commit_steps_left (procs S p))
    \<and> commit_steps_left (procs S p) \<le> 4"
proof -
  have "commit_steps_left (procs S p) \<le> 4" by (cases "procs S p") simp_all
  moreover have "\<exists>S' x. step V W G S S' \<and> procs S' = (procs S)(p := x)
      \<and> Suc (commit_steps_left x) = commit_steps_left (procs S p) \<and> (committing x \<or> (\<exists>r. x = Returned r))"
    by (rule commit_can_step [OF assms, where V = V and W = W and G = G]) blast
  ultimately show ?thesis using commit_step_progress [OF _ assms] by blast
qed

theorem commit_wait_free_witness:
  "\<exists>S S'. mem_reachable list_wal one_shard S \<and> commit_steps_left (procs S 0) = 4
     \<and> step MemoryStore list_wal MemoryStore_slices S S' \<and> commit_steps_left (procs S' 0) = 3"
proof -
  obtain S where S: "mem_reachable list_wal one_shard S" "commit_steps_left (procs S 0) = 4"
    by (rule run_obtain [OF overtaking_pending]) simp
  then have "committing (procs S 0)" by (simp add: committing_def)
  from commit_wait_free [OF this, of MemoryStore list_wal MemoryStore_slices] obtain S' x where
    "step MemoryStore list_wal MemoryStore_slices S S'" "procs S' = (procs S)(0 := x)" "Suc (commit_steps_left x) = 4"
    unfolding S(2) by blast
  with S show ?thesis by (intro exI [of _ S] exI [of _ S']) simp
qed

text \<open>Every reachable state can be drained: the commits in flight can all be run to their ends, with
  every other process left where it is, and then every commit the store has ever applied is at or
  below the watermark, so that the next snapshot sees them all.\<close>

theorem commits_drain:
  assumes "mem_reachable W d S" "quiet wf_store store_hist d {#}" "oracle_room (in_oracle (shared S))"
  shows "\<exists>S'. mem_reachable W d S' \<and> (step MemoryStore W MemoryStore_slices)\<^sup>*\<^sup>* S S'
    \<and> (\<forall>p. committing (procs S p) \<longrightarrow> (\<exists>r. procs S' p = Returned r))
    \<and> (\<forall>p. \<not> committing (procs S p) \<longrightarrow> procs S' p = procs S p)
    \<and> (\<exists>B. history S' = history S @ B)
    \<and> (\<forall>c\<in>set (history S'). c_ts c \<le> Oracle_read_ts (in_oracle (shared S')))"
proof -
  let ?A = "{p. committing (procs S p)}"
  have "finite ?A"
    by (rule finite_subset [OF _ inv_atD(2) [OF mems.reachable_at [OF assms(1,2)]]]) (use committing_reader in blast)
  then obtain S' where S': "mem_reachable W d S'" "(step MemoryStore W MemoryStore_slices)\<^sup>*\<^sup>* S S'"
    "\<forall>p\<in>?A. \<exists>r. procs S' p = Returned r" "\<forall>p. p \<notin> ?A \<longrightarrow> procs S' p = procs S p"
    "\<exists>B. history S' = history S @ B"
    using finish_all [OF _ _ assms(1,3), of ?A] by blast
  have "held (procs S' p) = None" for p
  proof (cases "committing (procs S p)")
    case True
    then obtain r where "procs S' p = Returned r" using S'(3) by blast
    then show ?thesis by simp
  next
    case False
    then have "\<not> committing (procs S' p)" using S'(4) by simp
    then show ?thesis using held_committing by (metis not_Some_eq)
  qed
  then have "held_set (procs S') = {}" by (simp add: held_set_def)
  moreover have "c_ts c < next_commit (shared S')" if "c \<in> set (history S')" for c
    using mems.reachable_fresh [OF S'(1) assms(2)] that by (simp add: fresh_inv_def)
  ultimately have "\<forall>c\<in>set (history S'). c_ts c \<le> Oracle_read_ts (in_oracle (shared S'))"
    using mems.reachable_watermark [OF S'(1) assms(2)] by (auto intro: le_less_trans)
  then show ?thesis using S' by (intro exI [of _ S']) simp
qed

theorem commits_drain_witness:
  "\<exists>S S'. mem_reachable list_wal one_shard S \<and> Oracle_read_ts (in_oracle (shared S)) = Timestamp 0
     \<and> mem_reachable list_wal one_shard S' \<and> (\<exists>r. procs S' 0 = Returned r)
     \<and> Timestamp 2 \<le> Oracle_read_ts (in_oracle (shared S'))"
proof -
  obtain S where S: "mem_reachable list_wal one_shard S" "commit_steps_left (procs S 0) = 4"
    "map c_ts (history S) = [Timestamp 2]" "Oracle_read_ts (in_oracle (shared S)) = Timestamp 0"
    "oracle_room (in_oracle (shared S))"
    by (rule run_obtain [OF overtaking_pending]) simp
  from commits_drain [OF S(1) quiet_one_shard S(5)] obtain S' where S': "mem_reachable list_wal one_shard S'"
    "\<forall>p. committing (procs S p) \<longrightarrow> (\<exists>r. procs S' p = Returned r)" "\<exists>B. history S' = history S @ B"
    "\<forall>c\<in>set (history S'). c_ts c \<le> Oracle_read_ts (in_oracle (shared S'))"
    by blast
  have "committing (procs S 0)" using S(2) by (simp add: committing_def)
  then have "\<exists>r. procs S' 0 = Returned r" using S'(2) by blast
  moreover have "Timestamp 2 \<in> c_ts ` set (history S')"
    using S(3) S'(3) by (auto simp: Cons_eq_map_conv map_eq_Cons_conv)
  then have "Timestamp 2 \<le> Oracle_read_ts (in_oracle (shared S'))" using S'(4) by auto
  ultimately show ?thesis using S(1,4) S'(1) by blast
qed

end
