(* ===== verification/Shard_Locks.thy ===== *)
theory Shard_Locks
  imports Memory_Store
begin

text \<open>
  The in-memory store under its shard locks (\<open>src/src/store.rs\<close>, \<open>src/src/sync.rs\<close>). Here a
  call is not one step: it takes its locks one by one, checks one key at a time, pushes one version
  at a time and drops one guard at a time, and other calls run in between. A shard's
  \<open>RwLock\<close> is granted to a reader when no writer holds it and to a writer when nobody does.

  The lemmas show that this is only a finer view of the atomic operations of theory
  \<open>Memory_Store\<close>: every run has an order of its calls, by the moment each takes effect, in which
  the atomic operations give the same results and, once all calls have returned, the same store. They
  also show that the locks are never in a deadly embrace and that every call ends.
\<close>

section \<open>Definitions\<close>

text \<open>The operations, and what they return.\<close>

datatype store_op =
    Op_get bytes timestamp
  | Op_commit timestamp timestamp "write_entry list" "bytes list"
  | Op_sweep timestamp nat

datatype store_res =
    Got "bytes option result"
  | Committed "unit result"
  | Swept nat

text \<open>Each operation as one step.\<close>

fun atomic_op :: "memory_store \<Rightarrow> store_op \<Rightarrow> store_res \<times> memory_store" where
  "atomic_op s (Op_get k t) = (Got (MemoryStore_get s k t), s)"
| "atomic_op s (Op_commit rts cts ws rs) =
     (let (r, s') = MemoryStore_try_commit s rts cts ws rs in (Committed r, s'))"
| "atomic_op s (Op_sweep low i) = (let (n, s') = gc_slice s low i in (Swept n, s'))"

text \<open>A list of operations with their results is what the atomic store does from \<open>s\<close> to \<open>t\<close>.\<close>

fun atomic_run :: "memory_store \<Rightarrow> (store_op \<times> store_res) list \<Rightarrow> memory_store \<Rightarrow> bool" where
  "atomic_run s [] t \<longleftrightarrow> t = s"
| "atomic_run s ((a, r) # tr) t \<longleftrightarrow> fst (atomic_op s a) = r \<and> atomic_run (snd (atomic_op s a)) tr t"

subsection \<open>Calls in progress\<close>

record commit_args =
  ca_rts :: timestamp
  ca_cts :: timestamp
  ca_writes :: "write_entry list"
  ca_reads :: "bytes list"

text \<open>
  Where a call is. A list of shards next to a call in progress is the write locks it holds; the second
  list of \<open>Locking\<close> is those it has still to take.
\<close>

datatype call =
    Resting
  | Getting bytes timestamp
  | Reading bytes timestamp
  | Locking commit_args "nat list" "nat list"
  | Checking commit_args "nat list" "(bytes \<times> nat) list" "(bytes \<times> nat) list"
  | Applying commit_args "nat list" "(write_entry \<times> nat) list"
  | Unlocking commit_args "unit result" "nat list"
  | Waiting timestamp nat nat
  | Sweeping timestamp nat nat
  | Finished store_op store_res
  | Collected timestamp nat

text \<open>The shards a commit locks, in the order it locks them.\<close>

definition lock_list :: "memory_store \<Rightarrow> commit_args \<Rightarrow> nat list" where
  "lock_list s a =
     (if length (ca_writes a) = 1 \<and> ca_reads a = []
      then [shard_of s (fst (ca_writes a ! 0))]
      else remdups_adj (sort (map (\<lambda>w. shard_of s (fst w)) (ca_writes a) @ map (shard_of s) (ca_reads a))))"

definition check_list :: "memory_store \<Rightarrow> commit_args \<Rightarrow> (bytes \<times> nat) list" where
  "check_list s a =
     zip (map fst (ca_writes a)) (map (\<lambda>w. shard_of s (fst w)) (ca_writes a)) @
     zip (ca_reads a) (map (shard_of s) (ca_reads a))"

definition apply_list :: "memory_store \<Rightarrow> commit_args \<Rightarrow> (write_entry \<times> nat) list" where
  "apply_list s a = zip (ca_writes a) (map (\<lambda>w. shard_of s (fst w)) (ca_writes a))"

text \<open>The lock a call asks for next: \<open>True\<close> for a write lock.\<close>

fun wants :: "memory_store \<Rightarrow> call \<Rightarrow> (bool \<times> nat) option" where
  "wants s (Getting k t) = Some (False, shard_of s k)"
| "wants s (Locking a held (i # todo)) = Some (True, i)"
| "wants s (Waiting low i n) = (if i < length (shards s) then Some (True, i) else None)"
| "wants s _ = None"

fun write_held :: "call \<Rightarrow> nat set" where
  "write_held (Locking a held todo) = set held"
| "write_held (Checking a held passed rest) = set held"
| "write_held (Applying a held rest) = set held"
| "write_held (Unlocking a r held) = set held"
| "write_held (Sweeping low i n) = {i}"
| "write_held _ = {}"

fun read_held :: "memory_store \<Rightarrow> call \<Rightarrow> nat set" where
  "read_held s (Reading k t) = {shard_of s k}"
| "read_held s _ = {}"

text \<open>One round of the validation loops and of the apply loop.\<close>

definition check_one :: "memory_store \<Rightarrow> nat list \<Rightarrow> timestamp \<Rightarrow> bytes \<Rightarrow> nat \<Rightarrow> TxnError option" where
  "check_one s held rts key shard =
     (case binary_search held shard of
        Inr pos \<Rightarrow>
          (if newer_than (map_of (shards s ! (held ! pos)) key) rts then Some (conflict (length key)) else None)
      | Inl _ \<Rightarrow> None)"

definition apply_one ::
  "memory_store \<Rightarrow> nat list \<Rightarrow> timestamp \<Rightarrow> bytes \<Rightarrow> bytes option \<Rightarrow> nat \<Rightarrow> memory_store" where
  "apply_one s held cts key v shard =
     (case binary_search held shard of
        Inr pos \<Rightarrow> push_in (held ! pos) key \<lparr>commit_ts = cts, val = v\<rparr> s
      | Inl _ \<Rightarrow> s)"

abbreviation commit_op :: "commit_args \<Rightarrow> store_op" where
  "commit_op a \<equiv> Op_commit (ca_rts a) (ca_cts a) (ca_writes a) (ca_reads a)"

text \<open>What a call does next, once it has the lock it asks for: the call after, the store, and the
  operation that takes effect in this step, if one does.\<close>

fun proceed :: "memory_store \<Rightarrow> call \<Rightarrow> call \<times> memory_store \<times> (store_op \<times> store_res) list" where
  "proceed s (Getting k t) = (Reading k t, s, [])"
| "proceed s (Reading k t) =
     (let r = Got (Inr (visible_value (map_of (shards s ! shard_of s k) k) t))
      in (Finished (Op_get k t) r, s, [(Op_get k t, r)]))"
| "proceed s (Locking a held (i # todo)) = (Locking a (held @ [i]) todo, s, [])"
| "proceed s (Locking a held []) = (Checking a held [] (check_list s a), s, [])"
| "proceed s (Checking a held passed ((key, shard) # rest)) =
     (case check_one s held (ca_rts a) key shard of
        Some e \<Rightarrow> (Unlocking a (Inl e) held, s, [(commit_op a, Committed (Inl e))])
      | None \<Rightarrow> (Checking a held (passed @ [(key, shard)]) rest, s, []))"
| "proceed s (Checking a held passed []) =
     (Applying a held (apply_list s a), s, [(commit_op a, Committed (Inr ()))])"
| "proceed s (Applying a held (((key, v), shard) # rest)) =
     (Applying a held rest, apply_one s held (ca_cts a) key v shard, [])"
| "proceed s (Applying a held []) = (Unlocking a (Inr ()) held, s, [])"
| "proceed s (Unlocking a r (i # held)) = (Unlocking a r held, s, [])"
| "proceed s (Unlocking a r []) = (Finished (commit_op a) (Committed r), s, [])"
| "proceed s (Waiting low i n) =
     (if i < length (shards s) then (Sweeping low i n, s, []) else (Collected low n, s, []))"
| "proceed s (Sweeping low i n) =
     (let (m, s') = gc_slice s low i in (Waiting low (Suc i) (n + m), s', [(Op_sweep low i, Swept m)]))"
| "proceed s c = (c, s, [])"

text \<open>The first point of each call.\<close>

fun entry_point :: "memory_store \<Rightarrow> call \<Rightarrow> bool" where
  "entry_point s (Getting k t) = True"
| "entry_point s (Locking a held todo) = (held = [] \<and> todo = lock_list s a)"
| "entry_point s (Waiting low i n) = (i = 0 \<and> n = 0)"
| "entry_point s _ = False"

fun active_call :: "call \<Rightarrow> bool" where
  "active_call Resting = False"
| "active_call (Finished a r) = False"
| "active_call (Collected low n) = False"
| "active_call _ = True"

text \<open>
  The shared store and its callers. \<open>effects\<close> lists which caller's operation took effect, in which order
  and with which result; \<open>since\<close> is how long it was when the caller's last call began.
\<close>

record locked_store =
  mem :: memory_store
  calls :: "nat \<Rightarrow> call"
  effects :: "(nat \<times> store_op \<times> store_res) list"
  since :: "nat \<Rightarrow> nat"

definition granted :: "locked_store \<Rightarrow> nat \<Rightarrow> bool" where
  "granted S p \<longleftrightarrow>
     (case wants (mem S) (calls S p) of
        None \<Rightarrow> True
      | Some (wr, i) \<Rightarrow> \<forall>q. i \<notin> write_held (calls S q) \<and> (wr \<longrightarrow> i \<notin> read_held (mem S) (calls S q)))"

definition after_step :: "locked_store \<Rightarrow> nat \<Rightarrow> locked_store" where
  "after_step S p =
     (let (c, s, es) = proceed (mem S) (calls S p)
      in S\<lparr>mem := s, calls := (calls S)(p := c), effects := effects S @ map (Pair p) es\<rparr>)"

inductive lock_step :: "locked_store \<Rightarrow> locked_store \<Rightarrow> bool" where
  invoke: "\<not> active_call (calls S p) \<Longrightarrow> entry_point (mem S) c \<Longrightarrow>
    lock_step S (S\<lparr>calls := (calls S)(p := c), since := (since S)(p := length (effects S))\<rparr>)"
| work: "active_call (calls S p) \<Longrightarrow> granted S p \<Longrightarrow> lock_step S (after_step S p)"

inductive locked_run :: "memory_store \<Rightarrow> locked_store \<Rightarrow> bool" for s0 where
  idle: "locked_run s0 \<lparr>mem = s0, calls = (\<lambda>_. Resting), effects = [], since = (\<lambda>_. 0)\<rparr>"
| more: "locked_run s0 S \<Longrightarrow> lock_step S S' \<Longrightarrow> locked_run s0 S'"

subsection \<open>The invariant\<close>

text \<open>Two stores of the same layout that agree on the shards in \<open>I\<close>.\<close>

definition same_on :: "nat set \<Rightarrow> memory_store \<Rightarrow> memory_store \<Rightarrow> bool" where
  "same_on I s t \<longleftrightarrow> length (shards s) = length (shards t) \<and> shard_mask s = shard_mask t
     \<and> (\<forall>i\<in>I. shards s ! i = shards t ! i)"

text \<open>What is left to apply, by the call that holds the shards.\<close>

fun finish_applying :: "call \<Rightarrow> memory_store \<Rightarrow> memory_store" where
  "finish_applying (Applying a held rest) s = apply_writes held (ca_cts a) rest s"
| "finish_applying c s = s"

fun applying_on :: "call \<Rightarrow> nat set" where
  "applying_on (Applying a held rest) = set held"
| "applying_on c = {}"

definition matches :: "locked_store \<Rightarrow> memory_store \<Rightarrow> bool" where
  "matches S t \<longleftrightarrow> same_on {i. \<forall>p. i \<notin> applying_on (calls S p)} (mem S) t
     \<and> (\<forall>p. same_on (applying_on (calls S p)) (finish_applying (calls S p) (mem S)) t)"

fun call_inv :: "memory_store \<Rightarrow> call \<Rightarrow> bool" where
  "call_inv s (Locking a held todo) = (held @ todo = lock_list s a)"
| "call_inv s (Checking a held passed rest) =
     (held = lock_list s a \<and> passed @ rest = check_list s a \<and> validate s held (ca_rts a) passed = None)"
| "call_inv s (Applying a held rest) = (held = lock_list s a \<and> snd ` set rest \<subseteq> set held)"
| "call_inv s (Sweeping low i n) = (i < length (shards s))"
| "call_inv s _ = True"

definition exclusive :: "memory_store \<Rightarrow> (nat \<Rightarrow> call) \<Rightarrow> bool" where
  "exclusive s C \<longleftrightarrow>
     (\<forall>p q. p \<noteq> q \<longrightarrow> write_held (C p) \<inter> (write_held (C q) \<union> read_held s (C q)) = {})"

definition lock_inv :: "memory_store \<Rightarrow> locked_store \<Rightarrow> bool" where
  "lock_inv s0 S \<longleftrightarrow> same_on {} s0 (mem S) \<and> exclusive (mem S) (calls S)
     \<and> (\<forall>p. call_inv (mem S) (calls S p))
     \<and> (\<exists>t. atomic_run s0 (map snd (effects S)) t \<and> matches S t)"

subsection \<open>Results and remaining steps\<close>

text \<open>
  What has taken effect since a call began. A get or a commit takes effect exactly once, with the result
  it returns; a collection once per shard, and it returns the sum.
\<close>

definition own_effects :: "locked_store \<Rightarrow> nat \<Rightarrow> (store_op \<times> store_res) list" where
  "own_effects S p = map snd (filter (\<lambda>e. fst e = p) (drop (since S p) (effects S)))"

definition swept_upto :: "timestamp \<Rightarrow> nat \<Rightarrow> nat \<Rightarrow> (store_op \<times> store_res) list \<Rightarrow> bool" where
  "swept_upto low i n es \<longleftrightarrow> map fst es = map (Op_sweep low) [0..<i]
     \<and> (\<exists>ms. map snd es = map Swept ms \<and> sum_list ms = n)"

fun took_effect :: "memory_store \<Rightarrow> call \<Rightarrow> (store_op \<times> store_res) list \<Rightarrow> bool" where
  "took_effect s (Applying a held rest) es \<longleftrightarrow> es = [(commit_op a, Committed (Inr ()))]"
| "took_effect s (Unlocking a r held) es \<longleftrightarrow> es = [(commit_op a, Committed r)]"
| "took_effect s (Waiting low i n) es \<longleftrightarrow> i \<le> length (shards s) \<and> swept_upto low i n es"
| "took_effect s (Sweeping low i n) es \<longleftrightarrow> i < length (shards s) \<and> swept_upto low i n es"
| "took_effect s (Finished a r) es \<longleftrightarrow> es = [(a, r)]"
| "took_effect s (Collected low n) es \<longleftrightarrow> swept_upto low (length (shards s)) n es"
| "took_effect s _ es \<longleftrightarrow> es = []"

text \<open>A bound on the steps a call has still to make.\<close>

fun steps_left :: "memory_store \<Rightarrow> call \<Rightarrow> nat" where
  "steps_left s (Getting k t) = 2"
| "steps_left s (Reading k t) = 1"
| "steps_left s (Locking a held todo) =
     2 * length todo + length held + length (check_list s a) + length (apply_list s a) + 4"
| "steps_left s (Checking a held passed rest) =
     length rest + length held + length (apply_list s a) + 3"
| "steps_left s (Applying a held rest) = length rest + length held + 2"
| "steps_left s (Unlocking a r held) = length held + 1"
| "steps_left s (Waiting low i n) = 2 * (length (shards s) - i) + 1"
| "steps_left s (Sweeping low i n) = 2 * (length (shards s) - i)"
| "steps_left s _ = 0"

inductive work_steps :: "nat \<Rightarrow> locked_store \<Rightarrow> locked_store \<Rightarrow> bool" where
  stop: "work_steps 0 S S"
| next_work: "active_call (calls S p) \<Longrightarrow> granted S p \<Longrightarrow> work_steps n (after_step S p) S' \<Longrightarrow>
    work_steps (Suc n) S S'"

section \<open>Lemmas\<close>

subsection \<open>Locality\<close>

lemma same_on_refl [simp]: "same_on I s s"
  by (simp add: same_on_def)

lemma same_on_sym: "same_on I s t \<Longrightarrow> same_on I t s"
  by (simp add: same_on_def)

lemma same_on_trans: "same_on I s t \<Longrightarrow> same_on I t u \<Longrightarrow> same_on I s u"
  by (simp add: same_on_def)

lemma same_on_mono: "same_on I s t \<Longrightarrow> J \<subseteq> I \<Longrightarrow> same_on J s t"
  by (auto simp: same_on_def)

lemma same_on_shard_of: "same_on I s t \<Longrightarrow> shard_of s = shard_of t"
  by (intro shard_of_cong) (simp add: same_on_def)

lemma lists_cong: "same_on I s t \<Longrightarrow> lock_list s = lock_list t \<and> check_list s = check_list t \<and> apply_list s = apply_list t"
  by (simp add: lock_list_def check_list_def apply_list_def fun_eq_iff same_on_shard_of)

lemma lock_list_sorted: "sorted_wrt (<) (lock_list s a)"
  by (simp add: lock_list_def sorted_dedup)

lemma shards_in_lock_list:
  "snd ` set (check_list s a) \<subseteq> set (lock_list s a)" "snd ` set (apply_list s a) \<subseteq> set (lock_list s a)"
  by (auto simp: lock_list_def check_list_def apply_list_def length_Suc_conv dest!: set_zip_rightD)

lemma check_one_local:
  assumes "same_on (set held) s t" "sorted_wrt (<) held" "shard \<in> set held"
  shows "check_one s held rts key shard = check_one t held rts key shard"
proof -
  obtain j where "j < length held" "binary_search held shard = Inr j" "held ! j = shard"
    using binary_search_found [OF assms(2,3)] by blast
  with assms(1,3) show ?thesis by (simp add: check_one_def same_on_def)
qed

lemma validate_Cons:
  "validate s held rts (x # xs) =
     (case check_one s held rts (fst x) (snd x) of Some e \<Rightarrow> Some e | None \<Rightarrow> validate s held rts xs)"
  by (cases x) (auto simp: check_one_def split: sum.split)

lemma validate_append:
  "validate s held rts (xs @ ys) =
     (case validate s held rts xs of Some e \<Rightarrow> Some e | None \<Rightarrow> validate s held rts ys)"
  by (induction xs) (auto simp: validate_Cons simp del: validate.simps(2) split: option.split)

lemma validate_local:
  "same_on (set held) s t \<Longrightarrow> sorted_wrt (<) held \<Longrightarrow> snd ` set xs \<subseteq> set held \<Longrightarrow>
     validate s held rts xs = validate t held rts xs"
  by (induction xs) (auto simp: validate_Cons check_one_local [of held s t] simp del: validate.simps(2)
      split: option.split)

lemma apply_one_layout: "same_on {} s (apply_one s held cts key v shard)"
  by (auto simp: apply_one_def same_on_def push_in_def split: sum.split)

lemma apply_one_frame:
  assumes "sorted_wrt (<) held" "shard \<in> set held"
  shows "same_on (- {shard}) s (apply_one s held cts key v shard)"
proof -
  obtain j where "binary_search held shard = Inr j" "held ! j = shard"
    using binary_search_found [OF assms] by blast
  then show ?thesis by (auto simp: apply_one_def same_on_def push_in_def)
qed

lemma apply_one_local:
  assumes "same_on I s t" "sorted_wrt (<) held" "shard \<in> set held" "shard \<in> I"
  shows "same_on I (apply_one s held cts key v shard) (apply_one t held cts key v shard)"
proof -
  obtain j where "binary_search held shard = Inr j" "held ! j = shard"
    using binary_search_found [OF assms(2,3)] by blast
  with assms(1,4) show ?thesis
    by (cases "shard < length (shards t)")
      (auto simp: apply_one_def same_on_def push_in_def nth_list_update not_less list_update_beyond)
qed

lemma apply_writes_Cons:
  "apply_writes held cts (x # xs) s = apply_writes held cts xs (apply_one s held cts (fst (fst x)) (snd (fst x)) (snd x))"
  by (cases x rule: prod.exhaust; cases "fst x") (auto simp: apply_one_def split: sum.split)

lemma apply_writes_layout: "same_on {} s (apply_writes held cts xs s)"
  by (induction xs arbitrary: s)
    (auto simp: apply_writes_Cons simp del: apply_writes.simps(2) intro: same_on_trans [OF apply_one_layout])

lemma apply_writes_frame:
  "sorted_wrt (<) held \<Longrightarrow> snd ` set xs \<subseteq> set held \<Longrightarrow> same_on (- set held) s (apply_writes held cts xs s)"
proof (induction xs arbitrary: s)
  case (Cons x xs)
  let ?t = "apply_one s held cts (fst (fst x)) (snd (fst x)) (snd x)"
  have "same_on (- {snd x}) s ?t" using Cons.prems by (intro apply_one_frame) auto
  then have "same_on (- set held) s ?t" using Cons.prems(2) by (auto elim: same_on_mono)
  moreover have "same_on (- set held) ?t (apply_writes held cts xs ?t)"
    using Cons by auto
  ultimately show ?case
    unfolding apply_writes_Cons by (rule same_on_trans)
qed simp

lemma apply_writes_local:
  "same_on (set held) s t \<Longrightarrow> sorted_wrt (<) held \<Longrightarrow> snd ` set xs \<subseteq> set held \<Longrightarrow>
     same_on (set held) (apply_writes held cts xs s) (apply_writes held cts xs t)"
proof (induction xs arbitrary: s t)
  case (Cons x xs)
  then show ?case
    unfolding apply_writes_Cons by (intro Cons.IH apply_one_local) auto
qed simp

lemma gc_slice_same:
  assumes "same_on I s t" "i \<in> I"
  shows "fst (gc_slice s low i) = fst (gc_slice t low i)"
    "same_on I (snd (gc_slice s low i)) (snd (gc_slice t low i))"
  using assms
  by (auto simp: gc_slice_def same_on_def nth_list_update split: prod.split)
    (metis list_update_beyond not_le nth_list_update)

lemma gc_slice_frame: "same_on (- {i}) s (snd (gc_slice s low i))"
  by (auto simp: gc_slice_def same_on_def split: prod.split)

text \<open>Both paths of \<open>try_commit\<close>, the fast and the general, in the terms of a call.\<close>

lemma try_commit_call:
  "MemoryStore_try_commit s (ca_rts a) (ca_cts a) (ca_writes a) (ca_reads a) =
     (case validate s (lock_list s a) (ca_rts a) (check_list s a) of
        Some e \<Rightarrow> (Inl e, s)
      | None \<Rightarrow> (Inr (), apply_writes (lock_list s a) (ca_cts a) (apply_list s a) s))"
proof (cases "length (ca_writes a) = 1 \<and> ca_reads a = []")
  case True
  then obtain k v where ws: "ca_writes a = [(k, v)]" by (cases "ca_writes a"; cases "tl (ca_writes a)") auto
  have "binary_search [shard_of s k] (shard_of s k) = Inr 0"
    using binary_search_found [of "[shard_of s k]" "shard_of s k"] by auto
  with ws True show ?thesis
    by (simp add: MemoryStore_try_commit_def lock_list_def check_list_def apply_list_def Let_def)
next
  case False
  then show ?thesis
    by (auto simp: MemoryStore_try_commit_def lock_list_def check_list_def apply_list_def Let_def
        validate_append split: option.split)
qed

subsection \<open>One step of one call\<close>

lemma applying_held: "applying_on c \<subseteq> write_held c"
  by (cases c) auto

lemma finish_layout: "same_on {} s (finish_applying c s)"
  by (cases c) (auto intro: apply_writes_layout)

lemma finish_other:
  "call_inv s c \<Longrightarrow> same_on (applying_on c) s s' \<Longrightarrow>
     same_on (applying_on c) (finish_applying c s) (finish_applying c s')"
  by (cases c) (auto intro!: apply_writes_local lock_list_sorted intro: same_on_mono)

lemma call_inv_other:
  assumes "call_inv s c" "same_on (write_held c) s s'"
  shows "call_inv s' c"
proof (cases c)
  case (Checking a held passed rest)
  then have h: "held = lock_list s a" "passed @ rest = check_list s a" "validate s held (ca_rts a) passed = None"
    using assms(1) unfolding Checking call_inv.simps by blast+
  have "snd ` set passed \<subseteq> set held"
    using shards_in_lock_list(1) [of s a] unfolding h(1) h(2) [symmetric] by auto
  then have "validate s held (ca_rts a) passed = validate s' held (ca_rts a) passed"
    using assms(2) Checking by (intro validate_local) (simp_all add: lock_list_sorted h(1))
  then show ?thesis
    unfolding Checking call_inv.simps using h lists_cong [OF assms(2)] by metis
qed (use assms lists_cong [OF assms(2)] in \<open>auto simp: same_on_def\<close>)

text \<open>What a call holds and does not apply is as in the atomic store.\<close>

lemma matches_own:
  assumes "matches S t" "exclusive (mem S) (calls S)"
    "I \<subseteq> write_held (calls S p) \<union> read_held (mem S) (calls S p)" "I \<inter> applying_on (calls S p) = {}"
  shows "same_on I (mem S) t"
proof -
  have "i \<notin> applying_on (calls S q)" if "i \<in> I" for i q
  proof (cases "q = p")
    case False
    then have "write_held (calls S q) \<inter> (write_held (calls S p) \<union> read_held (mem S) (calls S p)) = {}"
      using assms(2) by (simp add: exclusive_def)
    then show ?thesis using that assms(3) applying_held by blast
  qed (use that assms(4) in blast)
  then have "I \<subseteq> {i. \<forall>p. i \<notin> applying_on (calls S p)}" by blast
  with assms(1) show ?thesis unfolding matches_def by (blast intro: same_on_mono)
qed

lemma atomic_run_append: "atomic_run s xs t \<Longrightarrow> atomic_run t ys u \<Longrightarrow> atomic_run s (xs @ ys) u"
  by (induction s xs t rule: atomic_run.induct) auto

text \<open>A step that changes only shards its call holds, and takes effect as the atomic operation does.\<close>

lemma lock_inv_step:
  assumes inv: "lock_inv s0 S" and upd: "same_on (- write_held (calls S p)) (mem S) s'"
    and new: "call_inv s' c" "applying_on c \<subseteq> write_held (calls S p)"
    and excl: "\<And>q. q \<noteq> p \<Longrightarrow> write_held c \<inter> (write_held (calls S q) \<union> read_held (mem S) (calls S q)) = {}"
      "\<And>q. q \<noteq> p \<Longrightarrow> write_held (calls S q) \<inter> read_held (mem S) c = {}"
    and eff: "\<And>t. matches S t \<Longrightarrow> \<exists>t'. atomic_run t es t' \<and> same_on (- write_held (calls S p)) t t'
      \<and> same_on (write_held (calls S p) - applying_on c) s' t'
      \<and> same_on (applying_on c) (finish_applying c s') t'"
  shows "lock_inv s0 (S\<lparr>mem := s', calls := (calls S)(p := c), effects := effects S @ map (Pair p) es\<rparr>)"
proof -
  let ?H = "write_held (calls S p)" and ?C = "(calls S)(p := c)"
  have ex: "exclusive (mem S) (calls S)" and ci: "\<And>q. call_inv (mem S) (calls S q)"
    and lay: "same_on {} s0 (mem S)"
    using inv by (auto simp: lock_inv_def)
  obtain t where t: "atomic_run s0 (map snd (effects S)) t" "matches S t" using inv by (auto simp: lock_inv_def)
  from eff [OF t(2)] obtain t' where t': "atomic_run t es t'" "same_on (- ?H) t t'"
    "same_on (?H - applying_on c) s' t'" "same_on (applying_on c) (finish_applying c s') t'" by blast
  have disj: "write_held (calls S q) \<subseteq> - ?H" if "q \<noteq> p" for q
    using ex that unfolding exclusive_def by blast
  have "read_held s' d = read_held (mem S) d" for d
    using same_on_shard_of [OF upd] by (cases d) simp_all
  then have rd: "read_held s' = read_held (mem S)" by blast
  have "write_held (?C a) \<inter> (write_held (?C b) \<union> read_held (mem S) (?C b)) = {}" if "a \<noteq> b" for a b
  proof -
    consider "a = p" | "b = p" "a \<noteq> p" | "a \<noteq> p" "b \<noteq> p" by blast
    then show ?thesis
    proof cases
      case 1
      then show ?thesis using that excl(1) [of b] by simp
    next
      case 2
      then show ?thesis using excl [of a] by auto
    next
      case 3
      then show ?thesis using that ex by (simp add: exclusive_def)
    qed
  qed
  then have "exclusive s' ?C" unfolding exclusive_def rd by blast
  moreover have "call_inv s' (?C q)" for q
    using new(1) call_inv_other [OF ci same_on_mono [OF upd disj]] by simp
  moreover have "same_on {} s0 s'" using lay upd by (auto intro: same_on_trans same_on_mono)
  moreover have "matches (S\<lparr>mem := s', calls := ?C, effects := effects S @ map (Pair p) es\<rparr>) t'"
  proof -
    have "same_on (applying_on (?C q)) (finish_applying (?C q) s') t'" for q
    proof (cases "q = p")
      case False
      have sub: "applying_on (calls S q) \<subseteq> - ?H" using disj [OF False] applying_held by blast
      have "same_on (applying_on (calls S q)) (finish_applying (calls S q) s') (finish_applying (calls S q) (mem S))"
        using finish_other [OF ci same_on_mono [OF upd sub]] by (rule same_on_sym)
      also have "same_on (applying_on (calls S q)) (finish_applying (calls S q) (mem S)) t"
        using t(2) by (simp add: matches_def)
      finally (same_on_trans) show ?thesis
        using same_on_mono [OF t'(2) sub] False by (auto intro: same_on_trans)
    qed (use t'(4) in simp)
    moreover have "same_on {i. \<forall>q. i \<notin> applying_on (?C q)} s' t'"
    proof -
      have "shards s' ! i = shards t' ! i" if "\<forall>q. i \<notin> applying_on (?C q)" for i
      proof (cases "i \<in> ?H")
        case True
        have "i \<notin> applying_on c" using that [rule_format, of p] by simp
        with True t'(3) show ?thesis by (simp add: same_on_def)
      next
        case False
        have "i \<notin> applying_on (calls S q)" for q
          using that [rule_format, of q] False applying_held [of "calls S p"] by (cases "q = p") auto
        then have "shards (mem S) ! i = shards t ! i" using t(2) by (simp add: matches_def same_on_def)
        moreover have "shards t ! i = shards t' ! i" "shards (mem S) ! i = shards s' ! i"
          using False t'(2) upd by (simp_all add: same_on_def)
        ultimately show ?thesis by simp
      qed
      then show ?thesis using t'(3) by (simp add: same_on_def)
    qed
    ultimately show ?thesis by (simp add: matches_def)
  qed
  ultimately show ?thesis
    using atomic_run_append [OF t(1) t'(1)] by (auto simp: lock_inv_def o_def)
qed

text \<open>A step that changes neither the store nor what is being applied.\<close>

lemma lock_inv_quiet:
  assumes inv: "lock_inv s0 S" and app: "applying_on (calls S p) = {}" "applying_on c = {}"
    and new: "call_inv (mem S) c"
    and excl: "\<And>q. q \<noteq> p \<Longrightarrow> write_held c \<inter> (write_held (calls S q) \<union> read_held (mem S) (calls S q)) = {}"
      "\<And>q. q \<noteq> p \<Longrightarrow> write_held (calls S q) \<inter> read_held (mem S) c = {}"
  shows "lock_inv s0 (S\<lparr>calls := (calls S)(p := c)\<rparr>)"
proof -
  have "lock_inv s0 (S\<lparr>mem := mem S, calls := (calls S)(p := c), effects := effects S @ map (Pair p) []\<rparr>)"
  proof (rule lock_inv_step [OF inv _ new _ excl])
    fix t assume t: "matches S t"
    have "same_on (write_held (calls S p)) (mem S) t"
      using inv app(1) by (intro matches_own [OF t]) (auto simp: lock_inv_def)
    moreover have "same_on {} (finish_applying c (mem S)) t"
      using finish_layout [of "mem S" c] t
      by (auto simp: matches_def intro: same_on_trans same_on_sym same_on_mono)
    ultimately show "\<exists>t'. atomic_run t [] t' \<and> same_on (- write_held (calls S p)) t t'
        \<and> same_on (write_held (calls S p) - applying_on c) (mem S) t'
        \<and> same_on (applying_on c) (finish_applying c (mem S)) t'"
      using app(2) by auto
  qed (use app in simp_all)
  then show ?thesis by (cases S) simp
qed

lemma lock_invD:
  assumes "lock_inv s0 S"
  shows "exclusive (mem S) (calls S)" "call_inv (mem S) (calls S p)"
    "q \<noteq> p \<Longrightarrow> write_held (calls S q) \<inter> (write_held (calls S p) \<union> read_held (mem S) (calls S p)) = {}"
    "q \<noteq> p \<Longrightarrow> write_held (calls S p) \<inter> (write_held (calls S q) \<union> read_held (mem S) (calls S q)) = {}"
  using assms by (auto simp: lock_inv_def exclusive_def)

text \<open>A get under its read lock.\<close>

lemma read_step:
  assumes inv: "lock_inv s0 S" and p: "calls S p = Reading k r"
  shows "lock_inv s0 (after_step S p)"
proof -
  let ?res = "Got (Inr (visible_value (map_of (shards (mem S) ! shard_of (mem S) k) k) r))"
  have "lock_inv s0 (S\<lparr>mem := mem S, calls := (calls S)(p := Finished (Op_get k r) ?res), effects := effects S @ map (Pair p) [(Op_get k r, ?res)]\<rparr>)"
  proof (rule lock_inv_step [OF inv])
    fix t assume t: "matches S t"
    have "same_on {shard_of (mem S) k} (mem S) t"
      using t lock_invD(1) [OF inv] by (rule matches_own [where p = p]) (simp_all add: p)
    then have "atomic_run t [(Op_get k r, ?res)] t"
      using same_on_shard_of [of "{shard_of (mem S) k}" "mem S" t]
      by (simp add: MemoryStore_get_def same_on_def)
    moreover have "same_on {} (mem S) t" using t by (auto simp: matches_def intro: same_on_mono)
    ultimately show "\<exists>t'. atomic_run t [(Op_get k r, ?res)] t' \<and> same_on (- write_held (calls S p)) t t'
        \<and> same_on (write_held (calls S p) - applying_on (Finished (Op_get k r) ?res)) (mem S) t'
        \<and> same_on (applying_on (Finished (Op_get k r) ?res)) (finish_applying (Finished (Op_get k r) ?res) (mem S)) t'"
      using p by auto
  qed simp_all
  then show ?thesis by (simp add: after_step_def p Let_def)
qed

text \<open>The validation loop: it ends in a conflict, or with every key checked.\<close>

lemma conflict_step:
  assumes inv: "lock_inv s0 S" and p: "calls S p = Checking a held passed ((key, shard) # rest)"
    and e: "check_one (mem S) held (ca_rts a) key shard = Some e"
  shows "lock_inv s0 (after_step S p)"
proof -
  let ?es = "[(Op_commit (ca_rts a) (ca_cts a) (ca_writes a) (ca_reads a), Committed (Inl e))]"
  have ci: "held = lock_list (mem S) a" "passed @ (key, shard) # rest = check_list (mem S) a"
    "validate (mem S) held (ca_rts a) passed = None"
    using lock_invD(2) [OF inv, of p] unfolding p call_inv.simps by blast+
  have "lock_inv s0 (S\<lparr>mem := mem S, calls := (calls S)(p := Unlocking a (Inl e) held), effects := effects S @ map (Pair p) ?es\<rparr>)"
  proof (rule lock_inv_step [OF inv])
    fix t assume t: "matches S t"
    have own: "same_on (set held) (mem S) t"
      using t lock_invD(1) [OF inv] by (rule matches_own [where p = p]) (simp_all add: p)
    have "validate (mem S) held (ca_rts a) (check_list (mem S) a) = Some e"
      unfolding ci(2) [symmetric] validate_append ci(3) by (simp add: validate_Cons e del: validate.simps(2))
    then have "validate t (lock_list t a) (ca_rts a) (check_list t a) = Some e"
      using validate_local [OF own] lists_cong [OF own] shards_in_lock_list(1) [of "mem S" a]
        lock_list_sorted [of "mem S" a] ci(1) by simp
    then have "atomic_run t ?es t" by (simp add: try_commit_call)
    then show "\<exists>t'. atomic_run t ?es t' \<and> same_on (- write_held (calls S p)) t t'
        \<and> same_on (write_held (calls S p) - applying_on (Unlocking a (Inl e) held)) (mem S) t'
        \<and> same_on (applying_on (Unlocking a (Inl e) held)) (finish_applying (Unlocking a (Inl e) held) (mem S)) t'"
      using p own by (auto intro: same_on_mono)
  qed (use lock_invD(3,4) [OF inv, of _ p] p in simp_all)
  then show ?thesis by (simp add: after_step_def p e)
qed

lemma checked_step:
  assumes inv: "lock_inv s0 S" and p: "calls S p = Checking a held passed []"
  shows "lock_inv s0 (after_step S p)"
proof -
  let ?es = "[(Op_commit (ca_rts a) (ca_cts a) (ca_writes a) (ca_reads a), Committed (Inr ()))]"
  let ?c = "Applying a held (apply_list (mem S) a)"
  have ci: "held = lock_list (mem S) a" "validate (mem S) held (ca_rts a) (check_list (mem S) a) = None"
    using lock_invD(2) [OF inv, of p] unfolding p call_inv.simps append_Nil2 by auto
  have srt: "sorted_wrt (<) held" "snd ` set (apply_list (mem S) a) \<subseteq> set held"
    unfolding ci(1) by (simp_all add: lock_list_sorted shards_in_lock_list)
  have "lock_inv s0 (S\<lparr>mem := mem S, calls := (calls S)(p := ?c), effects := effects S @ map (Pair p) ?es\<rparr>)"
  proof (rule lock_inv_step [OF inv])
    fix t assume t: "matches S t"
    let ?t = "apply_writes held (ca_cts a) (apply_list (mem S) a) t"
    have own: "same_on (set held) (mem S) t"
      using t lock_invD(1) [OF inv] by (rule matches_own [where p = p]) (simp_all add: p)
    have "validate t (lock_list t a) (ca_rts a) (check_list t a) = None"
      using validate_local [OF own] lists_cong [OF own] shards_in_lock_list(1) [of "mem S" a]
        lock_list_sorted [of "mem S" a] ci by simp
    then have "atomic_run t ?es ?t"
      using lists_cong [OF own] ci(1) by (simp add: try_commit_call)
    moreover have "same_on (- set held) t ?t" by (rule apply_writes_frame [OF srt])
    moreover have "same_on (set held) (apply_writes held (ca_cts a) (apply_list (mem S) a) (mem S)) ?t"
      by (rule apply_writes_local [OF own srt])
    moreover have "same_on {} (mem S) ?t"
      using own by (rule same_on_trans [OF same_on_mono apply_writes_layout]) simp
    ultimately show "\<exists>t'. atomic_run t ?es t' \<and> same_on (- write_held (calls S p)) t t'
        \<and> same_on (write_held (calls S p) - applying_on ?c) (mem S) t'
        \<and> same_on (applying_on ?c) (finish_applying ?c (mem S)) t'"
      using p by auto
  qed (use lock_invD(3,4) [OF inv, of _ p] p srt ci in simp_all)
  then show ?thesis by (simp add: after_step_def p)
qed

text \<open>One push of the apply loop, and its end.\<close>

lemma push_step:
  assumes inv: "lock_inv s0 S" and p: "calls S p = Applying a held (((key, v), shard) # rest)"
  shows "lock_inv s0 (after_step S p)"
proof -
  let ?s = "apply_one (mem S) held (ca_cts a) key v shard"
  have ci: "held = lock_list (mem S) a" "snd ` set rest \<subseteq> set held" "shard \<in> set held"
    using lock_invD(2) [OF inv, of p] unfolding p by auto
  have srt: "sorted_wrt (<) held" unfolding ci(1) by (rule lock_list_sorted)
  have fr: "same_on (- set held) (mem S) ?s"
    using apply_one_frame [OF srt ci(3)] by (rule same_on_mono) (use ci(3) in auto)
  have "lock_inv s0 (S\<lparr>mem := ?s, calls := (calls S)(p := Applying a held rest), effects := effects S @ map (Pair p) []\<rparr>)"
  proof (rule lock_inv_step [OF inv, where p = p])
    fix t assume t: "matches S t"
    have "same_on (applying_on (calls S p)) (finish_applying (calls S p) (mem S)) t"
      using t by (simp add: matches_def)
    then have "same_on (set held) (apply_writes held (ca_cts a) rest ?s) t"
      by (simp add: p apply_writes_Cons del: apply_writes.simps(2))
    moreover have "same_on {} ?s t"
      using apply_one_layout [of "mem S" held "ca_cts a" key v shard] t
      by (auto simp: matches_def intro: same_on_trans same_on_sym same_on_mono)
    ultimately show "\<exists>t'. atomic_run t [] t' \<and> same_on (- write_held (calls S p)) t t'
        \<and> same_on (write_held (calls S p) - applying_on (Applying a held rest)) ?s t'
        \<and> same_on (applying_on (Applying a held rest)) (finish_applying (Applying a held rest) ?s) t'"
      by (simp add: p)
  next
    show "same_on (- write_held (calls S p)) (mem S) ?s" using fr by (simp add: p)
    have "lock_list ?s a = held" using lists_cong [OF fr] ci(1) by metis
    then show "call_inv ?s (Applying a held rest)" using ci(2) by simp
  qed (use lock_invD(4) [OF inv, of _ p] p in simp_all)
  then show ?thesis by (simp add: after_step_def p)
qed

lemma applied_step:
  assumes inv: "lock_inv s0 S" and p: "calls S p = Applying a held []"
  shows "lock_inv s0 (after_step S p)"
proof -
  have "lock_inv s0 (S\<lparr>mem := mem S, calls := (calls S)(p := Unlocking a (Inr ()) held), effects := effects S @ map (Pair p) []\<rparr>)"
  proof (rule lock_inv_step [OF inv])
    fix t assume t: "matches S t"
    have "same_on (applying_on (calls S p)) (finish_applying (calls S p) (mem S)) t"
      using t by (simp add: matches_def)
    then have "same_on (set held) (mem S) t" by (simp add: p)
    then show "\<exists>t'. atomic_run t [] t' \<and> same_on (- write_held (calls S p)) t t'
        \<and> same_on (write_held (calls S p) - applying_on (Unlocking a (Inr ()) held)) (mem S) t'
        \<and> same_on (applying_on (Unlocking a (Inr ()) held)) (finish_applying (Unlocking a (Inr ()) held) (mem S)) t'"
      using p by (auto intro: same_on_mono)
  qed (use lock_invD(3,4) [OF inv, of _ p] p in simp_all)
  then show ?thesis by (simp add: after_step_def p)
qed

text \<open>One shard of a collection.\<close>

lemma sweep_step:
  assumes inv: "lock_inv s0 S" and p: "calls S p = Sweeping low i n"
  shows "lock_inv s0 (after_step S p)"
proof -
  obtain m s' where g: "gc_slice (mem S) low i = (m, s')" by force
  let ?es = "[(Op_sweep low i, Swept m)]" and ?c = "Waiting low (Suc i) (n + m)"
  have "lock_inv s0 (S\<lparr>mem := s', calls := (calls S)(p := ?c), effects := effects S @ map (Pair p) ?es\<rparr>)"
  proof (rule lock_inv_step [OF inv])
    show "same_on (- write_held (calls S p)) (mem S) s'"
      using gc_slice_frame [of i "mem S" low] g p by simp
    fix t assume t: "matches S t"
    have own: "same_on {i} (mem S) t"
      using t lock_invD(1) [OF inv] by (rule matches_own [where p = p]) (simp_all add: p)
    note gs = gc_slice_same [OF own, of i low]
    have "atomic_run t ?es (snd (gc_slice t low i))"
      using gs(1) g by (cases "gc_slice t low i") simp
    moreover have "same_on (- {i}) t (snd (gc_slice t low i))" by (rule gc_slice_frame)
    moreover have "same_on {i} s' (snd (gc_slice t low i))" using gs(2) g by simp
    ultimately show "\<exists>t'. atomic_run t ?es t' \<and> same_on (- write_held (calls S p)) t t'
        \<and> same_on (write_held (calls S p) - applying_on ?c) s' t'
        \<and> same_on (applying_on ?c) (finish_applying ?c s') t'"
      using p by (auto intro: same_on_mono)
  qed simp_all
  then show ?thesis by (simp add: after_step_def p g)
qed

subsection \<open>Every step\<close>

lemma grantedD:
  "granted S p \<Longrightarrow> wants (mem S) (calls S p) = Some (wr, i) \<Longrightarrow>
     i \<notin> write_held (calls S q) \<and> (wr \<longrightarrow> i \<notin> read_held (mem S) (calls S q))"
  by (auto simp: granted_def)

lemma quiet_after:
  assumes "lock_inv s0 S" "proceed (mem S) (calls S p) = (c, mem S, [])"
    "applying_on (calls S p) = {}" "applying_on c = {}" "call_inv (mem S) c"
    "\<And>q. q \<noteq> p \<Longrightarrow> write_held c \<inter> (write_held (calls S q) \<union> read_held (mem S) (calls S q)) = {}"
    "\<And>q. q \<noteq> p \<Longrightarrow> write_held (calls S q) \<inter> read_held (mem S) c = {}"
  shows "lock_inv s0 (after_step S p)"
  using lock_inv_quiet [OF assms(1,3-7)] assms(2) by (cases S) (simp add: after_step_def)

text \<open>Taking a lock.\<close>

lemma acquire_step:
  assumes inv: "lock_inv s0 S" and g: "granted S p" and w: "wants (mem S) (calls S p) = Some (wr, i)"
  shows "lock_inv s0 (after_step S p)"
proof (cases "calls S p")
  case (Getting k t)
  then show ?thesis
    using grantedD [OF g w] w by (intro quiet_after [OF inv, of p "Reading k t"]) auto
next
  case (Locking a held todo)
  then obtain todo' where todo: "todo = i # todo'" "wr" using w by (cases todo) auto
  have "(insert i (set held)) \<inter> (write_held (calls S q) \<union> read_held (mem S) (calls S q)) = {}" if "q \<noteq> p" for q
    using grantedD [OF g w, of q] todo(2) lock_invD(4) [OF inv that] Locking by auto
  moreover have "call_inv (mem S) (Locking a (held @ [i]) todo')"
    using lock_invD(2) [OF inv, of p] Locking todo by simp
  ultimately show ?thesis
    using Locking todo by (intro quiet_after [OF inv, of p "Locking a (held @ [i]) todo'"]) simp_all
next
  case (Waiting low j n)
  then have j: "j = i" "wr" "i < length (shards (mem S))" using w by (auto split: if_splits)
  then show ?thesis
    using grantedD [OF g w] Waiting
    by (intro quiet_after [OF inv, of p "Sweeping low i n"]) auto
qed (use w in auto)

lemma work_inv:
  assumes inv: "lock_inv s0 S" and act: "active_call (calls S p)" and g: "granted S p"
  shows "lock_inv s0 (after_step S p)"
proof (cases "wants (mem S) (calls S p)")
  case (Some w)
  then show ?thesis using acquire_step [OF inv g, of "fst w" "snd w"] by simp
next
  case None
  note ex = lock_invD(4) [OF inv, of _ p]
  show ?thesis
  proof (cases "calls S p")
    case (Reading k t)
    then show ?thesis by (rule read_step [OF inv])
  next
    case (Locking a held todo)
    then have "todo = []" using None by (cases todo) auto
    then show ?thesis
      using Locking ex lock_invD(2) [OF inv, of p]
      by (intro quiet_after [OF inv, of p "Checking a held [] (check_list (mem S) a)"]) simp_all
  next
    case (Checking a held passed rest)
    show ?thesis
    proof (cases rest)
      case Nil
      then show ?thesis using Checking checked_step [OF inv] by simp
    next
      case (Cons x rest')
      obtain key shard where x: "x = (key, shard)" by (cases x)
      show ?thesis
      proof (cases "check_one (mem S) held (ca_rts a) key shard")
        case None
        have ci: "held = lock_list (mem S) a" "passed @ (key, shard) # rest' = check_list (mem S) a"
          "validate (mem S) held (ca_rts a) passed = None"
          using lock_invD(2) [OF inv, of p] unfolding Checking Cons x call_inv.simps by blast+
        have "validate (mem S) held (ca_rts a) (passed @ [(key, shard)]) = None"
          unfolding validate_append ci(3) by (simp add: validate_Cons None del: validate.simps(2))
        then have "call_inv (mem S) (Checking a held (passed @ [(key, shard)]) rest')"
          using ci(1,2) by simp
        then show ?thesis
          using Checking Cons x None ex
          by (intro quiet_after [OF inv, of p "Checking a held (passed @ [(key, shard)]) rest'"])
            (simp_all del: call_inv.simps)
      next
        case (Some e)
        then show ?thesis using conflict_step [OF inv] Checking Cons x by simp
      qed
    qed
  next
    case (Applying a held rest)
    show ?thesis
    proof (cases rest)
      case (Cons x rest')
      then show ?thesis using Applying push_step [OF inv, of p a held] by (cases x; cases "fst x") auto
    qed (use Applying applied_step [OF inv] in simp)
  next
    case (Unlocking a r held)
    show ?thesis
    proof (cases held)
      case Nil
      then show ?thesis
        using Unlocking by (intro quiet_after [OF inv, of p "Finished (commit_op a) (Committed r)"]) simp_all
    next
      case (Cons i held')
      then show ?thesis
        using Unlocking ex by (intro quiet_after [OF inv, of p "Unlocking a r held'"]) auto
    qed
  next
    case (Waiting low i n)
    then show ?thesis
      using None by (intro quiet_after [OF inv, of p "Collected low n"]) (auto split: if_splits)
  next
    case (Sweeping low i n)
    then show ?thesis by (rule sweep_step [OF inv])
  qed (use act None in simp_all)
qed

lemma lock_inv_since [simp]: "lock_inv s0 (S\<lparr>since := f\<rparr>) = lock_inv s0 S"
  by (simp add: lock_inv_def matches_def)

lemma invoke_inv:
  assumes inv: "lock_inv s0 S" and p: "\<not> active_call (calls S p)" and c: "entry_point (mem S) c"
  shows "lock_inv s0 (S\<lparr>calls := (calls S)(p := c)\<rparr>)"
proof -
  have c': "write_held c = {}" "read_held (mem S) c = {}" "applying_on c = {}" "call_inv (mem S) c"
    using c by (cases c; simp)+
  have "applying_on (calls S p) = {}" using p by (cases "calls S p") simp_all
  then show ?thesis
    using c' by (intro lock_inv_quiet [OF inv]) simp_all
qed

lemma locked_run_inv: "locked_run s0 S \<Longrightarrow> lock_inv s0 S"
proof (induction rule: locked_run.induct)
  case idle
  have "matches \<lparr>mem = s0, calls = \<lambda>_. Resting, effects = [], since = \<lambda>_. 0\<rparr> s0" by (simp add: matches_def)
  then show ?case by (auto simp: lock_inv_def exclusive_def)
next
  case (more S S')
  from more(2,3) show ?case
    by (cases rule: lock_step.cases) (auto intro: work_inv invoke_inv)
qed

subsection \<open>Results\<close>

lemma gc_slice_layout: "gc_slice s low i = (m, s') \<Longrightarrow> same_on {} s s'"
  using same_on_mono [OF gc_slice_frame [of i s low]] by simp

lemma proceed_layout: "proceed s c = (c', s', es) \<Longrightarrow> same_on {} s s'"
  by (induction s c rule: proceed.induct)
    (auto simp: Let_def apply_one_layout dest: gc_slice_layout split: option.splits if_splits prod.splits)

lemma swept_upto_0 [simp]: "swept_upto low 0 n es \<longleftrightarrow> es = [] \<and> n = 0"
  by (auto simp: swept_upto_def)

lemma swept_upto_next:
  "swept_upto low i n es \<Longrightarrow> swept_upto low (Suc i) (n + m) (es @ [(Op_sweep low i, Swept m)])"
  unfolding swept_upto_def by (elim conjE exE, rule conjI, simp, rule_tac x = "ms @ [m]" in exI, simp)

lemma took_effect_layout: "same_on I s s' \<Longrightarrow> took_effect s' c es = took_effect s c es"
  by (cases c) (simp_all add: same_on_def)

lemma proceed_effect:
  assumes "proceed s c = (c', s', es)" "took_effect s c old" "active_call c"
  shows "took_effect s c' (old @ es)"
  using assms
  by (induction s c rule: proceed.induct)
    (auto simp: Let_def swept_upto_next split: option.splits if_splits prod.splits)

lemma since_bound: "locked_run s0 S \<Longrightarrow> since S p \<le> length (effects S)"
proof (induction rule: locked_run.induct)
  case (more S S')
  from more.hyps(2) more.IH show ?case
    by (cases rule: lock_step.cases) (auto simp: after_step_def split: prod.splits)
qed simp

lemma own_effects_after:
  assumes "proceed (mem S) (calls S q) = (c, s, es)" "since S p \<le> length (effects S)"
  shows "own_effects (after_step S q) p = own_effects S p @ (if p = q then es else [])"
  using assms by (simp add: own_effects_def after_step_def filter_map o_def)

lemma locked_run_effects:
  "locked_run s0 S \<Longrightarrow> took_effect (mem S) (calls S p) (own_effects S p)"
proof (induction arbitrary: p rule: locked_run.induct)
  case idle
  then show ?case by (simp add: own_effects_def)
next
  case (more S S')
  from more.hyps(2) show ?case
  proof (cases rule: lock_step.cases)
    case (invoke q c)
    have "took_effect (mem S) c []" using invoke(3) by (cases c) auto
    then show ?thesis using more.IH [of p] invoke(1) by (simp add: own_effects_def)
  next
    case (work q)
    obtain c s es where pr: "proceed (mem S) (calls S q) = (c, s, es)" by (metis prod_cases3)
    have "took_effect (mem S) (calls S' p) (own_effects S' p)"
    proof (cases "p = q")
      case True
      then show ?thesis
        using proceed_effect [OF pr more.IH work(2)] own_effects_after [OF pr since_bound [OF more.hyps(1)], of p]
        unfolding work(1) by (simp add: after_step_def pr)
    next
      case False
      then show ?thesis
        using more.IH [of p] own_effects_after [OF pr since_bound [OF more.hyps(1)], of p]
        unfolding work(1) by (simp add: after_step_def pr)
    qed
    moreover have "same_on {} (mem S) (mem S')"
      using proceed_layout [OF pr] unfolding work(1) by (simp add: after_step_def pr)
    ultimately show ?thesis using took_effect_layout by blast
  qed
qed

subsection \<open>Progress\<close>

text \<open>A blocked call waits for a call that is not finished, and waiting goes up in shard order.\<close>

lemma wants_bound:
  assumes "lock_inv s0 S" "wf_store s0" "wants (mem S) (calls S p) = Some (wr, i)"
  shows "i < length (shards (mem S))"
proof -
  have lay: "length (shards (mem S)) = length (shards s0)" "shard_of (mem S) = shard_of s0"
    using assms(1) same_on_shard_of [of "{}" s0 "mem S"] by (auto simp: lock_inv_def same_on_def)
  have sh: "shard_of (mem S) k < length (shards (mem S))" for k
    unfolding lay using assms(2) by (rule shard_of_less)
  have "set (lock_list (mem S) a) \<subseteq> range (shard_of (mem S))" for a
    by (auto simp: lock_list_def)
  then have ll: "j < length (shards (mem S))" if "j \<in> set (lock_list (mem S) a)" for j a
    using that sh by blast
  show ?thesis
  proof (cases "calls S p")
    case (Locking a held todo)
    then have "held @ todo = lock_list (mem S) a" "i \<in> set todo"
      using lock_invD(2) [OF assms(1), of p] assms(3) by (auto elim: wants.elims)
    then show ?thesis using ll [of i a] by (metis Un_iff set_append)
  qed (use assms(3) sh in \<open>auto split: if_splits\<close>)
qed

lemma holder_waits_above:
  assumes inv: "lock_inv s0 S" and h: "i \<in> write_held (calls S q) \<union> read_held (mem S) (calls S q)"
    and stuck: "\<not> granted S q"
  shows "\<exists>wr j. wants (mem S) (calls S q) = Some (wr, j) \<and> i < j"
proof -
  obtain wr j where w: "wants (mem S) (calls S q) = Some (wr, j)"
    using stuck by (auto simp: granted_def split: option.splits)
  obtain a held todo where q: "calls S q = Locking a held (j # todo)"
    using w h by (cases "calls S q"; cases "\<exists>a held todo. calls S q = Locking a held todo")
      (auto elim!: wants.elims split: if_splits)
  then have "sorted_wrt (<) (held @ j # todo)" "i \<in> set held"
    using lock_invD(2) [OF inv, of q] lock_list_sorted [of "mem S" a] h by auto
  then show ?thesis using w by (auto simp: sorted_wrt_append)
qed

lemma progress:
  assumes inv: "lock_inv s0 S" and wf: "wf_store s0" and act: "active_call (calls S p)"
  shows "\<exists>q. active_call (calls S q) \<and> granted S q"
proof (rule ccontr)
  assume "\<nexists>q. active_call (calls S q) \<and> granted S q"
  then have stuck: "\<not> granted S q" if "active_call (calls S q)" for q using that by blast
  let ?W = "{i. \<exists>q wr. active_call (calls S q) \<and> wants (mem S) (calls S q) = Some (wr, i)}"
  have "?W \<subseteq> {..<length (shards (mem S))}" using wants_bound [OF inv wf] by auto
  then have fin: "finite ?W" using finite_subset by blast
  have "?W \<noteq> {}" using stuck [OF act] act by (auto simp: granted_def split: option.splits)
  with fin have "Max ?W \<in> ?W" by (rule Max_in)
  then obtain q wr where q: "active_call (calls S q)" "wants (mem S) (calls S q) = Some (wr, Max ?W)" by blast
  obtain h where h: "Max ?W \<in> write_held (calls S h) \<union> read_held (mem S) (calls S h)"
    using stuck [OF q(1)] q(2) by (auto simp: granted_def)
  then have act_h: "active_call (calls S h)" by (cases "calls S h") auto
  then obtain wr' j where j: "wants (mem S) (calls S h) = Some (wr', j)" "Max ?W < j"
    using holder_waits_above [OF inv h stuck [OF act_h]] by blast
  then have "j \<le> Max ?W" using act_h fin by (intro Max_ge) auto
  with j(2) show False by simp
qed

subsection \<open>Every call ends\<close>

lemma steps_left_layout: "same_on I s s' \<Longrightarrow> steps_left s' c = steps_left s c"
  using lists_cong [of I s s'] by (cases c) (simp_all add: same_on_def)

lemma proceed_measure:
  assumes "proceed s c = (c', s', es)" "active_call c" "call_inv s c"
  shows "steps_left s' c' < steps_left s c"
proof -
  have "steps_left s c' < steps_left s c"
    using assms
    by (induction s c rule: proceed.induct) (auto simp: Let_def split: option.splits if_splits prod.splits)
  then show ?thesis using steps_left_layout [OF proceed_layout [OF assms(1)], of c'] by simp
qed

lemma after_step_measure:
  assumes inv: "lock_inv s0 S" and act: "active_call (calls S p)"
  shows "steps_left (mem (after_step S p)) (calls (after_step S p) p) < steps_left (mem S) (calls S p)"
    "q \<noteq> p \<Longrightarrow> steps_left (mem (after_step S p)) (calls (after_step S p) q) = steps_left (mem S) (calls S q)"
proof -
  obtain c s es where pr: "proceed (mem S) (calls S p) = (c, s, es)" by (metis prod_cases3)
  show "steps_left (mem (after_step S p)) (calls (after_step S p) p) < steps_left (mem S) (calls S p)"
    using proceed_measure [OF pr act lock_invD(2) [OF inv]] by (simp add: after_step_def pr)
  show "q \<noteq> p \<Longrightarrow> steps_left (mem (after_step S p)) (calls (after_step S p) q) = steps_left (mem S) (calls S q)"
    using steps_left_layout [OF proceed_layout [OF pr]] by (simp add: after_step_def pr)
qed

lemma active_after: "active_call (calls (after_step S p) q) \<Longrightarrow> active_call (calls S p) \<Longrightarrow> active_call (calls S q)"
  by (cases "q = p") (auto simp: after_step_def split: prod.splits)

text \<open>The sum over the calls of a finite set that contains all active ones.\<close>

lemma work_steps_bound:
  assumes "work_steps n S S'" "lock_inv s0 S" "finite A" "\<And>p. active_call (calls S p) \<Longrightarrow> p \<in> A"
  shows "n + (\<Sum>p\<in>A. steps_left (mem S') (calls S' p)) \<le> (\<Sum>p\<in>A. steps_left (mem S) (calls S p))
    \<and> lock_inv s0 S' \<and> (\<forall>p. active_call (calls S' p) \<longrightarrow> p \<in> A)"
  using assms
proof (induction rule: work_steps.induct)
  case (next_work S p n S')
  let ?T = "after_step S p"
  have inv: "lock_inv s0 ?T" using work_inv [OF next_work.prems(1) next_work.hyps(1,2)] .
  have p: "p \<in> A" using next_work.prems(3) next_work.hyps(1) .
  have "(\<Sum>q\<in>A. steps_left (mem ?T) (calls ?T q)) < (\<Sum>q\<in>A. steps_left (mem S) (calls S q))"
  proof (rule sum_strict_mono_ex1 [OF next_work.prems(2)])
    show "\<forall>q\<in>A. steps_left (mem ?T) (calls ?T q) \<le> steps_left (mem S) (calls S q)"
      using after_step_measure [OF next_work.prems(1) next_work.hyps(1)] by (metis less_imp_le order_refl)
    show "\<exists>q\<in>A. steps_left (mem ?T) (calls ?T q) < steps_left (mem S) (calls S q)"
      using after_step_measure(1) [OF next_work.prems(1) next_work.hyps(1)] p by blast
  qed
  then show ?case
    using next_work.IH [OF inv next_work.prems(2)] next_work.prems(3) active_after [OF _ next_work.hyps(1)]
    by fastforce
qed simp

lemma work_to_end:
  assumes "lock_inv s0 S" "wf_store s0" "finite A" "\<And>p. active_call (calls S p) \<Longrightarrow> p \<in> A"
  shows "\<exists>n S'. work_steps n S S' \<and> (\<forall>p. \<not> active_call (calls S' p))"
  using assms
proof (induction "\<Sum>p\<in>A. steps_left (mem S) (calls S p)" arbitrary: S rule: less_induct)
  case less
  show ?case
  proof (cases "\<exists>p. active_call (calls S p)")
    case False
    then show ?thesis using work_steps.stop by blast
  next
    case True
    then obtain q where q: "active_call (calls S q)" "granted S q"
      using progress [OF less.prems(1,2)] by blast
    let ?T = "after_step S q"
    have inv: "lock_inv s0 ?T" using work_inv [OF less.prems(1) q] .
    have A: "p \<in> A" if "active_call (calls ?T p)" for p
      using less.prems(4) active_after [OF that q(1)] by blast
    have "work_steps 1 S ?T" using work_steps.next_work [OF q work_steps.stop] by simp
    from work_steps_bound [OF this less.prems(1,3,4)]
    have "(\<Sum>p\<in>A. steps_left (mem ?T) (calls ?T p)) < (\<Sum>p\<in>A. steps_left (mem S) (calls S p))" by simp
    from less.hyps [OF this inv less.prems(2,3) A] show ?thesis
      using work_steps.next_work [OF q] by blast
  qed
qed

section \<open>Properties\<close>

text \<open>A get and a commit in progress on an empty store with one shard.\<close>

abbreviation bare_store :: memory_store where
  "bare_store \<equiv> \<lparr>shards = [[]], shard_mask = 0\<rparr>"

abbreviation two_calls :: locked_store where
  "two_calls \<equiv> \<lparr>mem = bare_store,
     calls = (\<lambda>_. Resting)(0 := Locking \<lparr>ca_rts = Timestamp 0, ca_cts = Timestamp 1,
         ca_writes = [([1], Some [2])], ca_reads = []\<rparr> [0] [],
       1 := Getting [1] (Timestamp 0)),
     effects = [], since = (\<lambda>_. 0)\<rparr>"

lemma bare_shard [simp]: "shard_of bare_store k = 0"
  by (simp add: shard_of_def)

lemma wf_bare: "wf_store bare_store"
  by (simp add: wf_store_def wf_chains_def)

lemma two_calls_run: "locked_run bare_store two_calls"
proof -
  let ?a = "\<lparr>ca_rts = Timestamp 0, ca_cts = Timestamp 1, ca_writes = [([1], Some [2])], ca_reads = []\<rparr>"
  let ?S0 = "\<lparr>mem = bare_store, calls = (\<lambda>_. Resting), effects = [], since = (\<lambda>_. 0)\<rparr>"
  let ?S1 = "?S0\<lparr>calls := (calls ?S0)(1 := Getting [1] (Timestamp 0)), since := (since ?S0)(1 := length (effects ?S0))\<rparr>"
  let ?S2 = "?S1\<lparr>calls := (calls ?S1)(0 := Locking ?a [] [0]), since := (since ?S1)(0 := length (effects ?S1))\<rparr>"
  have "locked_run bare_store ?S1"
    by (rule locked_run.more [OF locked_run.idle lock_step.invoke]) simp_all
  then have r2: "locked_run bare_store ?S2"
    by (rule locked_run.more [OF _ lock_step.invoke]) (simp_all add: lock_list_def)
  have "granted ?S2 0" by (simp add: granted_def)
  then have "lock_step ?S2 (after_step ?S2 0)" by (intro lock_step.work) simp_all
  then have "locked_run bare_store (after_step ?S2 0)" by (rule locked_run.more [OF r2])
  moreover have "after_step ?S2 0 = two_calls" by (auto simp: after_step_def fun_upd_twist)
  ultimately show ?thesis by simp
qed

text \<open>C29. The store is linearizable: however the lock acquisitions, checks, pushes and unlocks of
  concurrent calls interleave, the calls in the order in which they take effect are a run of single
  atomic operations. Between its start and its return each call takes effect exactly once, with its
  own arguments and with the result it returns (a collection once per shard, in shard order, and it
  returns the sum); and when no call is in progress the store is the one the atomic operations leave.\<close>

theorem store_linearizable:
  assumes "locked_run s0 S"
  shows "took_effect (mem S) (calls S p) (own_effects S p)
    \<and> (\<exists>t. atomic_run s0 (map snd (effects S)) t \<and> ((\<forall>q. \<not> active_call (calls S q)) \<longrightarrow> mem S = t))"
proof -
  obtain t where t: "atomic_run s0 (map snd (effects S)) t" "matches S t"
    using locked_run_inv [OF assms] by (auto simp: lock_inv_def)
  have "mem S = t" if q: "\<forall>q. \<not> active_call (calls S q)"
  proof -
    have "applying_on (calls S q) = {}" for q using q [rule_format, of q] by (cases "calls S q") simp_all
    then have "same_on UNIV (mem S) t" using t(2) by (simp add: matches_def)
    then show ?thesis by (intro memory_store.equality) (auto simp: same_on_def intro: nth_equalityI)
  qed
  with t(1) locked_run_effects [OF assms] show ?thesis by blast
qed

theorem store_linearizable_witness:
  "took_effect (mem two_calls) (calls two_calls 0) (own_effects two_calls 0) \<and> (\<exists>t. atomic_run bare_store [] t)"
  using store_linearizable [OF two_calls_run, of 0] by (metis list.map_disc_iff locked_store.select_convs(3))

text \<open>Commits cannot deadlock: in every state of a run, if some call is in progress then some call in
  progress has the lock it asks for, because a call that waits while holding locks waits for a
  shard above all those it holds.\<close>

theorem locks_never_deadlock:
  assumes "locked_run s0 S" "wf_store s0" "active_call (calls S p)"
  shows "\<exists>q. active_call (calls S q) \<and> granted S q"
  using progress [OF locked_run_inv [OF assms(1)] assms(2,3)] .

theorem locks_never_deadlock_witness: "\<exists>q. active_call (calls two_calls q) \<and> granted two_calls q"
  by (rule locks_never_deadlock [OF two_calls_run wf_bare, of 0]) simp

text \<open>C31. Every call ends: from any state of a run with finitely many calls in progress, no schedule of
  their steps is longer than the sum of a bound per call (locks to take and release, keys to check,
  versions to push, shards to sweep), and there is one after which every call has returned.\<close>

theorem calls_terminate:
  assumes "locked_run s0 S" "wf_store s0" "finite {p. active_call (calls S p)}"
  shows "(\<forall>n S'. work_steps n S S' \<longrightarrow> n \<le> (\<Sum>p | active_call (calls S p). steps_left (mem S) (calls S p)))
    \<and> (\<exists>n S'. work_steps n S S' \<and> (\<forall>p. \<not> active_call (calls S' p)))"
proof -
  note inv = locked_run_inv [OF assms(1)]
  have "n \<le> (\<Sum>p | active_call (calls S p). steps_left (mem S) (calls S p))" if "work_steps n S S'" for n S'
    using work_steps_bound [OF that inv assms(3)] by simp
  moreover have "\<exists>n S'. work_steps n S S' \<and> (\<forall>p. \<not> active_call (calls S' p))"
    by (rule work_to_end [OF inv assms(2,3)]) simp
  ultimately show ?thesis by blast
qed

theorem calls_terminate_witness:
  "\<exists>n S'. work_steps n two_calls S' \<and> (\<forall>p. \<not> active_call (calls S' p))"
proof -
  have "{p. active_call (calls two_calls p)} \<subseteq> {0, 1}" by auto
  then have "finite {p. active_call (calls two_calls p)}" by (rule finite_subset) simp
  from calls_terminate [OF two_calls_run wf_bare this] show ?thesis by blast
qed

end
