(* ===== verification/Locked_Engine.thy ===== *)
theory Locked_Engine
  imports Progress Shard_Locks
begin

text \<open>
  The engine over the in-memory store with every lock in sight (\<open>src/src/db.rs\<close>, \<open>txn.rs\<close>,
  \<open>store.rs\<close>): the processes of theory \<open>Concurrency\<close>, whose calls into the store are no longer one
  step but run under the shard locks as in theory \<open>Shard_Locks\<close>, lock by lock, check by check and push
  by push, with the oracle, the log and the other calls going on in between.

  The refinement says that none of this shows: every state the engine reaches matches one that the
  atomic model reaches, by the mediator functions \<open>seen_as\<close> and \<open>obtained\<close>, in which a call has happened
  once it has taken effect. So the guarantees of theory \<open>Isolation\<close> hold of the engine with its locks.
  A handle makes one call at a time.
\<close>

section \<open>Definitions\<close>

text \<open>
  The engine: \<open>core\<close> holds the store as it is in memory, with what half-done commits have already
  pushed; \<open>tasks\<close> is where each process is in the code of the engine, \<open>store_call\<close> where it is in
  the code of the store, and \<open>got\<close> the values its gets have returned. \<open>made\<close> records the commits in
  the order in which they passed validation under their locks, each with the values its transaction
  had read by then; it is kept for the properties and no step looks at it.
\<close>

record 'w engine =
  core :: "(memory_store, 'w) inner"
  tasks :: "nat \<Rightarrow> process"
  store_call :: "nat \<Rightarrow> call"
  got :: "nat \<Rightarrow> observation list"
  made :: "commit list"

definition engine_start :: "(memory_store, 'w) inner \<Rightarrow> 'w engine" where
  "engine_start d = \<lparr>core = d, tasks = (\<lambda>_. Idle), store_call = (\<lambda>_. Resting), got = (\<lambda>_. []), made = []\<rparr>"

text \<open>What a serializable transaction notes when a get has returned from the store.\<close>

definition track_read :: "transaction \<Rightarrow> bytes \<Rightarrow> transaction" where
  "track_read tx key =
     (case reads tx of
        Some rs \<Rightarrow> tx\<lparr>reads := Some (List.insert key rs)\<rparr>
      | None \<Rightarrow> tx)"

text \<open>
  The call into the store that a process can make where it is: a get of a key the transaction has not
  written, a get of a snapshot, the commit of a batch that has its timestamp, a collection.
\<close>

definition args_of :: "transaction \<Rightarrow> timestamp \<Rightarrow> write_entry list \<Rightarrow> bytes list \<Rightarrow> commit_args" where
  "args_of tx cts batch rs =
     \<lparr>ca_rts = Transaction_read_timestamp tx, ca_cts = cts, ca_writes = batch, ca_reads = rs\<rparr>"

inductive may_call :: "memory_store \<Rightarrow> process \<Rightarrow> call \<Rightarrow> bool" where
  "map_of (writes tx) k = None \<Longrightarrow> may_call s (Open tx) (Getting k (Transaction_read_timestamp tx))"
| "may_call s (Viewing sn) (Getting k (Snapshot_read_timestamp sn))"
| "may_call s (Allocated tx cts batch rs)
     (Locking (args_of tx cts batch rs) [] (lock_list s (args_of tx cts batch rs)))"
| "may_call s (Collecting low 0 0) (Waiting low 0 0)"

text \<open>The value a finished get returns, and the decision of a finished commit.\<close>

definition got_value :: "call \<Rightarrow> observation option" where
  "got_value c = (case c of Finished (Op_get k t) (Got (Inr v)) \<Rightarrow> Some (k, v) | _ \<Rightarrow> None)"

definition obtained :: "call \<Rightarrow> observation list" where
  "obtained c = (case got_value c of Some kv \<Rightarrow> [kv] | None \<Rightarrow> [])"

text \<open>Where the process is once its call has returned.\<close>

fun return_to :: "process \<Rightarrow> call \<Rightarrow> process" where
  "return_to (Open tx) c = (case got_value c of Some (k, v) \<Rightarrow> Open (track_read tx k) | None \<Rightarrow> Open tx)"
| "return_to (Allocated tx cts batch rs) c =
     (case c of Finished a (Committed r) \<Rightarrow> Validated tx cts batch r | _ \<Rightarrow> Allocated tx cts batch rs)"
| "return_to (Collecting low i n) c = (case c of Collected low' n' \<Rightarrow> Idle | _ \<Rightarrow> Collecting low i n)"
| "return_to P c = P"

fun returned_call :: "call \<Rightarrow> bool" where
  "returned_call (Finished a r) = True"
| "returned_call (Collected low n) = True"
| "returned_call c = False"

text \<open>The commit that a process makes when its call into the store has this effect.\<close>

definition made_by :: "process \<Rightarrow> observation list \<Rightarrow> (store_op \<times> store_res) list \<Rightarrow> commit list" where
  "made_by P vs es =
     (case P of
        Allocated tx cts batch rs \<Rightarrow>
          (if Committed (Inr ()) \<in> snd ` set es then [\<lparr>c_tx = tx, c_ts = cts, c_seen = vs\<rparr>] else [])
      | _ \<Rightarrow> [])"

inductive engine_step :: "'w wal_ops \<Rightarrow> 'w engine \<Rightarrow> 'w engine \<Rightarrow> bool"
  for W :: "'w wal_ops" where
  e_begin:
    "tasks F p = Idle \<Longrightarrow> Transaction_new (core F) ser = (tx, d) \<Longrightarrow>
     engine_step W F (F\<lparr>core := d, tasks := (tasks F)(p := Open tx), got := (got F)(p := [])\<rparr>)"
| e_own:
    "tasks F p = Open tx \<Longrightarrow> store_call F p = Resting \<Longrightarrow> map_of (writes tx) k = Some own \<Longrightarrow> engine_step W F F"
| e_put:
    "tasks F p = Open tx \<Longrightarrow> store_call F p = Resting \<Longrightarrow>
     engine_step W F (F\<lparr>tasks := (tasks F)(p := Open (Transaction_put tx k v))\<rparr>)"
| e_delete:
    "tasks F p = Open tx \<Longrightarrow> store_call F p = Resting \<Longrightarrow>
     engine_step W F (F\<lparr>tasks := (tasks F)(p := Open (Transaction_delete tx k))\<rparr>)"
| e_rollback:
    "tasks F p = Open tx \<Longrightarrow> store_call F p = Resting \<Longrightarrow>
     engine_step W F (F\<lparr>core := Transaction_rollback (core F) tx, tasks := (tasks F)(p := Idle)\<rparr>)"
| e_commit_empty:
    "tasks F p = Open tx \<Longrightarrow> store_call F p = Resting \<Longrightarrow> writes tx = [] \<Longrightarrow>
     engine_step W F (F\<lparr>core := ActiveReader_drop (core F) (active tx),
       tasks := (tasks F)(p := Returned (Inr (Transaction_read_timestamp tx)))\<rparr>)"
| e_alloc:
    "tasks F p = Open tx \<Longrightarrow> store_call F p = Resting \<Longrightarrow> writes tx \<noteq> [] \<Longrightarrow> hash_order_ok ord \<Longrightarrow>
     alloc_commit_ts (in_oracle (core F)) = (cts, orc) \<Longrightarrow>
     engine_step W F (F\<lparr>core := (core F)\<lparr>in_oracle := orc\<rparr>,
       tasks := (tasks F)(p := Allocated tx cts (order_writes ord (writes tx)) (commit_reads ord tx))\<rparr>)"
| e_conflict:
    "tasks F p = Validated tx cts batch (Inl e) \<Longrightarrow>
     engine_step W F (F\<lparr>tasks := (tasks F)(p := Decided tx cts (Inl e))\<rparr>)"
| e_log:
    "tasks F p = Validated tx cts batch (Inr u) \<Longrightarrow> log_commit W (core F) cts batch = (r, d) \<Longrightarrow>
     engine_step W F (F\<lparr>core := d, tasks := (tasks F)(p := Decided tx cts r)\<rparr>)"
| e_done:
    "tasks F p = Decided tx cts r \<Longrightarrow>
     engine_step W F (F\<lparr>core := done_step cts (core F), tasks := (tasks F)(p := Released tx r)\<rparr>)"
| e_drop:
    "tasks F p = Released tx r \<Longrightarrow>
     engine_step W F (F\<lparr>core := ActiveReader_drop (core F) (active tx), tasks := (tasks F)(p := Returned r)\<rparr>)"
| e_snapshot:
    "tasks F p = Idle \<Longrightarrow> Snapshot_new (core F) = (sn, d) \<Longrightarrow>
     engine_step W F (F\<lparr>core := d, tasks := (tasks F)(p := Viewing sn), got := (got F)(p := [])\<rparr>)"
| e_drop_snapshot:
    "tasks F p = Viewing sn \<Longrightarrow> store_call F p = Resting \<Longrightarrow>
     engine_step W F (F\<lparr>core := Snapshot_drop (core F) sn, tasks := (tasks F)(p := Idle)\<rparr>)"
| e_gc:
    "tasks F p = Idle \<Longrightarrow>
     engine_step W F (F\<lparr>tasks := (tasks F)(p := Collecting (low_watermark (in_oracle (core F))) 0 0)\<rparr>)"
| e_call:
    "store_call F p = Resting \<Longrightarrow> may_call (in_store (core F)) (tasks F p) c \<Longrightarrow>
     engine_step W F (F\<lparr>store_call := (store_call F)(p := c)\<rparr>)"
| e_work:
    "active_call (store_call F p) \<Longrightarrow>
     granted \<lparr>mem = in_store (core F), calls = store_call F, effects = [], since = (\<lambda>_. 0)\<rparr> p \<Longrightarrow>
     proceed (in_store (core F)) (store_call F p) = (c, s, es) \<Longrightarrow>
     engine_step W F (F\<lparr>core := (core F)\<lparr>in_store := s\<rparr>, store_call := (store_call F)(p := c),
       made := made F @ made_by (tasks F p) (got F p) es\<rparr>)"
| e_return:
    "returned_call (store_call F p) \<Longrightarrow>
     engine_step W F (F\<lparr>tasks := (tasks F)(p := return_to (tasks F p) (store_call F p)),
       store_call := (store_call F)(p := Resting), got := (got F)(p := got F p @ obtained (store_call F p))\<rparr>)"

inductive engine_run :: "'w wal_ops \<Rightarrow> (memory_store, 'w) inner \<Rightarrow> 'w engine \<Rightarrow> bool" for W d where
  run_start: "engine_run W d (engine_start d)"
| run_step: "engine_run W d F \<Longrightarrow> oracle_room (in_oracle (core F)) \<Longrightarrow> engine_step W F F' \<Longrightarrow> engine_run W d F'"

text \<open>
  Where the atomic model sees a process: past its call once the call has taken effect, and a collection
  at the shard it has reached.
\<close>

definition decided :: "call \<Rightarrow> unit result option" where
  "decided c =
     (case c of
        Applying a hs todo \<Rightarrow> Some (Inr ())
      | Unlocking a r hs \<Rightarrow> Some r
      | Finished a (Committed r) \<Rightarrow> Some r
      | _ \<Rightarrow> None)"

fun seen_as :: "process \<Rightarrow> call \<Rightarrow> process" where
  "seen_as (Open tx) c = (case got_value c of Some (k, v) \<Rightarrow> Open (track_read tx k) | None \<Rightarrow> Open tx)"
| "seen_as (Allocated tx cts batch rs) c =
     (case decided c of Some r \<Rightarrow> Validated tx cts batch r | None \<Rightarrow> Allocated tx cts batch rs)"
| "seen_as (Collecting low i n) c =
     (case c of
        Waiting low' i' n' \<Rightarrow> Collecting low i' n'
      | Sweeping low' i' n' \<Rightarrow> Collecting low i' n'
      | Collected low' n' \<Rightarrow> Idle
      | _ \<Rightarrow> Collecting low i n)"
| "seen_as P c = P"

text \<open>The calls a process can be in.\<close>

fun in_call :: "process \<Rightarrow> call \<Rightarrow> bool" where
  "in_call (Open tx) c \<longleftrightarrow>
     (case c of
        Resting \<Rightarrow> True
      | Getting k t \<Rightarrow> map_of (writes tx) k = None \<and> t = Transaction_read_timestamp tx
      | Reading k t \<Rightarrow> map_of (writes tx) k = None \<and> t = Transaction_read_timestamp tx
      | Finished a r \<Rightarrow> got_value c \<noteq> None
      | _ \<Rightarrow> False)"
| "in_call (Viewing sn) c \<longleftrightarrow>
     (case c of
        Resting \<Rightarrow> True
      | Getting k t \<Rightarrow> t = Snapshot_read_timestamp sn
      | Reading k t \<Rightarrow> t = Snapshot_read_timestamp sn
      | Finished a r \<Rightarrow> got_value c \<noteq> None
      | _ \<Rightarrow> False)"
| "in_call (Allocated tx cts batch rs) c \<longleftrightarrow>
     (case c of
        Resting \<Rightarrow> True
      | Locking a hs todo \<Rightarrow> a = args_of tx cts batch rs
      | Checking a hs passed todo \<Rightarrow> a = args_of tx cts batch rs
      | Applying a hs todo \<Rightarrow> a = args_of tx cts batch rs
      | Unlocking a r hs \<Rightarrow> a = args_of tx cts batch rs
      | Finished a r \<Rightarrow> decided c \<noteq> None
      | _ \<Rightarrow> False)"
| "in_call (Collecting low i n) c \<longleftrightarrow>
     (case c of
        Resting \<Rightarrow> True
      | Waiting low' i' n' \<Rightarrow> low' = low
      | Sweeping low' i' n' \<Rightarrow> low' = low
      | Collected low' n' \<Rightarrow> True
      | _ \<Rightarrow> False)"
| "in_call P c \<longleftrightarrow> c = Resting"

text \<open>The store and the calls of an engine, as theory \<open>Shard_Locks\<close> has them.\<close>

definition lock_view :: "'w engine \<Rightarrow> locked_store" where
  "lock_view F = \<lparr>mem = in_store (core F), calls = store_call F, effects = [], since = (\<lambda>_. 0)\<rparr>"

text \<open>
  The simulation relation: the same oracle and log, each process and what it has got as seen, and an
  atomic store that what the half-done commits have still to push would complete the memory to.
\<close>

definition engine_match :: "'w engine \<Rightarrow> (memory_store, 'w) system \<Rightarrow> bool" where
  "engine_match F S \<longleftrightarrow> core F = (shared S)\<lparr>in_store := in_store (core F)\<rparr>
     \<and> lock_inv (in_store (shared S)) (lock_view F)
     \<and> (\<forall>p. procs S p = seen_as (tasks F p) (store_call F p))
     \<and> (\<forall>p. seen S p = got F p @ obtained (store_call F p))
     \<and> (\<forall>p. in_call (tasks F p) (store_call F p))
     \<and> history S = made F"

section \<open>Lemmas\<close>

declare got_value_def [simp] decided_def [simp] obtained_def [simp]

lemma made_by_simps [simp]:
  "made_by P vs [] = []" "made_by P vs [(a, Got v)] = []" "made_by P vs [(a, Swept n)] = []"
  by (simp_all add: made_by_def split: process.split)

lemma made_by_commit [simp]:
  "made_by (Allocated tx cts batch rs) vs [(a, Committed r)] =
     (if isl r then [] else [\<lparr>c_tx = tx, c_ts = cts, c_seen = vs\<rparr>])"
  by (cases r) (simp_all add: made_by_def)

lemma obtained_Resting: "obtained Resting = []"
  by simp

lemma shared_update_eqs:
  "snd (Transaction_new (d\<lparr>in_store := s\<rparr>) b) = (snd (Transaction_new d b))\<lparr>in_store := s\<rparr>"
  "fst (Transaction_new (d\<lparr>in_store := s\<rparr>) b) = fst (Transaction_new d b)"
  "snd (Snapshot_new (d\<lparr>in_store := s\<rparr>)) = (snd (Snapshot_new d))\<lparr>in_store := s\<rparr>"
  "fst (Snapshot_new (d\<lparr>in_store := s\<rparr>)) = fst (Snapshot_new d)"
  "ActiveReader_drop (d\<lparr>in_store := s\<rparr>) a = (ActiveReader_drop d a)\<lparr>in_store := s\<rparr>"
  "fst (log_commit W (d\<lparr>in_store := s\<rparr>) cts batch) = fst (log_commit W d cts batch)"
  "snd (log_commit W (d\<lparr>in_store := s\<rparr>) cts batch) = (snd (log_commit W d cts batch))\<lparr>in_store := s\<rparr>"
  by (simp_all add: inner_defs log_commit_def Let_def split_beta split: option.split sum.split)

text \<open>Steps that do not touch the store.\<close>

lemma keeps_store:
  "in_store (snd (Transaction_new d b)) = in_store d" "in_store (snd (Snapshot_new d)) = in_store d"
  "in_store (ActiveReader_drop d a) = in_store d" "in_store (snd (log_commit W d cts batch)) = in_store d"
  by (simp_all add: inner_defs log_commit_def Let_def split_beta split: option.split sum.split)

lemma match_local:
  assumes m: "engine_match F S" and p: "store_call F p = Resting"
    and F': "core F' = d'\<lparr>in_store := in_store (core F)\<rparr>" "tasks F' = (tasks F)(p := x)" "store_call F' = store_call F"
      "got F' = (got F)(p := g)" "made F' = made F"
    and S': "shared S' = d'\<lparr>in_store := in_store (shared S)\<rparr>" "procs S' = (procs S)(p := x)" "seen S' = (seen S)(p := g)"
      "history S' = history S"
  shows "engine_match F' S'"
proof -
  have "seen_as P Resting = P" for P by (cases P) simp_all
  moreover have "in_call P Resting" for P by (cases P) simp_all
  moreover have "lock_view F' = lock_view F" using F' by (simp add: lock_view_def)
  ultimately show ?thesis
    using m p F' S' by (simp add: engine_match_def)
qed

lemma matchD:
  assumes "engine_match F S"
  shows "core F = (shared S)\<lparr>in_store := in_store (core F)\<rparr>" "in_oracle (core F) = in_oracle (shared S)"
    "lock_inv (in_store (shared S)) (lock_view F)" "procs S p = seen_as (tasks F p) (store_call F p)"
    "seen S p = got F p @ obtained (store_call F p)" "in_call (tasks F p) (store_call F p)" "history S = made F"
proof -
  show c: "core F = (shared S)\<lparr>in_store := in_store (core F)\<rparr>"
    using assms unfolding engine_match_def by (rule conjunct1)
  show "in_oracle (core F) = in_oracle (shared S)" by (subst c) simp
qed (use assms in \<open>simp_all only: engine_match_def\<close>)

lemma at_rest:
  assumes "engine_match F S" "store_call F p = Resting"
  shows "procs S p = tasks F p" "seen S p = got F p"
  using matchD(4,5) [OF assms(1), of p] assms(2) by (cases "tasks F p"; simp)+

lemma rest_of: "engine_match F S \<Longrightarrow> tasks F p \<in> {Idle} \<union> {Validated tx cts batch r |tx cts batch r. True}
    \<union> {Decided tx cts r |tx cts r. True} \<union> {Released tx r |tx r. True} \<Longrightarrow> store_call F p = Resting"
  using matchD(6) [of F S p] by auto

text \<open>The steps of the engine that are not in the store are steps of the atomic model.\<close>

lemma simulate_local:
  assumes m: "engine_match F S" and p: "store_call F p = Resting"
    and st: "step MemoryStore W MemoryStore_slices S S'"
    and F': "F' = F\<lparr>core := d\<lparr>in_store := in_store (core F)\<rparr>, tasks := (tasks F)(p := x), got := (got F)(p := g)\<rparr>"
    and S': "shared S' = d\<lparr>in_store := in_store (shared S)\<rparr>" "procs S' = (procs S)(p := x)" "seen S' = (seen S)(p := g)"
      "history S' = history S"
  shows "\<exists>S'. (S' = S \<or> step MemoryStore W MemoryStore_slices S S') \<and> engine_match F' S'"
proof -
  have "engine_match F' S'" using m p by (rule match_local) (simp_all add: F' S')
  with st show ?thesis by blast
qed

lemma match_core:
  assumes "engine_match F S"
  shows "shared S = (core F)\<lparr>in_store := in_store (shared S)\<rparr>"
  by (subst matchD(1) [OF assms]) simp

text \<open>The steps of a call: the store view restarted at the atomic store it has reached.\<close>

lemma lock_inv_restart:
  assumes "lock_inv t X"
  obtains t' where "atomic_run t (map snd (effects X)) t'" "lock_inv t' (X\<lparr>effects := []\<rparr>)"
proof -
  obtain t' where t': "atomic_run t (map snd (effects X)) t'" "matches X t'"
    using assms by (auto simp: lock_inv_def)
  then have "same_on {} t' (mem X)" by (auto simp: matches_def intro: same_on_sym same_on_mono)
  moreover have "matches (X\<lparr>effects := []\<rparr>) t'" using t'(2) by (simp add: matches_def)
  ultimately have "lock_inv t' (X\<lparr>effects := []\<rparr>)" using assms by (auto simp: lock_inv_def)
  with t'(1) show thesis by (rule that)
qed

lemma match_call:
  assumes m: "engine_match F S"
    and F': "F' = F\<lparr>core := (core F)\<lparr>in_store := s\<rparr>, store_call := (store_call F)(p := c), made := made F @ new\<rparr>"
    and inv: "lock_inv t' (lock_view F')" and c: "in_call (tasks F p) c"
    and S': "shared S' = (shared S)\<lparr>in_store := t'\<rparr>" "procs S' = (procs S)(p := seen_as (tasks F p) c)"
      "seen S' = (seen S)(p := got F p @ obtained c)" "history S' = history S @ new"
  shows "engine_match F' S'"
  unfolding engine_match_def
proof (intro conjI allI)
  show "core F' = (shared S')\<lparr>in_store := in_store (core F')\<rparr>"
    by (simp add: F' S' matchD(1) [OF m, symmetric]) (subst matchD(1) [OF m], simp)
  show "lock_inv (in_store (shared S')) (lock_view F')" using inv by (simp add: S')
  show "history S' = made F'" by (simp add: F' S' matchD(7) [OF m])
  fix q
  show "procs S' q = seen_as (tasks F' q) (store_call F' q)" using matchD(4) [OF m] by (simp add: F' S')
  show "seen S' q = got F' q @ obtained (store_call F' q)" using matchD(5) [OF m] by (simp add: F' S' del: obtained_def)
  show "in_call (tasks F' q) (store_call F' q)" using matchD(6) [OF m] c by (simp add: F')
qed

text \<open>A step of a call in which nothing takes effect is not seen, but for the end of a collection.\<close>

lemma quiet_proceed:
  assumes "proceed s c = (c', s', [])" "in_call P c" "active_call c" "\<nexists>low n. c' = Collected low n"
  shows "seen_as P c' = seen_as P c" "obtained c' = obtained c" "in_call P c'"
  using assms
  by (induction s c rule: proceed.induct; cases P; auto simp: Let_def split: option.splits if_splits prod.splits)+

lemma match_return:
  assumes m: "engine_match F S" and c: "returned_call (store_call F p)"
  shows "engine_match (F\<lparr>tasks := (tasks F)(p := return_to (tasks F p) (store_call F p)),
    store_call := (store_call F)(p := Resting), got := (got F)(p := got F p @ obtained (store_call F p))\<rparr>) S"
    (is "engine_match ?F S")
proof -
  have "applying_on (store_call F p) = {}" using c by (cases "store_call F p") simp_all
  then have "lock_inv (in_store (shared S)) (lock_view F\<lparr>calls := (calls (lock_view F))(p := Resting)\<rparr>)"
    by (intro lock_inv_quiet [OF matchD(3) [OF m]]) (simp_all add: lock_view_def)
  then have "lock_inv (in_store (shared S)) (lock_view ?F)" by (simp add: lock_view_def)
  moreover have "seen_as (return_to (tasks F p) (store_call F p)) Resting = seen_as (tasks F p) (store_call F p)"
    "in_call (return_to (tasks F p) (store_call F p)) Resting"
    using matchD(6) [OF m, of p] c
    by (cases "tasks F p"; cases "store_call F p"; auto split: store_op.splits store_res.splits sum.splits)+
  ultimately show ?thesis
    using m unfolding engine_match_def by (auto simp: obtained_Resting simp del: obtained_def)
qed

text \<open>A step of a call: its effect, if it has one, is a step of the atomic model.\<close>

lemma simulate_work:
  assumes m: "engine_match F S" and act: "active_call (store_call F p)" and g: "granted (lock_view F) p"
    and pr: "proceed (in_store (core F)) (store_call F p) = (c, s, es)"
    and F': "F' = F\<lparr>core := (core F)\<lparr>in_store := s\<rparr>, store_call := (store_call F)(p := c),
      made := made F @ made_by (tasks F p) (got F p) es\<rparr>"
  shows "\<exists>S'. (S' = S \<or> step MemoryStore W MemoryStore_slices S S') \<and> engine_match F' S'"
proof -
  let ?t = "in_store (shared S)" and ?P = "tasks F p" and ?c = "store_call F p"
  note inC = matchD(6) [OF m, of p] and at = matchD(4,5) [OF m, of p] and sh = match_core [OF m]
  have after: "after_step (lock_view F) p = (lock_view F')\<lparr>effects := map (Pair p) es\<rparr>"
    by (simp add: after_step_def lock_view_def pr F')
  have "lock_inv ?t (after_step (lock_view F) p)"
    using work_inv [OF matchD(3) [OF m] _ g] act by (simp add: lock_view_def)
  then have "lock_inv ?t ((lock_view F')\<lparr>effects := map (Pair p) es\<rparr>)" unfolding after .
  then obtain t' where t0: "atomic_run ?t (map snd (effects ((lock_view F')\<lparr>effects := map (Pair p) es\<rparr>))) t'"
    "lock_inv t' ((lock_view F')\<lparr>effects := map (Pair p) es, effects := []\<rparr>)"
    by (rule lock_inv_restart)
  then have t': "atomic_run ?t es t'" "lock_inv t' (lock_view F')" by (simp_all add: o_def lock_view_def)
  have view: "procs S p = seen_as ?P ?c" "seen S p = got F p @ obtained ?c" by (rule at)+
  note go = match_call [OF m F' t'(2)]
  show ?thesis
  proof (cases es)
    case Nil
    then have t: "t' = ?t" using t'(1) by simp
    show ?thesis
    proof (cases "\<exists>low n. c = Collected low n")
      case False
      note q = quiet_proceed [OF pr [unfolded Nil] inC act False]
      have "engine_match F' S"
        by (rule go) (use q view t Nil in \<open>simp_all add: fun_upd_idem del: obtained_def\<close>)
      then show ?thesis by blast
    next
      case True
      then obtain low n i where w: "?c = Waiting low i n" "\<not> i < length (shards (in_store (core F)))" "c = Collected low n"
        using pr act Nil by (cases "(in_store (core F), ?c)" rule: proceed.cases)
          (auto simp: Let_def split: option.splits if_splits prod.splits)
      then obtain i0 n0 where P: "?P = Collecting low i0 n0" using inC by (cases ?P) auto
      have len: "length (shards ?t) = length (shards (in_store (core F)))"
        using matchD(3) [OF m] by (simp add: lock_inv_def same_on_def lock_view_def)
      have "step MemoryStore W MemoryStore_slices S (S\<lparr>procs := (procs S)(p := Idle)\<rparr>)"
        by (rule step.gc_end [of S p low i n]) (use view(1) w P len in \<open>simp_all add: MemoryStore_slices_def\<close>)
      moreover have "engine_match F' (S\<lparr>procs := (procs S)(p := Idle)\<rparr>)"
        by (rule go) (use w P view t Nil in \<open>simp_all add: fun_upd_idem\<close>)
      ultimately show ?thesis by blast
    qed
  next
    case (Cons e es')
    note cons = Cons
    show ?thesis
    proof (cases ?c)
      case (Reading k r)
      define v where "v = visible_value (map_of (shards (in_store (core F)) ! shard_of (in_store (core F)) k) k) r"
      have c: "c = Finished (Op_get k r) (Got (Inr v))" "es = [(Op_get k r, Got (Inr v))]"
        using pr Reading by (auto simp: v_def Let_def)
      then have get: "MemoryStore_get ?t k r = Inr v" "t' = ?t" using t'(1) by simp_all
      show ?thesis
      proof (cases ?P)
        case (Open tx)
        let ?S = "S\<lparr>procs := (procs S)(p := Open (track_read tx k)), seen := (seen S)(p := seen S p @ [(k, v)])\<rparr>"
        have own: "map_of (writes tx) k = None" "r = Transaction_read_timestamp tx"
          using inC by (simp_all add: Open Reading)
        have "Transaction_get MemoryStore (shared S) tx k = (Inr v, track_read tx k)"
          using own get(1) by (simp add: Transaction_get_def track_read_def Transaction_read_timestamp_def MemoryStore_def split: option.split)
        from step.get_tx [of S p tx, OF _ this] have "step MemoryStore W MemoryStore_slices S ?S"
          using view(1) own(1) by (simp add: Open Reading store_reads_def)
        moreover have "engine_match F' ?S"
          by (rule go) (use view get(2) c in \<open>simp_all add: Open Reading\<close>)
        ultimately show ?thesis by blast
      next
        case (Viewing sn)
        let ?S = "S\<lparr>seen := (seen S)(p := seen S p @ [(k, v)])\<rparr>"
        have r: "r = Snapshot_read_timestamp sn" using inC by (simp add: Viewing Reading)
        then have "Snapshot_get MemoryStore (shared S) sn k = Inr v"
          using get(1) by (simp add: Snapshot_get_def Snapshot_read_timestamp_def MemoryStore_def)
        from step.get_snapshot [of S p sn, OF _ this] have "step MemoryStore W MemoryStore_slices S ?S"
          using view(1) by (simp add: Viewing Reading snapshot_reads_def)
        moreover have "engine_match F' ?S"
          by (rule go) (use view get(2) c in \<open>simp_all add: Viewing Reading fun_upd_idem\<close>)
        ultimately show ?thesis by blast
      qed (use inC Reading in simp_all)
    next
      case (Checking a hs passed todo)
      obtain tx cts batch rs where P: "?P = Allocated tx cts batch rs" "a = args_of tx cts batch rs"
        using inC Checking by (cases ?P) auto
      obtain r where c: "decided c = Some r" "es = [(commit_op a, Committed r)]" "obtained c = []" "in_call ?P c"
        using pr Checking cons P by (cases todo) (auto split: option.splits)
      have com: "MemoryStore_try_commit ?t (Transaction_read_timestamp tx) cts batch rs = (r, t')"
        using t'(1) by (simp add: c(2) P(2) args_of_def split_beta prod_eq_iff)
      let ?S = "S\<lparr>shared := (shared S)\<lparr>in_store := t'\<rparr>, procs := (procs S)(p := Validated tx cts batch r),
        history := history S @ (if isl r then [] else [\<lparr>c_tx = tx, c_ts = cts, c_seen = seen S p\<rparr>])\<rparr>"
      have "step MemoryStore W MemoryStore_slices S ?S"
        by (rule step.commit_apply [of S p tx cts batch rs])
          (use view(1) com in \<open>simp_all add: P(1) Checking MemoryStore_def\<close>)
      moreover have "engine_match F' ?S"
        by (rule go) (use view c P(1) in \<open>simp_all add: Checking fun_upd_idem del: decided_def obtained_def, simp_all add: fun_upd_idem\<close>)
      ultimately show ?thesis by blast
    next
      case (Sweeping low i n)
      obtain i0 n0 where P: "?P = Collecting low i0 n0" using inC Sweeping by (cases ?P) auto
      obtain k u where u: "gc_slice (in_store (core F)) low i = (k, u)" by force
      then have c: "c = Waiting low (Suc i) (n + k)" "es = [(Op_sweep low i, Swept k)]" using pr Sweeping by simp_all
      have sl: "gc_slice ?t low i = (k, t')" using t'(1) by (simp add: c(2) split_beta prod_eq_iff)
      have "length (shards ?t) = length (shards (in_store (core F)))" "i < length (shards (in_store (core F)))"
        using matchD(3) [OF m] lock_invD(2) [OF matchD(3) [OF m], of p] Sweeping
        by (simp_all add: lock_inv_def same_on_def lock_view_def)
      then have "step MemoryStore W MemoryStore_slices S
          (S\<lparr>shared := (shared S)\<lparr>in_store := t'\<rparr>, procs := (procs S)(p := Collecting low (Suc i) (n + k))\<rparr>)"
        by (intro step.gc_next) (use view(1) sl in \<open>simp_all add: P Sweeping MemoryStore_slices_def\<close>)
      moreover have "engine_match F'
          (S\<lparr>shared := (shared S)\<lparr>in_store := t'\<rparr>, procs := (procs S)(p := Collecting low (Suc i) (n + k))\<rparr>)"
        by (rule go) (use view c in \<open>simp_all add: P Sweeping fun_upd_idem\<close>)
      ultimately show ?thesis by blast
    next
      case (Locking a hs todo)
      then show ?thesis using pr cons by (cases todo) simp_all
    next
      case (Applying a hs todo)
      then show ?thesis using pr cons by (cases todo; cases "fst (hd todo)") auto
    next
      case (Unlocking a r hs)
      then show ?thesis using pr cons by (cases hs) simp_all
    qed (use pr cons act in \<open>simp_all split: if_splits\<close>)
  qed
qed

lemma simulate_step:
  assumes m: "engine_match F S" and st: "engine_step W F F'"
  shows "\<exists>S'. (S' = S \<or> step MemoryStore W MemoryStore_slices S S') \<and> engine_match F' S'"
  using st
proof (cases rule: engine_step.cases)
  note sh = match_core [OF m] and rest = rest_of [OF m] and now = at_rest [OF m]
  let ?s = "in_store (shared S)"
  let ?step = "step MemoryStore W MemoryStore_slices"
  {
    case (e_begin p ser tx d)
    then have p: "store_call F p = Resting" by (intro rest) simp
    have new: "Transaction_new (shared S) ser = (tx, d\<lparr>in_store := ?s\<rparr>)"
      using e_begin(3) by (subst sh) (simp add: prod_eq_iff shared_update_eqs)
    have d: "in_store d = in_store (core F)" using e_begin(3) keeps_store(1) [of "core F" ser] by simp
    show ?thesis
      by (rule simulate_local [OF m p step.begin_tx [of S p, OF _ new], where d = d and x = "Open tx" and g = "[]"])
        (use e_begin now [OF p] d in \<open>simp_all add: fun_upd_idem\<close>)
  next
    case (e_own p tx k own)
    then show ?thesis using m by blast
  next
    case (e_put p tx k v)
    show ?thesis
      by (rule simulate_local [OF m e_put(3) step.put_tx [where p = p and tx = tx and k = k and v = v], where d = "core F" and g = "got F p" and x = "Open (Transaction_put tx k v)"])
        (use e_put now [OF e_put(3)] sh in \<open>simp_all add: fun_upd_idem\<close>)
  next
    case (e_delete p tx k)
    show ?thesis
      by (rule simulate_local [OF m e_delete(3) step.delete_tx [where p = p and tx = tx and k = k], where d = "core F" and g = "got F p" and x = "Open (Transaction_delete tx k)"])
        (use e_delete now [OF e_delete(3)] sh in \<open>simp_all add: fun_upd_idem\<close>)
  next
    case (e_rollback p tx)
    show ?thesis
      by (rule simulate_local [OF m e_rollback(3) step.rollback_tx [of S p tx], where d = "Transaction_rollback (core F) tx" and g = "got F p" and x = Idle])
        (use e_rollback now [OF e_rollback(3)] in \<open>simp_all add: Transaction_rollback_def keeps_store fun_upd_idem\<close>,
         subst sh, simp add: Transaction_rollback_def shared_update_eqs)
  next
    case (e_commit_empty p tx)
    show ?thesis
      by (rule simulate_local [OF m e_commit_empty(3) step.commit_empty [of S p tx], where d = "ActiveReader_drop (core F) (active tx)" and g = "got F p"
          and x = "Returned (Inr (Transaction_read_timestamp tx))"])
        (use e_commit_empty now [OF e_commit_empty(3)] in \<open>simp_all add: keeps_store fun_upd_idem\<close>,
         subst sh, simp add: shared_update_eqs)
  next
    case (e_alloc p tx ord cts orc)
    show ?thesis
      by (rule simulate_local [OF m e_alloc(3) step.commit_alloc [of S p tx ord cts orc], where d = "core F\<lparr>in_oracle := orc\<rparr>" and g = "got F p"
          and x = "Allocated tx cts (order_writes ord (writes tx)) (commit_reads ord tx)"])
        (use e_alloc now [OF e_alloc(3)] matchD(2) [OF m] in \<open>simp_all add: fun_upd_idem\<close>, subst sh, simp)
  next
    case (e_conflict p tx cts batch e)
    then have p: "store_call F p = Resting" by (intro rest) simp
    show ?thesis
      by (rule simulate_local [OF m p step.commit_conflict [of S p tx cts batch e], where d = "core F" and g = "got F p" and x = "Decided tx cts (Inl e)"])
        (use e_conflict now [OF p] sh in \<open>simp_all add: fun_upd_idem\<close>)
  next
    case (e_log p tx cts batch u r d)
    then have p: "store_call F p = Resting" by (intro rest) simp
    have lg: "log_commit W (shared S) cts batch = (r, d\<lparr>in_store := ?s\<rparr>)"
      using e_log(3) by (subst sh) (simp add: prod_eq_iff shared_update_eqs)
    have d: "in_store d = in_store (core F)" using e_log(3) keeps_store(4) [of W "core F" cts batch] by simp
    show ?thesis
      by (rule simulate_local [OF m p step.commit_log_step [of S p tx cts batch u, OF _ lg], where d = d and g = "got F p" and x = "Decided tx cts r"])
        (use e_log now [OF p] d in \<open>simp_all add: fun_upd_idem\<close>)
  next
    case (e_done p tx cts r)
    then have p: "store_call F p = Resting" by (intro rest) simp
    show ?thesis
      by (rule simulate_local [OF m p step.commit_done_step [of S p tx cts r], where d = "done_step cts (core F)" and g = "got F p" and x = "Released tx r"])
        (use e_done now [OF p] matchD(2) [OF m] in \<open>simp_all add: fun_upd_idem\<close>, subst sh, simp)
  next
    case (e_drop p tx r)
    then have p: "store_call F p = Resting" by (intro rest) simp
    show ?thesis
      by (rule simulate_local [OF m p step.commit_drop [of S p tx r], where d = "ActiveReader_drop (core F) (active tx)" and g = "got F p" and x = "Returned r"])
        (use e_drop now [OF p] in \<open>simp_all add: keeps_store fun_upd_idem\<close>, subst sh, simp add: shared_update_eqs)
  next
    case (e_snapshot p sn d)
    then have p: "store_call F p = Resting" by (intro rest) simp
    have new: "Snapshot_new (shared S) = (sn, d\<lparr>in_store := ?s\<rparr>)"
      using e_snapshot(3) by (subst sh) (simp add: prod_eq_iff shared_update_eqs)
    have d: "in_store d = in_store (core F)" using e_snapshot(3) keeps_store(2) [of "core F"] by simp
    show ?thesis
      by (rule simulate_local [OF m p step.open_snapshot [of S p, OF _ new], where d = d and g = "[]" and x = "Viewing sn"])
        (use e_snapshot now [OF p] d in \<open>simp_all add: fun_upd_idem\<close>)
  next
    case (e_drop_snapshot p sn)
    show ?thesis
      by (rule simulate_local [OF m e_drop_snapshot(3) step.drop_snapshot [of S p sn], where d = "Snapshot_drop (core F) sn" and g = "got F p" and x = Idle])
        (use e_drop_snapshot now [OF e_drop_snapshot(3)] in \<open>simp_all add: Snapshot_drop_def keeps_store fun_upd_idem\<close>,
         subst sh, simp add: Snapshot_drop_def shared_update_eqs)
  next
    case (e_gc p)
    then have p: "store_call F p = Resting" by (intro rest) simp
    show ?thesis
      by (rule simulate_local [OF m p step.gc_begin [of S p], where d = "core F" and g = "got F p" and x = "Collecting (low_watermark (in_oracle (core F))) 0 0"])
        (use e_gc now [OF p] matchD(2) [OF m] sh in \<open>simp_all add: fun_upd_idem\<close>)
  next
    case (e_call p c)
    have c: "entry_point (in_store (core F)) c" "seen_as (tasks F p) c = tasks F p" "obtained c = []" "in_call (tasks F p) c"
      using e_call(3) by (cases rule: may_call.cases; simp)+
    have "lock_inv ?s (lock_view F\<lparr>calls := (store_call F)(p := c)\<rparr>)"
      using invoke_inv [OF matchD(3) [OF m], of p c] e_call(2) c(1) by (simp add: lock_view_def)
    then have "lock_inv ?s (lock_view F')" by (simp add: e_call(1) lock_view_def)
    then have "engine_match F' S"
      by (rule match_call [OF m, where s = "in_store (core F)" and p = p and c = c and new = "[]", rotated])
        (use e_call(1) c now [OF e_call(2)] in \<open>simp_all add: fun_upd_idem\<close>)
    then show ?thesis by blast
  next
    case (e_work p c s es)
    then show ?thesis using simulate_work [OF m e_work(2) _ e_work(4,1)] by (simp add: lock_view_def)
  next
    case (e_return p)
    then show ?thesis using match_return [OF m, of p] by blast
  }
qed

text \<open>The engine from its start.\<close>

lemma engine_simulated:
  "engine_run W d F \<Longrightarrow> \<exists>S. mem_reachable W d S \<and> engine_match F S"
proof (induction rule: engine_run.induct)
  case run_start
  have "lock_inv (in_store d) (lock_view (engine_start d))"
    using locked_run_inv [OF locked_run.idle] by (simp add: lock_view_def engine_start_def)
  then have "engine_match (engine_start d) (start d)"
    by (simp add: engine_match_def) (simp add: engine_start_def start_def)
  then show ?case using reach_start by blast
next
  case (run_step F F')
  then obtain S where S: "mem_reachable W d S" "engine_match F S" by blast
  obtain S' where S': "S' = S \<or> step MemoryStore W MemoryStore_slices S S'" "engine_match F' S'"
    using simulate_step [OF S(2) run_step.hyps(3)] by blast
  have "oracle_room (in_oracle (shared S))" using run_step.hyps(2) by (simp add: matchD(2) [OF S(2)])
  then show ?case using S' S(1) reach_step by blast
qed

lemma reader_seen_as: "in_call P c \<Longrightarrow> reader_of (seen_as P c) = reader_of P"
  by (cases P) (auto simp: track_read_def Transaction_read_timestamp_def
      split: call.splits store_op.splits store_res.splits sum.splits option.splits)

text \<open>When nothing is half pushed the memory is the atomic store.\<close>

lemma unpushed_store:
  assumes "engine_match F S" "\<And>p. applying_on (store_call F p) = {}"
  shows "core F = shared S"
proof -
  obtain t where "atomic_run (in_store (shared S)) [] t" "matches (lock_view F) t"
    using matchD(3) [OF assms(1)] by (auto simp: lock_inv_def lock_view_def)
  then have "same_on UNIV (in_store (core F)) (in_store (shared S))"
    using assms(2) by (simp add: matches_def lock_view_def)
  then have "in_store (core F) = in_store (shared S)"
    by (intro memory_store.equality) (auto simp: same_on_def intro: nth_equalityI)
  then show ?thesis by (subst matchD(1) [OF assms(1)]) simp
qed

lemma idle_calls_store:
  assumes "engine_match F S" "\<forall>p. \<not> active_call (store_call F p)"
  shows "core F = shared S"
proof -
  have "applying_on (store_call F p) = {}" for p using assms(2) [rule_format, of p] by (cases "store_call F p") simp_all
  with assms(1) show ?thesis by (rule unpushed_store)
qed

lemma uncommitting_store:
  assumes "engine_match F S" "\<forall>p. \<not> committing (tasks F p)"
  shows "core F = shared S"
proof -
  have "applying_on (store_call F p) = {}" for p
    using matchD(6) [OF assms(1), of p] assms(2) [rule_format, of p]
    by (cases "tasks F p"; cases "store_call F p") (simp_all add: committing_def)
  with assms(1) show ?thesis by (rule unpushed_store)
qed

section \<open>An executable schedule\<close>

definition granted_upto :: "nat \<Rightarrow> 'w engine \<Rightarrow> nat \<Rightarrow> bool" where
  "granted_upto n F p =
     (case wants (in_store (core F)) (store_call F p) of
        None \<Rightarrow> True
      | Some (wr, i) \<Rightarrow> list_all (\<lambda>q. i \<notin> write_held (store_call F q)
          \<and> (wr \<longrightarrow> i \<notin> read_held (in_store (core F)) (store_call F q))) [0..<n])"

text \<open>What a process does when it is not asked to do anything else: go on.\<close>

fun go_on :: "'w wal_ops \<Rightarrow> 'w engine \<Rightarrow> nat \<Rightarrow> process \<Rightarrow> 'w engine option" where
  "go_on W F p (Open tx) =
     (if writes tx = []
      then Some (F\<lparr>core := ActiveReader_drop (core F) (active tx),
        tasks := (tasks F)(p := Returned (Inr (Transaction_read_timestamp tx)))\<rparr>)
      else let (cts, orc) = alloc_commit_ts (in_oracle (core F))
           in Some (F\<lparr>core := (core F)\<lparr>in_oracle := orc\<rparr>,
                tasks := (tasks F)(p := Allocated tx cts (order_writes demo_order (writes tx)) (commit_reads demo_order tx))\<rparr>))"
| "go_on W F p (Allocated tx cts batch rs) =
     Some (F\<lparr>store_call := (store_call F)(p :=
       Locking (args_of tx cts batch rs) [] (lock_list (in_store (core F)) (args_of tx cts batch rs)))\<rparr>)"
| "go_on W F p (Validated tx cts batch (Inl e)) = Some (F\<lparr>tasks := (tasks F)(p := Decided tx cts (Inl e))\<rparr>)"
| "go_on W F p (Validated tx cts batch (Inr u)) =
     (let (r, d) = log_commit W (core F) cts batch in Some (F\<lparr>core := d, tasks := (tasks F)(p := Decided tx cts r)\<rparr>))"
| "go_on W F p (Decided tx cts r) =
     Some (F\<lparr>core := done_step cts (core F), tasks := (tasks F)(p := Released tx r)\<rparr>)"
| "go_on W F p (Released tx r) =
     Some (F\<lparr>core := ActiveReader_drop (core F) (active tx), tasks := (tasks F)(p := Returned r)\<rparr>)"
| "go_on W F p _ = None"

fun engine_do :: "'w wal_ops \<Rightarrow> 'w engine \<Rightarrow> nat \<Rightarrow> action \<Rightarrow> 'w engine option" where
  "engine_do W F p (Begin ser) =
     (case tasks F p of
        Idle \<Rightarrow> (let (tx, d) = Transaction_new (core F) ser
                 in Some (F\<lparr>core := d, tasks := (tasks F)(p := Open tx), got := (got F)(p := [])\<rparr>))
      | _ \<Rightarrow> None)"
| "engine_do W F p Snap =
     (case tasks F p of
        Idle \<Rightarrow> (let (sn, d) = Snapshot_new (core F)
                 in Some (F\<lparr>core := d, tasks := (tasks F)(p := Viewing sn), got := (got F)(p := [])\<rparr>))
      | _ \<Rightarrow> None)"
| "engine_do W F p (Put k v) =
     (case (tasks F p, store_call F p) of
        (Open tx, Resting) \<Rightarrow> Some (F\<lparr>tasks := (tasks F)(p := Open (Transaction_put tx k v))\<rparr>)
      | _ \<Rightarrow> None)"
| "engine_do W F p (Get k) =
     (case (tasks F p, store_call F p) of
        (Open tx, Resting) \<Rightarrow>
          (if map_of (writes tx) k = None
           then Some (F\<lparr>store_call := (store_call F)(p := Getting k (Transaction_read_timestamp tx))\<rparr>) else None)
      | (Viewing sn, Resting) \<Rightarrow>
          Some (F\<lparr>store_call := (store_call F)(p := Getting k (Snapshot_read_timestamp sn))\<rparr>)
      | _ \<Rightarrow> None)"
| "engine_do W F p a = None"

text \<open>\<open>Commit\<close> is scheduled once per step of a commit or a call, by processes below \<open>n\<close>.\<close>

definition engine_next :: "nat \<Rightarrow> 'w wal_ops \<Rightarrow> 'w engine \<Rightarrow> nat \<times> action \<Rightarrow> 'w engine option" where
  "engine_next n W F = (\<lambda>(p, a).
     if n \<le> p \<or> \<not> oracle_room (in_oracle (core F)) then None
     else if a \<noteq> Commit then engine_do W F p a
     else if active_call (store_call F p)
     then (if granted_upto n F p
           then let (c, s, es) = proceed (in_store (core F)) (store_call F p)
                in Some (F\<lparr>core := (core F)\<lparr>in_store := s\<rparr>, store_call := (store_call F)(p := c),
                  made := made F @ made_by (tasks F p) (got F p) es\<rparr>)
           else None)
     else if returned_call (store_call F p)
     then Some (F\<lparr>tasks := (tasks F)(p := return_to (tasks F p) (store_call F p)),
       store_call := (store_call F)(p := Resting), got := (got F)(p := got F p @ obtained (store_call F p))\<rparr>)
     else go_on W F p (tasks F p))"

fun engine_schedule :: "nat \<Rightarrow> 'w wal_ops \<Rightarrow> (nat \<times> action) list \<Rightarrow> 'w engine \<Rightarrow> 'w engine option" where
  "engine_schedule n W [] F = Some F"
| "engine_schedule n W (x # xs) F = Option.bind (engine_next n W F x) (engine_schedule n W xs)"

lemma go_on_step:
  "tasks F p = P \<Longrightarrow> store_call F p = Resting \<Longrightarrow> go_on W F p P = Some F' \<Longrightarrow>
     engine_step W F F' \<and> (\<forall>q. q \<noteq> p \<longrightarrow> store_call F' q = store_call F q)"
proof (induction W F p P rule: go_on.induct)
  case (1 W F p tx)
  then show ?case using e_commit_empty [of F p tx] e_alloc [of F p tx demo_order] demo_order_ok by (auto split: if_splits prod.splits)
next
  case (2 W F p tx cts batch rs)
  then have "may_call (in_store (core F)) (tasks F p)
      (Locking (args_of tx cts batch rs) [] (lock_list (in_store (core F)) (args_of tx cts batch rs)))"
    by (simp add: may_call.intros)
  then show ?case using 2 e_call [of F p] by auto
next
  case (3 W F p tx cts batch e)
  then show ?case using e_conflict [of F p] by auto
next
  case (4 W F p tx cts batch u)
  then show ?case using e_log [of F p] by (auto split: prod.splits)
next
  case (5 W F p tx cts r)
  then show ?case using e_done [of F p] by auto
next
  case (6 W F p tx r)
  then show ?case using e_drop [of F p] by auto
qed simp_all

lemma engine_do_step:
  "engine_do W F p a = Some F' \<Longrightarrow> engine_step W F F' \<and> (\<forall>q. q \<noteq> p \<longrightarrow> store_call F' q = store_call F q)"
proof (induction W F p a rule: engine_do.induct)
  case (1 W F p ser)
  then show ?case using e_begin [of F p] by (auto split: process.splits prod.splits)
next
  case (2 W F p)
  then show ?case using e_snapshot [of F p] by (auto split: process.splits prod.splits)
next
  case (3 W F p k v)
  then show ?case using e_put [of F p] by (auto split: process.splits call.splits)
next
  case (4 W F p k)
  then show ?case
    by (auto split: process.splits call.splits if_splits intro!: e_call intro: may_call.intros)
qed simp_all

lemma granted_upto_granted:
  assumes "granted_upto n F p" "\<forall>q\<ge>n. store_call F q = Resting"
  shows "granted \<lparr>mem = in_store (core F), calls = store_call F, effects = [], since = (\<lambda>_. 0)\<rparr> p"
proof -
  have "i \<notin> write_held (store_call F q) \<and> (wr \<longrightarrow> i \<notin> read_held (in_store (core F)) (store_call F q))"
    if "wants (in_store (core F)) (store_call F p) = Some (wr, i)" for q wr i
    using assms that by (cases "q < n") (simp_all add: granted_upto_def list_all_iff not_less)
  then show ?thesis by (auto simp: granted_def split: option.split)
qed

lemma engine_next_step:
  assumes "engine_next n W F x = Some F'" "\<forall>q\<ge>n. store_call F q = Resting"
  shows "oracle_room (in_oracle (core F)) \<and> engine_step W F F' \<and> (\<forall>q\<ge>n. store_call F' q = Resting)"
proof -
  obtain p a where x: "x = (p, a)" by force
  have p: "p < n" "oracle_room (in_oracle (core F))" using assms(1) by (auto simp: engine_next_def x split: if_splits)
  consider (other) "a \<noteq> Commit" "engine_do W F p a = Some F'"
    | (work) c s es where "active_call (store_call F p)" "granted_upto n F p" "proceed (in_store (core F)) (store_call F p) = (c, s, es)"
        "F' = F\<lparr>core := (core F)\<lparr>in_store := s\<rparr>, store_call := (store_call F)(p := c),
          made := made F @ made_by (tasks F p) (got F p) es\<rparr>"
    | (finished) "returned_call (store_call F p)"
        "F' = F\<lparr>tasks := (tasks F)(p := return_to (tasks F p) (store_call F p)),
          store_call := (store_call F)(p := Resting), got := (got F)(p := got F p @ obtained (store_call F p))\<rparr>"
    | (go) "store_call F p = Resting" "go_on W F p (tasks F p) = Some F'"
  proof -
    have "store_call F p = Resting" if "\<not> active_call (store_call F p)" "\<not> returned_call (store_call F p)"
      using that by (cases "store_call F p") simp_all
    then show thesis using assms(1) that
      by (auto simp: engine_next_def x simp del: obtained_def split: if_splits prod.splits)
  qed
  then show ?thesis
  proof cases
    case other
    then show ?thesis using engine_do_step [OF other(2)] p assms(2) by auto
  next
    case work
    then show ?thesis using e_work [OF work(1) granted_upto_granted [OF work(2) assms(2)] work(3)] p assms(2) by auto
  next
    case finished
    then show ?thesis using e_return [OF finished(1)] p assms(2) by auto
  next
    case go
    then show ?thesis using go_on_step [OF refl go] p assms(2) by auto
  qed
qed

lemma engine_schedule_run:
  "engine_schedule n W xs F = Some F' \<Longrightarrow> engine_run W d F \<Longrightarrow> \<forall>q\<ge>n. store_call F q = Resting \<Longrightarrow> engine_run W d F'"
proof (induction xs arbitrary: F)
  case (Cons x xs)
  then obtain T where T: "engine_next n W F x = Some T" "engine_schedule n W xs T = Some F'"
    by (auto simp: bind_eq_Some_conv)
  note T' = engine_next_step [OF T(1) Cons.prems(3)]
  with Cons.prems(2) have "engine_run W d T" by (auto intro: run_step)
  with T' show ?case using Cons.IH [OF T(2)] by blast
qed simp

text \<open>A scheduled step moves only the process it names.\<close>

lemma go_on_other:
  "go_on W F p P = Some F' \<Longrightarrow> q \<noteq> p \<Longrightarrow> tasks F' q = tasks F q \<and> store_call F' q = store_call F q"
  by (induction W F p P rule: go_on.induct) (auto split: if_splits prod.splits)

lemma engine_do_other:
  "engine_do W F p a = Some F' \<Longrightarrow> q \<noteq> p \<Longrightarrow> tasks F' q = tasks F q \<and> store_call F' q = store_call F q"
  by (induction W F p a rule: engine_do.induct) (auto split: process.splits call.splits if_splits prod.splits)

lemma engine_next_other:
  "engine_next n W F (p, a) = Some F' \<Longrightarrow> q \<noteq> p \<Longrightarrow> tasks F' q = tasks F q \<and> store_call F' q = store_call F q"
  by (auto simp: engine_next_def engine_do_other go_on_other simp del: obtained_def split: if_splits prod.splits)

lemma engine_obtain:
  assumes "map_option f (engine_schedule n W xs (engine_start d)) = Some y"
  obtains F where "engine_run W d F" "f F = y"
proof -
  obtain F where F: "engine_schedule n W xs (engine_start d) = Some F" "f F = y" using assms by blast
  have "engine_run W d F"
    by (rule engine_schedule_run [OF F(1) run_start]) (simp add: engine_start_def)
  with F(2) show thesis by (rule that [rotated])
qed

section \<open>Draining the engine\<close>

text \<open>A bound on the steps a process has still to make before its commit or collection is over and it
  rests in the store.\<close>

definition call_left :: "memory_store \<Rightarrow> call \<Rightarrow> nat" where
  "call_left s c = (if c = Resting then 0 else Suc (steps_left s c))"

fun engine_left :: "memory_store \<Rightarrow> process \<Rightarrow> call \<Rightarrow> nat" where
  "engine_left s (Allocated tx cts batch rs) c =
     3 + (if c = Resting
          then steps_left s (Locking (args_of tx cts batch rs) [] (lock_list s (args_of tx cts batch rs))) + 2
          else call_left s c)"
| "engine_left s (Validated tx cts batch r) c = 3"
| "engine_left s (Decided tx cts r) c = 2"
| "engine_left s (Released tx r) c = 1"
| "engine_left s (Collecting low i n) c = (if c = Resting then steps_left s (Waiting low 0 0) + 2 else call_left s c)"
| "engine_left s P c = call_left s c"

text \<open>What becomes of a process that only finishes what it has begun.\<close>

fun winds_down :: "process \<Rightarrow> process \<Rightarrow> bool" where
  "winds_down (Open tx) Q \<longleftrightarrow> (\<exists>rs. Q = Open (tx\<lparr>reads := rs\<rparr>))"
| "winds_down (Viewing sn) Q \<longleftrightarrow> Q = Viewing sn"
| "winds_down Idle Q \<longleftrightarrow> Q = Idle"
| "winds_down (Returned r) Q \<longleftrightarrow> Q = Returned r"
| "winds_down (Collecting low i n) Q \<longleftrightarrow> Q = Collecting low i n \<or> Q = Idle"
| "winds_down P Q \<longleftrightarrow> committing Q \<or> (\<exists>r. Q = Returned r)"

lemma winds_down_refl [simp]: "winds_down P P"
proof (cases P)
  case (Open tx)
  have "tx = tx\<lparr>reads := reads tx\<rparr>" by simp
  then show ?thesis unfolding Open winds_down.simps by blast
qed (simp_all add: committing_def)

lemma winds_down_trans: "winds_down P Q \<Longrightarrow> winds_down Q R \<Longrightarrow> winds_down P R"
  by (cases P; cases Q; auto simp: committing_def)

lemma winds_down_track: "winds_down (Open tx) (Open (track_read tx k))"
proof (cases "reads tx")
  case None
  then have "track_read tx k = tx\<lparr>reads := reads tx\<rparr>" by (simp add: track_read_def)
  then show ?thesis unfolding winds_down.simps by blast
next
  case (Some rs)
  then show ?thesis by (simp add: track_read_def) blast
qed

lemma engine_left_layout: "same_on I s s' \<Longrightarrow> engine_left s' P c = engine_left s P c"
  using lists_cong [of I s s'] steps_left_layout [of I s s'] by (cases P) (simp_all add: call_left_def same_on_def)

lemma proceed_not_resting: "proceed s c = (c', s', es) \<Longrightarrow> active_call c \<Longrightarrow> c' \<noteq> Resting"
  by (induction s c rule: proceed.induct) (auto simp: Let_def split: option.splits if_splits prod.splits)

lemma work_left:
  assumes "proceed s c = (c', s', es)" "active_call c" "call_inv s c" "in_call P c"
  shows "engine_left s' P c' < engine_left s P c" "same_on {} s s'"
proof -
  have lt: "steps_left s' c' < steps_left s c" using assms(1-3) by (rule proceed_measure)
  have "c' \<noteq> Resting" "c \<noteq> Resting" using proceed_not_resting [OF assms(1,2)] assms(2) by auto
  then show "engine_left s' P c' < engine_left s P c"
    using lt assms(4) by (cases P) (simp_all add: call_left_def)
  show "same_on {} s s'" using assms(1) by (rule proceed_layout)
qed

lemma return_left:
  assumes "returned_call c" "in_call P c"
  shows "engine_left s (return_to P c) Resting < engine_left s P c" "winds_down P (return_to P c)"
  using assms winds_down_track
  by (cases P; cases c; auto simp: call_left_def committing_def split: store_op.splits store_res.splits sum.splits option.splits)+

text \<open>A step that one process can take without a shard lock.\<close>

lemma own_step:
  assumes ic: "in_call (tasks F p) (store_call F p)" and col: "\<And>low i n. tasks F p = Collecting low i n \<Longrightarrow> i = 0 \<and> n = 0"
    and left: "engine_left (in_store (core F)) (tasks F p) (store_call F p) \<noteq> 0" and na: "\<not> active_call (store_call F p)"
  obtains F' x c where "engine_step W F F'" "tasks F' = (tasks F)(p := x)" "store_call F' = (store_call F)(p := c)"
    "in_store (core F') = in_store (core F)" "next_ts (in_oracle (core F')) = next_ts (in_oracle (core F))"
    "engine_left (in_store (core F)) x c < engine_left (in_store (core F)) (tasks F p) (store_call F p)"
    "winds_down (tasks F p) x"
proof (cases "returned_call (store_call F p)")
  case True
  note ret = return_left [OF True ic]
  show thesis
    by (rule that [OF e_return [OF True], where x = "return_to (tasks F p) (store_call F p)" and c = Resting]) (use ret in simp_all)
next
  case False
  with na have rst: "store_call F p = Resting" by (cases "store_call F p") simp_all
  let ?s = "in_store (core F)"
  have same: "store_call F = (store_call F)(p := Resting)" using rst by (simp add: fun_upd_idem)
  show thesis
  proof (cases "tasks F p")
    case (Allocated tx cts batch rs)
    let ?c = "Locking (args_of tx cts batch rs) [] (lock_list ?s (args_of tx cts batch rs))"
    have "may_call ?s (tasks F p) ?c" unfolding Allocated by (rule may_call.intros)
    from e_call [OF rst this] show thesis
      by (rule that [where c = ?c and x = "tasks F p"]) (use Allocated rst in \<open>simp_all add: call_left_def fun_upd_idem\<close>)
  next
    case (Validated tx cts batch r)
    show thesis
    proof (cases r)
      case (Inl e)
      from e_conflict [OF Validated [unfolded Inl]] show thesis
        by (rule that [where x = "Decided tx cts (Inl e)" and c = Resting]) (use Validated same in \<open>simp_all add: committing_def\<close>)
    next
      case (Inr u)
      obtain out d where out: "log_commit W (core F) cts batch = (out, d)" by force
      then have "in_oracle d = in_oracle (core F)" "in_store d = in_store (core F)"
        by (auto simp: log_commit_def split: option.splits prod.splits sum.splits)
      then show thesis
        by (intro that [OF e_log [OF Validated [unfolded Inr] out], where x = "Decided tx cts out" and c = Resting]) (use Validated same in \<open>simp_all add: committing_def\<close>)
    qed
  next
    case (Decided tx cts r)
    from e_done [OF Decided] show thesis
      by (rule that [where x = "Released tx r" and c = Resting]) (use Decided same in \<open>simp_all add: committing_def\<close>)
  next
    case (Released tx r)
    from e_drop [OF Released] show thesis
      by (rule that [where x = "Returned r" and c = Resting]) (use Released same in \<open>simp_all add: call_left_def ActiveReader_drop_eq committing_def\<close>)
  next
    case (Collecting low i n)
    have "may_call ?s (tasks F p) (Waiting low 0 0)" using col [OF Collecting] unfolding Collecting by (simp add: may_call.intros)
    from e_call [OF rst this] show thesis
      by (rule that [where c = "Waiting low 0 0" and x = "tasks F p"]) (use Collecting rst in \<open>simp_all add: call_left_def fun_upd_idem\<close>)
  qed (use left rst in \<open>simp_all add: call_left_def\<close>)
qed

abbreviation left_of :: "'w engine \<Rightarrow> nat \<Rightarrow> nat" where
  "left_of F p \<equiv> engine_left (in_store (core F)) (tasks F p) (store_call F p)"

lemma engine_step_changes:
  "engine_step W F F' \<Longrightarrow> \<exists>p. \<forall>q. q \<noteq> p \<longrightarrow> tasks F' q = tasks F q \<and> store_call F' q = store_call F q"
  by (erule engine_step.cases; simp del: obtained_def; blast)

lemma run_finite: "engine_run W d F \<Longrightarrow> finite {p. tasks F p \<noteq> Idle \<or> store_call F p \<noteq> Resting}"
proof (induction rule: engine_run.induct)
  case (run_step F F')
  obtain p where p: "\<And>q. q \<noteq> p \<Longrightarrow> tasks F' q = tasks F q \<and> store_call F' q = store_call F q"
    using engine_step_changes [OF run_step.hyps(3)] by blast
  have "{q. tasks F' q \<noteq> Idle \<or> store_call F' q \<noteq> Resting} \<subseteq> insert p {q. tasks F q \<noteq> Idle \<or> store_call F q \<noteq> Resting}"
    using p by force
  moreover have "finite (insert p {q. tasks F q \<noteq> Idle \<or> store_call F q \<noteq> Resting})" using run_step.IH by simp
  ultimately show ?case by (rule finite_subset)
qed (simp add: engine_start_def)

lemma run_collecting: "engine_run W d F \<Longrightarrow> tasks F p = Collecting low i n \<Longrightarrow> i = 0 \<and> n = 0"
proof (induction arbitrary: p rule: engine_run.induct)
  case (run_step F F')
  have ret: "return_to P c = Collecting low i n \<Longrightarrow> P = Collecting low i n" for P c
    by (cases P) (auto split: call.splits store_op.splits store_res.splits sum.splits option.splits)
  from run_step.hyps(3) show ?case
    using run_step.IH run_step.prems
    by (cases rule: engine_step.cases) (auto simp del: obtained_def split: if_splits dest: ret)
qed (simp add: engine_start_def)

lemma drain_step:
  assumes run: "engine_run W d F" and q: "quiet wf_store store_hist d {#}" and room: "oracle_room (in_oracle (core F))"
    and left: "left_of F p \<noteq> 0"
  obtains F' u where "engine_step W F F'" "oracle_room (in_oracle (core F'))" "\<And>v. winds_down (tasks F v) (tasks F' v)"
    "left_of F' u < left_of F u" "\<And>v. v \<noteq> u \<Longrightarrow> left_of F' v = left_of F v"
proof -
  obtain S where S: "mem_reachable W d S" "engine_match F S" using engine_simulated [OF run] by blast
  note inv = matchD(3) [OF S(2)] and ic = matchD(6) [OF S(2)]
  have wf: "wf_store (in_store (shared S))"
    using inv_atD(1) [OF mems.reachable_at [OF S(1) q]] by (simp add: db_ok_def)
  show thesis
  proof (cases "active_call (store_call F p)")
    case True
    then have "active_call (calls (lock_view F) p)" by (simp add: lock_view_def)
    then obtain u where "active_call (calls (lock_view F) u)" "granted (lock_view F) u"
      using progress [OF inv wf] by blast
    then have u: "active_call (store_call F u)" "granted (lock_view F) u" by (simp_all add: lock_view_def)
    obtain c s es where pr: "proceed (in_store (core F)) (store_call F u) = (c, s, es)" by (metis prod_cases3)
    have "call_inv (in_store (core F)) (store_call F u)" using lock_invD(2) [OF inv, of u] by (simp add: lock_view_def)
    note w = work_left [OF pr u(1) this ic]
    show thesis
      by (rule that [OF e_work [OF u(1) u(2) [unfolded lock_view_def] pr], of u])
        (use w room engine_left_layout [OF w(2)] in simp_all)
  next
    case False
    obtain F' x c where F': "engine_step W F F'" "tasks F' = (tasks F)(p := x)" "store_call F' = (store_call F)(p := c)"
      "in_store (core F') = in_store (core F)" "next_ts (in_oracle (core F')) = next_ts (in_oracle (core F))"
      "engine_left (in_store (core F)) x c < left_of F p" "winds_down (tasks F p) x"
      by (rule own_step [where F = F and p = p and W = W, OF ic run_collecting [OF run] left False])
    show thesis
      by (rule that [OF F'(1), of p]) (use F' room in \<open>simp_all add: oracle_room_def\<close>)
  qed
qed

lemma engine_drained:
  assumes "engine_run W d F" "quiet wf_store store_hist d {#}" "oracle_room (in_oracle (core F))"
    "finite A" "\<And>p. left_of F p \<noteq> 0 \<Longrightarrow> p \<in> A"
  shows "\<exists>F'. engine_run W d F' \<and> (engine_step W)\<^sup>*\<^sup>* F F' \<and> (\<forall>p. left_of F' p = 0)
    \<and> (\<forall>p. winds_down (tasks F p) (tasks F' p))"
  using assms
proof (induction "\<Sum>p\<in>A. left_of F p" arbitrary: F rule: less_induct)
  case less
  show ?case
  proof (cases "\<forall>p. left_of F p = 0")
    case True
    then show ?thesis using less.prems(1) by (intro exI [of _ F]) simp
  next
    case False
    then obtain p where "left_of F p \<noteq> 0" by blast
    then obtain T u where T: "engine_step W F T" "oracle_room (in_oracle (core T))" "\<And>v. winds_down (tasks F v) (tasks T v)"
      "left_of T u < left_of F u" "\<And>v. v \<noteq> u \<Longrightarrow> left_of T v = left_of F v"
      using drain_step [OF less.prems(1-3)] by blast
    have u: "u \<in> A" using T(4) by (intro less.prems(5)) simp
    have "(\<Sum>p\<in>A. left_of T p) < (\<Sum>p\<in>A. left_of F p)"
    proof (rule sum_strict_mono_ex1 [OF less.prems(4)])
      show "\<forall>v\<in>A. left_of T v \<le> left_of F v" using T(4,5) by (metis less_imp_le order_refl)
      show "\<exists>v\<in>A. left_of T v < left_of F v" using T(4) u by blast
    qed
    moreover have "engine_run W d T" using run_step [OF less.prems(1,3) T(1)] .
    moreover have "v \<in> A" if "left_of T v \<noteq> 0" for v
      using that T(5) u less.prems(5) by (cases "v = u") auto
    ultimately obtain U where U: "engine_run W d U" "(engine_step W)\<^sup>*\<^sup>* T U" "\<forall>p. left_of U p = 0"
      "\<forall>p. winds_down (tasks T p) (tasks U p)"
      using less.hyps [of T] less.prems(2,4) T(2) by blast
    then show ?thesis
      using T(1,3) by (intro exI [of _ U]) (auto intro: converse_rtranclp_into_rtranclp winds_down_trans)
  qed
qed

lemma validated_recorded:
  "mem_reachable W d S \<Longrightarrow> procs S p = Validated tx cts batch (Inr u) \<Longrightarrow>
     \<lparr>c_tx = tx, c_ts = cts, c_seen = seen S p\<rparr> \<in> set (history S)"
proof (induction arbitrary: p tx cts batch u rule: reachable.induct)
  case (reach_step S S')
  from reach_step.hyps(3) show ?case
    using reach_step.IH reach_step.prems
    by (cases rule: step.cases) (auto split: if_splits)
qed (simp add: start_def)

lemma engine_isolation:
  assumes "engine_run W d F" "quiet wf_store store_hist d {#}"
  shows "distinct (map c_ts (made F))
    \<and> (\<forall>i<length (made F). \<forall>(k, v)\<in>set (c_seen (made F ! i)).
        reads (c_tx (made F ! i)) \<noteq> None \<or> k \<in> dom (map_of (writes (c_tx (made F ! i)))) \<longrightarrow>
          v = serial_state (store_hist (in_store d)) (take i (made F)) k)
    \<and> (\<forall>p t. reader_of (tasks F p) = Some t \<longrightarrow> (\<forall>(k, v)\<in>set (got F p).
        v = serial_state (store_hist (in_store d)) (filter (\<lambda>c. c_ts c \<le> t) (made F)) k))
    \<and> (\<forall>p tx cts batch u. tasks F p = Validated tx cts batch (Inr u) \<longrightarrow>
        \<lparr>c_tx = tx, c_ts = cts, c_seen = got F p\<rparr> \<in> set (made F))
    \<and> ((\<forall>p. \<not> active_call (store_call F p)) \<longrightarrow>
        (\<forall>k. latest (store_hist (in_store (core F)) k) = serial_state (store_hist (in_store d)) (made F) k))"
proof -
  obtain S where S: "mem_reachable W d S" "engine_match F S" using engine_simulated [OF assms(1)] by blast
  have "v = serial_state (store_hist (in_store d)) (filter (\<lambda>c. c_ts c \<le> t) (history S)) k"
    if "reader_of (tasks F p) = Some t" "(k, v) \<in> set (got F p)" for p t k v
  proof -
    have r: "reader_of (procs S p) = Some t"
      using that(1) reader_seen_as [OF matchD(6) [OF S(2)]] by (simp add: matchD(4) [OF S(2)])
    have "(k, v) \<in> set (seen S p)" using that(2) by (simp add: matchD(5) [OF S(2)] del: obtained_def)
    then show ?thesis
      using mems.reachable_seen [OF S(1) assms(2) r] mems.reachable_get [OF S(1) assms(2) r, of k] by simp
  qed
  moreover have "\<lparr>c_tx = tx, c_ts = cts, c_seen = got F p\<rparr> \<in> set (history S)"
    if "tasks F p = Validated tx cts batch (Inr u)" for p tx cts batch u
  proof -
    have "store_call F p = Resting" using that by (intro rest_of [OF S(2)]) blast
    from at_rest [OF S(2) this] show ?thesis using validated_recorded [OF S(1), of p] that by simp
  qed
  moreover have "\<forall>i<length (history S). \<forall>(k, v)\<in>set (c_seen (history S ! i)).
      reads (c_tx (history S ! i)) \<noteq> None \<or> k \<in> dom (map_of (writes (c_tx (history S ! i)))) \<longrightarrow>
        v = serial_state (store_hist (in_store d)) (take i (history S)) k"
    using mems.reachable_commit [OF S(1) assms(2)] unfolding commit_inv_def by blast
  ultimately show ?thesis
    using mems.reachable_fresh [OF S(1) assms(2)] mems.reachable_latest [OF S(1) assms(2)] idle_calls_store [OF S(2)]
    by (auto simp: fresh_inv_def matchD(7) [OF S(2)])
qed

section \<open>Properties\<close>

text \<open>
  A snapshot that has read one key, and asks for another while a commit of both keys, which holds the
  shard, has pushed the first.
\<close>

definition half_applied :: "(nat \<times> action) list" where
  "half_applied =
     [(0, Begin False), (0, Put key_x [1]), (0, Put key_y [2]),
      (1, Snap), (1, Get key_x), (1, Commit), (1, Commit), (1, Commit),
      (0, Commit), (0, Commit), (0, Commit), (0, Commit), (0, Commit), (0, Commit), (0, Commit), (0, Commit),
      (1, Get key_y)]"

lemma half_applied_run:
  obtains F where "engine_run list_wal one_shard F"
    "got F 1 = [(key_x, None)]" "tasks F 1 = Viewing \<lparr>snap_active = \<lparr>active_read_ts = Timestamp 0\<rparr>\<rparr>"
    "commit_steps_left (tasks F 0) = 4" "active_call (store_call F 0)"
    "shards (in_store (core F)) = [[(key_y, [\<lparr>commit_ts = Timestamp 1, val = Some [2]\<rparr>])]]"
    "oracle_room (in_oracle (core F))" "map c_ts (made F) = [Timestamp 1]"
proof -
  have "map_option (\<lambda>F. (got F 1, tasks F 1, commit_steps_left (tasks F 0), active_call (store_call F 0),
      shards (in_store (core F)), oracle_room (in_oracle (core F)), map c_ts (made F)))
      (engine_schedule 2 list_wal half_applied (engine_start one_shard)) =
    Some ([(key_x, None)], Viewing \<lparr>snap_active = \<lparr>active_read_ts = Timestamp 0\<rparr>\<rparr>, 4, True,
      [[(key_y, [\<lparr>commit_ts = Timestamp 1, val = Some [2]\<rparr>])]], True, [Timestamp 1])"
    by code_simp
  then obtain F where "engine_run list_wal one_shard F" "(got F 1, tasks F 1, commit_steps_left (tasks F 0),
      active_call (store_call F 0), shards (in_store (core F)), oracle_room (in_oracle (core F)), map c_ts (made F)) =
    ([(key_x, None)], Viewing \<lparr>snap_active = \<lparr>active_read_ts = Timestamp 0\<rparr>\<rparr>, 4, True,
      [[(key_y, [\<lparr>commit_ts = Timestamp 1, val = Some [2]\<rparr>])]], True, [Timestamp 1])"
    by (rule engine_obtain)
  then show thesis by (intro that [of F]) simp_all
qed

text \<open>C30. The locks do not show. Whatever the order in which the processes of the engine take the locks of
  the store, check, push, release, and use the oracle and the log in between, the state reached is one
  of the model in which every store operation is a single step: with the same oracle and log, every
  process that is not in the store at the same place with the same values read, and, when no process
  is in the store, the same store.\<close>

theorem locked_engine_refines:
  assumes "engine_run W d F"
  shows "\<exists>S. mem_reachable W d S
    \<and> in_oracle (core F) = in_oracle (shared S) \<and> in_log (core F) = in_log (shared S)
    \<and> (\<forall>p. store_call F p = Resting \<longrightarrow> procs S p = tasks F p \<and> seen S p = got F p)
    \<and> (\<forall>p. procs S p = seen_as (tasks F p) (store_call F p))
    \<and> ((\<forall>p. \<not> active_call (store_call F p)) \<longrightarrow> core F = shared S)"
proof -
  obtain S where S: "mem_reachable W d S" "engine_match F S" using engine_simulated [OF assms] by blast
  have "in_log (core F) = in_log (shared S)" by (subst matchD(1) [OF S(2)]) simp
  moreover have "seen_as P Resting = P" for P by (cases P) simp_all
  ultimately show ?thesis
    using S(1) matchD(2,4,5) [OF S(2)] idle_calls_store [OF S(2)] by (intro exI [of _ S]) auto
qed

theorem locked_engine_refines_witness:
  "\<exists>F S. engine_run list_wal one_shard F \<and> shards (in_store (core F)) \<noteq> [[]] \<and> active_call (store_call F 0)
     \<and> mem_reachable list_wal one_shard S \<and> procs S 0 = seen_as (tasks F 0) (store_call F 0)"
proof -
  obtain F where F: "engine_run list_wal one_shard F" "active_call (store_call F 0)"
    "shards (in_store (core F)) = [[(key_y, [\<lparr>commit_ts = Timestamp 1, val = Some [2]\<rparr>])]]"
    by (rule half_applied_run)
  then show ?thesis using locked_engine_refines [OF F(1)] by (intro exI [of _ F]) auto
qed

text \<open>C10. Isolation down to the locks. In every state the engine reaches with its locks, the commits it has
  made, in the order in which they passed validation, are serial: each has its own timestamp, and each
  serializable one read exactly what those before it left, as did every commit of the keys it wrote.
  Every value a get has returned to a live transaction or snapshot is the one left by the commits at or
  below its timestamp, although the store may at that moment hold half of the writes of others; every
  process whose commit passed validation is in the list with the values it had read; and when no call
  is in the store its newest values are what the whole list leaves.\<close>

theorem locked_engine_isolation:
  assumes "engine_run W d F" "quiet wf_store store_hist d {#}"
  shows "distinct (map c_ts (made F))
    \<and> (\<forall>i<length (made F). \<forall>(k, v)\<in>set (c_seen (made F ! i)).
        reads (c_tx (made F ! i)) \<noteq> None \<or> k \<in> dom (map_of (writes (c_tx (made F ! i)))) \<longrightarrow>
          v = serial_state (store_hist (in_store d)) (take i (made F)) k)
    \<and> (\<forall>p t. reader_of (tasks F p) = Some t \<longrightarrow> (\<forall>(k, v)\<in>set (got F p).
        v = serial_state (store_hist (in_store d)) (filter (\<lambda>c. c_ts c \<le> t) (made F)) k))
    \<and> (\<forall>p tx cts batch u. tasks F p = Validated tx cts batch (Inr u) \<longrightarrow>
        \<lparr>c_tx = tx, c_ts = cts, c_seen = got F p\<rparr> \<in> set (made F))
    \<and> ((\<forall>p. \<not> active_call (store_call F p)) \<longrightarrow>
        (\<forall>k. latest (store_hist (in_store (core F)) k) = serial_state (store_hist (in_store d)) (made F) k))"
  using assms by (rule engine_isolation)

theorem locked_engine_isolation_witness:
  "\<exists>F. engine_run list_wal one_shard F \<and> map c_ts (made F) = [Timestamp 1] \<and> got F 1 = [(key_x, None)]
     \<and> None = serial_state (store_hist (in_store one_shard)) (filter (\<lambda>c. c_ts c \<le> Timestamp 0) (made F)) key_x"
proof -
  obtain F where F: "engine_run list_wal one_shard F" "got F 1 = [(key_x, None)]"
    "tasks F 1 = Viewing \<lparr>snap_active = \<lparr>active_read_ts = Timestamp 0\<rparr>\<rparr>" "map c_ts (made F) = [Timestamp 1]"
    by (rule half_applied_run)
  have "reader_of (tasks F 1) = Some (Timestamp 0)" "(key_x, None) \<in> set (got F 1)"
    using F(2,3) by (simp_all add: Snapshot_read_timestamp_def)
  with locked_engine_isolation [OF F(1) quiet_one_shard] have
    "None = serial_state (store_hist (in_store one_shard)) (filter (\<lambda>c. c_ts c \<le> Timestamp 0) (made F)) key_x"
    by blast
  with F show ?thesis by (intro exI [of _ F]) simp
qed

text \<open>C8. The engine never gets stuck. From every reachable state, whatever locks are held and whatever is
  half done, the processes can finish what they have begun: every call returns, every commit returns a
  result, every collection ends, the open transactions and snapshots are where they were; and then a
  get of the database finds the newest version of every key.\<close>

theorem engine_drains:
  assumes "engine_run W d F" "quiet wf_store store_hist d {#}" "oracle_room (in_oracle (core F))"
  shows "\<exists>F'. engine_run W d F' \<and> (engine_step W)\<^sup>*\<^sup>* F F'
    \<and> (\<forall>p. store_call F' p = Resting \<and> \<not> committing (tasks F' p) \<and> (\<forall>low i n. tasks F' p \<noteq> Collecting low i n))
    \<and> (\<forall>p. winds_down (tasks F p) (tasks F' p))
    \<and> (\<forall>k. fst (Db_get MemoryStore (core F') k) = Inr (latest (store_hist (in_store (core F')) k)))"
proof -
  have fin: "finite {p. tasks F p \<noteq> Idle \<or> store_call F p \<noteq> Resting}" using run_finite [OF assms(1)] .
  have "p \<in> {p. tasks F p \<noteq> Idle \<or> store_call F p \<noteq> Resting}" if "left_of F p \<noteq> 0" for p
    using that by (cases "tasks F p") (auto simp: call_left_def split: if_splits)
  from engine_drained [OF assms fin this] obtain F' where F': "engine_run W d F'" "(engine_step W)\<^sup>*\<^sup>* F F'"
    "\<forall>p. left_of F' p = 0" "\<forall>p. winds_down (tasks F p) (tasks F' p)"
    by blast
  have done': "store_call F' p = Resting \<and> \<not> committing (tasks F' p) \<and> (\<forall>low i n. tasks F' p \<noteq> Collecting low i n)" for p
    using F'(3) [rule_format, of p] by (cases "tasks F' p") (auto simp: call_left_def committing_def split: if_splits)
  obtain S where S: "mem_reachable W d S" "engine_match F' S" using engine_simulated [OF F'(1)] by blast
  have "procs S = tasks F'"
  proof
    fix p show "procs S p = tasks F' p" using matchD(4) [OF S(2), of p] done' [of p] by (cases "tasks F' p") simp_all
  qed
  then have "held_set (procs S) = {}" using held_committing done' by (fastforce simp: held_set_def)
  then have "quiet wf_store store_hist (shared S) (live_readers (procs S))"
    using inv_atD(1) [OF mems.reachable_at [OF S(1) assms(2)]] by simp
  moreover have "core F' = shared S" using idle_calls_store [OF S(2)] done' by simp
  ultimately have "\<forall>k. fst (Db_get MemoryStore (core F') k) = Inr (latest (store_hist (in_store (core F')) k))"
    using mem.quiet_get [of "shared S"] by simp
  with F' done' show ?thesis by blast
qed

theorem engine_drains_witness:
  "\<exists>F F'. engine_run list_wal one_shard F \<and> active_call (store_call F 0) \<and> engine_run list_wal one_shard F'
     \<and> (engine_step list_wal)\<^sup>*\<^sup>* F F' \<and> (\<exists>r. tasks F' 0 = Returned r)
     \<and> tasks F' 1 = Viewing \<lparr>snap_active = \<lparr>active_read_ts = Timestamp 0\<rparr>\<rparr> \<and> store_call F' 1 = Resting"
proof -
  obtain F where F: "engine_run list_wal one_shard F" "oracle_room (in_oracle (core F))"
    "commit_steps_left (tasks F 0) = 4" "active_call (store_call F 0)"
    "tasks F 1 = Viewing \<lparr>snap_active = \<lparr>active_read_ts = Timestamp 0\<rparr>\<rparr>"
    by (rule half_applied_run)
  from engine_drains [OF F(1) quiet_one_shard F(2)] obtain F' where F': "engine_run list_wal one_shard F'"
    "(engine_step list_wal)\<^sup>*\<^sup>* F F'" "\<forall>p. store_call F' p = Resting \<and> \<not> committing (tasks F' p)"
    "\<forall>p. winds_down (tasks F p) (tasks F' p)"
    by blast
  have "winds_down (tasks F 0) (tasks F' 0)" "winds_down (tasks F 1) (tasks F' 1)" using F'(4) by blast+
  moreover have "\<not> committing (tasks F' 0)" using F'(3) by blast
  ultimately have "\<exists>r. tasks F' 0 = Returned r"
    "tasks F' 1 = Viewing \<lparr>snap_active = \<lparr>active_read_ts = Timestamp 0\<rparr>\<rparr>"
    using F(3,5) by (cases "tasks F 0"; simp)+
  with F(1,4) F' show ?thesis by blast
qed

end
