(* ===== verification/Counting_Engine.thy ===== *)
theory Counting_Engine
  imports Locked_Engine Custom_Store
begin

text \<open>
  The engine on the counting store of \<open>src/examples/custom_store.rs\<close>, with every lock in sight: the
  processes of theory \<open>Locked_Engine\<close>, whose calls into the \<open>MemoryStore\<close> now go through the wrapper.
  Its ticks are steps of their own. A get ticks the read counter before it enters the store, and a
  commit that landed ticks the version counter after it has left it, with whatever the other processes
  do in between; so a counter lags behind the store while a call is on its way.
\<close>

section \<open>Definitions\<close>

text \<open>
  \<open>base\<close> is the engine over the wrapped store and \<open>reads_served\<close>, \<open>versions_counted\<close> are the counters.
  \<open>ticked\<close> holds the get for which a process has ticked and which it is about to make, and \<open>counted\<close>
  that a process has ticked for the commit it returns from. \<open>gets_made\<close> is the number of gets that
  entered the store; it is kept for the properties and no step looks at it.
\<close>

record 'w counting_engine =
  base :: "'w engine"
  reads_served :: u64
  versions_counted :: u64
  ticked :: "nat \<Rightarrow> call option"
  counted :: "nat \<Rightarrow> bool"
  gets_made :: nat

definition counting_start :: "(memory_store, 'w) inner \<Rightarrow> 'w counting_engine" where
  "counting_start d = \<lparr>base = engine_start d, reads_served = 0, versions_counted = 0,
     ticked = (\<lambda>_. None), counted = (\<lambda>_. False), gets_made = 0\<rparr>"

text \<open>The number of versions of a commit that has landed in the store and not returned from it.\<close>

fun landed :: "call \<Rightarrow> nat option" where
  "landed (Applying a hs todo) = Some (length (ca_writes a))"
| "landed (Unlocking a r hs) = (case r of Inl e \<Rightarrow> None | Inr u \<Rightarrow> Some (length (ca_writes a)))"
| "landed (Finished (Op_commit rts cts ws rs) (Committed r)) = (case r of Inl e \<Rightarrow> None | Inr u \<Rightarrow> Some (length ws))"
| "landed _ = None"

definition lands :: "call \<Rightarrow> nat" where
  "lands c = (case landed c of None \<Rightarrow> 0 | Some n \<Rightarrow> n)"

definition is_getting :: "call \<Rightarrow> bool" where
  "is_getting c = (case c of Getting k t \<Rightarrow> True | _ \<Rightarrow> False)"

text \<open>
  The steps in which the wrapper has no part: no process enters the store with a get or returns from
  a commit that landed, a process between its tick and its get stays where it is, and no collection
  begins, because the wrapper keeps the default \<open>collect_garbage\<close>.
\<close>

definition passes :: "'w counting_engine \<Rightarrow> 'w engine \<Rightarrow> bool" where
  "passes X F \<longleftrightarrow>
     (\<forall>p. (store_call (base X) p = Resting \<longrightarrow> \<not> is_getting (store_call F p))
        \<and> (landed (store_call (base X) p) \<noteq> None \<longrightarrow> store_call F p \<noteq> Resting)
        \<and> (ticked X p \<noteq> None \<longrightarrow> tasks F p = tasks (base X) p \<and> store_call F p = store_call (base X) p)
        \<and> (\<forall>low i n. tasks F p \<noteq> Collecting low i n))"

inductive counting_step :: "'w wal_ops \<Rightarrow> 'w counting_engine \<Rightarrow> 'w counting_engine \<Rightarrow> bool" for W where
  c_engine:
    "engine_step W (base X) F \<Longrightarrow> passes X F \<Longrightarrow> counting_step W X (X\<lparr>base := F\<rparr>)"
| c_tick_read:
    "ticked X p = None \<Longrightarrow> store_call (base X) p = Resting \<Longrightarrow>
     may_call (in_store (core (base X))) (tasks (base X) p) (Getting k t) \<Longrightarrow>
     counting_step W X (X\<lparr>reads_served := reads_served X + 1, ticked := (ticked X)(p := Some (Getting k t))\<rparr>)"
| c_get:
    "ticked X p = Some c \<Longrightarrow>
     counting_step W X (X\<lparr>base := (base X)\<lparr>store_call := (store_call (base X))(p := c)\<rparr>,
       ticked := (ticked X)(p := None), gets_made := Suc (gets_made X)\<rparr>)"
| c_count:
    "store_call (base X) p = Finished (Op_commit rts cts ws rs) (Committed (Inr u)) \<Longrightarrow> \<not> counted X p \<Longrightarrow>
     counting_step W X (X\<lparr>versions_counted := versions_counted X + word_of_nat (length ws),
       counted := (counted X)(p := True)\<rparr>)"
| c_return:
    "counted X p \<Longrightarrow>
     counting_step W X (X\<lparr>base := (base X)\<lparr>tasks := (tasks (base X))(p := return_to (tasks (base X) p) (store_call (base X) p)),
         store_call := (store_call (base X))(p := Resting)\<rparr>, counted := (counted X)(p := False)\<rparr>)"
| c_collect:
    "tasks (base X) p = Idle \<Longrightarrow>
     default_collect_garbage (in_store (core (base X))) (low_watermark (in_oracle (core (base X)))) = (n, s) \<Longrightarrow>
     counting_step W X (X\<lparr>base := (base X)\<lparr>core := (core (base X))\<lparr>in_store := s\<rparr>\<rparr>\<rparr>)"

inductive counting_run :: "'w wal_ops \<Rightarrow> (memory_store, 'w) inner \<Rightarrow> 'w counting_engine \<Rightarrow> bool" for W d where
  counting_from: "counting_run W d (counting_start d)"
| counting_more: "counting_run W d X \<Longrightarrow> oracle_room (in_oracle (core (base X))) \<Longrightarrow> counting_step W X X' \<Longrightarrow>
    counting_run W d X'"

text \<open>What a process owes the version counter.\<close>

definition owed :: "'w counting_engine \<Rightarrow> nat \<Rightarrow> nat" where
  "owed X p = (if counted X p then 0 else lands (store_call (base X) p))"

text \<open>The versions of the commits made, and the gets that have ticked and not begun.\<close>

definition versions_made :: "'w engine \<Rightarrow> nat" where
  "versions_made F = sum_list (map (\<lambda>c. length (writes (c_tx c))) (made F))"

definition about_to_get :: "'w counting_engine \<Rightarrow> nat set" where
  "about_to_get X = {p. ticked X p \<noteq> None}"

section \<open>Lemmas\<close>

text \<open>A sum over the processes when one of them changes.\<close>

lemma sum_one_changes:
  fixes f g :: "nat \<Rightarrow> nat"
  assumes "finite {q. f q \<noteq> 0}" "\<And>q. q \<noteq> p \<Longrightarrow> g q = f q"
  shows "finite {q. g q \<noteq> 0}" "(\<Sum>q | g q \<noteq> 0. g q) + f p = (\<Sum>q | f q \<noteq> 0. f q) + g p"
proof -
  let ?A = "insert p {q. f q \<noteq> 0}"
  have sub: "{q. g q \<noteq> 0} \<subseteq> ?A" using assms(2) by force
  then show "finite {q. g q \<noteq> 0}" using assms(1) by (meson finite_insert finite_subset)
  have "(\<Sum>q | g q \<noteq> 0. g q) = sum g ?A" using assms(1) sub by (intro sum.mono_neutral_left) auto
  moreover have "(\<Sum>q | f q \<noteq> 0. f q) = sum f ?A" using assms(1) by (intro sum.mono_neutral_left) auto
  moreover have "sum g (?A - {p}) = sum f (?A - {p})" using assms(2) by (intro sum.cong) auto
  moreover have "sum g ?A = g p + sum g (?A - {p})" "sum f ?A = f p + sum f (?A - {p})"
    by (rule sum.remove; use assms(1) in simp)+
  ultimately show "(\<Sum>q | g q \<noteq> 0. g q) + f p = (\<Sum>q | f q \<noteq> 0. f q) + g p" by simp
qed

lemma allocated_length:
  "engine_run W d F \<Longrightarrow> tasks F p = Allocated tx cts batch rs \<Longrightarrow> length batch = length (writes tx)"
proof (induction arbitrary: p tx cts batch rs rule: engine_run.induct)
  case (run_step F F')
  have ret: "return_to P c = Allocated tx cts batch rs \<Longrightarrow> P = Allocated tx cts batch rs" for P c
    by (cases P) (auto split: call.splits store_op.splits store_res.splits sum.splits option.splits)
  have len: "length (order_writes ord ws) = length ws" if "hash_order_ok ord" for ord and ws :: "write_entry list"
    using that by (metis hash_order_ok_def size_mset)
  from run_step.hyps(3) show ?case
    using run_step.IH run_step.prems
    by (cases rule: engine_step.cases) (auto simp del: obtained_def split: if_splits dest: ret simp: len)
qed (simp add: engine_start_def)

text \<open>A step of a call makes a commit exactly when its writes land.\<close>

lemma proceed_lands:
  assumes "proceed s c = (c', s', es)" "in_call P c" "active_call c"
    "\<And>tx cts batch rs. P = Allocated tx cts batch rs \<Longrightarrow> length batch = length (writes tx)"
  shows "lands c' = lands c + sum_list (map (\<lambda>c. length (writes (c_tx c))) (made_by P vs es))"
  using assms
proof (induction s c rule: proceed.induct)
  case (5 s a hs passed key shard todo)
  then show ?case by (cases P) (auto simp: lands_def split: option.splits)
next
  case (6 s a hs passed)
  then show ?case by (cases P) (auto simp: lands_def args_of_def)
qed (auto simp: lands_def Let_def split: option.splits if_splits prod.splits)

text \<open>The steps the wrapper has no part in.\<close>

lemma passes_step:
  assumes st: "engine_step W F F'" and run: "engine_run W d F"
    and ps: "\<forall>p. landed (store_call F p) \<noteq> None \<longrightarrow> store_call F' p \<noteq> Resting"
  obtains p where "\<And>q. q \<noteq> p \<Longrightarrow> store_call F' q = store_call F q"
    "versions_made F' + lands (store_call F p) = versions_made F + lands (store_call F' p)"
    "\<And>rts cts ws rs u. store_call F p = Finished (Op_commit rts cts ws rs) (Committed (Inr u)) \<Longrightarrow> store_call F' p = store_call F p"
  using st
proof (cases rule: engine_step.cases)
  case (e_call p c)
  have "landed c = None" using e_call(3) by (cases rule: may_call.cases) simp_all
  then show thesis
    by (intro that [of p]) (use e_call(1,2) in \<open>simp_all add: versions_made_def lands_def\<close>)
next
  case (e_work p c s es)
  obtain S where "engine_match F S" using engine_simulated [OF run] by blast
  then have ic: "in_call (tasks F p) (store_call F p)" by (rule matchD(6))
  have "lands c = lands (store_call F p) + sum_list (map (\<lambda>c. length (writes (c_tx c))) (made_by (tasks F p) (got F p) es))"
    using e_work(4) ic e_work(2) allocated_length [OF run] by (rule proceed_lands)
  then show thesis
    by (intro that [of p]) (use e_work(1,2) in \<open>simp_all add: versions_made_def\<close>)
next
  case (e_return p)
  have "store_call F' p = Resting" using e_return(1) by simp
  then have "landed (store_call F p) = None" using ps by blast
  then show thesis
    by (intro that [of p]) (use e_return(1) in \<open>auto simp add: versions_made_def lands_def\<close>)
qed (use that in \<open>simp_all add: versions_made_def\<close>)

text \<open>Every step is one of the engine on the wrapped store, or is not seen by it.\<close>

definition between :: "'w counting_engine \<Rightarrow> bool" where
  "between X \<longleftrightarrow>
     (\<forall>p c. ticked X p = Some c \<longrightarrow> store_call (base X) p = Resting
        \<and> is_getting c \<and> (\<forall>s. may_call s (tasks (base X) p) c))
     \<and> (\<forall>p. counted X p \<longrightarrow> (\<exists>rts cts ws rs u. store_call (base X) p = Finished (Op_commit rts cts ws rs) (Committed (Inr u))))"

lemma may_get: "may_call s P (Getting k t) \<Longrightarrow> may_call s' P (Getting k t)"
  by (erule may_call.cases) (auto intro: may_call.intros)

lemma betweenD:
  assumes "between X"
  shows "ticked X p = Some c \<Longrightarrow> store_call (base X) p = Resting" "ticked X p = Some c \<Longrightarrow> is_getting c"
    "ticked X p = Some c \<Longrightarrow> may_call s (tasks (base X) p) c"
    "counted X p \<Longrightarrow> \<exists>rts cts ws rs u. store_call (base X) p = Finished (Op_commit rts cts ws rs) (Committed (Inr u))"
  using assms unfolding between_def by blast+

lemma counting_step_base:
  assumes st: "counting_step W X X'" and run: "engine_run W d (base X)" and room: "oracle_room (in_oracle (core (base X)))"
    and btw: "between X"
  shows "engine_run W d (base X') \<and> between X'"
  using st
proof (cases rule: counting_step.cases)
  case (c_engine F)
  have ps: "\<forall>q. landed (store_call (base X) q) \<noteq> None \<longrightarrow> store_call F q \<noteq> Resting"
    using c_engine(3) unfolding passes_def by blast
  have stay: "ticked X q \<noteq> None \<Longrightarrow> tasks F q = tasks (base X) q \<and> store_call F q = store_call (base X) q" for q
    using c_engine(3) unfolding passes_def by blast+
  obtain p where p: "\<And>q. q \<noteq> p \<Longrightarrow> store_call F q = store_call (base X) q"
    "\<And>rts cts ws rs u. store_call (base X) p = Finished (Op_commit rts cts ws rs) (Committed (Inr u)) \<Longrightarrow> store_call F p = store_call (base X) p"
    by (rule passes_step [OF c_engine(2) run ps]) (rule that; assumption)
  have "between X'" unfolding between_def
  proof (intro conjI allI impI)
    fix q c assume t: "ticked X' q = Some c"
    then have "tasks F q = tasks (base X) q" "store_call F q = store_call (base X) q"
      using stay [of q] c_engine(1) by simp_all
    then show "store_call (base X') q = Resting" "is_getting c" "\<And>s. may_call s (tasks (base X') q) c"
      using betweenD(1-3) [OF btw, of q c] t c_engine(1) by simp_all
  next
    fix q assume "counted X' q"
    then obtain rts cts ws rs u where "store_call (base X) q = Finished (Op_commit rts cts ws rs) (Committed (Inr u))"
      using betweenD(4) [OF btw, of q] c_engine(1) by auto
    moreover from this have "store_call F q = store_call (base X) q" using p by (cases "q = p") simp_all
    ultimately show "\<exists>rts cts ws rs u. store_call (base X') q = Finished (Op_commit rts cts ws rs) (Committed (Inr u))"
      using c_engine(1) by simp
  qed
  then show ?thesis using run_step [OF run room c_engine(2)] c_engine(1) by simp
next
  case (c_tick_read p k t)
  then show ?thesis using run btw may_get by (auto simp: between_def is_getting_def)
next
  case (c_get p c)
  note b = betweenD(1-3) [OF btw c_get(2)]
  have "engine_run W d (base X')" using run_step [OF run room e_call [OF b(1) b(3)]] c_get(1) by simp
  moreover have "\<not> counted X p" using betweenD(4) [OF btw, of p] b(1) by auto
  ultimately show ?thesis using btw c_get(1) by (auto simp: between_def)
next
  case (c_count p rts cts ws rs u)
  then show ?thesis using run btw by (auto simp: between_def)
next
  case (c_return p)
  obtain rts cts ws rs u where f: "store_call (base X) p = Finished (Op_commit rts cts ws rs) (Committed (Inr u))"
    using betweenD(4) [OF btw c_return(2)] by blast
  have "engine_step W (base X) (base X')"
    using e_return [of "base X" p W] f c_return(1) by (simp add: fun_upd_idem)
  then have "engine_run W d (base X')" by (rule run_step [OF run room])
  moreover have "ticked X p = None" using betweenD(1) [OF btw, of p] f by (cases "ticked X p") auto
  ultimately show ?thesis using btw c_return(1) by (auto simp: between_def)
next
  case (c_collect p n s)
  then have "base X' = base X" by (simp add: default_collect_garbage_def)
  then show ?thesis using run btw c_collect(1) by (simp add: between_def)
qed

lemma counting_base: "counting_run W d X \<Longrightarrow> engine_run W d (base X) \<and> between X"
proof (induction rule: counting_run.induct)
  case counting_from
  then show ?case by (simp add: counting_start_def between_def run_start)
next
  case (counting_more X X')
  then show ?case using counting_step_base by blast
qed

text \<open>The counters, with what is on its way to them.\<close>

definition counters_inv :: "'w counting_engine \<Rightarrow> bool" where
  "counters_inv X \<longleftrightarrow> finite {p. owed X p \<noteq> 0} \<and> finite (about_to_get X)
     \<and> reads_served X = word_of_nat (gets_made X + card (about_to_get X))
     \<and> versions_counted X + word_of_nat (\<Sum>p | owed X p \<noteq> 0. owed X p) = word_of_nat (versions_made (base X))"

lemma balanced:
  fixes v :: u64
  assumes "s' + x = s + x'" "m' + x = m + x' + n" "v + s = m"
  shows "v + n + s' = m'"
proof -
  have "v + n + s' + x = v + n + (s' + x)" by (simp only: ac_simps)
  also have "\<dots> = v + s + x' + n" unfolding assms(1) by (simp only: ac_simps)
  also have "\<dots> = m' + x" by (simp only: assms(2,3))
  finally show ?thesis by simp
qed

lemma owed_moves:
  assumes inv: "counters_inv X" and other: "\<And>q. q \<noteq> p \<Longrightarrow> owed X' q = owed X q"
    and gets: "reads_served X' = reads_served X" "ticked X' = ticked X" "gets_made X' = gets_made X"
    and bal: "versions_counted X' = versions_counted X + word_of_nat n"
      "versions_made (base X') + owed X p = versions_made (base X) + owed X' p + n"
  shows "counters_inv X'"
proof -
  have fin: "finite {q. owed X q \<noteq> 0}" using inv by (simp add: counters_inv_def)
  have s: "finite {q. owed X' q \<noteq> 0}"
    "(\<Sum>q | owed X' q \<noteq> 0. owed X' q) + owed X p = (\<Sum>q | owed X q \<noteq> 0. owed X q) + owed X' p"
    by (rule sum_one_changes [where f = "owed X" and g = "owed X'" and p = p, OF fin]; rule other; assumption)+
  let ?w = "word_of_nat :: nat \<Rightarrow> u64"
  have "?w (\<Sum>q | owed X' q \<noteq> 0. owed X' q) + ?w (owed X p) = ?w (\<Sum>q | owed X q \<noteq> 0. owed X q) + ?w (owed X' p)"
    "?w (versions_made (base X')) + ?w (owed X p) = ?w (versions_made (base X)) + ?w (owed X' p) + ?w n"
    using s(2) bal(2) by (simp_all only: of_nat_add [symmetric])
  then have "versions_counted X + ?w n + ?w (\<Sum>q | owed X' q \<noteq> 0. owed X' q) = ?w (versions_made (base X'))"
    by (rule balanced) (use inv in \<open>simp add: counters_inv_def\<close>)
  then have "versions_counted X' + ?w (\<Sum>q | owed X' q \<noteq> 0. owed X' q) = ?w (versions_made (base X'))"
    by (simp only: bal(1))
  then show ?thesis using inv s(1) gets by (simp add: counters_inv_def about_to_get_def)
qed

lemma counting_step_counts:
  assumes st: "counting_step W X X'" and run: "engine_run W d (base X)" and btw: "between X" and inv: "counters_inv X"
  shows "counters_inv X'"
  using st
proof (cases rule: counting_step.cases)
  case (c_engine F)
  have ps: "\<forall>q. landed (store_call (base X) q) \<noteq> None \<longrightarrow> store_call F q \<noteq> Resting"
    using c_engine(3) unfolding passes_def by blast
  obtain p where p: "\<And>q. q \<noteq> p \<Longrightarrow> store_call F q = store_call (base X) q"
    "versions_made F + lands (store_call (base X) p) = versions_made (base X) + lands (store_call F p)"
    "\<And>rts cts ws rs u. store_call (base X) p = Finished (Op_commit rts cts ws rs) (Committed (Inr u)) \<Longrightarrow> store_call F p = store_call (base X) p"
    by (rule passes_step [OF c_engine(2) run ps]) (rule that; assumption)
  have "counted X p \<Longrightarrow> store_call F p = store_call (base X) p" using betweenD(4) [OF btw, of p] p(3) by blast
  then show ?thesis
    by (intro owed_moves [OF inv, of p _ 0]) (use p(1,2) c_engine(1) in \<open>auto simp: owed_def\<close>)
next
  case (c_tick_read p k t)
  have "about_to_get X' = insert p (about_to_get X)" "p \<notin> about_to_get X" using c_tick_read(1,2) by (auto simp: about_to_get_def)
  moreover have "owed X' = owed X" using c_tick_read(1) by (simp add: owed_def fun_eq_iff)
  ultimately show ?thesis using inv c_tick_read(1) by (simp add: counters_inv_def ac_simps)
next
  case (c_get p c)
  have in': "p \<in> about_to_get X" and out: "about_to_get X' = about_to_get X - {p}" using c_get(1,2) by (auto simp: about_to_get_def)
  have fin: "finite (about_to_get X)" using inv by (simp add: counters_inv_def)
  have "Suc (card (about_to_get X')) = card (about_to_get X)" unfolding out using fin in' by (rule card_Suc_Diff1)
  then have "gets_made X' + card (about_to_get X') = gets_made X + card (about_to_get X)" using c_get(1) by simp
  moreover have "lands (store_call (base X) p) = 0" "lands c = 0"
    using betweenD(1,2) [OF btw c_get(2)] by (auto simp: lands_def is_getting_def split: call.splits)
  then have "owed X' = owed X" using c_get(1) by (simp add: owed_def fun_eq_iff)
  moreover have "finite (about_to_get X')" using fin by (simp add: out)
  moreover have "reads_served X' = reads_served X" "versions_counted X' = versions_counted X"
    "versions_made (base X') = versions_made (base X)"
    using c_get(1) by (simp_all add: versions_made_def)
  ultimately show ?thesis using inv unfolding counters_inv_def by metis
next
  case (c_count p rts cts ws rs u)
  show ?thesis
    by (intro owed_moves [OF inv, of p _ "length ws"]) (use c_count in \<open>auto simp: owed_def lands_def\<close>)
next
  case (c_return p)
  show ?thesis
    by (intro owed_moves [OF inv, of p _ 0]) (use c_return in \<open>auto simp: owed_def lands_def versions_made_def\<close>)
next
  case (c_collect p n s)
  then have "base X' = base X" by (simp add: default_collect_garbage_def)
  then show ?thesis using inv c_collect(1) by (simp add: counters_inv_def owed_def about_to_get_def)
qed

lemma counting_counts: "counting_run W d X \<Longrightarrow> counters_inv X"
proof (induction rule: counting_run.induct)
  case counting_from
  then show ?case
    by (simp add: counting_start_def counters_inv_def owed_def lands_def about_to_get_def versions_made_def engine_start_def)
next
  case (counting_more X X')
  then show ?case using counting_step_counts [OF counting_more.hyps(3)] counting_base [OF counting_more.hyps(1)] by blast
qed

section \<open>An executable schedule\<close>

text \<open>
  A process that has ticked for a get makes it, one whose commit has landed and finished in the store
  counts and returns, one that asks for a get ticks; all else is a step of the engine.
\<close>

definition counting_do :: "nat \<Rightarrow> 'w wal_ops \<Rightarrow> 'w counting_engine \<Rightarrow> nat \<times> action \<Rightarrow> 'w counting_engine option" where
  "counting_do n W X = (\<lambda>(p, a).
     case engine_next n W (base X) (p, a) of
       None \<Rightarrow> None
     | Some F \<Rightarrow>
         if store_call (base X) p = Resting \<and> is_getting (store_call F p)
         then Some (X\<lparr>reads_served := reads_served X + 1, ticked := (ticked X)(p := Some (store_call F p))\<rparr>)
         else Some (X\<lparr>base := F\<rparr>))"

definition counting_next :: "nat \<Rightarrow> 'w wal_ops \<Rightarrow> 'w counting_engine \<Rightarrow> nat \<times> action \<Rightarrow> 'w counting_engine option" where
  "counting_next n W X = (\<lambda>(p, a).
     if \<not> oracle_room (in_oracle (core (base X))) then None
     else case ticked X p of
       Some c \<Rightarrow> Some (X\<lparr>base := (base X)\<lparr>store_call := (store_call (base X))(p := c)\<rparr>,
         ticked := (ticked X)(p := None), gets_made := Suc (gets_made X)\<rparr>)
     | None \<Rightarrow>
         (case store_call (base X) p of
            Finished (Op_commit rts cts ws rs) (Committed (Inr u)) \<Rightarrow>
              if counted X p
              then Some (X\<lparr>base := (base X)\<lparr>tasks := (tasks (base X))(p := return_to (tasks (base X) p) (store_call (base X) p)),
                store_call := (store_call (base X))(p := Resting)\<rparr>, counted := (counted X)(p := False)\<rparr>)
              else Some (X\<lparr>versions_counted := versions_counted X + word_of_nat (length ws),
                counted := (counted X)(p := True)\<rparr>)
          | _ \<Rightarrow> counting_do n W X (p, a)))"

fun counting_schedule :: "nat \<Rightarrow> 'w wal_ops \<Rightarrow> (nat \<times> action) list \<Rightarrow> 'w counting_engine \<Rightarrow> 'w counting_engine option" where
  "counting_schedule n W [] X = Some X"
| "counting_schedule n W (x # xs) X = Option.bind (counting_next n W X x) (counting_schedule n W xs)"

definition scheduled :: "nat \<Rightarrow> 'w counting_engine \<Rightarrow> bool" where
  "scheduled n X \<longleftrightarrow> (\<forall>q\<ge>n. store_call (base X) q = Resting \<and> ticked X q = None)
     \<and> (\<forall>q low i m. tasks (base X) q \<noteq> Collecting low i m)"

lemma return_not_collecting: "P \<noteq> Collecting low i m \<Longrightarrow> return_to P c \<noteq> Collecting low i m"
  by (cases P) (auto split: call.splits store_op.splits store_res.splits sum.splits option.splits)

lemma go_on_tasks:
  "go_on W F p P = Some F' \<Longrightarrow> tasks F p = P \<Longrightarrow> P \<noteq> Collecting low i m \<Longrightarrow> tasks F' p \<noteq> Collecting low i m"
  by (induction W F p P rule: go_on.induct) (auto split: if_splits prod.splits)

lemma engine_do_tasks:
  "engine_do W F p a = Some F' \<Longrightarrow> tasks F p \<noteq> Collecting low i m \<Longrightarrow> tasks F' p \<noteq> Collecting low i m"
  by (induction W F p a rule: engine_do.induct) (auto split: process.splits call.splits if_splits prod.splits)

lemma engine_next_tasks:
  assumes "engine_next n W F (p, a) = Some F'" "tasks F p \<noteq> Collecting low i m"
  shows "tasks F' p \<noteq> Collecting low i m"
  using assms return_not_collecting [OF assms(2)] go_on_tasks [of W F p "tasks F p" F'] engine_do_tasks [of W F p a F']
  by (auto simp: engine_next_def simp del: obtained_def split: if_splits prod.splits)

lemma step_getting:
  "engine_step W F F' \<Longrightarrow> store_call F p = Resting \<Longrightarrow> is_getting (store_call F' p) \<Longrightarrow>
     may_call (in_store (core F)) (tasks F p) (store_call F' p)"
  by (erule engine_step.cases) (auto simp: is_getting_def simp del: obtained_def split: if_splits)

lemma step_landed:
  assumes "engine_step W F F'" "landed (store_call F p) \<noteq> None"
    "\<And>rts cts ws rs u. store_call F p \<noteq> Finished (Op_commit rts cts ws rs) (Committed (Inr u))"
  shows "store_call F' p \<noteq> Resting"
proof -
  have p: "store_call F p \<noteq> Resting" "\<not> returned_call (store_call F p)"
    using assms(2,3) by (cases "store_call F p" rule: landed.cases; auto split: sum.splits)+
  from assms(1) show ?thesis
  proof (cases rule: engine_step.cases)
    case (e_work q c s es)
    then show ?thesis using p(1) proceed_not_resting [OF e_work(4,2)] by (cases "q = p") simp_all
  next
    case (e_return q)
    then show ?thesis using p by (cases "q = p") auto
  qed (use p(1) in auto)
qed

lemma counting_do_step:
  assumes do: "counting_do n W X (p, a) = Some X'" and sch: "scheduled n X" and t: "ticked X p = None"
    and nf: "\<And>rts cts ws rs u. store_call (base X) p \<noteq> Finished (Op_commit rts cts ws rs) (Committed (Inr u))"
  shows "counting_step W X X' \<and> scheduled n X'"
proof -
  obtain F where F: "engine_next n W (base X) (p, a) = Some F" using do by (auto simp: counting_do_def split: option.splits)
  have p: "p < n" using F by (auto simp: engine_next_def split: if_splits)
  have idle: "\<forall>q\<ge>n. store_call (base X) q = Resting" using sch by (simp add: scheduled_def)
  note st = engine_next_step [OF F idle]
  have other: "tasks F q = tasks (base X) q" "store_call F q = store_call (base X) q" if "q \<noteq> p" for q
    using engine_next_other [OF F that] by blast+
  have nc: "tasks F q \<noteq> Collecting low i m" for q low i m
    using engine_next_tasks [OF F] other [of q] sch by (cases "q = p") (auto simp: scheduled_def)
  show ?thesis
  proof (cases "store_call (base X) p = Resting \<and> is_getting (store_call F p)")
    case True
    then obtain k r where c: "store_call F p = Getting k r" by (auto simp: is_getting_def split: call.splits)
    have "may_call (in_store (core (base X))) (tasks (base X) p) (Getting k r)"
      using step_getting [of W "base X" F p] st True c by simp
    with t True have "counting_step W X (X\<lparr>reads_served := reads_served X + 1, ticked := (ticked X)(p := Some (Getting k r))\<rparr>)"
      by (intro c_tick_read) simp_all
    then show ?thesis using do F True c sch p by (auto simp: counting_do_def scheduled_def)
  next
    case False
    then have X': "X' = X\<lparr>base := F\<rparr>" using do F by (simp add: counting_do_def split: if_splits)
    have "landed (store_call (base X) q) \<noteq> None \<longrightarrow> store_call F q \<noteq> Resting" for q
      using step_landed [of W "base X" F p] nf st other [of q] by (cases "q = p") auto
    moreover have "store_call (base X) q = Resting \<longrightarrow> \<not> is_getting (store_call F q)" for q
      using False other [of q] by (cases "q = p") (auto simp: is_getting_def)
    moreover have "ticked X q \<noteq> None \<longrightarrow> tasks F q = tasks (base X) q \<and> store_call F q = store_call (base X) q" for q
      using t other [of q] by (cases "q = p") auto
    ultimately have "passes X F" using nc unfolding passes_def by blast
    then show ?thesis using st nc sch unfolding X' by (auto simp: scheduled_def intro: c_engine)
  qed
qed

lemma counting_next_step:
  assumes "counting_next n W X x = Some X'" "scheduled n X"
  shows "oracle_room (in_oracle (core (base X))) \<and> counting_step W X X' \<and> scheduled n X'"
proof -
  obtain p a where x: "x = (p, a)" by force
  have room: "oracle_room (in_oracle (core (base X)))" using assms(1) by (auto simp: counting_next_def x split: if_splits)
  show ?thesis
  proof (cases "ticked X p")
    case (Some c)
    then have "p < n" using assms(2) by (force simp: scheduled_def not_less [symmetric])
    then show ?thesis
      using assms room Some c_get [of X p c W] by (auto simp: counting_next_def x scheduled_def)
  next
    case None
    show ?thesis
    proof (cases "\<exists>rts cts ws rs u. store_call (base X) p = Finished (Op_commit rts cts ws rs) (Committed (Inr u))")
      case True
      then obtain rts cts ws rs where f: "store_call (base X) p = Finished (Op_commit rts cts ws rs) (Committed (Inr ()))" by auto
      show ?thesis
      proof (cases "counted X p")
        case True
        have "((tasks (base X))(p := return_to (tasks (base X) p) (store_call (base X) p))) q \<noteq> Collecting low i m" for q low i m
          using assms(2) return_not_collecting [of "tasks (base X) p"] by (simp add: scheduled_def)
        then show ?thesis
          using assms room None f True c_return [OF True, of W] by (auto simp: counting_next_def x scheduled_def)
      next
        case False
        then show ?thesis using assms room None f c_count [OF f False, of W] by (auto simp: counting_next_def x scheduled_def)
      qed
    next
      case False
      then have "counting_do n W X (p, a) = Some X'"
        using assms(1) room None by (auto simp: counting_next_def x split: call.splits store_op.splits store_res.splits sum.splits)
      from counting_do_step [OF this assms(2) None] False room show ?thesis by blast
    qed
  qed
qed

lemma counting_schedule_run:
  "counting_schedule n W xs X = Some X' \<Longrightarrow> counting_run W d X \<Longrightarrow> scheduled n X \<Longrightarrow> counting_run W d X'"
proof (induction xs arbitrary: X)
  case (Cons x xs)
  then obtain T where T: "counting_next n W X x = Some T" "counting_schedule n W xs T = Some X'"
    by (auto simp: bind_eq_Some_conv)
  note T' = counting_next_step [OF T(1) Cons.prems(3)]
  with Cons.prems(2) have "counting_run W d T" by (auto intro: counting_more)
  with T' show ?case using Cons.IH [OF T(2)] by blast
qed simp

section \<open>Properties\<close>

text \<open>C25. A database on a counting store has the same guarantees, lock by lock. Whatever the processes do
  between a tick and the call it counts, the state reached is one of the engine on the wrapped store; so
  each serializable commit read exactly what those before it left, a live transaction or snapshot has read
  the commits at or below its timestamp, and with no call in the store its newest values are those of the
  commits run in order. The read counter counts the gets made and those about to be; the version counter
  lacks exactly the versions of the commits that have landed and not yet returned, and is exact when
  none has.\<close>

theorem custom_store_isolated:
  assumes "counting_run W d X" "quiet wf_store store_hist d {#}"
  shows "engine_run W d (base X)
    \<and> (\<forall>i<length (made (base X)). \<forall>(k, v)\<in>set (c_seen (made (base X) ! i)).
        reads (c_tx (made (base X) ! i)) \<noteq> None \<or> k \<in> dom (map_of (writes (c_tx (made (base X) ! i)))) \<longrightarrow>
          v = serial_state (store_hist (in_store d)) (take i (made (base X))) k)
    \<and> (\<forall>p t. reader_of (tasks (base X) p) = Some t \<longrightarrow> (\<forall>(k, v)\<in>set (got (base X) p).
        v = serial_state (store_hist (in_store d)) (filter (\<lambda>c. c_ts c \<le> t) (made (base X))) k))
    \<and> ((\<forall>p. \<not> active_call (store_call (base X) p)) \<longrightarrow>
        (\<forall>k. latest (store_hist (in_store (core (base X))) k) = serial_state (store_hist (in_store d)) (made (base X)) k))
    \<and> reads_served X = word_of_nat (gets_made X + card (about_to_get X))
    \<and> versions_counted X + word_of_nat (\<Sum>p | owed X p \<noteq> 0. owed X p) = word_of_nat (versions_made (base X))
    \<and> ((\<forall>p. landed (store_call (base X) p) = None) \<longrightarrow> versions_counted X = word_of_nat (versions_made (base X)))"
proof -
  have run: "engine_run W d (base X)" using counting_base [OF assms(1)] by blast
  have inv: "counters_inv X" using assms(1) by (rule counting_counts)
  moreover have "versions_counted X = word_of_nat (versions_made (base X))" if "\<forall>p. landed (store_call (base X) p) = None"
  proof -
    have "owed X = (\<lambda>p. 0)" using that by (simp add: owed_def lands_def fun_eq_iff)
    then show ?thesis using inv by (simp add: counters_inv_def)
  qed
  ultimately show ?thesis
    using run engine_isolation [OF run assms(2)] unfolding counters_inv_def by blast
qed

text \<open>
  A commit of two keys that has landed and not been counted, while another process has ticked for a
  get of one of them.
\<close>

definition lagging :: "(nat \<times> action) list" where
  "lagging = [(0, Begin True), (0, Get key_x), (0, Commit), (0, Commit), (0, Commit), (0, Commit),
     (0, Put key_x [1]), (0, Put key_y [2]), (1, Snap)] @ replicate 12 (0, Commit) @ [(1, Get key_x)]"

lemma lagging_run:
  "map_option (\<lambda>X. (owed X 0, owed X 1, versions_counted X, reads_served X, gets_made X, ticked X 1,
      map c_ts (made (base X)), map c_seen (made (base X)), map (\<lambda>c. reads (c_tx c) \<noteq> None) (made (base X))))
     (counting_schedule 2 list_wal lagging (counting_start one_shard)) =
   Some (2, 0, 0, 2, 1, Some (Getting key_x (Timestamp 0)), [Timestamp 1], [[(key_x, None)]], [True])"
  by code_simp

theorem custom_store_isolated_witness:
  "\<exists>X. counting_run list_wal one_shard X \<and> engine_run list_wal one_shard (base X) \<and> owed X 0 = 2
     \<and> versions_counted X = 0 \<and> reads_served X = 2 \<and> gets_made X = 1
     \<and> reads_served X = word_of_nat (1 + card (about_to_get X))
     \<and> None = serial_state (store_hist (in_store one_shard)) (take 0 (made (base X))) key_x"
proof -
  obtain X where X: "counting_schedule 2 list_wal lagging (counting_start one_shard) = Some X"
    "owed X 0 = 2" "versions_counted X = 0" "reads_served X = 2" "gets_made X = 1"
    "map c_seen (made (base X)) = [[(key_x, None)]]" "map (\<lambda>c. reads (c_tx c) \<noteq> None) (made (base X)) = [True]"
    using lagging_run by auto
  have sch: "scheduled 2 (counting_start one_shard)" by (simp add: scheduled_def counting_start_def engine_start_def)
  have run: "counting_run list_wal one_shard X" by (rule counting_schedule_run [OF X(1) counting_from sch])
  obtain c where c: "made (base X) = [c]" "c_seen c = [(key_x, None)]" "reads (c_tx c) \<noteq> None" using X(6,7) by auto
  note iso = custom_store_isolated [OF run quiet_one_shard]
  have "engine_run list_wal one_shard (base X)" "reads_served X = word_of_nat (1 + card (about_to_get X))"
    using iso unfolding X(5) by blast+
  moreover have "None = serial_state (store_hist (in_store one_shard)) (take 0 (made (base X))) key_x"
    using conjunct1 [OF conjunct2 [OF iso], rule_format, of 0 "(key_x, None)"] c by auto
  ultimately show ?thesis using run X(2-5) by blast
qed

end
