(* ===== verification/Sync.thy ===== *)
theory Sync
  imports Shard_Locks
begin

text \<open>
  The lock helpers of \<open>src/src/sync.rs\<close>: \<open>lock\<close>, \<open>read\<close> and \<open>write\<close> take a guard of a \<open>Mutex\<close> or
  \<open>RwLock\<close> and recover it when an earlier holder panicked. A lock of the standard library is a record
  of what it protects, who is in and whether it is poisoned. Poisoning is never seen through the
  helpers, a lock keeps readers and writers apart, and the locks that theory \<open>Shard_Locks\<close> grants are
  exactly those on which the helpers do not wait.
\<close>

section \<open>Definitions\<close>

text \<open>A guard, or a \<open>PoisonError\<close> that contains one.\<close>

datatype 'g lock_result = Guard 'g | Poisoned 'g

fun into_inner :: "'g lock_result \<Rightarrow> 'g" where
  "into_inner (Guard g) = g"
| "into_inner (Poisoned g) = g"

record 'a rw_lock =
  protected :: 'a
  readers_in :: nat
  writer_in :: bool
  poisoned :: bool

definition as_result :: "'a rw_lock \<Rightarrow> 'a lock_result" where
  "as_result l = (if poisoned l then Poisoned (protected l) else Guard (protected l))"

text \<open>\<open>RwLock::read\<close> and \<open>RwLock::write\<close>; \<open>None\<close> is a caller that waits. A \<open>Mutex\<close> is a lock without readers.\<close>

definition std_read :: "'a rw_lock \<Rightarrow> ('a lock_result \<times> 'a rw_lock) option" where
  "std_read l = (if writer_in l then None else Some (as_result l, l\<lparr>readers_in := Suc (readers_in l)\<rparr>))"

definition std_write :: "'a rw_lock \<Rightarrow> ('a lock_result \<times> 'a rw_lock) option" where
  "std_write l = (if writer_in l \<or> readers_in l \<noteq> 0 then None else Some (as_result l, l\<lparr>writer_in := True\<rparr>))"

text \<open>A write guard that is dropped during a panic poisons the lock; a read guard does not.\<close>

definition drop_read :: "'a rw_lock \<Rightarrow> 'a rw_lock" where
  "drop_read l = l\<lparr>readers_in := readers_in l - 1\<rparr>"

definition drop_write :: "'a \<Rightarrow> bool \<Rightarrow> 'a rw_lock \<Rightarrow> 'a rw_lock" where
  "drop_write v panicking l = l\<lparr>protected := v, writer_in := False, poisoned := (poisoned l \<or> panicking)\<rparr>"

text \<open>The helpers.\<close>

definition sync_lock :: "'a rw_lock \<Rightarrow> ('a \<times> 'a rw_lock) option" where
  "sync_lock m =
     (case std_write m of
        None \<Rightarrow> None
      | Some (Guard guard, m) \<Rightarrow> Some (guard, m)
      | Some (Poisoned p, m) \<Rightarrow> Some (into_inner (Poisoned p), m))"

definition sync_read :: "'a rw_lock \<Rightarrow> ('a \<times> 'a rw_lock) option" where
  "sync_read l =
     (case std_read l of
        None \<Rightarrow> None
      | Some (Guard guard, l) \<Rightarrow> Some (guard, l)
      | Some (Poisoned p, l) \<Rightarrow> Some (into_inner (Poisoned p), l))"

definition sync_write :: "'a rw_lock \<Rightarrow> ('a \<times> 'a rw_lock) option" where
  "sync_write l =
     (case std_write l of
        None \<Rightarrow> None
      | Some (Guard guard, l) \<Rightarrow> Some (guard, l)
      | Some (Poisoned p, l) \<Rightarrow> Some (into_inner (Poisoned p), l))"

text \<open>What the holders of one lock do, and what they find in it.\<close>

datatype 'a lock_use =
    Take_read
  | Take_write
  | Drop_read
  | Drop_write (left: 'a) (panicking: bool)

fun use_lock :: "'a rw_lock \<Rightarrow> 'a lock_use \<Rightarrow> ('a option \<times> 'a rw_lock) option" where
  "use_lock l Take_read = map_option (\<lambda>(g, l). (Some g, l)) (sync_read l)"
| "use_lock l Take_write = map_option (\<lambda>(g, l). (Some g, l)) (sync_write l)"
| "use_lock l Drop_read = (if readers_in l = 0 then None else Some (None, drop_read l))"
| "use_lock l (Drop_write v p) = (if writer_in l then Some (None, drop_write v p l) else None)"

fun use_all :: "'a rw_lock \<Rightarrow> 'a lock_use list \<Rightarrow> ('a option list \<times> 'a rw_lock) option" where
  "use_all l [] = Some ([], l)"
| "use_all l (u # us) =
     Option.bind (use_lock l u) (\<lambda>(g, l). map_option (\<lambda>(gs, l). (g # gs, l)) (use_all l us))"

text \<open>The same uses with no panic.\<close>

fun calm :: "'a lock_use \<Rightarrow> 'a lock_use" where
  "calm (Drop_write v p) = Drop_write v False"
| "calm u = u"

text \<open>The lock of a shard while the calls of theory \<open>Shard_Locks\<close> are in progress.\<close>

definition shard_lock :: "locked_store \<Rightarrow> bool \<Rightarrow> nat \<Rightarrow> chains rw_lock" where
  "shard_lock S psn i =
     \<lparr>protected = shards (mem S) ! i, readers_in = card {q. i \<in> read_held (mem S) (calls S q)},
      writer_in = (\<exists>q. i \<in> write_held (calls S q)), poisoned = psn\<rparr>"

section \<open>Lemmas\<close>

lemma sync_read_eq:
  "sync_read l = (if writer_in l then None else Some (protected l, l\<lparr>readers_in := Suc (readers_in l)\<rparr>))"
  by (simp add: sync_read_def std_read_def as_result_def)

lemma sync_write_eq:
  "sync_write l = (if writer_in l \<or> readers_in l \<noteq> 0 then None else Some (protected l, l\<lparr>writer_in := True\<rparr>))"
  by (simp add: sync_write_def std_write_def as_result_def)

lemma use_lock_calm:
  "map_option (\<lambda>(g, l). (g, l\<lparr>poisoned := False\<rparr>)) (use_lock l u) = use_lock (l\<lparr>poisoned := False\<rparr>) (calm u)"
  by (cases u) (simp_all add: sync_read_eq sync_write_eq drop_read_def drop_write_def)

lemma use_lock_apart:
  "use_lock l u = Some (g, l') \<Longrightarrow> writer_in l \<longrightarrow> readers_in l = 0 \<Longrightarrow> writer_in l' \<longrightarrow> readers_in l' = 0"
  by (cases u) (auto simp: sync_read_eq sync_write_eq drop_read_def drop_write_def split: if_splits)

section \<open>Properties\<close>

text \<open>A panic while a guard is held is never seen by a later holder: whatever sequence of uses, the
  guards are the same and show the same data as if no holder had panicked, a caller waits in the one
  case exactly if it does in the other, and readers and writers stay apart.\<close>

theorem poison_recovered:
  assumes "writer_in l \<longrightarrow> readers_in l = 0"
  shows "map_option (\<lambda>(gs, l). (gs, l\<lparr>poisoned := False\<rparr>)) (use_all l us) =
      use_all (l\<lparr>poisoned := False\<rparr>) (map calm us)
    \<and> (\<forall>gs l'. use_all l us = Some (gs, l') \<longrightarrow> writer_in l' \<longrightarrow> readers_in l' = 0)"
  using assms
proof (induction us arbitrary: l)
  case (Cons u us)
  show ?case
  proof (cases "use_lock l u")
    case None
    then show ?thesis using use_lock_calm [of l u] by auto
  next
    case (Some gl)
    obtain g l1 where gl: "gl = (g, l1)" by force
    have "use_lock (l\<lparr>poisoned := False\<rparr>) (calm u) = Some (g, l1\<lparr>poisoned := False\<rparr>)"
      using use_lock_calm [of l u] by (simp add: Some gl)
    moreover have "writer_in l1 \<longrightarrow> readers_in l1 = 0"
      using use_lock_apart Some Cons.prems unfolding gl by blast
    ultimately show ?thesis
      using Cons.IH [of l1, THEN conjunct1, symmetric] Cons.IH [of l1, THEN conjunct2]
      by (cases "use_all l1 us") (auto simp: Some gl)
  qed
qed simp

text \<open>A waiting call of the store is granted its lock exactly when the helper, on the lock of that shard,
  returns a guard, poisoned or not.\<close>

theorem granted_by_helpers:
  assumes "finite {q. active_call (calls S q)}"
  shows "granted S p \<longleftrightarrow>
    (case wants (mem S) (calls S p) of
       None \<Rightarrow> True
     | Some (True, i) \<Rightarrow> sync_write (shard_lock S psn i) \<noteq> None
     | Some (False, i) \<Rightarrow> sync_read (shard_lock S psn i) \<noteq> None)"
proof -
  have "finite {q. i \<in> read_held (mem S) (calls S q)}" for i
  proof (rule finite_subset [OF _ assms], rule subsetI)
    fix q assume "q \<in> {q. i \<in> read_held (mem S) (calls S q)}"
    then show "q \<in> {q. active_call (calls S q)}" by (cases "calls S q") simp_all
  qed
  then have "readers_in (shard_lock S psn i) = 0 \<longleftrightarrow> (\<forall>q. i \<notin> read_held (mem S) (calls S q))" for i
    by (simp add: shard_lock_def)
  then show ?thesis
    by (auto simp: granted_def sync_read_eq sync_write_eq shard_lock_def split: option.split bool.split)
qed

theorem poison_recovered_witness:
  "use_all \<lparr>protected = 1, readers_in = 0, writer_in = False, poisoned = False\<rparr>
     [Take_write, Drop_write 2 True, Take_read] =
   Some ([Some 1, None, Some (2 :: nat)], \<lparr>protected = 2, readers_in = 1, writer_in = False, poisoned = True\<rparr>)
   \<and> use_all \<lparr>protected = 1, readers_in = 0, writer_in = False, poisoned = False\<rparr>
     [Take_write, Drop_write 2 False, Take_read] =
   Some ([Some 1, None, Some 2], \<lparr>protected = 2, readers_in = 1, writer_in = False, poisoned = False\<rparr>)"
  using poison_recovered [of "\<lparr>protected = 1 :: nat, readers_in = 0, writer_in = False, poisoned = False\<rparr>"
      "[Take_write, Drop_write 2 True, Take_read]"]
  by (simp add: sync_read_eq sync_write_eq drop_write_def)

end
