(* ===== verification/Unit_Tests.thy ===== *)
theory Unit_Tests
  imports Client_Programs "HOL-Library.Sublist"
begin

text \<open>
  The unit tests of the crate (\<open>mod tests\<close> of \<open>src/src/timestamp.rs\<close>, \<open>error.rs\<close>, \<open>oracle.rs\<close>,
  \<open>store.rs\<close>, \<open>durable.rs\<close>), run on the model: one definition for each test function, true when no
  assertion of it fails and no \<open>unwrap\<close> of it panics. The tests of random inputs are stated for all
  inputs. That all of them pass shows that the model answers as the code does on the cases its
  authors chose.
\<close>

section \<open>Definitions\<close>

subsection \<open>Timestamps\<close>

definition test_zero_is_least :: bool where
  "test_zero_is_least \<longleftrightarrow> ZERO \<le> from_raw 0 \<and> ZERO < from_raw 1"

definition test_roundtrips_through_raw :: bool where
  "test_roundtrips_through_raw \<longleftrightarrow> list_all (\<lambda>v. ts_get (from_raw v) = v) [0, 1, 2, - 1]"

definition test_ordering_matches_integer_ordering :: bool where
  "test_ordering_matches_integer_ordering \<longleftrightarrow> from_raw 5 < from_raw 9 \<and> from_raw 9 > from_raw 5"

definition test_display_prefixes_at_sign :: bool where
  "test_display_prefixes_at_sign \<longleftrightarrow> Timestamp_fmt (from_raw 12) = ''@12''"

subsection \<open>Errors\<close>

definition test_conflict_is_retryable :: bool where
  "test_conflict_is_retryable \<longleftrightarrow> is_retryable (conflict 8)"

definition test_store_error_is_not_retryable :: bool where
  "test_store_error_is_not_retryable \<longleftrightarrow> \<not> is_retryable (store_error ''read'' ''disk gone'')"

definition test_conflict_display_reports_key_len_not_bytes :: bool where
  "test_conflict_display_reports_key_len_not_bytes \<longleftrightarrow>
     (let msg = TxnError_fmt (conflict 16) in sublist ''16-byte'' msg \<and> sublist ''retry'' msg)"

definition test_kind_matches_variant :: bool where
  "test_kind_matches_variant \<longleftrightarrow> kind (conflict 1) = ''Conflict'' \<and> kind (store_error ''x'' ''y'') = ''Store''"

definition test_no_variant_is_fatal :: bool where
  "test_no_variant_is_fatal \<longleftrightarrow> \<not> is_fatal (conflict 1) \<and> \<not> is_fatal (store_error ''x'' ''y'')"

text \<open>One value of every variant, whether it is retryable and whether it is fatal.\<close>

definition every_variant :: "(TxnError \<times> bool \<times> bool) list" where
  "every_variant =
     [(conflict 8, True, False),
      (store_error ''read'' ''disk gone'', False, False),
      (Durability ''sync failed'', False, True)]"

definition test_trait_is_retryable_matches_inherent_for_every_variant :: bool where
  "test_trait_is_retryable_matches_inherent_for_every_variant \<longleftrightarrow>
     list_all (\<lambda>(err, retryable, _). is_retryable err = retryable \<and> ForgeError_is_retryable err = retryable)
       every_variant"

definition test_dyn_forge_error_is_retryable_for_every_variant :: bool where
  "test_dyn_forge_error_is_retryable_for_every_variant \<longleftrightarrow>
     list_all (\<lambda>(err, retryable, _). ForgeError_is_retryable err = retryable) every_variant"

definition test_is_fatal_for_every_variant :: bool where
  "test_is_fatal_for_every_variant \<longleftrightarrow> list_all (\<lambda>(err, _, fatal). is_fatal err = fatal) every_variant"

text \<open>The kinds are compared with themselves through a trait object, which is the same method.\<close>

definition test_kind_through_dyn_forge_error_for_every_variant :: bool where
  "test_kind_through_dyn_forge_error_for_every_variant \<longleftrightarrow>
     list_all (\<lambda>(err, _, _). kind err = kind err \<and> caption err = ''transaction error'') every_variant"

subsection \<open>The oracle\<close>

definition test_new_oracle_reads_at_zero :: bool where
  "test_new_oracle_reads_at_zero \<longleftrightarrow> Oracle_read_ts Oracle_new = ZERO"

definition test_commit_ts_is_strictly_increasing :: bool where
  "test_commit_ts_is_strictly_increasing \<longleftrightarrow>
     (let (a, orc) = alloc_commit_ts Oracle_new; (b, orc) = alloc_commit_ts orc
      in b > a \<and> a = from_raw 1 \<and> b = from_raw 2)"

definition test_watermark_advances_on_in_order_completion :: bool where
  "test_watermark_advances_on_in_order_completion \<longleftrightarrow>
     (let (t1, orc) = alloc_commit_ts Oracle_new; orc = commit_done orc t1
      in Oracle_read_ts orc = from_raw 1)"

definition test_watermark_waits_for_earlier_timestamp :: bool where
  "test_watermark_waits_for_earlier_timestamp \<longleftrightarrow>
     (let (t1, orc) = alloc_commit_ts Oracle_new;
          (t2, orc) = alloc_commit_ts orc;
          later = commit_done orc t2;
          both = commit_done later t1
      in Oracle_read_ts later = ZERO \<and> Oracle_read_ts both = from_raw 2)"

subsection \<open>The store\<close>

text \<open>
  The helper \<open>commit\<close>, with the rest of the test as its last argument: a commit that fails is a
  panic, which fails the test.
\<close>

definition commit_at :: "memory_store \<Rightarrow> u64 \<Rightarrow> write_entry list \<Rightarrow> (memory_store \<Rightarrow> bool) \<Rightarrow> bool" where
  "commit_at store ts ws then_run =
     (case MemoryStore_try_commit store (from_raw (ts - 1)) (from_raw ts) ws [] of
        (Inr _, store') \<Rightarrow> then_run store'
      | (Inl _, _) \<Rightarrow> False)"

definition is_conflict :: "TxnError \<Rightarrow> bool" where
  "is_conflict err = (case err of Conflict _ \<Rightarrow> True | _ \<Rightarrow> False)"

text \<open>\<open>unwrap\<close> and \<open>unwrap_err\<close> of a commit, with the rest of the test.\<close>

fun unwrapped :: "unit result \<times> memory_store \<Rightarrow> (memory_store \<Rightarrow> bool) \<Rightarrow> bool" where
  "unwrapped (Inr _, store) then_run = then_run store"
| "unwrapped (Inl _, store) then_run = False"

fun unwrapped_err :: "unit result \<times> memory_store \<Rightarrow> (TxnError \<Rightarrow> memory_store \<Rightarrow> bool) \<Rightarrow> bool" where
  "unwrapped_err (Inl err, store) then_run = then_run err store"
| "unwrapped_err (Inr _, store) then_run = False"

definition test_get_on_missing_key_returns_none :: bool where
  "test_get_on_missing_key_returns_none \<longleftrightarrow> MemoryStore_get MemoryStore_new (lit ''absent'') (from_raw 10) = Inr None"

definition test_read_sees_only_versions_at_or_before_snapshot :: bool where
  "test_read_sees_only_versions_at_or_before_snapshot \<longleftrightarrow>
     commit_at MemoryStore_new 2 [(lit ''x'', Some (lit ''a''))] (\<lambda>store.
     commit_at store 4 [(lit ''x'', Some (lit ''b''))] (\<lambda>store.
       MemoryStore_get store (lit ''x'') (from_raw 1) = Inr None
       \<and> MemoryStore_get store (lit ''x'') (from_raw 2) = Inr (Some (lit ''a''))
       \<and> MemoryStore_get store (lit ''x'') (from_raw 3) = Inr (Some (lit ''a''))
       \<and> MemoryStore_get store (lit ''x'') (from_raw 4) = Inr (Some (lit ''b''))
       \<and> MemoryStore_get store (lit ''x'') (from_raw 99) = Inr (Some (lit ''b''))))"

definition test_tombstone_reads_as_absent :: bool where
  "test_tombstone_reads_as_absent \<longleftrightarrow>
     commit_at MemoryStore_new 1 [(lit ''x'', Some (lit ''a''))] (\<lambda>store.
     commit_at store 2 [(lit ''x'', None)] (\<lambda>store.
       MemoryStore_get store (lit ''x'') (from_raw 1) = Inr (Some (lit ''a''))
       \<and> MemoryStore_get store (lit ''x'') (from_raw 2) = Inr None))"

definition test_write_write_conflict_is_detected :: bool where
  "test_write_write_conflict_is_detected \<longleftrightarrow>
     commit_at MemoryStore_new 5 [(lit ''x'', Some (lit ''a''))] (\<lambda>store.
     unwrapped_err (MemoryStore_try_commit store (from_raw 4) (from_raw 6) [(lit ''x'', Some (lit ''b''))] []) (\<lambda>err store.
       is_conflict err \<and> MemoryStore_get store (lit ''x'') (from_raw 99) = Inr (Some (lit ''a''))))"

definition test_read_set_validation_detects_skew :: bool where
  "test_read_set_validation_detects_skew \<longleftrightarrow>
     commit_at MemoryStore_new 5 [(lit ''y'', Some (lit ''1''))] (\<lambda>store.
     unwrapped_err
       (MemoryStore_try_commit store (from_raw 4) (from_raw 6) [(lit ''x'', Some (lit ''a''))] [lit ''y''])
       (\<lambda>err _. is_conflict err))"

definition test_multi_shard_commit_applies_all_keys :: bool where
  "test_multi_shard_commit_applies_all_keys \<longleftrightarrow>
     commit_at (with_shards 8) 1 (map (\<lambda>i. ([word_of_nat i], Some [word_of_nat i])) [0..<32]) (\<lambda>store.
       list_all (\<lambda>i. MemoryStore_get store [word_of_nat i] (from_raw 1) = Inr (Some [word_of_nat i])) [0..<32]
       \<and> key_count store = 32)"

definition test_with_shards_rounds_up_to_power_of_two :: bool where
  "test_with_shards_rounds_up_to_power_of_two \<longleftrightarrow>
     (let store = with_shards 5 in length (shards store) = 8 \<and> shard_mask store = 7)"

definition test_gc_prunes_versions_below_watermark_but_keeps_newest_visible :: bool where
  "test_gc_prunes_versions_below_watermark_but_keeps_newest_visible \<longleftrightarrow>
     commit_at MemoryStore_new 1 [(lit ''x'', Some (lit ''a''))] (\<lambda>store.
     commit_at store 2 [(lit ''x'', Some (lit ''b''))] (\<lambda>store.
     commit_at store 3 [(lit ''x'', Some (lit ''c''))] (\<lambda>store.
       let (reclaimed, store) = MemoryStore_collect_garbage store (from_raw 2)
       in reclaimed = 1
         \<and> MemoryStore_get store (lit ''x'') (from_raw 2) = Inr (Some (lit ''b''))
         \<and> MemoryStore_get store (lit ''x'') (from_raw 3) = Inr (Some (lit ''c'')))))"

definition test_gc_drops_key_whose_only_survivor_is_a_passed_tombstone :: bool where
  "test_gc_drops_key_whose_only_survivor_is_a_passed_tombstone \<longleftrightarrow>
     commit_at MemoryStore_new 1 [(lit ''x'', Some (lit ''a''))] (\<lambda>store.
     commit_at store 2 [(lit ''x'', None)] (\<lambda>store.
       let (reclaimed, store) = MemoryStore_collect_garbage store (from_raw 5)
       in reclaimed = 2 \<and> key_count store = 0))"

definition test_gc_keeps_everything_above_watermark :: bool where
  "test_gc_keeps_everything_above_watermark \<longleftrightarrow>
     commit_at MemoryStore_new 5 [(lit ''x'', Some (lit ''a''))] (\<lambda>store.
     commit_at store 6 [(lit ''x'', Some (lit ''b''))] (\<lambda>store.
       let (reclaimed, store) = MemoryStore_collect_garbage store (from_raw 4)
       in reclaimed = 0 \<and> MemoryStore_get store (lit ''x'') (from_raw 5) = Inr (Some (lit ''a''))))"

text \<open>\<open>u64::MAX\<close> is the word \<open>-1\<close>.\<close>

definition test_extreme_timestamps_order_correctly :: bool where
  "test_extreme_timestamps_order_correctly \<longleftrightarrow>
     (let near_max = from_raw (- 1 - 1); max = from_raw (- 1) in
     unwrapped (MemoryStore_try_commit MemoryStore_new ZERO near_max [(lit ''x'', Some (lit ''a''))] []) (\<lambda>store.
     unwrapped (MemoryStore_try_commit store near_max max [(lit ''x'', Some (lit ''b''))] []) (\<lambda>store.
       MemoryStore_get store (lit ''x'') (from_raw (- 1 - 2)) = Inr None
       \<and> MemoryStore_get store (lit ''x'') near_max = Inr (Some (lit ''a''))
       \<and> MemoryStore_get store (lit ''x'') max = Inr (Some (lit ''b''))
       \<and> unwrapped_err (MemoryStore_try_commit store near_max max [(lit ''x'', Some (lit ''c''))] []) (\<lambda>err _.
           is_conflict err))))"

definition test_gc_at_extreme_watermark :: bool where
  "test_gc_at_extreme_watermark \<longleftrightarrow>
     unwrapped (MemoryStore_try_commit MemoryStore_new ZERO (from_raw (- 1 - 1)) [(lit ''x'', Some (lit ''a''))] []) (\<lambda>store.
     unwrapped (MemoryStore_try_commit store (from_raw (- 1 - 1)) (from_raw (- 1)) [(lit ''x'', Some (lit ''b''))] []) (\<lambda>store.
       let (reclaimed, store) = MemoryStore_collect_garbage store (from_raw (- 1))
       in reclaimed = 1 \<and> MemoryStore_get store (lit ''x'') (from_raw (- 1)) = Inr (Some (lit ''b''))))"

text \<open>A store without history, which keeps the default collection.\<close>

definition NoHistory :: "unit version_store" where
  "NoHistory =
     \<lparr>vs_get = (\<lambda>_ _ _. Inr None), vs_try_commit = (\<lambda>s _ _ _ _. (Inr (), s)),
      vs_collect_garbage = default_collect_garbage\<rparr>"

definition test_default_trait_gc_is_noop :: bool where
  "test_default_trait_gc_is_noop \<longleftrightarrow> fst (vs_collect_garbage NoHistory () (from_raw 100)) = 0"

subsection \<open>The commit log\<close>

definition encode_decode_roundtrips_arbitrary :: "u64 \<Rightarrow> write_entry list \<Rightarrow> bool" where
  "encode_decode_roundtrips_arbitrary ts entries =
     (case decode_commit (encode_for_log (from_raw ts) entries) of
        Inr decoded \<Rightarrow> rc_commit_ts decoded = from_raw ts \<and> rc_writes decoded = entries
      | Inl _ \<Rightarrow> False)"

definition decode_rejects_arbitrary_trailing_bytes :: "u64 \<Rightarrow> bytes \<Rightarrow> bool" where
  "decode_rejects_arbitrary_trailing_bytes ts trailer =
     isl (decode_commit (encode_for_log (from_raw ts) [(lit ''k'', Some (lit ''v''))] @ trailer))"

definition test_encode_decode_roundtrip :: bool where
  "test_encode_decode_roundtrip \<longleftrightarrow>
     encode_decode_roundtrips_arbitrary 42
       [(lit ''alice'', Some (lit ''100'')), (lit ''bob'', None), (lit '''', Some (lit ''''))]"

definition test_decode_empty_write_set :: bool where
  "test_decode_empty_write_set \<longleftrightarrow> encode_decode_roundtrips_arbitrary 7 []"

definition test_decode_truncated_record_is_rejected :: bool where
  "test_decode_truncated_record_is_rejected \<longleftrightarrow>
     (let bytes = encode_for_log (from_raw 1) [(lit ''k'', Some (lit ''v''))]
      in list_all (\<lambda>cut. isl (decode_commit (take cut bytes))) [0..<length bytes])"

definition test_decode_rejects_implausible_count :: bool where
  "test_decode_rejects_implausible_count \<longleftrightarrow>
     isl (decode_commit (RECORD_VERSION # u64_to_le_bytes 0 @ u32_to_le_bytes (- 1)))"

definition test_decode_rejects_trailing_bytes :: bool where
  "test_decode_rejects_trailing_bytes \<longleftrightarrow> isl (decode_commit (encode_for_log (from_raw 1) [] @ [0xff]))"

definition test_decode_rejects_bad_value_tag :: bool where
  "test_decode_rejects_bad_value_tag \<longleftrightarrow>
     isl (decode_commit
       (RECORD_VERSION # u64_to_le_bytes 1 @ u32_to_le_bytes 1 @ u32_to_le_bytes 1 @ lit ''k'' @ [9]))"

definition test_decode_rejects_unknown_version :: bool where
  "test_decode_rejects_unknown_version \<longleftrightarrow>
     isl (decode_commit ((encode_for_log (from_raw 1) [(lit ''k'', Some (lit ''v''))])[0 := 2]))"

section \<open>Properties\<close>

text \<open>The tests of \<open>timestamp.rs\<close>, \<open>error.rs\<close> and \<open>oracle.rs\<close>.\<close>

theorem timestamp_tests_pass:
  "test_zero_is_least \<and> test_roundtrips_through_raw \<and> test_ordering_matches_integer_ordering
    \<and> test_display_prefixes_at_sign"
  by code_simp

theorem error_tests_pass:
  "test_conflict_is_retryable \<and> test_store_error_is_not_retryable
    \<and> test_conflict_display_reports_key_len_not_bytes \<and> test_kind_matches_variant \<and> test_no_variant_is_fatal
    \<and> test_trait_is_retryable_matches_inherent_for_every_variant
    \<and> test_dyn_forge_error_is_retryable_for_every_variant \<and> test_is_fatal_for_every_variant
    \<and> test_kind_through_dyn_forge_error_for_every_variant"
  by code_simp

theorem oracle_tests_pass:
  "test_new_oracle_reads_at_zero \<and> test_commit_ts_is_strictly_increasing
    \<and> test_watermark_advances_on_in_order_completion \<and> test_watermark_waits_for_earlier_timestamp"
  by code_simp

text \<open>The tests of \<open>store.rs\<close>.\<close>

lemma store_read_tests_pass:
  "test_get_on_missing_key_returns_none \<and> test_read_sees_only_versions_at_or_before_snapshot
    \<and> test_tombstone_reads_as_absent"
  by code_simp

lemma store_conflict_tests_pass:
  "test_write_write_conflict_is_detected \<and> test_read_set_validation_detects_skew
    \<and> test_extreme_timestamps_order_correctly"
  by code_simp

lemma store_shard_tests_pass:
  "test_multi_shard_commit_applies_all_keys \<and> test_with_shards_rounds_up_to_power_of_two"
  by code_simp

lemma store_gc_tests_pass:
  "test_gc_prunes_versions_below_watermark_but_keeps_newest_visible
    \<and> test_gc_drops_key_whose_only_survivor_is_a_passed_tombstone
    \<and> test_gc_keeps_everything_above_watermark \<and> test_gc_at_extreme_watermark \<and> test_default_trait_gc_is_noop"
  by code_simp

text \<open>The random tests of \<open>durable.rs\<close> generate keys, values and batches of less than 24 elements.\<close>

definition generated_batch :: "write_entry list \<Rightarrow> bool" where
  "generated_batch entries \<longleftrightarrow> length entries < 24
     \<and> (\<forall>w\<in>set entries. length (fst w) < 24 \<and> (\<forall>b. snd w = Some b \<longrightarrow> length b < 24))"

lemma encode_write_size: "length (encode_write (k, v)) = 5 + length k + (case v of None \<Rightarrow> 0 | Some b \<Rightarrow> 4 + length b)"
  by (simp add: encode_write_def split: option.split)

lemma generated_batch_encodes:
  assumes "generated_batch entries" "length q < 2 ^ 32"
  shows "batch_fits entries" "length (encode_for_log ts entries @ q) < 2 ^ 64"
proof -
  show "batch_fits entries"
    using assms(1) by (force simp: generated_batch_def batch_fits_def entry_fits_def list_all_iff)
  have "length (encode_write w) \<le> 60" if "w \<in> set entries" for w
  proof -
    obtain k v where w: "w = (k, v)" by force
    then have "length k < 24" "\<And>b. v = Some b \<Longrightarrow> length b < 24"
      using that assms(1) by (auto simp: generated_batch_def)
    then show ?thesis by (cases v) (simp_all add: w encode_write_size)
  qed
  then have "sum_list (map (\<lambda>w. length (encode_write w)) entries) \<le> 60 * length entries"
    using sum_list_mono [of entries "\<lambda>w. length (encode_write w)" "\<lambda>_. 60"] by (simp add: sum_list_triv mult.commute)
  then show "length (encode_for_log ts entries @ q) < 2 ^ 64"
    using assms by (simp add: encode_for_log_def generated_batch_def length_concat o_def)
qed

lemma decoded_form:
  assumes "\<not> isl (decode_commit bs)" "length bs < 2 ^ 64"
  obtains ts ws where "bs = RECORD_VERSION # u64_to_le_bytes ts @ u32_to_le_bytes (word_of_nat (length ws)) @
    concat (map encode_write ws)" "batch_fits ws"
proof -
  obtain c where "decode_commit bs = Inr c" using assms(1) by (cases "decode_commit bs") simp_all
  then have "bs = encode_for_log (rc_commit_ts c) (rc_writes c)" "batch_fits (rc_writes c)"
    using decode_commit_inv [OF assms(2), of c] by blast+
  then show thesis by (intro that) (simp_all only: encode_for_log_def append_Cons append_Nil)
qed

lemma durable_roundtrips_pass: "test_encode_decode_roundtrip \<and> test_decode_empty_write_set"
proof -
  have "encode_decode_roundtrips_arbitrary ts entries" if "generated_batch entries" for ts entries
    using decode_encode_append [of entries "from_raw ts" "[]"] generated_batch_encodes [OF that, of "[]"]
    by (simp add: encode_decode_roundtrips_arbitrary_def)
  then show ?thesis
    unfolding test_encode_decode_roundtrip_def test_decode_empty_write_set_def
    by (simp add: generated_batch_def lit_def)
qed

lemma durable_rejects_pass:
  "test_decode_truncated_record_is_rejected \<and> test_decode_rejects_trailing_bytes \<and> test_decode_rejects_unknown_version"
proof (intro conjI)
  let ?w = "[(lit ''k'', Some (lit ''v''))]"
  have g: "generated_batch ?w" "generated_batch []" by (simp_all add: generated_batch_def lit_def)
  show test_decode_truncated_record_is_rejected
    unfolding test_decode_truncated_record_is_rejected_def Let_def list_all_iff
  proof
    fix cut assume "cut \<in> set [0..<length (encode_for_log (from_raw 1) ?w)]"
    then have "drop cut (encode_for_log (from_raw 1) ?w) \<noteq> []" by simp
    moreover have "\<forall>p p'. encode_for_log (from_raw 1) ?w = p @ p' \<longrightarrow> p' \<noteq> [] \<longrightarrow> (\<exists>e. decode_commit p = Inl e)"
      using torn_or_padded_record_rejected [OF generated_batch_encodes [OF g(1), of "[0]"], of "from_raw 1"] by simp
    ultimately obtain e where "decode_commit (take cut (encode_for_log (from_raw 1) ?w)) = Inl e"
      using append_take_drop_id [of cut "encode_for_log (from_raw 1) ?w", symmetric] by blast
    then show "isl (decode_commit (take cut (encode_for_log (from_raw 1) ?w)))" by simp
  qed
  show test_decode_rejects_trailing_bytes
    using decode_encode_append [OF generated_batch_encodes [OF g(2), of "[0xff]"], of "from_raw 1"]
    by (simp add: test_decode_rejects_trailing_bytes_def)
  show test_decode_rejects_unknown_version
  proof (rule ccontr)
    assume "\<not> test_decode_rejects_unknown_version"
    then have "\<not> isl (decode_commit ((encode_for_log (from_raw 1) ?w)[0 := 2]))"
      by (simp add: test_decode_rejects_unknown_version_def)
    moreover have "length ((encode_for_log (from_raw 1) ?w)[0 := 2]) < 2 ^ 64"
      using generated_batch_encodes(2) [OF g(1), of "[]" "from_raw 1"] by simp
    ultimately obtain ts ws where "(encode_for_log (from_raw 1) ?w)[0 := 2] =
        RECORD_VERSION # u64_to_le_bytes ts @ u32_to_le_bytes (word_of_nat (length ws)) @ concat (map encode_write ws)"
      by (rule decoded_form)
    then show False by (simp add: encode_for_log_def RECORD_VERSION_def)
  qed
qed

lemma durable_malformed_pass: "test_decode_rejects_implausible_count \<and> test_decode_rejects_bad_value_tag"
proof (intro conjI)
  show test_decode_rejects_implausible_count
  proof (rule ccontr)
    assume "\<not> test_decode_rejects_implausible_count"
    then have "\<not> isl (decode_commit (RECORD_VERSION # u64_to_le_bytes 0 @ u32_to_le_bytes (- 1)))"
      by (simp add: test_decode_rejects_implausible_count_def)
    then obtain ts ws where "RECORD_VERSION # u64_to_le_bytes 0 @ u32_to_le_bytes (- 1) =
        RECORD_VERSION # u64_to_le_bytes ts @ u32_to_le_bytes (word_of_nat (length ws)) @ concat (map encode_write ws)"
      by (rule decoded_form) simp
    then have eq: "u32_to_le_bytes (- 1) = u32_to_le_bytes (word_of_nat (length ws)) @ concat (map encode_write ws)"
      by (simp add: append_eq_append_conv)
    have "length (concat (map encode_write ws)) = 0" using arg_cong [OF eq, of length] by simp
    then have "concat (map encode_write ws) = []" unfolding length_0_conv .
    moreover from this eq have "u32_to_le_bytes (- 1) = u32_to_le_bytes (word_of_nat (length ws))" by simp
    moreover from calculation(1) have "ws = []" by (cases ws) (auto dest: arg_cong [where f = length] simp: encode_write_size)
    ultimately show False using u32_le_roundtrip [of "- 1"] u32_le_roundtrip [of 0] by simp
  qed
  show test_decode_rejects_bad_value_tag
  proof (rule ccontr)
    assume "\<not> test_decode_rejects_bad_value_tag"
    then have "\<not> isl (decode_commit
        (RECORD_VERSION # u64_to_le_bytes 1 @ u32_to_le_bytes 1 @ u32_to_le_bytes 1 @ lit ''k'' @ [9]))"
      by (simp add: test_decode_rejects_bad_value_tag_def)
    then obtain ts ws where "RECORD_VERSION # u64_to_le_bytes 1 @ u32_to_le_bytes 1 @ u32_to_le_bytes 1 @ lit ''k'' @ [9] =
        RECORD_VERSION # u64_to_le_bytes ts @ u32_to_le_bytes (word_of_nat (length ws)) @ concat (map encode_write ws)"
      by (rule decoded_form) (simp add: lit_def)
    then have ws: "u32_to_le_bytes 1 @ lit ''k'' @ [9] = concat (map encode_write ws)"
      by (metis append_eq_append_conv length_u32_to_le_bytes length_u64_to_le_bytes list.inject)
    show False
    proof (cases ws)
      case (Cons w ws')
      obtain k v where w: "w = (k, v)" by force
      have "u32_to_le_bytes 1 = u32_to_le_bytes (word_of_nat (length k))"
        and tail: "lit ''k'' @ [9] = k @ (case v of None \<Rightarrow> [0] | Some b \<Rightarrow> [1] @ u32_to_le_bytes (word_of_nat (length b)) @ b)
          @ concat (map encode_write ws')"
        using ws by (simp_all add: Cons w encode_write_def append_eq_append_conv)
      then have "(1 :: u32) = word_of_nat (length k)" by (metis u32_le_roundtrip)
      then have "length k \<noteq> 0" by auto
      moreover have "length k \<le> 1" using arg_cong [OF tail, of length] by (simp add: lit_def split: option.splits)
      ultimately have "length k = 1" by linarith
      then show False using tail by (auto simp: lit_def length_Suc_conv split: option.splits)
    qed (use ws in simp)
  qed
qed

text \<open>The tests of \<open>store.rs\<close>, together.\<close>

theorem store_tests_pass:
  "test_get_on_missing_key_returns_none \<and> test_read_sees_only_versions_at_or_before_snapshot
    \<and> test_tombstone_reads_as_absent \<and> test_write_write_conflict_is_detected \<and> test_read_set_validation_detects_skew
    \<and> test_multi_shard_commit_applies_all_keys \<and> test_with_shards_rounds_up_to_power_of_two
    \<and> test_gc_prunes_versions_below_watermark_but_keeps_newest_visible
    \<and> test_gc_drops_key_whose_only_survivor_is_a_passed_tombstone \<and> test_gc_keeps_everything_above_watermark
    \<and> test_extreme_timestamps_order_correctly \<and> test_gc_at_extreme_watermark \<and> test_default_trait_gc_is_noop"
  using store_read_tests_pass store_conflict_tests_pass store_shard_tests_pass store_gc_tests_pass by blast

text \<open>The tests of \<open>durable.rs\<close>: the examples, and the random tests for every input they generate.\<close>

theorem durable_tests_pass:
  assumes "generated_batch entries" "trailer \<noteq> []" "length trailer < 32"
  shows "encode_decode_roundtrips_arbitrary ts entries \<and> decode_rejects_arbitrary_trailing_bytes ts trailer
    \<and> test_encode_decode_roundtrip \<and> test_decode_empty_write_set \<and> test_decode_truncated_record_is_rejected
    \<and> test_decode_rejects_implausible_count \<and> test_decode_rejects_trailing_bytes
    \<and> test_decode_rejects_bad_value_tag \<and> test_decode_rejects_unknown_version"
proof -
  have g: "generated_batch [(lit ''k'', Some (lit ''v''))]" by (simp add: generated_batch_def lit_def)
  have fits: "length trailer < 2 ^ 32" using assms(3) by simp
  have "encode_decode_roundtrips_arbitrary ts entries"
    using decode_encode_append [of entries "from_raw ts" "[]"] generated_batch_encodes [OF assms(1), of "[]"]
    by (simp add: encode_decode_roundtrips_arbitrary_def)
  moreover have "decode_rejects_arbitrary_trailing_bytes ts trailer"
    using decode_encode_append [OF generated_batch_encodes(1) [OF g fits] generated_batch_encodes(2) [OF g fits, of "from_raw ts"]] assms(2)
    by (simp add: decode_rejects_arbitrary_trailing_bytes_def)
  ultimately show ?thesis using durable_roundtrips_pass durable_rejects_pass durable_malformed_pass by blast
qed

theorem durable_tests_pass_witness:
  "encode_decode_roundtrips_arbitrary 3 [(lit ''k'', Some (lit ''v'')), (lit ''k'', None)]
     \<and> decode_rejects_arbitrary_trailing_bytes 3 [0, 255]"
  using durable_tests_pass [of "[(lit ''k'', Some (lit ''v'')), (lit ''k'', None)]" "[0, 255]" 3]
  by (simp add: generated_batch_def lit_def)

end
