(* ===== verification/Database_Tests.thy ===== *)
theory Database_Tests
  imports Example_Mains
begin

text \<open>
  The unit tests of the database handle (\<open>mod tests\<close> of \<open>src/src/db.rs\<close>, and the one of
  \<open>src/src/error.rs\<close> that goes through a database), run on the model: one definition for each test
  function, true when no assertion of it fails and no \<open>unwrap\<close> of it panics. The database is a new
  one, with the sixteen shards and the hash function of the source; the order in which a commit
  iterates over its buffers is an argument, and the tests pass for every order.
\<close>

section \<open>Definitions\<close>

text \<open>\<open>db.begin().get(key)\<close>.\<close>

definition begin_get :: "(memory_store, 'w) db \<Rightarrow> bytes \<Rightarrow> bytes option result" where
  "begin_get d key = (let (tx, d) = Db_begin d in fst (Transaction_get MemoryStore d tx key))"

definition test_new_database_is_empty_at_zero :: "'w itself \<Rightarrow> bool" where
  "test_new_database_is_empty_at_zero _ \<longleftrightarrow>
     Db_last_committed (Db_new :: (memory_store, 'w) db) = ZERO
     \<and> begin_get (Db_new :: (memory_store, 'w) db) (lit ''k'') = Inr None"

definition test_commit_makes_writes_visible_to_later_transactions :: "hash_order \<Rightarrow> 'w wal_ops \<Rightarrow> bool" where
  "test_commit_makes_writes_visible_to_later_transactions ord W =
     (let (tx, d) = Db_begin Db_new;
          tx = Transaction_put tx (lit ''k'') (lit ''v'')
      in (case Transaction_commit ord MemoryStore W d tx of
           (Inl _, _) \<Rightarrow> False
         | (Inr ts, d) \<Rightarrow>
         ts > ZERO \<and> begin_get d (lit ''k'') = Inr (Some (lit ''v''))))"

definition test_snapshot_is_isolated_from_later_commits :: "hash_order \<Rightarrow> 'w wal_ops \<Rightarrow> bool" where
  "test_snapshot_is_isolated_from_later_commits ord W =
     (let (tx, d) = Db_begin Db_new;
          tx = Transaction_put tx (lit ''k'') (lit ''v1'')
      in (case Transaction_commit ord MemoryStore W d tx of
           (Inl _, _) \<Rightarrow> False
         | (Inr _, d) \<Rightarrow>
         let (snap, d) = Db_snapshot d;
             (tx, d) = Db_begin d;
             tx = Transaction_put tx (lit ''k'') (lit ''v2'')
         in (case Transaction_commit ord MemoryStore W d tx of
           (Inl _, _) \<Rightarrow> False
         | (Inr _, d) \<Rightarrow>
         Snapshot_get MemoryStore d snap (lit ''k'') = Inr (Some (lit ''v1'')))))"

definition test_write_write_conflict_aborts_later_committer :: "hash_order \<Rightarrow> 'w wal_ops \<Rightarrow> bool" where
  "test_write_write_conflict_aborts_later_committer ord W =
     (let (a, d) = Db_begin Db_new;
          (b, d) = Db_begin d;
          a = Transaction_put a (lit ''k'') (lit ''a'');
          b = Transaction_put b (lit ''k'') (lit ''b'')
      in (case Transaction_commit ord MemoryStore W d a of
           (Inl _, _) \<Rightarrow> False
         | (Inr _, d) \<Rightarrow>
         (case Transaction_commit ord MemoryStore W d b of (Inr _, _) \<Rightarrow> False | (Inl err, d) \<Rightarrow>
         is_retryable err \<and> begin_get d (lit ''k'') = Inr (Some (lit ''a'')))))"

definition test_disjoint_keys_do_not_conflict :: "hash_order \<Rightarrow> 'w wal_ops \<Rightarrow> bool" where
  "test_disjoint_keys_do_not_conflict ord W =
     (let (a, d) = Db_begin Db_new;
          (b, d) = Db_begin d;
          a = Transaction_put a (lit ''a'') (lit ''1'');
          b = Transaction_put b (lit ''b'') (lit ''2'')
      in (case Transaction_commit ord MemoryStore W d a of
           (Inl _, _) \<Rightarrow> False
         | (Inr _, d) \<Rightarrow>
         (case Transaction_commit ord MemoryStore W d b of (Inl _, _) \<Rightarrow> False | (Inr _, _) \<Rightarrow>
         True)))"

definition test_read_only_commit_returns_snapshot_timestamp :: "hash_order \<Rightarrow> 'w wal_ops \<Rightarrow> bool" where
  "test_read_only_commit_returns_snapshot_timestamp ord W =
     (let (tx, d) = Db_begin Db_new;
          tx = Transaction_put tx (lit ''k'') (lit ''v'')
      in (case Transaction_commit ord MemoryStore W d tx of
           (Inl _, _) \<Rightarrow> False
         | (Inr ts, d) \<Rightarrow>
         let (ro, d) = Db_begin d
         in (case Transaction_commit ord MemoryStore W d ro of
           (Inl _, _) \<Rightarrow> False
         | (Inr ts', _) \<Rightarrow>
         ts' = ts)))"

definition test_rollback_discards_writes :: "'w itself \<Rightarrow> bool" where
  "test_rollback_discards_writes _ =
     (let (tx, d) = Db_begin (Db_new :: (memory_store, 'w) db);
          tx = Transaction_put tx (lit ''k'') (lit ''v'');
          d = Transaction_rollback d tx
      in begin_get d (lit ''k'') = Inr None)"

definition test_autocommit_put_get_delete :: "hash_order \<Rightarrow> 'w wal_ops \<Rightarrow> bool" where
  "test_autocommit_put_get_delete ord W =
     (case Db_put ord MemoryStore W Db_new (lit ''k'') (lit ''v'') of
        None \<Rightarrow> False
      | Some r \<Rightarrow> (case r of (Inl _, _) \<Rightarrow> False | (Inr ts, d) \<Rightarrow>
         let (found, d) = Db_get MemoryStore d (lit ''k'');
              (absent, d) = Db_get MemoryStore d (lit ''absent'')
          in ts > ZERO \<and> found = Inr (Some (lit ''v'')) \<and> absent = Inr None
            \<and> (case Db_delete ord MemoryStore W d (lit ''k'') of
                 None \<Rightarrow> False
               | Some r \<Rightarrow> (case r of (Inl _, _) \<Rightarrow> False | (Inr ts2, d) \<Rightarrow>
         ts2 > ts \<and> fst (Db_get MemoryStore d (lit ''k'')) = Inr None))))"

text \<open>A commit of each value in turn to the key; \<open>None\<close> is a panic of \<open>unwrap\<close>.\<close>

fun put_each :: "hash_order \<Rightarrow> 'w wal_ops \<Rightarrow> u8 list \<Rightarrow> (memory_store, 'w) db \<Rightarrow> (memory_store, 'w) db option" where
  "put_each ord W [] d = Some d"
| "put_each ord W (v # vs) d =
     (let (tx, d) = Db_begin d;
          tx = Transaction_put tx (lit ''k'') [v]
      in case Transaction_commit ord MemoryStore W d tx of
           (Inl _, _) \<Rightarrow> None
         | (Inr _, d) \<Rightarrow> put_each ord W vs d)"

definition test_gc_reclaims_when_no_reader_is_held :: "hash_order \<Rightarrow> 'w wal_ops \<Rightarrow> bool" where
  "test_gc_reclaims_when_no_reader_is_held ord W =
     (case put_each ord W [0, 1, 2, 3, 4] Db_new of
        None \<Rightarrow> False
      | Some d \<Rightarrow>
          (let (reclaimed, d) = Db_collect_garbage MemoryStore d
           in reclaimed > 0 \<and> begin_get d (lit ''k'') = Inr (Some [4])))"

definition test_held_snapshot_pins_gc :: "hash_order \<Rightarrow> 'w wal_ops \<Rightarrow> bool" where
  "test_held_snapshot_pins_gc ord W =
     (let (tx, d) = Db_begin Db_new;
          tx = Transaction_put tx (lit ''k'') [1]
      in (case Transaction_commit ord MemoryStore W d tx of
           (Inl _, _) \<Rightarrow> False
         | (Inr _, d) \<Rightarrow>
         let (snap, d) = Db_snapshot d;
             (tx, d) = Db_begin d;
             tx = Transaction_put tx (lit ''k'') [2]
         in (case Transaction_commit ord MemoryStore W d tx of
           (Inl _, _) \<Rightarrow> False
         | (Inr _, d) \<Rightarrow>
         let (_, d) = Db_collect_garbage MemoryStore d;
               pinned = Snapshot_get MemoryStore d snap (lit ''k'');
               d = Snapshot_drop d snap;
               (reclaimed, d) = Db_collect_garbage MemoryStore d
           in pinned = Inr (Some [1]) \<and> reclaimed > 0 \<and> begin_get d (lit ''k'') = Inr (Some [2]))))"

definition test_clone_shares_state :: "hash_order \<Rightarrow> 'w wal_ops \<Rightarrow> bool" where
  "test_clone_shares_state ord W =
     (let (tx, d) = Db_begin Db_new;
          tx = Transaction_put tx (lit ''k'') (lit ''v'')
      in (case Transaction_commit ord MemoryStore W d tx of
           (Inl _, _) \<Rightarrow> False
         | (Inr _, d) \<Rightarrow>
         begin_get (Db_clone d) (lit ''k'') = Inr (Some (lit ''v''))))"

text \<open>The schedule of the two skew tests on the keys \<open>x\<close> and \<open>y\<close>, up to the commit of \<open>t2\<close>.\<close>

definition skew_schedule ::
  "((memory_store, 'w) db \<Rightarrow> transaction \<times> (memory_store, 'w) db) \<Rightarrow> bytes \<Rightarrow> bytes \<Rightarrow> u8 \<Rightarrow> u8
     \<Rightarrow> hash_order \<Rightarrow> 'w wal_ops \<Rightarrow> (timestamp result \<times> (memory_store, 'w) db \<Rightarrow> bool) \<Rightarrow> bool" where
  "skew_schedule begin_tx x y vx vy ord W then_run =
     (let (seed, d) = Db_begin Db_new;
          seed = Transaction_put seed x [1];
          seed = Transaction_put seed y [1]
      in (case Transaction_commit ord MemoryStore W d seed of
           (Inl _, _) \<Rightarrow> False
         | (Inr _, d) \<Rightarrow>
         let (t1, d) = begin_tx d;
             (t2, d) = begin_tx d;
             (r1, t1) = Transaction_get MemoryStore d t1 x;
             (r2, t1) = Transaction_get MemoryStore d t1 y;
             (r3, t2) = Transaction_get MemoryStore d t2 x;
             (r4, t2) = Transaction_get MemoryStore d t2 y;
             t1 = Transaction_put t1 x [vx];
             t2 = Transaction_put t2 y [vy]
         in \<not> isl r1 \<and> \<not> isl r2 \<and> \<not> isl r3 \<and> \<not> isl r4
           \<and> (case Transaction_commit ord MemoryStore W d t1 of (Inl _, _) \<Rightarrow> False | (Inr _, d) \<Rightarrow>
         then_run (Transaction_commit ord MemoryStore W d t2))))"

definition test_serializable_rejects_write_skew :: "hash_order \<Rightarrow> 'w wal_ops \<Rightarrow> bool" where
  "test_serializable_rejects_write_skew ord W =
     skew_schedule Db_begin_serializable (lit ''x'') (lit ''y'') 0 0 ord W (\<lambda>r. (case r of (Inr _, _) \<Rightarrow> False | (Inl err, _) \<Rightarrow>
         is_retryable err))"

definition test_snapshot_txn_allows_write_skew :: "hash_order \<Rightarrow> 'w wal_ops \<Rightarrow> bool" where
  "test_snapshot_txn_allows_write_skew ord W = skew_schedule Db_begin (lit ''x'') (lit ''y'') 0 0 ord W (\<lambda>r. (case r of (Inl _, _) \<Rightarrow> False | (Inr _, _) \<Rightarrow>
         True))"

text \<open>The test of \<open>error.rs\<close> with an error that a database returned.\<close>

definition test_boxed_dyn_forge_error_from_real_conflict_is_retryable :: "hash_order \<Rightarrow> 'w wal_ops \<Rightarrow> bool" where
  "test_boxed_dyn_forge_error_from_real_conflict_is_retryable ord W =
     (let (a, d) = Db_begin Db_new;
          (b, d) = Db_begin d;
          a = Transaction_put a (lit ''k'') (lit ''a'');
          b = Transaction_put b (lit ''k'') (lit ''b'')
      in (case Transaction_commit ord MemoryStore W d a of
           (Inl _, _) \<Rightarrow> False
         | (Inr _, d) \<Rightarrow>
         (case Transaction_commit ord MemoryStore W d b of (Inr _, _) \<Rightarrow> False | (Inl boxed, _) \<Rightarrow>
         ForgeError_is_retryable boxed \<and> \<not> is_fatal boxed)))"

text \<open>
  The threads of \<open>test_autocommit_put_is_last_writer_wins_under_contention\<close>: in any interleaving of
  them every commit that was applied is the \<open>put\<close> of a thread number below 8, and the test is on the
  value found when all have been joined.
\<close>

definition hot_puts :: "commit list \<Rightarrow> bool" where
  "hot_puts cs \<longleftrightarrow> (\<forall>c\<in>set cs. \<exists>t. t < 8 \<and> writes (c_tx c) = [(lit ''hot'', Some [t])])"

definition hot_found :: "(memory_store, 'w) db \<Rightarrow> bool" where
  "hot_found d =
     (case fst (Db_get MemoryStore d (lit ''hot'')) of
        Inr (Some v) \<Rightarrow> length v = 1 \<and> v ! 0 < 8
      | _ \<Rightarrow> False)"

section \<open>Lemmas\<close>

text \<open>A buffer of one write has one order.\<close>

lemma commit_few:
  assumes "hash_order_ok ord" "writes tx = [] \<or> writes tx = [w]" "reads tx = None"
  shows "Transaction_commit ord V W d tx = Transaction_commit demo_order V W d tx"
proof -
  have "mset (order_writes ord [w]) = mset [w]" using assms(1) unfolding hash_order_ok_def by blast
  then have "order_writes ord [w] = [w]" by simp
  then show ?thesis using assms(2,3) by (auto simp: Transaction_commit_def commit_reads_def)
qed

lemma fresh_buffers [simp]:
  "writes (fst (Db_begin d)) = []" "reads (fst (Db_begin d)) = None"
  by (simp_all add: Db_begin_def Transaction_new_eq)

lemma one_put [simp]:
  "writes tx = [] \<Longrightarrow> writes (Transaction_put tx k v) = [(k, Some v)]" "reads (Transaction_put tx k v) = reads tx"
  "active (Transaction_put tx k v) = active tx"
  by (simp_all add: Transaction_put_def)

text \<open>So such a test can be run with any one order.\<close>

lemma any_order_tests:
  assumes "hash_order_ok ord"
  shows
    "test_commit_makes_writes_visible_to_later_transactions ord W = test_commit_makes_writes_visible_to_later_transactions demo_order W"
    "test_snapshot_is_isolated_from_later_commits ord W = test_snapshot_is_isolated_from_later_commits demo_order W"
    "test_write_write_conflict_aborts_later_committer ord W = test_write_write_conflict_aborts_later_committer demo_order W"
    "test_disjoint_keys_do_not_conflict ord W = test_disjoint_keys_do_not_conflict demo_order W"
    "test_read_only_commit_returns_snapshot_timestamp ord W = test_read_only_commit_returns_snapshot_timestamp demo_order W"
    "test_held_snapshot_pins_gc ord W = test_held_snapshot_pins_gc demo_order W"
    "test_clone_shares_state ord W = test_clone_shares_state demo_order W"
    "test_boxed_dyn_forge_error_from_real_conflict_is_retryable ord W =
      test_boxed_dyn_forge_error_from_real_conflict_is_retryable demo_order W"
  unfolding test_commit_makes_writes_visible_to_later_transactions_def test_snapshot_is_isolated_from_later_commits_def
    test_write_write_conflict_aborts_later_committer_def test_disjoint_keys_do_not_conflict_def
    test_read_only_commit_returns_snapshot_timestamp_def test_held_snapshot_pins_gc_def test_clone_shares_state_def
    test_boxed_dyn_forge_error_from_real_conflict_is_retryable_def
  by (simp_all add: commit_few [OF assms] Let_def split_beta cong: sum.case_cong)

text \<open>The tests run with one order.\<close>

lemma visible_run: "test_commit_makes_writes_visible_to_later_transactions demo_order W"
  unfolding test_commit_makes_writes_visible_to_later_transactions_def Let_def split_beta by code_simp

lemma isolated_run: "test_snapshot_is_isolated_from_later_commits demo_order W"
  unfolding test_snapshot_is_isolated_from_later_commits_def Let_def split_beta by code_simp

lemma conflict_run: "test_write_write_conflict_aborts_later_committer demo_order W"
  unfolding test_write_write_conflict_aborts_later_committer_def Let_def split_beta by code_simp

lemma disjoint_run: "test_disjoint_keys_do_not_conflict demo_order W"
  unfolding test_disjoint_keys_do_not_conflict_def Let_def split_beta by code_simp

lemma read_only_run: "test_read_only_commit_returns_snapshot_timestamp demo_order W"
  unfolding test_read_only_commit_returns_snapshot_timestamp_def Let_def split_beta by code_simp

lemma pinned_run: "test_held_snapshot_pins_gc demo_order W"
  unfolding test_held_snapshot_pins_gc_def Let_def split_beta by code_simp

lemma clone_run: "test_clone_shares_state demo_order W"
  unfolding test_clone_shares_state_def Let_def split_beta by code_simp

lemma boxed_run: "test_boxed_dyn_forge_error_from_real_conflict_is_retryable demo_order W"
  unfolding test_boxed_dyn_forge_error_from_real_conflict_is_retryable_def Let_def split_beta by code_simp

lemma fresh_runs: "test_new_database_is_empty_at_zero TYPE('w)" "test_rollback_discards_writes TYPE('w)"
  unfolding test_new_database_is_empty_at_zero_def test_rollback_discards_writes_def Let_def split_beta by code_simp+

text \<open>The other tests follow from what a commit, a get and a collection do on a quiet database.\<close>

lemma commit_put:
  fixes W :: "'w wal_ops"
  assumes "quiet wf_store store_hist d {#}" "oracle_room (in_oracle d)" "hash_order_ok ord" "in_log d = None"
  obtains d' where
    "Transaction_commit ord MemoryStore W (snd (Db_begin d)) (Transaction_put (fst (Db_begin d)) k v) = (Inr (next_commit d), d')"
    "quiet wf_store store_hist d' {#}" "in_log d' = None" "next_ts (in_oracle d') = next_ts (in_oracle d) + 1"
    "\<And>a. store_hist (in_store d') a = store_hist (in_store d) a @
       (if a = k then [\<lparr>commit_ts = next_commit d, val = Some v\<rparr>] else [])"
proof -
  let ?tx = "Transaction_put (fst (Db_begin d)) k v"
  have tx: "tx_ok ?tx" "writes ?tx \<noteq> []" "active ?tx = active (fst (Db_begin d))"
    by (simp_all add: tx_ok_def)
  show thesis
    by (rule mem.quiet_begin_commit [OF assms tx, where W = W]) (auto intro!: that simp: own_version_def)
qed

lemma begin_get_latest:
  "quiet wf_store store_hist d M \<Longrightarrow> begin_get d k = Inr (latest (store_hist (in_store d) k))"
  using mem.quiet_begin_get [of d M k] by (simp add: begin_get_def split_beta)

lemma put_each_run:
  assumes "quiet wf_store store_hist d {#}" "unat (next_ts (in_oracle d)) + length vs < 2 ^ 64" "hash_order_ok ord"
    "in_log d = None"
  shows "\<exists>d' new. put_each ord W vs d = Some d' \<and> quiet wf_store store_hist d' {#}
    \<and> (\<forall>a. store_hist (in_store d') a = store_hist (in_store d) a @ (if a = lit ''k'' then new else []))
    \<and> map val new = map (\<lambda>v. Some [v]) vs"
  using assms
proof (induction vs arbitrary: d)
  case (Cons v vs)
  have room: "oracle_room (in_oracle d)" using Cons.prems(2) by (intro room_for [of _ "length vs"]) simp
  obtain d1 where d1: "Transaction_commit ord MemoryStore W (snd (Db_begin d)) (Transaction_put (fst (Db_begin d)) (lit ''k'') [v])
      = (Inr (next_commit d), d1)" "quiet wf_store store_hist d1 {#}" "in_log d1 = None"
    "next_ts (in_oracle d1) = next_ts (in_oracle d) + 1"
    "\<And>a. store_hist (in_store d1) a = store_hist (in_store d) a @
       (if a = lit ''k'' then [\<lparr>commit_ts = next_commit d, val = Some [v]\<rparr>] else [])"
    by (rule commit_put [OF Cons.prems(1) room Cons.prems(3,4), where W = W]) blast
  have "unat (next_ts (in_oracle d1)) = unat (next_ts (in_oracle d)) + 1"
    using Cons.prems(2) by (simp add: d1(4) unat_word_ariths)
  then obtain d' new where "put_each ord W vs d1 = Some d'" "quiet wf_store store_hist d' {#}"
    "\<forall>a. store_hist (in_store d') a = store_hist (in_store d1) a @ (if a = lit ''k'' then new else [])"
    "map val new = map (\<lambda>v. Some [v]) vs"
    using Cons.IH [OF d1(2) _ Cons.prems(3) d1(3)] Cons.prems(2) by auto
  then show ?case
    by (intro exI [of _ d'] exI [of _ "\<lparr>commit_ts = next_commit d, val = Some [v]\<rparr> # new"])
      (simp add: d1(1,5) split_beta)
qed simp

text \<open>Then a collection: all but the newest of the values are reclaimed.\<close>

lemma put_each_collect:
  fixes W :: "'w wal_ops"
  assumes ord: "hash_order_ok ord" and vs: "vs \<noteq> []" "length vs < 2 ^ 64 - 1"
  obtains d s where "put_each ord W vs Db_new = Some d"
    "Db_collect_garbage MemoryStore d = (length vs - 1, d\<lparr>in_store := s\<rparr>)"
    "quiet wf_store store_hist (d\<lparr>in_store := s\<rparr>) {#}" "latest (store_hist s (lit ''k'')) = Some [last vs]"
proof -
  let ?d0 = "Db_new :: (memory_store, 'w) db"
  have d0: "unat (next_ts (in_oracle ?d0)) + length vs < 2 ^ 64" "in_log ?d0 = None"
    "store_hist (in_store ?d0) = (\<lambda>_. [])"
    using vs(2) by (simp_all add: Db_new_def Db_with_store_def Inner_new_def Oracle_new_def store_hist_new fun_eq_iff)
  obtain d new where d: "put_each ord W vs ?d0 = Some d" "quiet wf_store store_hist d {#}"
    "\<And>a. store_hist (in_store d) a = (if a = lit ''k'' then new else [])" "map val new = map (\<lambda>v. Some [v]) vs"
    using put_each_run [OF quiet_Db_new d0(1) ord d0(2), where W = W] unfolding d0(3) by auto
  have new: "length new = length vs" "new \<noteq> []" "val (last new) = Some [last vs]"
    using map_eq_imp_length_eq [OF d(4)] last_val [OF d(4)] vs(1) by auto
  have low: "low_watermark (in_oracle d) = Oracle_read_ts (in_oracle d)" "\<forall>v\<in>set new. commit_ts v \<le> Oracle_read_ts (in_oracle d)"
    using low_watermark_quiet(1) [OF d(2)] quiet_all_below [OF d(2), of _ "lit ''k''"] by (simp_all add: d(3))
  obtain s where "Db_collect_garbage MemoryStore d = (length new - 1, d\<lparr>in_store := s\<rparr>)"
    "quiet wf_store store_hist (d\<lparr>in_store := s\<rparr>) {#}" "store_hist s (lit ''k'') = last new # []"
    by (rule collect_one_key [OF d(2), of "lit ''k''" new "[]"]) (use d(3) new low in auto)
  with d(1) new show thesis by (intro that [of d s]) (simp_all add: latest_def)
qed

lemma reclaims_run:
  assumes "hash_order_ok ord"
  shows "test_gc_reclaims_when_no_reader_is_held ord W"
proof -
  obtain d s where "put_each ord W [0, 1, 2, 3, 4] Db_new = Some d"
    "Db_collect_garbage MemoryStore d = (4, d\<lparr>in_store := s\<rparr>)"
    "quiet wf_store store_hist (d\<lparr>in_store := s\<rparr>) {#}" "latest (store_hist s (lit ''k'')) = Some [4]"
    by (rule put_each_collect [OF assms, of "[0, 1, 2, 3, 4]" W]) simp_all
  then show ?thesis
    by (simp add: test_gc_reclaims_when_no_reader_is_held_def begin_get_latest del: put_each.simps)
qed

lemma after_get:
  assumes "quiet wf_store store_hist d {#}"
  shows "quiet wf_store store_hist (snd (Db_get MemoryStore d k)) {#}" "in_store (snd (Db_get MemoryStore d k)) = in_store d"
    "in_log (snd (Db_get MemoryStore d k)) = in_log d" "next_ts (in_oracle (snd (Db_get MemoryStore d k))) = next_ts (in_oracle d)"
proof -
  have "snd (Db_get MemoryStore d k) = ActiveReader_drop (snd (Db_begin d)) (active (fst (Db_begin d)))"
    by (simp add: Db_get_def Snapshot_new_eq Snapshot_drop_def) (simp add: Db_begin_def Transaction_new_eq)
  with quiet_begin_drop [OF assms] show "quiet wf_store store_hist (snd (Db_get MemoryStore d k)) {#}" by simp
qed (simp_all add: Db_get_def Snapshot_new_eq Snapshot_drop_def ActiveReader_drop_eq Db_begin_def)

lemma autocommit_run:
  fixes W :: "'w wal_ops"
  assumes ord: "hash_order_ok ord"
  shows "test_autocommit_put_get_delete ord W"
proof -
  let ?d0 = "Db_new :: (memory_store, 'w) db" and ?k = "lit ''k''"
  obtain d1 where d1: "Transaction_commit ord MemoryStore W (snd (Db_begin ?d0)) (Transaction_put (fst (Db_begin ?d0)) ?k (lit ''v''))
      = (Inr (next_commit ?d0), d1)" "quiet wf_store store_hist d1 {#}" "in_log d1 = None"
    "next_ts (in_oracle d1) = next_ts (in_oracle ?d0) + 1"
    "\<And>a. store_hist (in_store d1) a = store_hist (in_store ?d0) a @
       (if a = ?k then [\<lparr>commit_ts = next_commit ?d0, val = Some (lit ''v'')\<rparr>] else [])"
    by (rule commit_put [OF quiet_Db_new room_Db_new(1) ord room_Db_new(2), where W = W]) blast
  have n1: "next_ts (in_oracle d1) = 2"
    using d1(4) by (simp add: Db_new_def Db_with_store_def Inner_new_def Oracle_new_def)
  have h1: "store_hist (in_store d1) a = (if a = ?k then [\<lparr>commit_ts = Timestamp 1, val = Some (lit ''v'')\<rparr>] else [])" for a
    by (simp add: d1(5) room_Db_new) (simp add: Db_new_def Db_with_store_def Inner_new_def store_hist_new)
  define d3 where "d3 = snd (Db_get MemoryStore (snd (Db_get MemoryStore d1 ?k)) (lit ''absent''))"
  note g2 = after_get [OF d1(2), of ?k]
  note g3 = after_get [OF g2(1), of "lit ''absent''", folded d3_def]
  have d3: "in_log d3 = None" "oracle_room (in_oracle d3)" "next_commit d3 = Timestamp 2"
    using g2 g3 d1(3) n1 by (simp_all add: oracle_room_def from_raw_def)
  have gets: "fst (Db_get MemoryStore d1 ?k) = Inr (Some (lit ''v''))"
    "fst (Db_get MemoryStore (snd (Db_get MemoryStore d1 ?k)) (lit ''absent'')) = Inr None"
    using mem.quiet_get [OF d1(2), of ?k] mem.quiet_get [OF g2(1), of "lit ''absent''", unfolded g2(2)]
    by (simp_all add: h1 latest_def) (simp add: lit_def)
  obtain d4 where d4: "Db_delete ord MemoryStore W d3 ?k = Some (Inr (Timestamp 2), d4)"
    "fst (Db_get MemoryStore d4 ?k) = Inr None"
    using mem.quiet_delete [OF g3(1) d3(2) ord d3(1), of W ?k] unfolding d3(3) by blast
  have "Db_put ord MemoryStore W ?d0 ?k (lit ''v'') = Some (Inr (Timestamp 1), d1)"
    by (simp add: Db_put.simps d1(1) room_Db_new)
  moreover have "Timestamp 1 < Timestamp 2" "ZERO < Timestamp 1" by (simp_all add: less_timestamp_def)
  ultimately show ?thesis
    by (simp add: test_autocommit_put_get_delete_def split_beta Let_def gets d4 flip: d3_def)
qed

text \<open>Two transactions begun from one snapshot and committed one after the other: the second is rejected
  exactly when it watches a key that the first wrote.\<close>

lemma two_commits:
  fixes W :: "'w wal_ops"
  assumes q: "quiet wf_store store_hist d {#r, r#}" and room: "unat (next_ts (in_oracle d)) + 2 < 2 ^ 64"
    and ord: "hash_order_ok ord" and log: "in_log d = None" and un: "\<And>k. \<not> changed_since (store_hist (in_store d) k) r"
    and t1: "tx_ok t1" "writes t1 \<noteq> []" "Transaction_read_timestamp t1 = r"
    and t2: "tx_ok t2" "writes t2 \<noteq> []" "Transaction_read_timestamp t2 = r"
  obtains d1 r2 d2 where "Transaction_commit ord MemoryStore W d t1 = (Inr (next_commit d), d1)"
    "Transaction_commit ord MemoryStore W d1 t2 = (r2, d2)" "quiet wf_store store_hist d2 {#}"
    "\<And>k. store_hist (in_store d1) k = store_hist (in_store d) k @ own_version (next_commit d) t1 k"
    "if watched t2 \<inter> dom (map_of (writes t1)) = {} then \<exists>ts. r2 = Inr ts
     else (\<exists>n. r2 = Inl (conflict n)) \<and> in_store d2 = in_store d1"
proof -
  have room1: "oracle_room (in_oracle d)" using room by (intro room_for [of _ 1]) simp
  obtain d1 where d1: "Transaction_commit ord MemoryStore W d t1 = (Inr (next_commit d), d1)"
    "\<And>k. store_hist (in_store d1) k = store_hist (in_store d) k @ own_version (next_commit d) t1 k"
    "in_log d1 = None" "quiet wf_store store_hist d1 {#r#}" "next_ts (in_oracle d1) = next_ts (in_oracle d) + 1"
    by (cases rule: mem.quiet_commit_cases [OF q room1 ord log t1(1,2), where W = W]) (use un t1(3) in auto)
  have room2: "oracle_room (in_oracle d1)"
    using room by (intro room_for [of _ 0]) (simp add: d1(5) unat_word_ariths)
  have live: "Transaction_read_timestamp t2 \<in># {#r#}" using t2(3) by simp
  have "r < next_commit d" using db_ok_reader [OF q] by simp
  then have ch: "changed_since (store_hist (in_store d1) k) r \<longleftrightarrow> k \<in> dom (map_of (writes t1))" for k
    using un [of k] by (cases "map_of (writes t1) k") (auto simp: d1(2) own_version_def changed_since_def)
  show thesis
  proof (cases rule: mem.quiet_commit_cases [OF d1(4) room2 ord d1(3) t2(1,2) live, where W = W])
    case (1 k d2)
    then show thesis using t2(3) ch d1(1,2) by (intro that [of d1 _ d2]) auto
  next
    case (2 d2)
    then have "watched t2 \<inter> dom (map_of (writes t1)) = {}" using t2(3) ch by blast
    then show thesis using 2 t2(3) d1(1,2) by (intro that [of d1 "Inr (next_commit d1)" d2]) auto
  qed
qed

text \<open>The skew schedule: \<open>t2\<close> watches \<open>y\<close>, and \<open>x\<close> as well when reads are tracked.\<close>

lemma skew_run:
  fixes W :: "'w wal_ops"
  assumes ord: "hash_order_ok ord" and xy: "x \<noteq> y"
  obtains r2 d2 where "\<And>then_run. skew_schedule (\<lambda>d. Transaction_new d b) x y vx vy ord W then_run = then_run (r2, d2)"
    "if b then \<exists>n. r2 = Inl (conflict n) else \<exists>ts. r2 = Inr ts"
proof -
  let ?d0 = "Db_new :: (memory_store, 'w) db"
  obtain d1 where d1: "Transaction_commit ord MemoryStore W (snd (Db_begin ?d0))
      (Transaction_put (Transaction_put (fst (Db_begin ?d0)) x [1]) y [1]) = (Inr (next_commit ?d0), d1)"
    "in_log d1 = None" "quiet wf_store store_hist d1 {#}" "next_ts (in_oracle d1) = next_ts (in_oracle ?d0) + 1"
    by (rule mem.quiet_put_two [OF quiet_Db_new room_Db_new(1) ord room_Db_new(2) xy, where W = W]) blast
  let ?r = "Oracle_read_ts (in_oracle d1)"
  define d2 where "d2 = snd (Transaction_new d1 b)"
  define d3 where "d3 = snd (Transaction_new d2 b)"
  have q3: "quiet wf_store store_hist d3 {#?r, ?r#}"
    using quiet_begin [OF quiet_begin [OF d1(3), of b], of b] by (simp add: d2_def d3_def)
  have same: "in_store d3 = in_store d1" "in_log d3 = None" "unat (next_ts (in_oracle d3)) + 2 < 2 ^ 64"
    using d1(2,4) by (simp_all add: d2_def d3_def Db_new_def Db_with_store_def Inner_new_def Oracle_new_def)
  define tracked where "tracked = (\<lambda>ks. if b then Some ks else None :: bytes list option)"
  let ?t = "\<lambda>ks. \<lparr>active = \<lparr>active_read_ts = ?r\<rparr>, writes = [], reads = tracked ks\<rparr>"
  let ?t1 = "Transaction_put (?t [y, x]) x [vx]" and ?t2 = "Transaction_put (?t [y, x]) y [vy]"
  have new: "Transaction_new d1 b = (?t [], d2)" "Transaction_new d2 b = (?t [], d3)"
    by (simp_all add: d2_def d3_def tracked_def prod_eq_iff) (simp_all add: Transaction_new_eq begin_reader_def Oracle_read_ts_def Let_def)
  obtain v w where get: "Transaction_get MemoryStore d3 (?t []) x = (Inr v, ?t [x])"
    "Transaction_get MemoryStore d3 (?t [x]) y = (Inr w, ?t [y, x])"
    using xy by (simp add: Transaction_get_def MemoryStore_def MemoryStore_get_def tracked_def)
  have tx: "tx_ok ?t1" "writes ?t1 \<noteq> []" "Transaction_read_timestamp ?t1 = ?r" "dom (map_of (writes ?t1)) = {x}"
    "tx_ok ?t2" "writes ?t2 \<noteq> []" "Transaction_read_timestamp ?t2 = ?r" "watched ?t2 = (if b then {x, y} else {y})"
    by (auto simp: tx_ok_def Transaction_put_def Transaction_read_timestamp_def watched_def read_set_def tracked_def)
  have "\<not> changed_since (store_hist (in_store d3) k) ?r" for k using mem.quiet_no_change [OF d1(3)] same(1) by simp
  from two_commits [OF q3 same(3) ord same(2) this tx(1-3,5-7), where W = W] obtain d4 r2 d5 where
    d4: "Transaction_commit ord MemoryStore W d3 ?t1 = (Inr (next_commit d3), d4)"
      "Transaction_commit ord MemoryStore W d4 ?t2 = (r2, d5)"
      "if watched ?t2 \<inter> dom (map_of (writes ?t1)) = {} then \<exists>ts. r2 = Inr ts else \<exists>n. r2 = Inl (conflict n)"
    by (smt (verit))
  have "skew_schedule (\<lambda>d. Transaction_new d b) x y vx vy ord W then_run = then_run (r2, d5)" for then_run
    by (simp add: skew_schedule_def split_beta Let_def d1(1) new get d4(1,2))
  moreover have "if b then \<exists>n. r2 = Inl (conflict n) else \<exists>ts. r2 = Inr ts"
    using d4(3) xy unfolding tx(4,8) by (cases b) simp_all
  ultimately show thesis by (rule that)
qed

lemma skew_runs:
  fixes W :: "'w wal_ops"
  assumes ord: "hash_order_ok ord" and xy: "x \<noteq> y"
  shows "skew_schedule Db_begin_serializable x y vx vy ord W (\<lambda>r. (case r of (Inr _, _) \<Rightarrow> False | (Inl err, _) \<Rightarrow> is_retryable err))"
    "skew_schedule Db_begin x y vx vy ord W (\<lambda>r. (case r of (Inl _, _) \<Rightarrow> False | (Inr _, _) \<Rightarrow> True))"
proof -
  have begins: "Db_begin_serializable = (\<lambda>d. Transaction_new d True)" "Db_begin = (\<lambda>d. Transaction_new d False)"
    by (simp_all add: fun_eq_iff Db_begin_serializable_def Db_begin_def)
  show "skew_schedule Db_begin_serializable x y vx vy ord W (\<lambda>r. (case r of (Inr _, _) \<Rightarrow> False | (Inl err, _) \<Rightarrow> is_retryable err))"
  proof (rule skew_run [OF ord xy, where b = True and vx = vx and vy = vy and W = W], goal_cases)
    case (1 r2 d2)
    then obtain n where "r2 = Inl (conflict n)" by auto
    then show ?case unfolding begins 1(1) by simp
  qed
  show "skew_schedule Db_begin x y vx vy ord W (\<lambda>r. (case r of (Inl _, _) \<Rightarrow> False | (Inr _, _) \<Rightarrow> True))"
  proof (rule skew_run [OF ord xy, where b = False and vx = vx and vy = vy and W = W], goal_cases)
    case (1 r2 d2)
    then obtain ts where "r2 = Inr ts" by auto
    then show ?case unfolding begins 1(1) by simp
  qed
qed

lemma skew_tests_run:
  assumes "hash_order_ok ord"
  shows "test_serializable_rejects_write_skew ord W" "test_snapshot_txn_allows_write_skew ord W"
  unfolding test_serializable_rejects_write_skew_def test_snapshot_txn_allows_write_skew_def
  by (rule skew_runs [OF assms], simp add: lit_def)+

section \<open>Properties\<close>

text \<open>The tests of the database pass, whatever the order in which a commit iterates over its buffers.\<close>

theorem db_tests_pass:
  fixes W :: "'w wal_ops"
  assumes "hash_order_ok ord"
  shows "test_new_database_is_empty_at_zero TYPE('w) \<and> test_commit_makes_writes_visible_to_later_transactions ord W
    \<and> test_snapshot_is_isolated_from_later_commits ord W \<and> test_write_write_conflict_aborts_later_committer ord W
    \<and> test_disjoint_keys_do_not_conflict ord W \<and> test_read_only_commit_returns_snapshot_timestamp ord W
    \<and> test_rollback_discards_writes TYPE('w) \<and> test_autocommit_put_get_delete ord W
    \<and> test_gc_reclaims_when_no_reader_is_held ord W \<and> test_held_snapshot_pins_gc ord W
    \<and> test_clone_shares_state ord W \<and> test_serializable_rejects_write_skew ord W
    \<and> test_snapshot_txn_allows_write_skew ord W
    \<and> test_boxed_dyn_forge_error_from_real_conflict_is_retryable ord W"
  using assms
  by (simp add: any_order_tests fresh_runs visible_run isolated_run conflict_run disjoint_run read_only_run pinned_run
      clone_run boxed_run autocommit_run reclaims_run skew_tests_run)

theorem db_tests_pass_witness:
  "test_serializable_rejects_write_skew demo_order list_wal \<and> test_held_snapshot_pins_gc demo_order list_wal"
  using db_tests_pass [OF demo_order_ok, of list_wal] by blast

text \<open>The contended test: when the threads have been joined the key holds a value one of them wrote.\<close>

theorem last_writer_wins_under_contention:
  fixes W :: "'w wal_ops"
  assumes "mem_reachable W Db_new S" "hot_puts (history S)" "history S \<noteq> []" "held_set (procs S) = {}"
  shows "hot_found (shared S)"
proof -
  have "\<exists>t. t < 8 \<and> serial_state h0 cs (lit ''hot'') = Some [t]" if "hot_puts cs" "cs \<noteq> []" for h0 cs
    using that by (cases cs rule: rev_cases) (auto simp: hot_puts_def serial_state_def apply_commit_def)
  then obtain t where t: "t < 8" "latest (store_hist (in_store (shared S)) (lit ''hot'')) = Some [t]"
    using mems.reachable_latest [OF assms(1) quiet_Db_new] assms(2,3) by metis
  have "quiet wf_store store_hist (shared S) (live_readers (procs S))"
    using inv_atD(1) [OF mems.reachable_at [OF assms(1) quiet_Db_new]] assms(4) by simp
  from mem.quiet_get [OF this] t show ?thesis by (simp add: hot_found_def)
qed

end
