(* ===== verification/Backing_Store_Tests.thy ===== *)
theory Backing_Store_Tests
  imports Database_Tests Custom_Store
begin

text \<open>
  The test functions of \<open>src/tests/backing_store.rs\<close>: the transaction engine over the single-map
  \<open>BTreeStore\<close> of theory \<open>Custom_Store\<close>, one definition for each test, true when no assertion fails
  and no \<open>unwrap\<close> panics, for every order in which a commit iterates over its buffers.
\<close>

section \<open>Definitions\<close>

definition new_btree_db :: "(btree_store, 'w) db" where
  "new_btree_db = Db_with_store []"

definition test_basic_read_write_over_custom_store :: "hash_order \<Rightarrow> 'w wal_ops \<Rightarrow> bool" where
  "test_basic_read_write_over_custom_store ord W =
     (let (tx, d) = Db_begin new_btree_db;
          tx = Transaction_put tx (lit ''k'') (lit ''v'')
      in (case Transaction_commit ord BTreeStore W d tx of
           (Inl _, _) \<Rightarrow> False
         | (Inr _, d) \<Rightarrow>
         let (tx, d) = Db_begin d;
             (found, tx) = Transaction_get BTreeStore d tx (lit ''k'');
             (absent, tx) = Transaction_get BTreeStore d tx (lit ''absent'')
         in found = Inr (Some (lit ''v'')) \<and> absent = Inr None))"

definition test_snapshot_isolation_over_custom_store :: "hash_order \<Rightarrow> 'w wal_ops \<Rightarrow> bool" where
  "test_snapshot_isolation_over_custom_store ord W =
     (let (tx, d) = Db_begin new_btree_db;
          tx = Transaction_put tx (lit ''k'') (lit ''v1'')
      in (case Transaction_commit ord BTreeStore W d tx of
           (Inl _, _) \<Rightarrow> False
         | (Inr _, d) \<Rightarrow>
         let (snap, d) = Db_snapshot d;
             (tx, d) = Db_begin d;
             tx = Transaction_put tx (lit ''k'') (lit ''v2'')
         in (case Transaction_commit ord BTreeStore W d tx of
           (Inl _, _) \<Rightarrow> False
         | (Inr _, d) \<Rightarrow>
         Snapshot_get BTreeStore d snap (lit ''k'') = Inr (Some (lit ''v1''))
         \<and> (let (now, d) = Db_snapshot d
            in Snapshot_get BTreeStore d now (lit ''k'') = Inr (Some (lit ''v2''))))))"

definition test_write_write_conflict_over_custom_store :: "hash_order \<Rightarrow> 'w wal_ops \<Rightarrow> bool" where
  "test_write_write_conflict_over_custom_store ord W =
     (let (a, d) = Db_begin new_btree_db;
          (b, d) = Db_begin d;
          a = Transaction_put a (lit ''k'') (lit ''a'');
          b = Transaction_put b (lit ''k'') (lit ''b'')
      in (case Transaction_commit ord BTreeStore W d a of
           (Inl _, _) \<Rightarrow> False
         | (Inr _, d) \<Rightarrow>
         (case Transaction_commit ord BTreeStore W d b of (Inr _, _) \<Rightarrow> False | (Inl err, d) \<Rightarrow>
         is_retryable err
         \<and> (let (snap, d) = Db_snapshot d
            in Snapshot_get BTreeStore d snap (lit ''k'') = Inr (Some (lit ''a''))))))"

definition test_disjoint_keys_commit_over_custom_store :: "hash_order \<Rightarrow> 'w wal_ops \<Rightarrow> bool" where
  "test_disjoint_keys_commit_over_custom_store ord W =
     (let (a, d) = Db_begin new_btree_db;
          (b, d) = Db_begin d;
          a = Transaction_put a (lit ''a'') (lit ''1'');
          b = Transaction_put b (lit ''b'') (lit ''2'')
      in (case Transaction_commit ord BTreeStore W d a of
           (Inl _, _) \<Rightarrow> False
         | (Inr _, d) \<Rightarrow>
         (case Transaction_commit ord BTreeStore W d b of (Inl _, _) \<Rightarrow> False | (Inr _, _) \<Rightarrow> True)))"

text \<open>The skew test after the commit of \<open>seed\<close>.\<close>

definition btree_skew_after :: "hash_order \<Rightarrow> 'w wal_ops \<Rightarrow> timestamp result \<times> (btree_store, 'w) db \<Rightarrow> bool" where
  "btree_skew_after ord W r = (case r of
           (Inl _, _) \<Rightarrow> False
         | (Inr _, d) \<Rightarrow>
         let (t1, d) = Db_begin_serializable d;
             (t2, d) = Db_begin_serializable d;
             (r1, t1) = Transaction_get BTreeStore d t1 (lit ''x'');
             (r2, t1) = Transaction_get BTreeStore d t1 (lit ''y'');
             (r3, t2) = Transaction_get BTreeStore d t2 (lit ''x'');
             (r4, t2) = Transaction_get BTreeStore d t2 (lit ''y'');
             t1 = Transaction_put t1 (lit ''x'') [0];
             t2 = Transaction_put t2 (lit ''y'') [0]
         in \<not> isl r1 \<and> \<not> isl r2 \<and> \<not> isl r3 \<and> \<not> isl r4
           \<and> (case Transaction_commit ord BTreeStore W d t1 of (Inl _, _) \<Rightarrow> False | (Inr _, d) \<Rightarrow>
         (case Transaction_commit ord BTreeStore W d t2 of (Inr _, _) \<Rightarrow> False | (Inl _, _) \<Rightarrow> True)))"

definition test_serializable_write_skew_over_custom_store :: "hash_order \<Rightarrow> 'w wal_ops \<Rightarrow> bool" where
  "test_serializable_write_skew_over_custom_store ord W =
     (let (seed, d) = Db_begin new_btree_db;
          seed = Transaction_put seed (lit ''x'') [1];
          seed = Transaction_put seed (lit ''y'') [1]
      in btree_skew_after ord W (Transaction_commit ord BTreeStore W d seed))"

section \<open>Lemmas\<close>

text \<open>Four of the tests buffer one write at a time, so they can be run with any one order.\<close>

lemma any_order_btree_tests:
  assumes "hash_order_ok ord"
  shows
    "test_basic_read_write_over_custom_store ord W = test_basic_read_write_over_custom_store demo_order W"
    "test_snapshot_isolation_over_custom_store ord W = test_snapshot_isolation_over_custom_store demo_order W"
    "test_write_write_conflict_over_custom_store ord W = test_write_write_conflict_over_custom_store demo_order W"
    "test_disjoint_keys_commit_over_custom_store ord W = test_disjoint_keys_commit_over_custom_store demo_order W"
  unfolding test_basic_read_write_over_custom_store_def test_snapshot_isolation_over_custom_store_def
    test_write_write_conflict_over_custom_store_def test_disjoint_keys_commit_over_custom_store_def
  by (simp_all add: commit_few [OF assms] Let_def split_beta cong: sum.case_cong)

lemma btree_runs:
  "test_basic_read_write_over_custom_store demo_order W" "test_snapshot_isolation_over_custom_store demo_order W"
  "test_write_write_conflict_over_custom_store demo_order W" "test_disjoint_keys_commit_over_custom_store demo_order W"
  unfolding test_basic_read_write_over_custom_store_def test_snapshot_isolation_over_custom_store_def
    test_write_write_conflict_over_custom_store_def test_disjoint_keys_commit_over_custom_store_def Let_def split_beta
  by code_simp+

text \<open>A buffer of two writes has two orders; a tracked read that is left when the written key is dropped, one.\<close>

abbreviation buffer_order :: hash_order where
  "buffer_order \<equiv> \<lparr>order_writes = (\<lambda>ws. ws), order_reads = (\<lambda>rs. rs)\<rparr>"

lemma mset_two: "mset xs = {#a, b#} \<Longrightarrow> xs = [a, b] \<or> xs = [b, a]"
proof -
  assume m: "mset xs = {#a, b#}"
  then have "length xs = 2" by (metis size_mset size_add_mset size_single numeral_2_eq_2 One_nat_def)
  then obtain c e where "xs = [c, e]" by (auto simp: numeral_2_eq_2 length_Suc_conv)
  with m show ?thesis by (auto simp: add_eq_conv_ex)
qed

lemma commit_pair:
  assumes "hash_order_ok ord" "writes tx = [w, w']" "reads tx = None"
  shows "Transaction_commit ord V W d tx = Transaction_commit demo_order V W d tx
    \<or> Transaction_commit ord V W d tx = Transaction_commit buffer_order V W d tx"
proof -
  have "mset (order_writes ord [w, w']) = mset [w, w']" using assms(1) unfolding hash_order_ok_def by blast
  then have "order_writes ord [w, w'] = [w, w'] \<or> order_writes ord [w, w'] = [w', w]" using mset_two by force
  then show ?thesis using assms(2,3) by (auto simp: Transaction_commit_def commit_reads_def)
qed

lemma commit_tracked:
  assumes "hash_order_ok ord" "writes tx = [(k, v)]" "reads tx = Some [a, b]" "a \<noteq> b" "k = a \<or> k = b"
  shows "Transaction_commit ord V W d tx = Transaction_commit demo_order V W d tx"
proof -
  have "mset (order_writes ord [(k, v)]) = mset [(k, v)]" "mset (order_reads ord [a, b]) = mset [a, b]"
    using assms(1) unfolding hash_order_ok_def by blast+
  then have "order_writes ord [(k, v)] = [(k, v)]" "order_reads ord [a, b] = [a, b] \<or> order_reads ord [a, b] = [b, a]"
    using mset_two by (force, force)
  then show ?thesis using assms(2-5) by (auto simp: Transaction_commit_def commit_reads_def)
qed

lemma btree_skew_any_order:
  assumes "hash_order_ok ord"
  shows "btree_skew_after ord W r = btree_skew_after demo_order W r"
proof -
  have "lit ''x'' \<noteq> lit ''y''" by (simp add: lit_def)
  then show ?thesis
    unfolding btree_skew_after_def
    by (simp add: Let_def split_beta Transaction_get_def BTreeStore_def BTreeStore_get_def Db_begin_serializable_def
        Transaction_new_eq Transaction_put_def commit_tracked [OF assms] cong: sum.case_cong)
qed

lemma btree_skew_run:
  assumes ord: "hash_order_ok ord"
  shows "test_serializable_write_skew_over_custom_store ord W"
proof -
  let ?d = "new_btree_db :: (btree_store, 'a) db"
  let ?seed = "Transaction_put (Transaction_put (fst (Db_begin ?d)) (lit ''x'') [1]) (lit ''y'') [1]"
  have seed: "writes ?seed = [(lit ''x'', Some [1]), (lit ''y'', Some [1])]" "reads ?seed = None"
    by (simp_all add: Transaction_put_def lit_def)
  have "btree_skew_after demo_order W (Transaction_commit demo_order BTreeStore W (snd (Db_begin ?d)) ?seed)"
    "btree_skew_after demo_order W (Transaction_commit buffer_order BTreeStore W (snd (Db_begin ?d)) ?seed)"
    unfolding btree_skew_after_def Let_def split_beta by code_simp+
  then have "btree_skew_after ord W (Transaction_commit ord BTreeStore W (snd (Db_begin ?d)) ?seed)"
    using commit_pair [OF ord seed, of BTreeStore W "snd (Db_begin ?d)"] btree_skew_any_order [OF ord] by metis
  then show ?thesis
    by (simp add: test_serializable_write_skew_over_custom_store_def Let_def split_beta)
qed

section \<open>Properties\<close>

text \<open>The tests of the engine over an independent store pass, whatever the order in which a commit iterates
  over its buffers.\<close>

theorem backing_store_tests_pass:
  assumes "hash_order_ok ord"
  shows "test_basic_read_write_over_custom_store ord W \<and> test_snapshot_isolation_over_custom_store ord W
    \<and> test_write_write_conflict_over_custom_store ord W \<and> test_disjoint_keys_commit_over_custom_store ord W
    \<and> test_serializable_write_skew_over_custom_store ord W"
  using assms by (simp add: any_order_btree_tests btree_runs btree_skew_run)

theorem backing_store_tests_pass_witness: "test_serializable_write_skew_over_custom_store demo_order list_wal"
  using backing_store_tests_pass [OF demo_order_ok] by blast

end
