(* ===== verification/Racing.thy ===== *)
theory Racing
  imports Progress
begin

text \<open>
  Transactions that race to commit (\<open>src/src/db.rs\<close>, \<open>Inner::commit_writes\<close>): which of them win.
  A commit is rejected only for a cause, a commit already applied that the snapshot does not include
  and that wrote a key the transaction wrote or tracked; so of any set of racing transactions a
  maximal set of compatible ones gets through, whatever the schedule. The tests of
  \<open>src/tests/loom_txn.rs\<close>, which explore every interleaving of two threads, are instances.
\<close>

section \<open>Definitions\<close>

text \<open>
  What the store has decided of a commit: \<open>Some None\<close> is that it is applied, \<open>Some (Some e)\<close> that it is
  rejected with \<open>e\<close>. The error of a failed append to the log comes after the store has applied the
  commit, and does not undo it.
\<close>

definition failure :: "'a result \<Rightarrow> TxnError option" where
  "failure r = (case r of Inl e \<Rightarrow> if is_retryable e then Some e else None | Inr _ \<Rightarrow> None)"

fun verdict :: "process \<Rightarrow> TxnError option option" where
  "verdict (Validated tx cts batch r) = Some (failure r)"
| "verdict (Decided tx cts r) = Some (failure r)"
| "verdict (Released tx r) = Some (failure r)"
| "verdict (Returned r) = Some (failure r)"
| "verdict _ = None"

text \<open>A commit that has returned and whose writes are in the store, acknowledged or not.\<close>

definition applied_commit :: "process \<Rightarrow> bool" where
  "applied_commit P \<longleftrightarrow> (\<exists>ts. P = Returned (Inr ts)) \<or> (\<exists>e. P = Returned (Inl e) \<and> is_fatal e)"

text \<open>The error a commit is going to report, or has.\<close>

fun outcome_error :: "process \<Rightarrow> TxnError option" where
  "outcome_error (Validated tx cts batch r) = (case r of Inl e \<Rightarrow> Some e | Inr u \<Rightarrow> None)"
| "outcome_error (Decided tx cts r) = (case r of Inl e \<Rightarrow> Some e | Inr ts \<Rightarrow> None)"
| "outcome_error (Released tx r) = (case r of Inl e \<Rightarrow> Some e | Inr ts \<Rightarrow> None)"
| "outcome_error (Returned r) = (case r of Inl e \<Rightarrow> Some e | Inr ts \<Rightarrow> None)"
| "outcome_error _ = None"

text \<open>A process that is somewhere in the call of \<open>commit\<close> on \<open>tx\<close>.\<close>

fun racer :: "transaction \<Rightarrow> process \<Rightarrow> bool" where
  "racer tx (Open t) \<longleftrightarrow> t = tx"
| "racer tx (Allocated t cts batch rs) \<longleftrightarrow> t = tx"
| "racer tx (Validated t cts batch r) \<longleftrightarrow> t = tx"
| "racer tx (Decided t cts r) \<longleftrightarrow> t = tx"
| "racer tx (Released t r) \<longleftrightarrow> t = tx"
| "racer tx (Returned r) \<longleftrightarrow> True"
| "racer tx _ \<longleftrightarrow> False"

text \<open>
  The steps of a race: the processes of \<open>R\<close> do nothing but commit, and no other process commits.
  Other processes may begin, read, write their buffers, take snapshots and collect garbage.
\<close>

definition race_step ::
  "'s version_store \<Rightarrow> 'w wal_ops \<Rightarrow> 's gc_slices \<Rightarrow> nat set \<Rightarrow> ('s, 'w) system \<Rightarrow> ('s, 'w) system \<Rightarrow> bool" where
  "race_step V W G R S S' \<longleftrightarrow>
     oracle_room (in_oracle (shared S)) \<and> step V W G S S'
     \<and> (\<forall>p\<in>R. procs S' p = procs S p \<or> committing (procs S' p) \<or> (\<exists>r. procs S' p = Returned r))
     \<and> (\<forall>p. p \<notin> R \<longrightarrow> \<not> committing (procs S' p))"

text \<open>One transaction's writes stand in the way of another: a key it wrote is one the other watches.\<close>

definition blocks :: "transaction \<Rightarrow> transaction \<Rightarrow> bool" where
  "blocks b tx \<longleftrightarrow> dom (map_of (writes b)) \<inter> watched tx \<noteq> {}"

text \<open>The state after the writes of a transaction.\<close>

definition overlay :: "kv \<Rightarrow> transaction \<Rightarrow> kv" where
  "overlay m tx = (\<lambda>k. case map_of (writes tx) k of Some v \<Rightarrow> v | None \<Rightarrow> m k)"

text \<open>A commit that is a reason to reject the transaction.\<close>

definition overtaken_by :: "transaction \<Rightarrow> commit \<Rightarrow> bool" where
  "overtaken_by tx c \<longleftrightarrow> Transaction_read_timestamp tx < c_ts c \<and> blocks (c_tx c) tx"

text \<open>The state of a race whose winners so far are \<open>ps\<close>, in the order applied.\<close>

definition race_inv ::
  "(nat \<Rightarrow> transaction) \<Rightarrow> nat set \<Rightarrow> commit list \<Rightarrow> ('s, 'w) system \<Rightarrow> nat list \<Rightarrow> bool" where
  "race_inv T R A S ps \<longleftrightarrow>
     (\<forall>p. p \<notin> R \<longrightarrow> \<not> committing (procs S p))
     \<and> (\<exists>hs. history S = A @ hs \<and> map c_tx hs = map T ps
          \<and> (\<forall>c\<in>set hs. \<forall>p\<in>R. verdict (procs S p) = None \<longrightarrow> Transaction_read_timestamp (T p) < c_ts c))
     \<and> distinct ps \<and> set ps \<subseteq> R \<and> sorted_wrt (\<lambda>p q. \<not> blocks (T p) (T q)) ps
     \<and> (\<forall>p\<in>R. racer (T p) (procs S p)
          \<and> (p \<in> set ps \<longleftrightarrow> verdict (procs S p) = Some None)
          \<and> (\<forall>e. verdict (procs S p) = Some (Some e) \<longrightarrow>
               (\<exists>k\<in>watched (T p). e = conflict (length k)) \<and> (\<exists>c\<in>set (history S). overtaken_by (T p) c)))"

lemma race_invD:
  assumes "race_inv T R A S ps" "p \<in> R"
  shows "racer (T p) (procs S p)" "p \<in> set ps \<longleftrightarrow> verdict (procs S p) = Some None"
    "verdict (procs S p) = Some (Some e) \<Longrightarrow>
       (\<exists>k\<in>watched (T p). e = conflict (length k)) \<and> (\<exists>c\<in>set (history S). overtaken_by (T p) c)"
  using assms unfolding race_inv_def by blast+

text \<open>The commits a race appends leave what its winners leave, run in the order applied.\<close>

lemma serial_state_overlays:
  "map c_tx hs = map T ps \<Longrightarrow> serial_state h0 (A @ hs) = foldl overlay (serial_state h0 A) (map T ps)"
proof (induction hs arbitrary: ps rule: rev_induct)
  case Nil
  then show ?case by simp
next
  case (snoc c hs)
  then obtain ps' p where ps: "ps = ps' @ [p]" "map c_tx hs = map T ps'" "c_tx c = T p"
    by (cases ps rule: rev_cases) auto
  then show ?case
    using snoc.IH [OF ps(2)]
    by (simp only: append_assoc [symmetric] serial_state_snoc) (simp add: apply_commit_def overlay_def)
qed

section \<open>Rejections have a cause\<close>

lemma changed_full_hist_cause:
  assumes "changed_since (full_hist h0 A k) r" "\<And>v. v \<in> set (h0 k) \<Longrightarrow> commit_ts v \<le> r"
  shows "\<exists>c\<in>set A. r < c_ts c \<and> k \<in> dom (map_of (writes (c_tx c)))"
proof -
  obtain v where "v \<in> set (full_hist h0 A k)" "r < commit_ts v" using assms(1) by (auto simp: changed_since_def)
  moreover from calculation have "v \<notin> set (h0 k)" using assms(2) by force
  ultimately obtain c where "c \<in> set A" "v \<in> set (own_version (c_ts c) (c_tx c) k)" by (auto simp: full_hist_def)
  with \<open>r < commit_ts v\<close> show ?thesis
    by (cases "map_of (writes (c_tx c)) k") (auto simp: own_version_def)
qed

context sliced_store
begin

text \<open>What validation decides is whether a commit the snapshot lacks wrote a watched key.\<close>

lemma reachable_decision:
  assumes r: "reachable V W G d S" and q: "quiet invar hist d {#}"
    and p: "procs S p = Allocated tx cts batch rs"
    and c: "vs_try_commit V (in_store (shared S)) (Transaction_read_timestamp tx) cts batch rs = (res, s)"
  shows "(\<exists>c\<in>set (history S). overtaken_by tx c) \<and> (\<exists>k\<in>watched tx. res = Inl (conflict (length k)))
    \<or> \<not> (\<exists>c\<in>set (history S). overtaken_by tx c) \<and> res = Inr ()"
proof -
  let ?rts = "Transaction_read_timestamp tx" and ?h = "full_hist (hist (in_store d)) (history S)"
  note inv = reachable_at [OF r q]
  have rd: "reader_of (procs S p) = Some ?rts" using p by simp
  have live: "?rts \<in># live_readers (procs S)" using inv rd by (rule inv_reader)
  have lt: "?rts < cts" using inv_held_above(2) [OF inv, of p cts ?rts] p live by simp
  have st: "invar (in_store (shared S))" using inv_atD(1) [OF inv] by (simp add: db_ok_def)
  have keys: "touched batch rs = watched tx"
    using inv_atD(6) [OF inv, of p] p by (simp add: proc_inv_def batch_of_def)
  have same: "changed_since (hist (in_store (shared S)) k) ?rts = changed_since (?h k) ?rts" for k
    using inv_atD(5) [OF inv, of ?rts k] live by (simp add: agree_def)
  have old: "commit_ts v \<le> ?rts" if "v \<in> set (hist (in_store d) k)" for v k
  proof -
    have "commit_ts v \<le> Oracle_read_ts (in_oracle d)"
      using quiet_no_change [OF q, of k] that by (auto simp: changed_since_def not_less)
    then show ?thesis using reachable_readers [OF r q] rd by (blast intro: order_trans)
  qed
  have "(\<exists>k\<in>watched tx. changed_since (?h k) ?rts) \<longleftrightarrow> (\<exists>c\<in>set (history S). overtaken_by tx c)"
  proof
    assume "\<exists>k\<in>watched tx. changed_since (?h k) ?rts"
    then obtain k where k: "k \<in> watched tx" "changed_since (?h k) ?rts" by blast
    obtain c where "c \<in> set (history S)" "?rts < c_ts c" "k \<in> dom (map_of (writes (c_tx c)))"
      using changed_full_hist_cause [OF k(2)] old by blast
    with k(1) show "\<exists>c\<in>set (history S). overtaken_by tx c"
      unfolding overtaken_by_def blocks_def by blast
  next
    assume "\<exists>c\<in>set (history S). overtaken_by tx c"
    then obtain c k where "c \<in> set (history S)" "?rts < c_ts c" "k \<in> watched tx" "k \<in> dom (map_of (writes (c_tx c)))"
      by (auto simp: overtaken_by_def blocks_def)
    then show "\<exists>k\<in>watched tx. changed_since (?h k) ?rts"
      using changed_since_full_hist [of c "history S" k ?rts] by blast
  qed
  with st lt show ?thesis
    by (cases rule: try_commit_cases [where ws = batch and rs = rs]) (use c keys same in auto)
qed

lemma race_reader:
  "racer tx P \<Longrightarrow> verdict P = None \<Longrightarrow> reader_of P = Some (Transaction_read_timestamp tx)"
  by (cases P) auto

text \<open>The step in which a racer is decided.\<close>

lemma race_decides:
  assumes r0: "reachable V W G d S" and q: "quiet invar hist d {#}" and inv: "race_inv T R A S ps"
    and p: "procs S p = Allocated tx cts batch rs"
    and c: "vs_try_commit V (in_store (shared S)) (Transaction_read_timestamp tx) cts batch rs = (res, s)"
    and S': "S' = S\<lparr>shared := (shared S)\<lparr>in_store := s\<rparr>, procs := (procs S)(p := Validated tx cts batch res),
       history := history S @ (if isl res then [] else [\<lparr>c_tx = tx, c_ts = cts, c_seen = seen S p\<rparr>])\<rparr>"
  shows "\<exists>ps'. race_inv T R A S' ps'"
proof -
  have "committing (procs S p)" using p by (simp add: committing_def)
  then have pR: "p \<in> R" using inv by (auto simp: race_inv_def)
  then have tx: "tx = T p" using inv p by (auto simp: race_inv_def)
  have new: "p \<notin> set ps" using inv p pR by (auto simp: race_inv_def)
  obtain hs where hs: "history S = A @ hs" "map c_tx hs = map T ps"
    "\<And>c u. c \<in> set hs \<Longrightarrow> u \<in> R \<Longrightarrow> verdict (procs S u) = None \<Longrightarrow> Transaction_read_timestamp (T u) < c_ts c"
    using inv by (auto simp: race_inv_def)
  from reachable_decision [OF r0 q p c] show ?thesis
  proof (elim disjE conjE)
    assume lost: "\<exists>c\<in>set (history S). overtaken_by tx c" "\<exists>k\<in>watched tx. res = Inl (conflict (length k))"
    then have "race_inv T R A S' ps"
      using inv p tx new by (auto simp: race_inv_def S' committing_def failure_def)
    then show ?thesis ..
  next
    assume won: "\<not> (\<exists>c\<in>set (history S). overtaken_by tx c)" "res = Inr ()"
    let ?c = "\<lparr>c_tx = tx, c_ts = cts, c_seen = seen S p\<rparr>"
    have h: "history S' = A @ (hs @ [?c])" using won(2) hs(1) by (simp add: S')
    have above: "Transaction_read_timestamp (T u) < cts" if "u \<in> R" "verdict (procs S u) = None" for u
    proof -
      have "reader_of (procs S u) = Some (Transaction_read_timestamp (T u))"
        using inv that by (auto simp: race_inv_def intro: race_reader)
      from inv_reader(1) [OF reachable_at [OF r0 q] this] show ?thesis
        using inv_held_above(2) [OF reachable_at [OF r0 q], of p cts] p by simp
    qed
    have "\<not> blocks (T u) (T p)" if "u \<in> set ps" for u
    proof -
      have "T u \<in> set (map c_tx hs)" using that hs(2) by simp
      then obtain b where b: "b \<in> set hs" "c_tx b = T u" by auto
      then have "Transaction_read_timestamp (T p) < c_ts b" using hs(3) pR p by simp
      with won(1) b hs(1) show ?thesis by (auto simp: overtaken_by_def tx)
    qed
    then have "sorted_wrt (\<lambda>p q. \<not> blocks (T p) (T q)) (ps @ [p])"
      using inv by (simp add: race_inv_def sorted_wrt_append)
    moreover have "map c_tx (hs @ [?c]) = map T (ps @ [p])" using hs(2) tx by simp
    moreover have "\<forall>b\<in>set (hs @ [?c]). \<forall>u\<in>R. verdict (procs S' u) = None \<longrightarrow> Transaction_read_timestamp (T u) < c_ts b"
      using hs(3) above by (auto simp: S')
    ultimately have "race_inv T R A S' (ps @ [p])"
      using inv p tx new pR won(2) h unfolding race_inv_def by (auto simp: S' committing_def failure_def)
    then show ?thesis ..
  qed
qed

text \<open>Every other step of a race leaves the history, the winners and the verdicts as they are.\<close>

lemma race_moves:
  assumes "race_inv T R A S ps" "history S' = history S"
    "\<forall>p. p \<notin> R \<longrightarrow> \<not> committing (procs S' p)"
    "\<And>p. p \<in> R \<Longrightarrow> verdict (procs S' p) = verdict (procs S p) \<and> (racer (T p) (procs S p) \<longrightarrow> racer (T p) (procs S' p))"
  shows "race_inv T R A S' ps"
  using assms unfolding race_inv_def by simp

lemma failure_simps: "failure (Inr x) = None" "failure (Inl e) = (if is_retryable e then Some e else None)"
  by (simp_all add: failure_def)

lemma log_failure: "log_commit W d cts batch = (r, d') \<Longrightarrow> failure r = None"
  by (auto simp: log_commit_def append_committed_def Let_def failure_def split: option.splits prod.splits sum.splits if_splits)

lemma race_move_kept:
  assumes "step V W G S S'" "p \<in> R" "racer (T p) (procs S p)"
    "procs S' p = procs S p \<or> committing (procs S' p) \<or> (\<exists>r. procs S' p = Returned r)"
    "\<forall>p\<in>R. writes (T p) \<noteq> []"
    "\<not> (\<exists>p tx cts batch rs. procs S p = Allocated tx cts batch rs \<and> procs S' p \<noteq> procs S p)"
  shows "verdict (procs S' p) = verdict (procs S p) \<and> racer (T p) (procs S' p)"
  using assms(1)
proof (cases rule: step.cases)
  case (commit_apply q tx cts batch rs r s)
  then have "procs S' q \<noteq> procs S q" by simp
  with assms(6) commit_apply(2) show ?thesis by blast
qed (use assms(2-5) in \<open>auto simp: committing_def failure_simps log_failure split: if_splits\<close>)

lemma race_step_inv:
  assumes st: "race_step V W G R S S'" and r0: "reachable V W G d S" and q: "quiet invar hist d {#}"
    and inv: "race_inv T R A S ps" and ne: "\<forall>p\<in>R. writes (T p) \<noteq> []"
  shows "\<exists>ps'. race_inv T R A S' ps'"
proof -
  have out: "\<forall>p. p \<notin> R \<longrightarrow> \<not> committing (procs S' p)" and step: "step V W G S S'"
    and keep: "\<And>p. p \<in> R \<Longrightarrow> procs S' p = procs S p \<or> committing (procs S' p) \<or> (\<exists>r. procs S' p = Returned r)"
    using st by (auto simp: race_step_def)
  have R: "\<And>p. p \<in> R \<Longrightarrow> racer (T p) (procs S p)" "\<And>p. committing (procs S p) \<Longrightarrow> p \<in> R"
    using inv by (auto simp: race_inv_def)
  show ?thesis
  proof (cases "\<exists>p tx cts batch rs. procs S p = Allocated tx cts batch rs \<and> procs S' p \<noteq> procs S p")
    case True
    then obtain p0 tx0 cts0 batch0 rs0 where p0: "procs S p0 = Allocated tx0 cts0 batch0 rs0" "procs S' p0 \<noteq> procs S p0"
      by blast
    show ?thesis
      using step
    proof (cases rule: step.cases)
      case (commit_apply p tx cts batch rs r s)
      show ?thesis by (rule race_decides [OF r0 q inv commit_apply(2,3,1)])
    qed (use p0 in \<open>auto split: if_splits\<close>)
  next
    case False
    have "history S' = history S"
      using step
    proof (cases rule: step.cases)
      case (commit_apply p tx cts batch rs r s)
      then have "procs S' p \<noteq> procs S p" by simp
      with False commit_apply(2) show ?thesis by blast
    qed simp_all
    moreover have "verdict (procs S' p) = verdict (procs S p) \<and> racer (T p) (procs S' p)" if "p \<in> R" for p
      using step that R(1) [OF that] keep [OF that] ne False
      by (rule race_move_kept)
    ultimately have "race_inv T R A S' ps" by (intro race_moves [OF inv _ out]) blast+
    then show ?thesis ..
  qed
qed

text \<open>The state of a race, from its start to any state it reaches.\<close>

lemma race_reachable:
  assumes r0: "reachable V W G d S" and q: "quiet invar hist d {#}"
    and calm: "\<forall>p. \<not> committing (procs S p)" and T: "\<forall>p\<in>R. procs S p = Open (T p) \<and> writes (T p) \<noteq> []"
    and steps: "(race_step V W G R)\<^sup>*\<^sup>* S S'"
  shows "reachable V W G d S' \<and> (\<exists>ps. race_inv T R (history S) S' ps)"
  using steps
proof (induction rule: rtranclp_induct)
  case base
  have "race_inv T R (history S) S []" using calm T by (simp add: race_inv_def)
  then show ?case using r0 by blast
next
  case (step S1 S2)
  then have "reachable V W G d S2" by (auto simp: race_step_def intro: reach_step)
  with step T show ?case using race_step_inv [OF step.hyps(2) _ q] by blast
qed

text \<open>With no commit in flight a get finds the state left by the whole history.\<close>

lemma calm_get:
  assumes r0: "reachable V W G d S" and q: "quiet invar hist d {#}" and calm: "\<forall>p. \<not> committing (procs S p)"
  shows "fst (Db_get V (shared S) k) = Inr (serial_state (hist (in_store d)) (history S) k)"
proof -
  have "held_set (procs S) = {}" using calm held_committing by (fastforce simp: held_set_def)
  then have "quiet invar hist (shared S) (live_readers (procs S))"
    using inv_atD(1) [OF reachable_at [OF r0 q]] by simp
  then show ?thesis using reachable_latest [OF r0 q, of k] by (simp add: quiet_get)
qed

text \<open>A commit reports a conflict, or that the log of a durable database failed; it has no other error.\<close>

lemma log_commit_error:
  "log_commit W d cts batch = (Inl e, d') \<Longrightarrow> is_fatal e \<and> in_log d \<noteq> None \<and> in_log d' \<noteq> None"
  by (auto simp: log_commit_def append_committed_def Let_def split: option.splits prod.splits sum.splits if_splits)

lemma step_log_kept: "step V W G S S' \<Longrightarrow> in_log (shared S') = None \<longleftrightarrow> in_log (shared S) = None"
  by (erule step.cases; auto simp: Transaction_new_eq Snapshot_new_def ActiveReader_new_def Inner_begin_reader_def
      ActiveReader_drop_eq Transaction_rollback_def Snapshot_drop_def log_commit_def split: prod.splits option.splits sum.splits)

lemma reachable_errors:
  assumes "reachable V W G d S" "quiet invar hist d {#}" "outcome_error (procs S p) = Some e"
  shows "is_retryable e \<or> is_fatal e \<and> in_log (shared S) \<noteq> None"
  using assms
proof (induction arbitrary: p e rule: reachable.induct)
  case (reach_step S S')
  note kept = step_log_kept [OF reach_step.hyps(3)] and e = reach_step.prems(2)
  have goal: ?case if "outcome_error (procs S p) = Some e" using reach_step.IH [OF reach_step.prems(1) that] by (simp only: kept)
  from reach_step.hyps(3) show ?case
  proof (cases rule: step.cases)
    case (commit_apply u tx cts batch rs r s)
    have "is_retryable e" if "r = Inl e"
      using reachable_decision [OF reach_step.hyps(1) reach_step.prems(1) commit_apply(2,3)] that by auto
    then show ?thesis using goal e commit_apply(1) by (cases "p = u") (auto split: sum.splits)
  next
    case (commit_log_step u tx cts batch x r d')
    have "is_fatal e \<and> in_log d' \<noteq> None" if "r = Inl e"
      using log_commit_error [of W "shared S" cts batch e d'] commit_log_step(3) that by simp
    then show ?thesis using goal e commit_log_step(1) by (cases "p = u") (auto split: sum.splits)
  next
    case (commit_conflict u tx cts batch e')
    then show ?thesis using goal e by (cases "p = u") auto
  next
    case (commit_done_step u tx cts r)
    then show ?thesis using goal e by (cases "p = u") auto
  next
    case (commit_drop u tx r)
    then show ?thesis using goal e by (cases "p = u") auto
  qed (use goal e in \<open>auto split: if_splits\<close>)
qed (simp add: start_def)

text \<open>A transaction that wrote nothing is acknowledged and is no part of the race.\<close>

lemma race_step_empty:
  assumes "race_step V W G R S S'" "p \<in> R" "writes (T p) = []"
    "procs S p = Open (T p) \<or> procs S p = Returned (Inr (Transaction_read_timestamp (T p)))"
  shows "procs S' p = Open (T p) \<or> procs S' p = Returned (Inr (Transaction_read_timestamp (T p)))"
proof -
  have st: "step V W G S S'" "procs S' p = procs S p \<or> committing (procs S' p) \<or> (\<exists>r. procs S' p = Returned r)"
    using assms(1,2) by (auto simp: race_step_def)
  from st(1) show ?thesis by (cases rule: step.cases) (use st(2) assms(3,4) in \<open>auto simp: committing_def split: if_splits\<close>)
qed

lemma race_without_empty:
  assumes "(race_step V W G R)\<^sup>*\<^sup>* S S'" "\<forall>p\<in>R. procs S p = Open (T p)"
  shows "(race_step V W G {p\<in>R. writes (T p) \<noteq> []})\<^sup>*\<^sup>* S S'
    \<and> (\<forall>p\<in>R. writes (T p) = [] \<longrightarrow>
         procs S' p = Open (T p) \<or> procs S' p = Returned (Inr (Transaction_read_timestamp (T p))))"
  using assms(1)
proof (induction rule: rtranclp_induct)
  case (step S1 S2)
  have empty: "procs S2 p = Open (T p) \<or> procs S2 p = Returned (Inr (Transaction_read_timestamp (T p)))"
    if "p \<in> R" "writes (T p) = []" for p
    by (rule race_step_empty [where T = T, OF step.hyps(2) that]) (use step.IH that in blast)
  moreover have "\<not> committing (procs S2 p)" if "p \<notin> R \<or> writes (T p) = []" for p
    using empty [of p] that step.hyps(2) by (cases "p \<in> R") (auto simp: race_step_def committing_def)
  ultimately have "race_step V W G {p\<in>R. writes (T p) \<noteq> []} S1 S2"
    using step.hyps(2) by (auto simp: race_step_def)
  with step.IH empty show ?case by auto
qed (use assms(2) in simp)

text \<open>The outcome of a race.\<close>

lemma race_outcome:
  assumes r0: "reachable V W G d S" and q: "quiet invar hist d {#}"
    and calm: "\<forall>p. \<not> committing (procs S p)" and T: "\<forall>p\<in>R. procs S p = Open (T p)"
    and race: "(race_step V W G R)\<^sup>*\<^sup>* S S'" and ret: "\<forall>p\<in>R. \<exists>r. procs S' p = Returned r"
  shows "\<exists>ps. distinct ps \<and> set ps = {p\<in>R. writes (T p) \<noteq> [] \<and> applied_commit (procs S' p)}
    \<and> sorted_wrt (\<lambda>p q. \<not> blocks (T p) (T q)) ps
    \<and> (\<forall>p\<in>R. writes (T p) = [] \<longrightarrow> procs S' p = Returned (Inr (Transaction_read_timestamp (T p))))
    \<and> (\<forall>p\<in>R. writes (T p) \<noteq> [] \<and> p \<notin> set ps \<longrightarrow>
        (\<exists>k\<in>watched (T p). procs S' p = Returned (Inl (conflict (length k))))
        \<and> ((\<exists>c\<in>set (history S). overtaken_by (T p) c) \<or> (\<exists>q\<in>set ps. blocks (T q) (T p))))
    \<and> (in_log (shared S) = None \<longrightarrow> (\<forall>p\<in>R. \<forall>e. procs S' p = Returned (Inl e) \<longrightarrow> \<not> is_fatal e))
    \<and> (\<forall>k. fst (Db_get V (shared S') k) =
        Inr (foldl overlay (\<lambda>k. latest (hist (in_store (shared S)) k)) (map T ps) k))"
proof -
  let ?R = "{p\<in>R. writes (T p) \<noteq> []}"
  have race': "(race_step V W G ?R)\<^sup>*\<^sup>* S S'" and empty: "\<And>p. p \<in> R \<Longrightarrow> writes (T p) = [] \<Longrightarrow>
      procs S' p = Open (T p) \<or> procs S' p = Returned (Inr (Transaction_read_timestamp (T p)))"
    using race_without_empty [OF race T] by blast+
  have T': "\<forall>p\<in>?R. procs S p = Open (T p) \<and> writes (T p) \<noteq> []" using T by simp
  obtain ps where r: "reachable V W G d S'" and inv: "race_inv T ?R (history S) S' ps"
    using race_reachable [OF r0 q calm T' race'] by blast
  obtain hs where hs: "history S' = history S @ hs" "map c_tx hs = map T ps" using inv by (auto simp: race_inv_def)
  have calm': "\<forall>p. \<not> committing (procs S' p)"
  proof
    fix p show "\<not> committing (procs S' p)"
      using inv ret by (cases "p \<in> ?R") (auto simp: race_inv_def committing_def)
  qed
  have get: "fst (Db_get V (shared S') k) =
      Inr (foldl overlay (\<lambda>k. latest (hist (in_store (shared S)) k)) (map T ps) k)" for k
  proof -
    have "serial_state (hist (in_store d)) (history S) = (\<lambda>k. latest (hist (in_store (shared S)) k))"
      using reachable_latest [OF r0 q] by auto
    then show ?thesis
      using calm_get [OF r q calm', of k] serial_state_overlays [OF hs(2)] by (simp add: hs(1))
  qed
  have err: "is_retryable e \<or> is_fatal e \<and> in_log (shared S') \<noteq> None" if "procs S' p = Returned (Inl e)" for p e
    using reachable_errors [OF r q, of p e] that by simp
  have win: "p \<in> set ps \<longleftrightarrow> applied_commit (procs S' p)" if p: "p \<in> ?R" for p
  proof -
    obtain r where r: "procs S' p = Returned r" using ret p by blast
    then have "p \<in> set ps \<longleftrightarrow> failure r = None" using race_invD(2) [OF inv p] by simp
    then show ?thesis using r err [of p] by (cases r) (auto simp: failure_simps applied_commit_def is_retryable_iff is_fatal_iff)
  qed
  have wins: "set ps = {p\<in>R. writes (T p) \<noteq> [] \<and> applied_commit (procs S' p)}"
    using inv win unfolding race_inv_def by blast
  have loses: "(\<exists>k\<in>watched (T p). procs S' p = Returned (Inl (conflict (length k))))
      \<and> ((\<exists>c\<in>set (history S). overtaken_by (T p) c) \<or> (\<exists>q\<in>set ps. blocks (T q) (T p)))"
    if p: "p \<in> ?R" and lost: "p \<notin> set ps" for p
  proof -
    obtain r where r: "procs S' p = Returned r" using ret p by blast
    then have "failure r \<noteq> None" using race_invD(2) [OF inv p] lost by simp
    then obtain e where e: "procs S' p = Returned (Inl e)" "failure r = Some e"
      using r by (cases r) (auto simp: failure_simps split: if_splits)
    then have "(\<exists>k\<in>watched (T p). e = conflict (length k)) \<and> (\<exists>c\<in>set (history S @ hs). overtaken_by (T p) c)"
      using race_invD(3) [OF inv p, of e] r by (simp add: hs(1))
    moreover have "\<exists>q\<in>set ps. blocks (T q) (T p)" if "c \<in> set hs" "overtaken_by (T p) c" for c
    proof -
      have "c_tx c \<in> T ` set ps" using hs(2) that(1) by (metis image_eqI list.set_map)
      then show ?thesis using that(2) by (auto simp: overtaken_by_def)
    qed
    ultimately show ?thesis using e unfolding set_append by blast
  qed
  have returned: "procs S' p = Returned (Inr (Transaction_read_timestamp (T p)))" if "p \<in> R" "writes (T p) = []" for p
    using empty [OF that] ret that(1) by auto
  have unlogged: "\<not> is_fatal e" if "in_log (shared S) = None" "procs S' p = Returned (Inl e)" for p e
  proof -
    have "in_log (shared S') = None"
      using race that(1) by (induction rule: rtranclp_induct) (auto simp: race_step_def step_log_kept)
    then show ?thesis using err [OF that(2)] by (auto simp: is_retryable_iff)
  qed
  have "distinct ps" "sorted_wrt (\<lambda>p q. \<not> blocks (T p) (T q)) ps" using inv by (simp_all add: race_inv_def)
  moreover have "\<forall>p\<in>R. writes (T p) \<noteq> [] \<and> p \<notin> set ps \<longrightarrow>
      (\<exists>k\<in>watched (T p). procs S' p = Returned (Inl (conflict (length k))))
      \<and> ((\<exists>c\<in>set (history S). overtaken_by (T p) c) \<or> (\<exists>q\<in>set ps. blocks (T q) (T p)))"
    using loses by blast
  ultimately show ?thesis using wins get returned unlogged by (intro exI [of _ ps] conjI) blast+
qed

text \<open>A commit that has passed validation is acknowledged when its record gets into the log.\<close>

lemma log_commit_keeps_rest:
  "log_commit W d cts batch = (r, d') \<Longrightarrow> in_oracle d' = in_oracle d \<and> in_store d' = in_store d"
  by (auto simp: log_commit_def split: option.splits prod.splits sum.splits)

lemma validated_returns:
  assumes r0: "reachable V W G d S" and room: "oracle_room (in_oracle (shared S))"
    and q: "procs S q = Validated tx cts batch (Inr u)" and log: "log_commit W (shared S) cts batch = (Inr cts, d1)"
  shows "\<exists>S'. reachable V W G d S' \<and> (step V W G)\<^sup>*\<^sup>* S S' \<and> procs S' = (procs S)(q := Returned (Inr cts))
    \<and> history S' = history S \<and> oracle_room (in_oracle (shared S'))"
proof -
  define S1 where "S1 = S\<lparr>shared := d1, procs := (procs S)(q := Decided tx cts (Inr cts))\<rparr>"
  define S2 where "S2 = S1\<lparr>shared := done_step cts (shared S1), procs := (procs S1)(q := Released tx (Inr cts))\<rparr>"
  define S3 where "S3 = S2\<lparr>shared := ActiveReader_drop (shared S2) (active tx), procs := (procs S2)(q := Returned (Inr cts))\<rparr>"
  have st: "step V W G S S1" "step V W G S1 S2" "step V W G S2 S3"
    unfolding S1_def S2_def S3_def
    by (rule step.commit_log_step [OF q log], rule step.commit_done_step, simp, rule step.commit_drop, simp)
  have "in_oracle d1 = in_oracle (shared S)" using log_commit_keeps_rest [OF log] by simp
  then have rm: "oracle_room (in_oracle (shared S1))" "oracle_room (in_oracle (shared S2))" "oracle_room (in_oracle (shared S3))"
    using room by (simp_all add: S1_def S2_def S3_def oracle_room_def ActiveReader_drop_eq)
  have "reachable V W G d S3"
    using reach_step [OF reach_step [OF reach_step [OF r0 room st(1)] rm(1) st(2)] rm(2) st(3)] .
  moreover have "(step V W G)\<^sup>*\<^sup>* S S3" using st by (meson converse_rtranclp_into_rtranclp rtranclp.rtrancl_refl)
  ultimately show ?thesis using rm(3) by (intro exI [of _ S3]) (simp add: S1_def S2_def S3_def)
qed

text \<open>A transaction that begins while a timestamp is held reads below it.\<close>

lemma begins_below:
  assumes r: "reachable V W G d S" and q: "quiet invar hist d {#}" and h: "held (procs S p) = Some t"
  shows "Oracle_read_ts (in_oracle (shared S)) < t"
proof -
  have "t \<in> held_set (procs S)" using h by (auto simp: held_set_def)
  then have "\<not> t \<le> Oracle_read_ts (in_oracle (shared S))" using reachable_watermark [OF r q, of t] by blast
  then show ?thesis by simp
qed

lemma acknowledged_invisible:
  assumes r0: "reachable V W G d S" and q: "quiet invar hist d {#}" and p: "held (procs S p) = Some t"
    and o': "procs S u = Open tx" "writes tx \<noteq> []" and ok: "\<not> (\<exists>c\<in>set (history S). overtaken_by tx c)"
    and idle: "procs S v = Idle" and room: "next_ts (in_oracle (shared S)) \<noteq> - 1" "next_ts (in_oracle (shared S)) \<noteq> - 2"
    and log: "\<And>cts batch. \<exists>d'. log_commit W (shared S) cts batch = (Inr cts, d')"
  shows "\<exists>S' c tx'. reachable V W G d S' \<and> (step V W G)\<^sup>*\<^sup>* S S' \<and> procs S' p = procs S p
    \<and> procs S' u = Returned (Inr (c_ts c)) \<and> history S' = history S @ [c] \<and> c_tx c = tx
    \<and> procs S' v = Open tx' \<and> Transaction_read_timestamp tx' < t \<and> t < c_ts c
    \<and> (\<forall>k. vs_get V (in_store (shared S')) k (Transaction_read_timestamp tx') =
          Inr (serial_state (hist (in_store d)) (filter (\<lambda>c. c_ts c \<le> Transaction_read_timestamp tx') (history S)) k))"
proof -
  let ?step = "step V W G"
  obtain cts orc where al: "alloc_commit_ts (in_oracle (shared S)) = (cts, orc)" by force
  then have cts: "cts = next_commit (shared S)" "next_ts orc = next_ts (in_oracle (shared S)) + 1"
    using alloc_fst [of "shared S"] by (auto simp: alloc_commit_ts_def)
  let ?b = "order_writes demo_order (writes tx)" and ?rs = "commit_reads demo_order tx"
  define S1 where "S1 = S\<lparr>shared := (shared S)\<lparr>in_oracle := orc\<rparr>, procs := (procs S)(u := Allocated tx cts ?b ?rs)\<rparr>"
  have st1: "?step S S1" unfolding S1_def by (rule step.commit_alloc [OF o'(1,2) demo_order_ok al])
  have rm: "oracle_room (in_oracle (shared S))" "oracle_room orc"
    using room cts(2) by (simp_all add: oracle_room_def eq_neg_iff_add_eq_0 add.assoc)
  have r1: "reachable V W G d S1" using r0 rm(1) st1 by (rule reach_step)
  have p1: "procs S1 u = Allocated tx cts ?b ?rs" by (simp add: S1_def)
  obtain s where s: "vs_try_commit V (in_store (shared S1)) (Transaction_read_timestamp tx) cts ?b ?rs = (Inr (), s)"
  proof -
    obtain r s where rs: "vs_try_commit V (in_store (shared S1)) (Transaction_read_timestamp tx) cts ?b ?rs = (r, s)" by force
    have "history S1 = history S" by (simp add: S1_def)
    then have "r = Inr ()" using reachable_decision [OF r1 q p1 rs] ok by auto
    with rs show thesis by (intro that) simp
  qed
  let ?c = "\<lparr>c_tx = tx, c_ts = cts, c_seen = seen S1 u\<rparr>"
  define S2 where "S2 = S1\<lparr>shared := (shared S1)\<lparr>in_store := s\<rparr>, procs := (procs S1)(u := Validated tx cts ?b (Inr ())),
    history := history S1 @ [?c]\<rparr>"
  have st2: "?step S1 S2" using step.commit_apply [where p = u and V = V and W = W and G = G, OF p1 s] by (simp add: S2_def)
  have rm1: "oracle_room (in_oracle (shared S1))" using rm(2) by (simp add: S1_def)
  have r2: "reachable V W G d S2" using r1 rm1 st2 by (rule reach_step)
  have rm2: "oracle_room (in_oracle (shared S2))" using rm1 by (simp add: S2_def)
  have p2: "procs S2 u = Validated tx cts ?b (Inr ())" by (simp add: S2_def)
  have "in_log (shared S2) = in_log (shared S)" by (simp add: S1_def S2_def)
  then have "fst (log_commit W (shared S2) cts ?b) = fst (log_commit W (shared S) cts ?b)"
    by (simp add: log_commit_def split: option.split prod.split sum.split)
  then obtain d2 where "log_commit W (shared S2) cts ?b = (Inr cts, d2)"
    using log [of cts ?b] by (cases "log_commit W (shared S2) cts ?b") auto
  from validated_returns [OF r2 rm2 p2 this] obtain S3 where S3: "reachable V W G d S3" "?step\<^sup>*\<^sup>* S2 S3"
    "procs S3 = (procs S2)(u := Returned (Inr cts))" "history S3 = history S2" "oracle_room (in_oracle (shared S3))"
    by blast
  have ne: "p \<noteq> u" "v \<noteq> u" "p \<noteq> v" using p o'(1) idle by auto
  have p3: "procs S3 p = procs S p" "procs S3 v = Idle" "procs S3 u = Returned (Inr cts)"
    using ne idle by (simp_all add: S3(3) S2_def S1_def)
  obtain tx' d3 where new: "Transaction_new (shared S3) False = (tx', d3)" by force
  define S4 where "S4 = S3\<lparr>shared := d3, procs := (procs S3)(v := Open tx'), seen := (seen S3)(v := [])\<rparr>"
  have st4: "?step S3 S4" unfolding S4_def by (rule step.begin_tx [OF p3(2) new])
  have r4: "reachable V W G d S4" using S3(1,5) st4 by (rule reach_step)
  have h4: "history S4 = history S @ [?c]" by (simp add: S4_def S3(4) S2_def S1_def)
  have tx': "Transaction_read_timestamp tx' = Oracle_read_ts (in_oracle (shared S3))"
    using new by (auto simp: Transaction_new_eq Transaction_read_timestamp_def)
  have below: "Transaction_read_timestamp tx' < t"
    unfolding tx' using begins_below [OF S3(1) q, of p t] p3(1) p by simp
  have above: "t < cts" using inv_atD(4) [OF reachable_at [OF r0 q]] p unfolding cts(1) by (auto simp: held_set_def)
  have out: "\<not> cts \<le> Transaction_read_timestamp tx'" unfolding not_le using below above by (rule less_trans)
  have "reader_of (procs S4 v) = Some (Transaction_read_timestamp tx')" by (simp add: S4_def)
  from reachable_get [OF r4 q this] have
    "vs_get V (in_store (shared S4)) k (Transaction_read_timestamp tx') =
       Inr (serial_state (hist (in_store d)) (filter (\<lambda>c. c_ts c \<le> Transaction_read_timestamp tx') (history S)) k)" for k
    using out by (simp add: h4)
  moreover have "?step\<^sup>*\<^sup>* S S4"
    using st1 st2 S3(2) st4 by (meson converse_rtranclp_into_rtranclp rtranclp.rtrancl_into_rtrancl)
  moreover have "procs S4 p = procs S p" "procs S4 u = Returned (Inr cts)" "procs S4 v = Open tx'"
    using p3 ne by (simp_all add: S4_def)
  ultimately show ?thesis using r4 h4 below above by (intro exI [of _ S4] exI [of _ ?c] exI [of _ tx']) simp
qed

end

section \<open>Scheduled races\<close>

lemma run_append: "run V W G (as @ bs) S = Option.bind (run V W G as S) (run V W G bs)"
proof (induction as arbitrary: S)
  case (Cons pa as)
  then show ?case by (cases pa; cases "perform V W G S (fst pa) (snd pa)") simp_all
qed simp

text \<open>A schedule moves only the processes it names.\<close>

lemma commit_next_other: "commit_next V W S p P = Some S' \<Longrightarrow> q \<noteq> p \<Longrightarrow> procs S' q = procs S q"
  by (induction V W S p P rule: commit_next.induct) (auto split: if_splits prod.splits)

lemma perform_other: "perform V W G S p a = Some S' \<Longrightarrow> q \<noteq> p \<Longrightarrow> procs S' q = procs S q"
  by (cases a) (auto simp: observe_def commit_next_other split: process.splits prod.splits if_splits)

lemma run_other: "run V W G as S = Some S' \<Longrightarrow> q \<notin> fst ` set as \<Longrightarrow> procs S' q = procs S q"
proof (induction as arbitrary: S)
  case (Cons pa as)
  then show ?case by (cases pa) (auto simp: perform_other split: if_splits bind_splits)
qed simp

lemma commit_next_racing:
  "commit_next V W S p P = Some S' \<Longrightarrow> \<exists>x. procs S' = (procs S)(p := x) \<and> (committing x \<or> (\<exists>r. x = Returned r))"
  by (induction V W S p P rule: commit_next.induct) (auto simp: committing_def split: if_splits prod.splits)

text \<open>A schedule of nothing but commits of \<open>R\<close> is a race.\<close>

lemma run_race:
  assumes "run V W G (map (\<lambda>p. (p, Commit)) ss) S = Some S'" "set ss \<subseteq> R" "\<forall>p. p \<notin> R \<longrightarrow> \<not> committing (procs S p)"
  shows "(race_step V W G R)\<^sup>*\<^sup>* S S'"
  using assms
proof (induction ss arbitrary: S)
  case (Cons p ss)
  then obtain S1 where S1: "oracle_room (in_oracle (shared S))" "perform V W G S p Commit = Some S1"
    "run V W G (map (\<lambda>p. (p, Commit)) ss) S1 = Some S'"
    by (auto split: if_splits bind_splits)
  then obtain x where x: "procs S1 = (procs S)(p := x)" "committing x \<or> (\<exists>r. x = Returned r)"
    using commit_next_racing [of V W S p "procs S p" S1] by auto
  have out: "\<forall>q. q \<notin> R \<longrightarrow> \<not> committing (procs S1 q)" using Cons.prems(2,3) x(1) by auto
  have "race_step V W G R S S1"
    using S1(1) perform_step [OF S1(2)] x out by (auto simp: race_step_def)
  moreover have "(race_step V W G R)\<^sup>*\<^sup>* S1 S'" using Cons.IH [OF S1(3) _ out] Cons.prems(2) by simp
  ultimately show ?case by (rule converse_rtranclp_into_rtranclp)
qed simp

section \<open>Properties\<close>

text \<open>C12. No commit is rejected without a cause: when its turn at the store comes, whatever has happened
  since it began, a commit is applied unless some commit already applied, with a timestamp its snapshot
  does not include, wrote a key it wrote or tracked; and then it is rejected with a conflict on one of
  those keys.\<close>

theorem rejections_have_a_cause:
  assumes "mem_reachable W d S" "quiet wf_store store_hist d {#}" "procs S p = Allocated tx cts batch rs"
    "MemoryStore_try_commit (in_store (shared S)) (Transaction_read_timestamp tx) cts batch rs = (r, s)"
  shows "(r = Inr () \<longleftrightarrow> \<not> (\<exists>c\<in>set (history S). overtaken_by tx c))
    \<and> (\<forall>e. r = Inl e \<longrightarrow> (\<exists>k\<in>watched tx. e = conflict (length k)))"
  using mems.reachable_decision [OF assms(1-3), of r s] assms(4) by (auto simp: MemoryStore_def)

text \<open>Two transactions that took the same snapshot and write the same key, one of them allocated.\<close>

definition contended :: "(nat \<times> action) list" where
  "contended = [(0, Begin False), (1, Begin False), (0, Put key_x [1]), (1, Put key_x [2])]"

abbreviation contender :: "u8 \<Rightarrow> transaction" where
  "contender v \<equiv> \<lparr>active = \<lparr>active_read_ts = Timestamp 0\<rparr>, writes = [(key_x, Some [v])], reads = None\<rparr>"

lemma contended_run:
  "map_option (\<lambda>S. (procs S 0, procs S 1, history S, in_log (shared S)))
     (run MemoryStore list_wal MemoryStore_slices contended (start one_shard)) =
   Some (Open (contender 1), Open (contender 2), [], None)"
  by code_simp

lemma contended_allocated:
  "map_option (\<lambda>S. (procs S 1, map (\<lambda>c. (c_tx c, c_ts c)) (history S)))
     (run MemoryStore list_wal MemoryStore_slices (contended @ [(0, Commit), (0, Commit), (1, Commit)]) (start one_shard)) =
   Some (Allocated (contender 2) (Timestamp 2) [(key_x, Some [2])] [], [(contender 1, Timestamp 1)])"
  by code_simp

theorem rejections_have_a_cause_witness:
  "\<exists>S. mem_reachable list_wal one_shard S \<and> length (history S) = 1
     \<and> isl (fst (MemoryStore_try_commit (in_store (shared S)) (Timestamp 0) (Timestamp 2) [(key_x, Some [2])] []))"
proof -
  obtain S where S: "mem_reachable list_wal one_shard S"
    "procs S 1 = Allocated (contender 2) (Timestamp 2) [(key_x, Some [2])] []"
    "map (\<lambda>c. (c_tx c, c_ts c)) (history S) = [(contender 1, Timestamp 1)]"
    by (rule run_obtain [OF contended_allocated]) simp
  obtain c where c: "history S = [c]" "c_tx c = contender 1" "c_ts c = Timestamp 1" using S(3) by auto
  then have "overtaken_by (contender 2) c"
    by (simp add: overtaken_by_def blocks_def watched_def Transaction_read_timestamp_def less_timestamp_def)
  then have "fst (MemoryStore_try_commit (in_store (shared S)) (Transaction_read_timestamp (contender 2)) (Timestamp 2) [(key_x, Some [2])] []) \<noteq> Inr ()"
    using rejections_have_a_cause [OF S(1) quiet_one_shard S(2) prod.collapse [symmetric]] c(1) by simp
  then have "isl (fst (MemoryStore_try_commit (in_store (shared S)) (Timestamp 0) (Timestamp 2) [(key_x, Some [2])] []))"
    by (cases "fst (MemoryStore_try_commit (in_store (shared S)) (Timestamp 0) (Timestamp 2) [(key_x, Some [2])] [])")
      (auto simp: Transaction_read_timestamp_def)
  with S(1) c(1) show ?thesis by auto
qed


text \<open>Two transactions on different keys; process 0 holds the first timestamp.\<close>

definition one_pending :: "(nat \<times> action) list" where
  "one_pending = [(0, Begin False), (0, Put key_x [1]), (0, Commit), (1, Begin False), (1, Put key_y [2])]"

lemma one_pending_run:
  "map_option (\<lambda>S. (held (procs S 0), procs S 1, history S, in_log (shared S), next_ts (in_oracle (shared S))))
     (run MemoryStore list_wal MemoryStore_slices one_pending (start one_shard)) =
   Some (Some (Timestamp 1), Open \<lparr>active = \<lparr>active_read_ts = Timestamp 0\<rparr>, writes = [(key_y, Some [2])], reads = None\<rparr>,
     [], None, 2)"
  by code_simp


text \<open>Who wins a race. When any set of transactions is committed at once, however their steps
  interleave with each other and with readers and collections, then once all have returned the winners,
  the commits that wrote something and were acknowledged or whose append to the log failed, can be
  listed in the order applied such that no winner wrote a key a later one had written or tracked; a
  transaction that wrote nothing is acknowledged; every other one got a conflict on one of its keys,
  because an earlier commit or a winner wrote one of them; without a log every winner is acknowledged;
  and a get finds what the winners leave, run one after the other. So one of several transactions that
  write the same key wins, and transactions on disjoint keys all do.\<close>

theorem racing_commits:
  assumes "mem_reachable W d S" "quiet wf_store store_hist d {#}"
    "\<forall>p. \<not> committing (procs S p)" "\<forall>p\<in>R. procs S p = Open (T p)"
    "(race_step MemoryStore W MemoryStore_slices R)\<^sup>*\<^sup>* S S'" "\<forall>p\<in>R. \<exists>r. procs S' p = Returned r"
  shows "\<exists>ps. distinct ps \<and> set ps = {p\<in>R. writes (T p) \<noteq> [] \<and> applied_commit (procs S' p)}
    \<and> sorted_wrt (\<lambda>p q. \<not> blocks (T p) (T q)) ps
    \<and> (\<forall>p\<in>R. writes (T p) = [] \<longrightarrow> procs S' p = Returned (Inr (Transaction_read_timestamp (T p))))
    \<and> (\<forall>p\<in>R. writes (T p) \<noteq> [] \<and> p \<notin> set ps \<longrightarrow>
        (\<exists>k\<in>watched (T p). procs S' p = Returned (Inl (conflict (length k))))
        \<and> ((\<exists>c\<in>set (history S). overtaken_by (T p) c) \<or> (\<exists>q\<in>set ps. blocks (T q) (T p))))
    \<and> (in_log (shared S) = None \<longrightarrow> (\<forall>p\<in>R. \<forall>e. procs S' p = Returned (Inl e) \<longrightarrow> \<not> is_fatal e))
    \<and> (\<forall>k. fst (Db_get MemoryStore (shared S') k) =
        Inr (foldl overlay (\<lambda>k. latest (store_hist (in_store (shared S)) k)) (map T ps) k))"
  using assms by (rule mems.race_outcome)

text \<open>Process 1 allocates the earlier timestamp and is overtaken at the store.\<close>

definition photo_finish :: "nat list" where
  "photo_finish = [1, 0, 0, 1, 1, 0, 0, 0, 1, 1]"

lemma photo_finish_run:
  "map_option (\<lambda>S. (procs S 0, procs S 1))
     (run MemoryStore list_wal MemoryStore_slices (contended @ map (\<lambda>p. (p, Commit)) photo_finish) (start one_shard)) =
   Some (Returned (Inr (Timestamp 2)), Returned (Inl (conflict 1)))"
  by code_simp

theorem racing_commits_witness:
  "\<exists>S S'. mem_reachable list_wal one_shard S \<and> (race_step MemoryStore list_wal MemoryStore_slices {0, 1})\<^sup>*\<^sup>* S S'
     \<and> procs S' 0 = Returned (Inr (Timestamp 2)) \<and> fst (Db_get MemoryStore (shared S') key_x) = Inr (Some [1])"
proof -
  let ?run = "run MemoryStore list_wal MemoryStore_slices" and ?T = "\<lambda>p :: nat. contender (if p = 0 then 1 else 2)"
  obtain S where S: "?run contended (start one_shard) = Some S" "procs S 0 = Open (contender 1)"
    "procs S 1 = Open (contender 2)" "history S = []"
    using contended_run by auto
  obtain S' where S': "?run (map (\<lambda>p. (p, Commit)) photo_finish) S = Some S'" "procs S' 0 = Returned (Inr (Timestamp 2))"
    "procs S' 1 = Returned (Inl (conflict 1))"
    using photo_finish_run by (auto simp: run_append S(1))
  have r: "mem_reachable list_wal one_shard S" using run_reachable [OF S(1) reach_start] .
  have calm: "\<forall>p. \<not> committing (procs S p)"
  proof
    fix p show "\<not> committing (procs S p)"
      using S(2,3) run_other [OF S(1), of p]
      by (cases "p \<in> {0, 1}") (auto simp: contended_def start_def committing_def)
  qed
  have race: "(race_step MemoryStore list_wal MemoryStore_slices {0, 1})\<^sup>*\<^sup>* S S'"
    by (rule run_race [OF S'(1)]) (use calm in \<open>simp_all add: photo_finish_def\<close>)
  have open': "\<forall>p\<in>{0, 1}. procs S p = Open (?T p)" using S(2,3) by simp
  have ret: "\<forall>p\<in>{0, 1}. \<exists>r. procs S' p = Returned r" using S'(2,3) by simp
  obtain ps where ps: "distinct ps" "set ps = {p\<in>{0, 1}. writes (?T p) \<noteq> [] \<and> applied_commit (procs S' p)}"
    "fst (Db_get MemoryStore (shared S') key_x) =
      Inr (foldl overlay (\<lambda>k. latest (store_hist (in_store (shared S)) k)) (map ?T ps) key_x)"
    using racing_commits [OF r quiet_one_shard calm open' race ret] by blast
  have "p \<in> set ps \<longleftrightarrow> p = 0" for p unfolding ps(2) using S'(2,3) by (auto simp: applied_commit_def conflict_def)
  then have "set ps = {0}" by blast
  then have "ps = [0]" using ps(1) by (cases ps) (auto simp: subset_singleton_iff)
  then have "fst (Db_get MemoryStore (shared S') key_x) = Inr (Some [1])" using ps(3) by (simp add: overlay_def)
  with r race S'(2) show ?thesis by blast
qed

end
