(* ===== verification/Locked_Racing.thy ===== *)
theory Locked_Racing
  imports Racing Locked_Engine
begin

text \<open>
  Transactions that race to commit in the engine with its locks: what theory \<open>Racing\<close> shows of commits
  whose store operation is one step, for commits that take the shard locks of \<open>src/src/store.rs\<close> one at
  a time, check and push key by key, and meet readers and collections between any two of these steps.
  A race of the engine is a race of the atomic model, by the simulation of theory \<open>Locked_Engine\<close>.
\<close>

section \<open>Definitions\<close>

text \<open>
  The steps of a race: the processes of \<open>R\<close>, which have called \<open>commit\<close>, do nothing else, and no other
  process commits.
\<close>

definition engine_race_step :: "'w wal_ops \<Rightarrow> nat set \<Rightarrow> 'w engine \<Rightarrow> 'w engine \<Rightarrow> bool" where
  "engine_race_step W R F F' \<longleftrightarrow>
     oracle_room (in_oracle (core F)) \<and> engine_step W F F'
     \<and> (\<forall>p\<in>R. (tasks F' p = tasks F p \<or> committing (tasks F' p) \<or> (\<exists>r. tasks F' p = Returned r))
          \<and> (\<forall>tx. tasks F' p = Open tx \<longrightarrow> store_call F' p = Resting))
     \<and> (\<forall>p. p \<notin> R \<longrightarrow> \<not> committing (tasks F' p))"

definition racing :: "process \<Rightarrow> call \<Rightarrow> bool" where
  "racing P c \<longleftrightarrow> (\<exists>tx. P = Open tx \<and> c = Resting) \<or> committing P \<or> (\<exists>r. P = Returned r)"

section \<open>Lemmas\<close>

lemma committing_seen_as: "committing (seen_as P c) \<longleftrightarrow> committing P"
  by (cases P) (auto simp: committing_def split: call.splits store_op.splits store_res.splits sum.splits)

lemma engine_race_keeps:
  "engine_race_step W R F F' \<Longrightarrow> \<forall>p\<in>R. racing (tasks F p) (store_call F p) \<Longrightarrow>
     \<forall>p\<in>R. racing (tasks F' p) (store_call F' p)"
  unfolding engine_race_step_def racing_def by metis

lemma simulate_race_step:
  assumes m: "engine_match F S" and st: "engine_race_step W R F F'"
    and R: "\<forall>p\<in>R. racing (tasks F p) (store_call F p)"
  shows "\<exists>S'. (S' = S \<or> race_step MemoryStore W MemoryStore_slices R S S') \<and> engine_match F' S'"
proof -
  obtain S' where S': "S' = S \<or> step MemoryStore W MemoryStore_slices S S'" "engine_match F' S'"
    using simulate_step [OF m, of W F'] st by (auto simp: engine_race_step_def)
  have keep: "procs S' p = procs S p \<or> committing (procs S' p) \<or> (\<exists>r. procs S' p = Returned r)" if p: "p \<in> R" for p
  proof (cases "\<exists>tx. tasks F' p = Open tx")
    case True
    then have "tasks F' p = tasks F p" "store_call F' p = Resting" using st p by (auto simp: engine_race_step_def committing_def)
    moreover from this have "store_call F p = Resting" using True R p by (auto simp: racing_def committing_def)
    ultimately show ?thesis using at_rest [OF m] at_rest [OF S'(2)] by simp
  next
    case False
    then have "committing (tasks F' p) \<or> (\<exists>r. tasks F' p = Returned r)"
      using engine_race_keeps [OF st R] p by (auto simp: racing_def)
    then show ?thesis using committing_seen_as [of "tasks F' p"] by (auto simp: matchD(4) [OF S'(2)])
  qed
  have "race_step MemoryStore W MemoryStore_slices R S S'" if "step MemoryStore W MemoryStore_slices S S'"
    using that keep st by (auto simp: race_step_def engine_race_step_def matchD(2) [OF m] matchD(4) [OF S'(2)] committing_seen_as)
  with S' show ?thesis by blast
qed

lemma simulate_race:
  assumes "(engine_race_step W R)\<^sup>*\<^sup>* F F'" "engine_match F S" "\<forall>p\<in>R. racing (tasks F p) (store_call F p)"
  shows "\<exists>S'. (race_step MemoryStore W MemoryStore_slices R)\<^sup>*\<^sup>* S S' \<and> engine_match F' S'"
  using assms
proof (induction arbitrary: S rule: converse_rtranclp_induct)
  case (step F F1)
  obtain S1 where S1: "S1 = S \<or> race_step MemoryStore W MemoryStore_slices R S S1" "engine_match F1 S1"
    using simulate_race_step [OF step.prems(1) step.hyps(1) step.prems(2)] by blast
  obtain S' where S': "(race_step MemoryStore W MemoryStore_slices R)\<^sup>*\<^sup>* S1 S'" "engine_match F' S'"
    using step.IH [OF S1(2) engine_race_keeps [OF step.hyps(1) step.prems(2)]] by blast
  with S1(1) show ?case by (auto intro: converse_rtranclp_into_rtranclp)
qed blast

text \<open>A commit the snapshot lacks shows in the store as long as the transaction is open.\<close>

lemma overtaken_in_store:
  assumes r: "mem_reachable W d S" and q: "quiet wf_store store_hist d {#}"
    and tx: "reader_of (procs S p) = Some (Transaction_read_timestamp tx)" and c: "\<exists>c\<in>set (history S). overtaken_by tx c"
  shows "\<exists>k\<in>watched tx. changed_since (store_hist (in_store (shared S)) k) (Transaction_read_timestamp tx)"
proof -
  note inv = mems.reachable_at [OF r q]
  obtain c k where "c \<in> set (history S)" "Transaction_read_timestamp tx < c_ts c" "k \<in> watched tx" "k \<in> dom (map_of (writes (c_tx c)))"
    using c by (auto simp: overtaken_by_def blocks_def)
  moreover have "Transaction_read_timestamp tx \<in># live_readers (procs S)" using inv tx by (rule inv_reader)
  ultimately show ?thesis
    using changed_since_full_hist [of c "history S" k "Transaction_read_timestamp tx" "store_hist (in_store d)"]
      inv_atD(5) [OF inv, of "Transaction_read_timestamp tx" k] by (auto simp: agree_def)
qed

lemma engine_race_outcome:
  assumes run: "engine_run W d F" and q: "quiet wf_store store_hist d {#}"
    and calm: "\<forall>p. \<not> committing (tasks F p)"
    and T: "\<forall>p\<in>R. tasks F p = Open (T p) \<and> store_call F p = Resting"
    and race: "(engine_race_step W R)\<^sup>*\<^sup>* F F'" and ret: "\<forall>p\<in>R. \<exists>r. tasks F' p = Returned r"
  shows "\<exists>ps. distinct ps \<and> set ps = {p\<in>R. writes (T p) \<noteq> [] \<and> applied_commit (tasks F' p)}
    \<and> sorted_wrt (\<lambda>p q. \<not> blocks (T p) (T q)) ps
    \<and> (\<forall>p\<in>R. writes (T p) = [] \<longrightarrow> tasks F' p = Returned (Inr (Transaction_read_timestamp (T p))))
    \<and> (\<forall>p\<in>R. writes (T p) \<noteq> [] \<and> p \<notin> set ps \<longrightarrow>
        (\<exists>k\<in>watched (T p). tasks F' p = Returned (Inl (conflict (length k))))
        \<and> ((\<exists>k\<in>watched (T p). changed_since (store_hist (in_store (core F)) k) (Transaction_read_timestamp (T p)))
          \<or> (\<exists>q\<in>set ps. blocks (T q) (T p))))
    \<and> (in_log (core F) = None \<longrightarrow> (\<forall>p\<in>R. \<forall>e. tasks F' p = Returned (Inl e) \<longrightarrow> \<not> is_fatal e))
    \<and> (\<forall>k. fst (Db_get MemoryStore (core F') k) =
        Inr (foldl overlay (\<lambda>k. latest (store_hist (in_store (core F)) k)) (map T ps) k))"
proof -
  obtain S where S: "mem_reachable W d S" "engine_match F S" using engine_simulated [OF run] by blast
  have "\<forall>p\<in>R. racing (tasks F p) (store_call F p)" using T by (auto simp: racing_def)
  from simulate_race [OF race S(2) this] obtain S' where
    S': "(race_step MemoryStore W MemoryStore_slices R)\<^sup>*\<^sup>* S S'" "engine_match F' S'" by blast
  have core: "core F = shared S" using S(2) calm by (rule uncommitting_store)
  have calm': "\<forall>p. \<not> committing (procs S p)" using calm by (simp add: matchD(4) [OF S(2)] committing_seen_as)
  have open': "\<forall>p\<in>R. procs S p = Open (T p)" using T at_rest [OF S(2)] by simp
  have same: "procs S' p = tasks F' p" if "p \<in> R" for p
    using ret that matchD(4) [OF S'(2), of p] by auto
  have ret': "\<forall>p\<in>R. \<exists>r. procs S' p = Returned r" using ret same by simp
  note out = mems.race_outcome [OF S(1) q calm' open' S'(1) ret']
  have "\<not> committing (tasks F' p)" for p
    using race
  proof (cases rule: rtranclp.cases)
    case rtrancl_refl
    then show ?thesis using calm by simp
  next
    case (rtrancl_into_rtrancl F1)
    then show ?thesis using ret by (cases "p \<in> R") (auto simp: engine_race_step_def committing_def)
  qed
  then have core': "core F' = shared S'" using S'(2) by (intro uncommitting_store allI)
  have late: "\<exists>k\<in>watched (T p). changed_since (store_hist (in_store (core F)) k) (Transaction_read_timestamp (T p))"
    if "p \<in> R" "\<exists>c\<in>set (history S). overtaken_by (T p) c" for p
    unfolding core using overtaken_in_store [OF S(1) q _ that(2), of p] open' that(1) by simp
  from out obtain ps where ps: "distinct ps" "set ps = {p\<in>R. writes (T p) \<noteq> [] \<and> applied_commit (procs S' p)}"
    "sorted_wrt (\<lambda>p q. \<not> blocks (T p) (T q)) ps"
    "\<forall>p\<in>R. writes (T p) = [] \<longrightarrow> procs S' p = Returned (Inr (Transaction_read_timestamp (T p)))"
    "\<forall>p\<in>R. writes (T p) \<noteq> [] \<and> p \<notin> set ps \<longrightarrow>
        (\<exists>k\<in>watched (T p). procs S' p = Returned (Inl (conflict (length k))))
        \<and> ((\<exists>c\<in>set (history S). overtaken_by (T p) c) \<or> (\<exists>q\<in>set ps. blocks (T q) (T p)))"
    "in_log (shared S) = None \<longrightarrow> (\<forall>p\<in>R. \<forall>e. procs S' p = Returned (Inl e) \<longrightarrow> \<not> is_fatal e)"
    "\<forall>k. fst (Db_get MemoryStore (shared S') k) =
        Inr (foldl overlay (\<lambda>k. latest (store_hist (in_store (shared S)) k)) (map T ps) k)"
    by (elim exE conjE)
  have "set ps = {p\<in>R. writes (T p) \<noteq> [] \<and> applied_commit (tasks F' p)}" unfolding ps(2) using same by auto
  moreover have "\<forall>p\<in>R. writes (T p) = [] \<longrightarrow> tasks F' p = Returned (Inr (Transaction_read_timestamp (T p)))"
    using ps(4) same by simp
  moreover have "\<forall>p\<in>R. writes (T p) \<noteq> [] \<and> p \<notin> set ps \<longrightarrow>
        (\<exists>k\<in>watched (T p). tasks F' p = Returned (Inl (conflict (length k))))
        \<and> ((\<exists>k\<in>watched (T p). changed_since (store_hist (in_store (core F)) k) (Transaction_read_timestamp (T p)))
          \<or> (\<exists>q\<in>set ps. blocks (T q) (T p)))"
    using ps(5) same late by metis
  moreover have "in_log (core F) = None \<longrightarrow> (\<forall>p\<in>R. \<forall>e. tasks F' p = Returned (Inl e) \<longrightarrow> \<not> is_fatal e)"
    using ps(6) same by (simp add: core)
  ultimately show ?thesis
    using ps(1,3,7) unfolding core core' by (intro exI [of _ ps] conjI) assumption+
qed

section \<open>Scheduled races\<close>

lemma engine_schedule_append:
  "engine_schedule n W (xs @ ys) F = Option.bind (engine_schedule n W xs F) (engine_schedule n W ys)"
  by (induction xs arbitrary: F) (simp_all split: bind_split)

lemma go_on_racing:
  "go_on W F p P = Some F' \<Longrightarrow>
     (\<exists>x. tasks F' = (tasks F)(p := x) \<and> (committing x \<or> (\<exists>r. x = Returned r)) \<and> store_call F' = store_call F)
     \<or> tasks F' = tasks F \<and> committing P"
  by (induction W F p P rule: go_on.induct) (auto simp: committing_def split: if_splits prod.splits)

text \<open>A schedule moves only the processes it names.\<close>

lemma engine_schedule_other:
  "engine_schedule n W xs F = Some F' \<Longrightarrow> q \<notin> fst ` set xs \<Longrightarrow> tasks F' q = tasks F q \<and> store_call F' q = store_call F q"
proof (induction xs arbitrary: F)
  case (Cons x xs)
  then obtain T where "engine_next n W F (fst x, snd x) = Some T" "engine_schedule n W xs T = Some F'"
    by (auto simp: bind_eq_Some_conv)
  then show ?case using Cons.IH Cons.prems(2) engine_next_other by fastforce
qed simp

text \<open>A step of a racer that the scheduler makes.\<close>

lemma engine_next_racing:
  assumes "engine_next n W F (p, Commit) = Some F'" "racing (tasks F p) (store_call F p)"
  shows "(\<forall>q. q \<noteq> p \<longrightarrow> tasks F' q = tasks F q) \<and> racing (tasks F' p) (store_call F' p)
    \<and> (tasks F' p = tasks F p \<or> committing (tasks F' p) \<or> (\<exists>r. tasks F' p = Returned r))"
proof (cases "active_call (store_call F p) \<or> returned_call (store_call F p)")
  case True
  then have "committing (tasks F p) \<or> (\<exists>r. tasks F p = Returned r)" using assms(2) by (auto simp: racing_def)
  moreover from this have "committing (return_to (tasks F p) c) \<longleftrightarrow> committing (tasks F p)" "\<not> committing (tasks F p) \<Longrightarrow> return_to (tasks F p) c = tasks F p" for c
    by (cases "tasks F p"; auto simp: committing_def split: call.splits store_res.splits)+
  ultimately show ?thesis
    using True assms(1) by (auto simp: engine_next_def racing_def simp del: obtained_def split: if_splits prod.splits)
next
  case False
  then have "go_on W F p (tasks F p) = Some F'" using assms(1) by (auto simp: engine_next_def split: if_splits)
  from go_on_racing [OF this] show ?thesis using assms(2) by (auto simp: racing_def)
qed

lemma engine_schedule_race:
  assumes "engine_schedule n W (map (\<lambda>p. (p, Commit)) ss) F = Some F'" "\<forall>q\<ge>n. store_call F q = Resting"
    "set ss \<subseteq> R" "\<forall>p\<in>R. racing (tasks F p) (store_call F p)" "\<forall>p. p \<notin> R \<longrightarrow> \<not> committing (tasks F p)"
  shows "(engine_race_step W R)\<^sup>*\<^sup>* F F'"
  using assms
proof (induction ss arbitrary: F)
  case (Cons p ss)
  then obtain T where T: "engine_next n W F (p, Commit) = Some T" "engine_schedule n W (map (\<lambda>p. (p, Commit)) ss) T = Some F'"
    by (auto simp: bind_eq_Some_conv)
  have p: "p \<in> R" using Cons.prems(3) by simp
  note st = engine_next_step [OF T(1) Cons.prems(2)]
  note mv = engine_next_racing [OF T(1) bspec [OF Cons.prems(4) p]]
  have keep: "tasks T q = tasks F q \<and> store_call T q = store_call F q" if "q \<noteq> p" for q
    using engine_next_other [OF T(1) that] .
  have R: "\<forall>q\<in>R. racing (tasks T q) (store_call T q)" using Cons.prems(4) mv keep by metis
  have out: "\<forall>q. q \<notin> R \<longrightarrow> \<not> committing (tasks T q)" using Cons.prems(5) keep p by metis
  have "tasks T q = tasks F q \<or> committing (tasks T q) \<or> (\<exists>r. tasks T q = Returned r)" for q using mv keep by metis
  moreover have "store_call T q = Resting" if "q \<in> R" "tasks T q = Open tx" for q tx
    using bspec [OF R that(1)] that(2) by (auto simp: racing_def committing_def)
  ultimately have "engine_race_step W R F T" using st out by (auto simp: engine_race_step_def)
  moreover have "(engine_race_step W R)\<^sup>*\<^sup>* T F'" using Cons.IH [OF T(2) _ _ R out] st Cons.prems(3) by simp
  ultimately show ?case by (rule converse_rtranclp_into_rtranclp)
qed simp

section \<open>Properties\<close>

text \<open>C11. Who wins a race, with every lock in sight. When any set of transactions is committed at once,
  however their allocations, lock acquisitions, checks, pushes, releases and reports interleave with each
  other and with readers and collections, then once all have returned the winners, the commits that wrote
  something and were acknowledged or whose append to the log of a durable database failed, can be listed in
  an order such that no winner wrote a key a later one had written or tracked; a transaction that wrote
  nothing is acknowledged at its own snapshot; every other one got a conflict on one of its keys, because
  one of them had changed after its snapshot before the race or a winner wrote it; in a database without
  a log every winner is acknowledged; and a get finds what the winners leave, run one after the other. So
  one of several transactions that write the same key wins, and transactions on disjoint keys all do.\<close>

theorem locked_racing_commits:
  assumes "engine_run W d F" "quiet wf_store store_hist d {#}"
    "\<forall>p. \<not> committing (tasks F p)" "\<forall>p\<in>R. tasks F p = Open (T p) \<and> store_call F p = Resting"
    "(engine_race_step W R)\<^sup>*\<^sup>* F F'" "\<forall>p\<in>R. \<exists>r. tasks F' p = Returned r"
  shows "\<exists>ps. distinct ps \<and> set ps = {p\<in>R. writes (T p) \<noteq> [] \<and> applied_commit (tasks F' p)}
    \<and> sorted_wrt (\<lambda>p q. \<not> blocks (T p) (T q)) ps
    \<and> (\<forall>p\<in>R. writes (T p) = [] \<longrightarrow> tasks F' p = Returned (Inr (Transaction_read_timestamp (T p))))
    \<and> (\<forall>p\<in>R. writes (T p) \<noteq> [] \<and> p \<notin> set ps \<longrightarrow>
        (\<exists>k\<in>watched (T p). tasks F' p = Returned (Inl (conflict (length k))))
        \<and> ((\<exists>k\<in>watched (T p). changed_since (store_hist (in_store (core F)) k) (Transaction_read_timestamp (T p)))
          \<or> (\<exists>q\<in>set ps. blocks (T q) (T p))))
    \<and> (in_log (core F) = None \<longrightarrow> (\<forall>p\<in>R. \<forall>e. tasks F' p = Returned (Inl e) \<longrightarrow> \<not> is_fatal e))
    \<and> (\<forall>k. fst (Db_get MemoryStore (core F') k) =
        Inr (foldl overlay (\<lambda>k. latest (store_hist (in_store (core F)) k)) (map T ps) k))"
  using assms by (rule engine_race_outcome)

text \<open>
  A race on a database whose log is full: processes 0 and 1 write the same key and process 2 nothing.
  Process 1 has the earlier timestamp and waits for the lock that process 0 holds; it is granted while
  process 0 appends to the log, which fails, and reports.
\<close>

definition full_shard :: "(memory_store, bytes list) inner" where
  "full_shard = one_shard\<lparr>in_log := Some \<lparr>wal = []\<rparr>\<rparr>"

definition locked_finish :: "nat list" where
  "locked_finish = [1, 0, 1, 0, 0, 0, 0, 0, 0, 0, 0, 1, 1, 0, 0, 1, 0, 0, 0, 1, 1, 1, 1, 1, 1, 2]"

abbreviation full_race :: "(nat \<times> action) list \<Rightarrow> bytes list engine \<Rightarrow> bytes list engine option" where
  "full_race \<equiv> engine_schedule 3 full_wal"

definition with_bystander :: "(nat \<times> action) list" where
  "with_bystander = contended @ [(2, Begin True)]"

lemma full_contended_run:
  "map_option (\<lambda>F. (tasks F 0, tasks F 1, tasks F 2, store_call F 0, store_call F 1, store_call F 2))
     (full_race with_bystander (engine_start full_shard)) =
   Some (Open (contender 1), Open (contender 2),
     Open \<lparr>active = \<lparr>active_read_ts = Timestamp 0\<rparr>, writes = [], reads = Some []\<rparr>, Resting, Resting, Resting)"
  by code_simp

lemma full_finish_run:
  "map_option (\<lambda>F. (tasks F 0, tasks F 1, tasks F 2))
     (full_race (with_bystander @ map (\<lambda>p. (p, Commit)) locked_finish) (engine_start full_shard)) =
   Some (Returned (Inl (durability ''no space left'')), Returned (Inl (conflict 1)), Returned (Inr (Timestamp 0)))"
  by code_simp

lemma scheduled_calm:
  assumes "engine_schedule n W xs (engine_start d) = Some F" "\<forall>p\<in>fst ` set xs. \<not> committing (tasks F p)"
  shows "\<forall>p. \<not> committing (tasks F p)"
proof
  fix p show "\<not> committing (tasks F p)"
    using assms(2) engine_schedule_other [OF assms(1), of p]
    by (cases "p \<in> fst ` set xs") (auto simp: engine_start_def committing_def)
qed

theorem locked_racing_commits_witness:
  "\<exists>F F'. engine_run full_wal full_shard F \<and> (engine_race_step full_wal {0, 1, 2})\<^sup>*\<^sup>* F F'
     \<and> (\<exists>e. tasks F' 0 = Returned (Inl e) \<and> is_fatal e) \<and> tasks F' 1 = Returned (Inl (conflict 1))
     \<and> fst (Db_get MemoryStore (core F') key_x) = Inr (Some [1])"
proof -
  let ?T = "\<lambda>p :: nat. if p = 2 then \<lparr>active = \<lparr>active_read_ts = Timestamp 0\<rparr>, writes = [], reads = Some []\<rparr>
    else contender (if p = 0 then 1 else 2)"
  obtain F where F: "full_race with_bystander (engine_start full_shard) = Some F" "tasks F 0 = Open (contender 1)"
    "tasks F 1 = Open (contender 2)" "tasks F 2 = Open (?T 2)"
    "store_call F 0 = Resting" "store_call F 1 = Resting" "store_call F 2 = Resting"
    using full_contended_run by auto
  obtain F' where F': "full_race (map (\<lambda>p. (p, Commit)) locked_finish) F = Some F'"
    "tasks F' 0 = Returned (Inl (durability ''no space left''))"
    "tasks F' 1 = Returned (Inl (conflict 1))" "tasks F' 2 = Returned (Inr (Timestamp 0))"
    using full_finish_run by (auto simp: engine_schedule_append F(1))
  have r: "engine_run full_wal full_shard F"
    using engine_schedule_run [OF F(1) run_start] by (simp add: engine_start_def)
  have q: "quiet wf_store store_hist full_shard {#}" using quiet_one_shard by (simp add: full_shard_def)
  have idle: "\<forall>q\<ge>3. store_call F q = Resting"
    using engine_schedule_other [OF F(1)] by (auto simp: with_bystander_def contended_def engine_start_def)
  have calm: "\<forall>p. \<not> committing (tasks F p)"
    by (rule scheduled_calm [OF F(1)]) (use F(2-4) in \<open>simp add: with_bystander_def contended_def committing_def\<close>)
  have open': "\<forall>p\<in>{0, 1, 2}. tasks F p = Open (?T p) \<and> store_call F p = Resting" using F(2-7) by simp
  have race: "(engine_race_step full_wal {0, 1, 2})\<^sup>*\<^sup>* F F'"
    by (rule engine_schedule_race [OF F'(1) idle]) (use calm open' in \<open>auto simp: racing_def locked_finish_def\<close>)
  have ret: "\<forall>p\<in>{0, 1, 2}. \<exists>r. tasks F' p = Returned r" using F'(2-4) by simp
  obtain ps where ps: "distinct ps" "set ps = {p\<in>{0, 1, 2}. writes (?T p) \<noteq> [] \<and> applied_commit (tasks F' p)}"
    "fst (Db_get MemoryStore (core F') key_x) =
      Inr (foldl overlay (\<lambda>k. latest (store_hist (in_store (core F)) k)) (map ?T ps) key_x)"
    using locked_racing_commits [OF r q calm open' race ret] by blast
  have "p \<in> set ps \<longleftrightarrow> p = 0" for p
    unfolding ps(2) using F'(2-4) by (auto simp: applied_commit_def conflict_def durability_def split: if_splits)
  then have "set ps = {0}" by blast
  then have "ps = [0]" using ps(1) by (cases ps) (auto simp: subset_singleton_iff)
  then have "fst (Db_get MemoryStore (core F') key_x) = Inr (Some [1])" using ps(3) by (simp add: overlay_def)
  with r race F'(2,3) durability_is_fatal show ?thesis by blast
qed

end
