(* ===== verification/Loom_Tests.thy ===== *)
theory Loom_Tests
  imports Locked_Racing
begin

text \<open>
  The tests of \<open>src/tests/loom_txn.rs\<close>. Each runs two threads under loom, which tries every
  interleaving of their lock and atomic operations; here the threads are processes of the engine of
  theory \<open>Locked_Engine\<close>, which takes the shard locks one by one, the part of a test before it spawns a
  thread is a schedule, and the test holds when its assertions hold in every state in which both threads
  have ended, whatever steps led there.
\<close>

section \<open>Definitions\<close>

text \<open>The number of shards of a build for loom, and \<open>Db::new\<close> in a build with \<open>n\<close> shards.\<close>

definition LOOM_SHARDS :: usize where
  "LOOM_SHARDS = 2"

abbreviation test_db :: "usize \<Rightarrow> (memory_store, 'w) db" where
  "test_db n \<equiv> Db_with_store (with_shards n)"

abbreviation test_run :: "'w wal_ops \<Rightarrow> usize \<Rightarrow> (nat \<times> action) list \<Rightarrow> 'w engine \<Rightarrow> bool" where
  "test_run W n as F \<equiv> engine_schedule 2 W as (engine_start (test_db n)) = Some F"

abbreviation threads_run :: "'w wal_ops \<Rightarrow> nat set \<Rightarrow> 'w engine \<Rightarrow> 'w engine \<Rightarrow> bool" where
  "threads_run W R \<equiv> (engine_race_step W R)\<^sup>*\<^sup>*"

text \<open>The value of \<open>commit().is_ok()\<close> in a thread that has ended.\<close>

definition is_ok :: "process \<Rightarrow> bool" where
  "is_ok P = (case P of Returned r \<Rightarrow> \<not> isl r | _ \<Rightarrow> False)"

definition joined :: "process \<Rightarrow> bool" where
  "joined P = (case P of Returned r \<Rightarrow> True | _ \<Rightarrow> False)"

text \<open>A whole transaction of one process: begin, one put, the fourteen steps of a commit.\<close>

definition put_and_commit :: "nat \<Rightarrow> bytes \<Rightarrow> bytes \<Rightarrow> (nat \<times> action) list" where
  "put_and_commit p k v = (p, Begin False) # (p, Put k v) # replicate 14 (p, Commit)"

definition two_writers :: "bytes \<Rightarrow> bytes \<Rightarrow> bytes \<Rightarrow> bytes \<Rightarrow> (nat \<times> action) list" where
  "two_writers k v k' v' = [(0, Begin False), (1, Begin False), (0, Put k v), (1, Put k' v')]"

definition loom_same_key_commit_has_one_winner :: "'w wal_ops \<Rightarrow> usize \<Rightarrow> bool" where
  "loom_same_key_commit_has_one_winner W n \<longleftrightarrow>
     (\<exists>F. test_run W n (two_writers [7] [1] [7] [2]) F \<and> (\<forall>F'. threads_run W {0, 1} F F' \<longrightarrow>
        joined (tasks F' 0) \<and> joined (tasks F' 1) \<longrightarrow>
        (if is_ok (tasks F' 0) then 1 else 0) + (if is_ok (tasks F' 1) then 1 else 0) = (1 :: nat)
        \<and> (case fst (Db_get MemoryStore (core F') [7]) of
             Inr (Some v) \<Rightarrow> v = [1] \<or> v = [2]
           | _ \<Rightarrow> False)))"

text \<open>The reader is process 2 and the collector process 3; the setup has committed two versions.\<close>

definition loom_gc_never_disturbs_a_concurrent_reader :: "'w wal_ops \<Rightarrow> usize \<Rightarrow> bool" where
  "loom_gc_never_disturbs_a_concurrent_reader W n \<longleftrightarrow>
     (\<exists>F. test_run W n (put_and_commit 0 [1] [1] @ put_and_commit 1 [1] [2]) F \<and> (\<forall>F'. threads_run W {} F F' \<longrightarrow>
        (\<forall>sn v. tasks F' 2 = Viewing sn \<and> ([1], v) \<in> set (got F' 2) \<longrightarrow> v = Some [2])))"

definition loom_disjoint_commits_both_succeed_and_are_visible :: "'w wal_ops \<Rightarrow> usize \<Rightarrow> bool" where
  "loom_disjoint_commits_both_succeed_and_are_visible W n \<longleftrightarrow>
     (\<exists>F. test_run W n (two_writers [1] [10] [2] [20]) F \<and> (\<forall>F'. threads_run W {0, 1} F F' \<longrightarrow>
        joined (tasks F' 0) \<and> joined (tasks F' 1) \<longrightarrow>
        is_ok (tasks F' 0) \<and> is_ok (tasks F' 1)
        \<and> fst (Db_get MemoryStore (core F') [1]) = Inr (Some [10])
        \<and> fst (Db_get MemoryStore (core F') [2]) = Inr (Some [20])))"

section \<open>The setups\<close>

abbreviation writer :: "bytes \<Rightarrow> bytes \<Rightarrow> transaction" where
  "writer k v \<equiv> \<lparr>active = \<lparr>active_read_ts = Timestamp 0\<rparr>, writes = [(k, Some v)], reads = None\<rparr>"

lemma two_writers_run:
  "\<exists>F :: 'w engine. test_run W n (two_writers k v k' v') F \<and> tasks F 0 = Open (writer k v)
     \<and> tasks F 1 = Open (writer k' v') \<and> store_call F 0 = Resting \<and> store_call F 1 = Resting
     \<and> in_log (core F) = None \<and> in_store (core F) = with_shards n"
  by (simp add: two_writers_def engine_next_def engine_start_def Db_with_store_def Inner_new_def
      Transaction_new_eq oracle_room_def Oracle_new_def begin_reader_def Oracle_read_ts_def Transaction_put_def Let_def
      from_raw_def)

definition gc_setup :: "'w wal_ops \<Rightarrow> usize \<Rightarrow> bool" where
  "gc_setup W n \<longleftrightarrow> map_option (\<lambda>F. (tasks F 0, tasks F 1, tasks F 2, Option.is_none (in_log (core F)),
      latest (store_hist (in_store (core F)) [1])))
    (engine_schedule 2 W (put_and_commit 0 [1] [1] @ put_and_commit 1 [1] [2]) (engine_start (test_db n)))
   = Some (Returned (Inr (Timestamp 1)), Returned (Inr (Timestamp 2)), Idle, True, Some [2])"

lemma gc_setup_run: "gc_setup W LOOM_SHARDS" "gc_setup W DEFAULT_SHARDS"
  by code_simp+

lemma test_db_new:
  assumes "unat n \<le> 2 ^ 63"
  shows "store_hist (with_shards n) k = []" "quiet wf_store store_hist (test_db n) {#}"
proof -
  have wf: "wf_store (with_shards n)" using assms by (rule wf_with_shards)
  show h: "store_hist (with_shards n) k = []" for k
    using shard_of_less [OF wf, of k] by (simp add: store_hist_def chain_of_def with_shards_def Let_def)
  have "{..<from_raw 1} = {ZERO}" by (rule less_one_ZERO)
  then show "quiet wf_store store_hist (test_db n) {#}"
    using Oracle_new_rep wf by (simp add: db_ok_def Db_with_store_def Inner_new_def h) (simp add: Oracle_new_def)
qed

lemma two_orders: "distinct ps \<Longrightarrow> set ps = {0, Suc 0} \<Longrightarrow> ps = [0, 1] \<or> ps = [1, 0]"
proof -
  assume d: "distinct ps" "set ps = {0, Suc 0}"
  then have "length ps = 2" by (metis distinct_card card_2_iff n_not_Suc_n)
  then obtain a b where "ps = [a, b]" by (auto simp: numeral_2_eq_2 length_Suc_conv)
  with d show ?thesis by (auto simp: doubleton_eq_iff)
qed

text \<open>Two transactions with the same snapshot and one write each, once both have returned.\<close>

lemma two_writers_race:
  fixes W :: "'w wal_ops"
  assumes n: "unat n \<le> 2 ^ 63"
  obtains F where "test_run W n (two_writers k v k' v') F"
    "\<And>F'. threads_run W {0, 1} F F' \<Longrightarrow> joined (tasks F' 0) \<and> joined (tasks F' 1) \<Longrightarrow>
       \<exists>ps. distinct ps \<and> set ps = {p\<in>{0, 1}. is_ok (tasks F' p)} \<and> (k = k' \<longrightarrow> length ps \<le> 1)
         \<and> (\<forall>p\<in>{0, 1} - set ps. ps \<noteq> [] \<and> k = k')
         \<and> (\<forall>a. fst (Db_get MemoryStore (core F') a) =
              Inr (foldl overlay (\<lambda>_. None) (map (\<lambda>p. if p = 0 then writer k v else writer k' v') ps) a))"
proof -
  let ?T = "\<lambda>p :: nat. if p = 0 then writer k v else writer k' v'"
  obtain F :: "'w engine" where F: "test_run W n (two_writers k v k' v') F" "tasks F 0 = Open (writer k v)"
    "tasks F 1 = Open (writer k' v')" "store_call F 0 = Resting" "store_call F 1 = Resting" "in_log (core F) = None"
    "in_store (core F) = with_shards n"
    using two_writers_run by blast
  have reach: "engine_run W (test_db n) F" using engine_schedule_run [OF F(1) run_start] by (simp add: engine_start_def)
  have calm: "\<forall>p. \<not> committing (tasks F p)"
    by (rule scheduled_calm [OF F(1)]) (use F(2,3) in \<open>simp add: two_writers_def committing_def\<close>)
  have open': "\<forall>p\<in>{0, 1}. tasks F p = Open (?T p) \<and> store_call F p = Resting" using F(2-5) by simp
  have wrote: "writes (?T p) \<noteq> []" for p by simp
  have ok: "is_ok P \<longleftrightarrow> (\<exists>ts. P = Returned (Inr ts))" for P :: process
    by (cases P; simp add: is_ok_def) (metis sum.disc(2) sum.collapse(2))
  have key: "blocks (?T p) (?T q) \<longleftrightarrow> (if p = 0 then k else k') = (if q = 0 then k else k')" for p q
    by (auto simp: blocks_def watched_def read_set_def)
  have new: "(\<lambda>a. latest (store_hist (in_store (core F)) a)) = (\<lambda>_. None)"
    "changed_since (store_hist (in_store (core F)) a) t \<longleftrightarrow> False" for a t
    by (simp_all add: F(7) test_db_new(1) [OF n] latest_def changed_since_def)
  show thesis
  proof (rule that [OF F(1)])
    fix F' assume race: "threads_run W {0, 1} F F'" and join: "joined (tasks F' 0) \<and> joined (tasks F' 1)"
    have ret: "\<forall>p\<in>{0, 1}. \<exists>r. tasks F' p = Returned r" using join by (auto simp: joined_def split: process.splits)
    from engine_race_outcome [OF reach test_db_new(2) [OF n] calm open' race ret] obtain ps where
      out: "distinct ps" "set ps = {p\<in>{0, 1}. writes (?T p) \<noteq> [] \<and> applied_commit (tasks F' p)}"
      "sorted_wrt (\<lambda>p q. \<not> blocks (?T p) (?T q)) ps"
      "\<forall>p\<in>{0, 1}. writes (?T p) \<noteq> [] \<and> p \<notin> set ps \<longrightarrow>
        (\<exists>k\<in>watched (?T p). tasks F' p = Returned (Inl (conflict (length k))))
        \<and> ((\<exists>a\<in>watched (?T p). False) \<or> (\<exists>q\<in>set ps. blocks (?T q) (?T p)))"
      "in_log (core F) = None \<longrightarrow> (\<forall>p\<in>{0, 1}. \<forall>e. tasks F' p = Returned (Inl e) \<longrightarrow> \<not> is_fatal e)"
      "\<forall>a. fst (Db_get MemoryStore (core F') a) = Inr (foldl overlay (\<lambda>_. None) (map ?T ps) a)"
      unfolding new by (elim exE conjE)
    have "applied_commit (tasks F' p) \<longleftrightarrow> (\<exists>ts. tasks F' p = Returned (Inr ts))" if "p \<in> {0, 1}" for p
      using out(5) F(6) that by (auto simp: applied_commit_def)
    then have "set ps = {p\<in>{0, 1}. \<exists>ts. tasks F' p = Returned (Inr ts)}" unfolding out(2) using wrote by blast
    moreover have "\<exists>q\<in>set ps. blocks (?T q) (?T p)" if "p \<in> {0, 1} - set ps" for p
      using bspec [OF out(4), of p] wrote [of p] that by blast
    ultimately have ps: "distinct ps" "set ps = {p\<in>{0, 1}. \<exists>ts. tasks F' p = Returned (Inr ts)}"
      "sorted_wrt (\<lambda>p q. \<not> blocks (?T p) (?T q)) ps" "\<forall>p\<in>{0, 1} - set ps. \<exists>q\<in>set ps. blocks (?T q) (?T p)"
      "\<forall>a. fst (Db_get MemoryStore (core F') a) = Inr (foldl overlay (\<lambda>_. None) (map ?T ps) a)"
      using out(1,3,6) by blast+
    have two: "p = 0 \<or> p = 1" if "p \<in> set ps" for p using that unfolding ps(2) by blast
    have "length ps \<le> 1" if "k = k'"
      using ps(3) unfolding key unfolding that if_cancel by (cases ps; cases "tl ps") simp_all
    moreover have "ps \<noteq> [] \<and> k = k'" if lost: "p \<in> {0, 1} - set ps" for p
    proof -
      obtain q where q: "q \<in> set ps" "blocks (?T q) (?T p)" using bspec [OF ps(4) lost] by blast
      moreover have "q \<noteq> p" using q(1) lost by blast
      ultimately show ?thesis using two [OF q(1)] lost unfolding key by (auto split: if_splits)
    qed
    ultimately show "\<exists>ps. distinct ps \<and> set ps = {p\<in>{0, 1}. is_ok (tasks F' p)} \<and> (k = k' \<longrightarrow> length ps \<le> 1)
         \<and> (\<forall>p\<in>{0, 1} - set ps. ps \<noteq> [] \<and> k = k')
         \<and> (\<forall>a. fst (Db_get MemoryStore (core F') a) = Inr (foldl overlay (\<lambda>_. None) (map ?T ps) a))"
      unfolding ok using ps(1,2,5) by (intro exI [of _ ps]) simp
  qed
qed

lemma loom_same_key: "unat n \<le> 2 ^ 63 \<Longrightarrow> loom_same_key_commit_has_one_winner W n"
  unfolding loom_same_key_commit_has_one_winner_def
proof (rule two_writers_race [of n W "[7]" "[1]" "[7]" "[2]"], assumption, intro exI conjI allI impI)
  fix F F'
  assume out: "\<And>F'. threads_run W {0, 1} F F' \<Longrightarrow> joined (tasks F' 0) \<and> joined (tasks F' 1) \<Longrightarrow>
       \<exists>ps. distinct ps \<and> set ps = {p\<in>{0, 1}. is_ok (tasks F' p)} \<and> ([7 :: u8] = [7] \<longrightarrow> length ps \<le> 1)
         \<and> (\<forall>p\<in>{0, 1} - set ps. ps \<noteq> [] \<and> [7 :: u8] = [7])
         \<and> (\<forall>a. fst (Db_get MemoryStore (core F') a) =
              Inr (foldl overlay (\<lambda>_. None) (map (\<lambda>p. if p = 0 then writer [7] [1] else writer [7] [2]) ps) a))"
    and run: "threads_run W {0, 1} F F'" "joined (tasks F' 0) \<and> joined (tasks F' 1)"
  from out [OF run] obtain ps where ps: "set ps = {p\<in>{0, 1}. is_ok (tasks F' p)}" "length ps \<le> 1"
    "\<forall>p\<in>{0, 1} - set ps. ps \<noteq> []"
    "\<And>a. fst (Db_get MemoryStore (core F') a) =
      Inr (foldl overlay (\<lambda>_. None) (map (\<lambda>p. if p = 0 then writer [7] [1] else writer [7] [2]) ps) a)"
    by blast
  have "ps \<noteq> []" using ps(3) by auto
  with ps(2) obtain p where p: "ps = [p]" by (cases ps) auto
  then have "p \<in> {0, 1}" "\<And>q. q \<in> {0, 1} \<Longrightarrow> is_ok (tasks F' q) \<longleftrightarrow> q = p" using ps(1) by auto
  then show "(if is_ok (tasks F' 0) then 1 else 0) + (if is_ok (tasks F' 1) then 1 else 0) = (1 :: nat)"
    "case fst (Db_get MemoryStore (core F') [7]) of Inr (Some v) \<Rightarrow> v = [1] \<or> v = [2] | _ \<Rightarrow> False"
    by (auto simp: ps(4) p overlay_def)
qed

lemma loom_disjoint: "unat n \<le> 2 ^ 63 \<Longrightarrow> loom_disjoint_commits_both_succeed_and_are_visible W n"
  unfolding loom_disjoint_commits_both_succeed_and_are_visible_def
proof (rule two_writers_race [of n W "[1]" "[10]" "[2]" "[20]"], assumption, rule exI, rule conjI, assumption, intro allI impI)
  fix F F'
  assume out: "\<And>F'. threads_run W {0, 1} F F' \<Longrightarrow> joined (tasks F' 0) \<and> joined (tasks F' 1) \<Longrightarrow>
       \<exists>ps. distinct ps \<and> set ps = {p\<in>{0, 1}. is_ok (tasks F' p)} \<and> ([1 :: u8] = [2] \<longrightarrow> length ps \<le> 1)
         \<and> (\<forall>p\<in>{0, 1} - set ps. ps \<noteq> [] \<and> [1 :: u8] = [2])
         \<and> (\<forall>a. fst (Db_get MemoryStore (core F') a) =
              Inr (foldl overlay (\<lambda>_. None) (map (\<lambda>p. if p = 0 then writer [1] [10] else writer [2] [20]) ps) a))"
    and run: "threads_run W {0, 1} F F'" "joined (tasks F' 0) \<and> joined (tasks F' 1)"
  from out [OF run] obtain ps where ps: "distinct ps" "set ps = {p\<in>{0, 1}. is_ok (tasks F' p)}"
    "\<forall>p\<in>{0, 1} - set ps. [1 :: u8] = [2]"
    "\<And>a. fst (Db_get MemoryStore (core F') a) =
      Inr (foldl overlay (\<lambda>_. None) (map (\<lambda>p. if p = 0 then writer [1] [10] else writer [2] [20]) ps) a)"
    by blast
  have "p \<in> set ps" if "p \<in> {0, 1}" for p using ps(3) that by auto
  then have ok: "is_ok (tasks F' 0)" "is_ok (tasks F' 1)" unfolding ps(2) by simp_all
  have "set ps = {0, Suc 0}" unfolding ps(2) using ok by auto
  then have "ps = [0, 1] \<or> ps = [1, 0]" using ps(1) two_orders by blast
  then show "is_ok (tasks F' 0) \<and> is_ok (tasks F' 1)
      \<and> fst (Db_get MemoryStore (core F') [1]) = Inr (Some [10])
      \<and> fst (Db_get MemoryStore (core F') [2]) = Inr (Some [20])"
    using ok by (auto simp: ps(4) overlay_def)
qed

text \<open>A reader that starts when no commit is in flight, and none starts, reads the latest values.\<close>

lemma calm_reader:
  assumes r0: "mem_reachable W d S" and q: "quiet wf_store store_hist d {#}"
    and calm: "\<forall>p. \<not> committing (procs S p)" and race: "(race_step MemoryStore W MemoryStore_slices {})\<^sup>*\<^sup>* S S'"
    and p: "procs S p = Idle" "reader_of (procs S' p) = Some t" "(k, v) \<in> set (seen S' p)"
  shows "v = serial_state (store_hist (in_store d)) (history S) k"
proof -
  obtain ps where r: "mem_reachable W d S'" and inv: "race_inv (\<lambda>_. undefined) {} (history S) S' ps"
    using mems.race_reachable [OF r0 q calm _ race, of "\<lambda>_. undefined"] by auto
  have h: "history S' = history S" using inv by (auto simp: race_inv_def)
  have "mem_reachable W d S' \<and> (\<forall>t. reader_of (procs S' p) = Some t \<longrightarrow> Oracle_read_ts (in_oracle (shared S)) \<le> t)
      \<and> Oracle_read_ts (in_oracle (shared S)) \<le> Oracle_read_ts (in_oracle (shared S'))"
    using race
  proof (induction rule: rtranclp_induct)
    case base
    then show ?case using r0 p(1) by simp
  next
    case (step S1 S2)
    then have st: "oracle_room (in_oracle (shared S1))" "step MemoryStore W MemoryStore_slices S1 S2"
      by (simp_all add: race_step_def)
    have reach: "mem_reachable W d S1" using step.IH by blast
    note rd = mems.step_readers [OF st(2) mems.reachable_inv [OF reach q]]
    have "Oracle_read_ts (in_oracle (shared S)) \<le> t" if "reader_of (procs S2 p) = Some t" for t
      using rd(2) [OF that] step.IH by auto
    moreover have "Oracle_read_ts (in_oracle (shared S)) \<le> Oracle_read_ts (in_oracle (shared S2))"
      using rd(1) step.IH by (blast intro: order_trans)
    ultimately show ?case using reach_step [OF reach st] by blast
  qed
  then have t: "Oracle_read_ts (in_oracle (shared S)) \<le> t" using p(2) by blast
  have "held_set (procs S) = {}" using calm held_committing by (fastforce simp: held_set_def)
  moreover have "c_ts c < next_commit (shared S)" if "c \<in> set (history S)" for c
    using mems.reachable_fresh [OF r0 q] that by (simp add: fresh_inv_def)
  ultimately have "c_ts c \<le> Oracle_read_ts (in_oracle (shared S))" if "c \<in> set (history S)" for c
    using mems.reachable_watermark [OF r0 q, of "c_ts c"] that by (auto intro: le_less_trans)
  then have "c_ts c \<le> t" if "c \<in> set (history S)" for c using t that by (blast intro: order_trans)
  then have "filter (\<lambda>c. c_ts c \<le> t) (history S') = history S" by (simp add: h)
  then show ?thesis
    using mems.reachable_seen [OF r q p(2,3)] mems.reachable_get [OF r q p(2), of k] by simp
qed

lemma calm_engine_reader:
  assumes r0: "engine_run W d F" and q: "quiet wf_store store_hist d {#}"
    and calm: "\<forall>p. \<not> committing (tasks F p)" and race: "threads_run W {} F F'"
    and p: "tasks F p = Idle" "reader_of (tasks F' p) = Some t" "(k, v) \<in> set (got F' p)"
  shows "v = latest (store_hist (in_store (core F)) k)"
proof -
  obtain S where S: "mem_reachable W d S" "engine_match F S" using engine_simulated [OF r0] by blast
  obtain S' where S': "(race_step MemoryStore W MemoryStore_slices {})\<^sup>*\<^sup>* S S'" "engine_match F' S'"
    using simulate_race [OF race S(2)] by blast
  have core: "core F = shared S" using S(2) calm by (rule uncommitting_store)
  have "v = serial_state (store_hist (in_store d)) (history S) k"
  proof (rule calm_reader [OF S(1) q _ S'(1), of p t])
    show "\<forall>p. \<not> committing (procs S p)" using calm by (simp add: matchD(4) [OF S(2)] committing_seen_as)
    show "procs S p = Idle" using p(1) by (simp add: matchD(4) [OF S(2)])
    show "reader_of (procs S' p) = Some t"
      using p(2) reader_seen_as [OF matchD(6) [OF S'(2)]] by (simp add: matchD(4) [OF S'(2)])
    show "(k, v) \<in> set (seen S' p)" using p(3) by (simp add: matchD(5) [OF S'(2)] del: obtained_def)
  qed
  then show ?thesis using mems.reachable_latest [OF S(1) q, of k] by (simp add: core)
qed

lemma loom_gc:
  assumes n: "unat n \<le> 2 ^ 63" and ready: "gc_setup W n"
  shows "loom_gc_never_disturbs_a_concurrent_reader W n"
proof -
  let ?as = "put_and_commit 0 [1] [1] @ put_and_commit 1 [1] [2]"
  obtain F where F: "test_run W n ?as F" "tasks F 0 = Returned (Inr (Timestamp 1))" "tasks F 1 = Returned (Inr (Timestamp 2))"
    "tasks F 2 = Idle" "in_log (core F) = None" "latest (store_hist (in_store (core F)) [1]) = Some [2]"
    using ready unfolding gc_setup_def by (auto simp: Option.is_none_def)
  have reach: "engine_run W (test_db n) F" using engine_schedule_run [OF F(1) run_start] by (simp add: engine_start_def)
  have calm: "\<forall>p. \<not> committing (tasks F p)"
    by (rule scheduled_calm [OF F(1)]) (use F(2,3) in \<open>simp add: put_and_commit_def committing_def\<close>)
  note got = calm_engine_reader [OF reach test_db_new(2) [OF n] calm _ F(4)]
  have "v = Some [2]" if "threads_run W {} F F'" "tasks F' 2 = Viewing sn" "([1], v) \<in> set (got F' 2)" for F' sn v
    using got [OF that(1) _ that(3)] that(2) F(6) by simp
  then show ?thesis unfolding loom_gc_never_disturbs_a_concurrent_reader_def using F(1) by blast
qed

section \<open>Properties\<close>

text \<open>The tests that loom runs over every interleaving of their threads pass: of two transactions with
  one snapshot and one key exactly one commits and its value is read, two on different keys both commit
  and both values are read, and a reader concurrent with the collector reads the newest value. With the
  two shards of a build for loom, and with the sixteen of any other.\<close>

definition loom_tests :: "'w wal_ops \<Rightarrow> usize \<Rightarrow> bool" where
  "loom_tests W n \<longleftrightarrow> loom_same_key_commit_has_one_winner W n \<and> loom_disjoint_commits_both_succeed_and_are_visible W n
     \<and> loom_gc_never_disturbs_a_concurrent_reader W n"

theorem loom_tests_pass: "loom_tests W LOOM_SHARDS \<and> loom_tests W DEFAULT_SHARDS"
  using gc_setup_run [of W]
  by (simp add: loom_tests_def loom_same_key loom_disjoint loom_gc LOOM_SHARDS_def DEFAULT_SHARDS_def)

end
