(* ===== verification/Threaded_Tests.thy ===== *)
theory Threaded_Tests
  imports Client_Mains Loom_Tests
begin

text \<open>
  The tests of \<open>src/tests/snapshot_isolation.rs\<close> that start threads. The first runs the increments of
  \<open>Client_Mains\<close> with the numbers of the test; in the second the writers are processes of the engine
  with its locks, and the assertion is shown whatever they, or any other processes, do.
\<close>

section \<open>Definitions\<close>

text \<open>The threads, the retry loop and the final read are those of \<open>examples/concurrent_counter.rs\<close>.\<close>

definition concurrent_increments_never_lose_an_update :: "hash_order \<Rightarrow> 'w wal_ops \<Rightarrow> bool" where
  "concurrent_increments_never_lose_an_update ord W \<longleftrightarrow>
     (\<forall>ts d S thread_of. counter_start ord W = (Inr ts, d) \<longrightarrow> mem_reachable W d S \<longrightarrow>
        all_joined 8 200 S thread_of \<longrightarrow> final_counter (shared S) = Inr (Fine (8 * 200)))"

text \<open>Steps taken while the counter has room.\<close>

abbreviation engine_steps :: "'w wal_ops \<Rightarrow> 'w engine \<Rightarrow> 'w engine \<Rightarrow> bool" where
  "engine_steps W \<equiv> (\<lambda>F F'. oracle_room (in_oracle (core F)) \<and> engine_step W F F')\<^sup>*\<^sup>*"

text \<open>The snapshot is process 1; it is read at the end, while it is still the one taken at the start.\<close>

definition snapshot_is_isolated_from_concurrent_writers :: "'w wal_ops \<Rightarrow> bool" where
  "snapshot_is_isolated_from_concurrent_writers W \<longleftrightarrow>
     (\<exists>F sn. test_run W DEFAULT_SHARDS (put_and_commit 0 (lit ''k'') [1] @ [(1, Snap)]) F \<and> tasks F 1 = Viewing sn
        \<and> (\<forall>F' v. engine_steps W F F' \<longrightarrow> tasks F' 1 = Viewing sn \<longrightarrow> (lit ''k'', v) \<in> set (got F' 1) \<longrightarrow> v = Some [1]))"

section \<open>A snapshot taken when no commit is in flight\<close>

lemma engine_continued:
  assumes "engine_steps W F F'" "engine_match F S"
  shows "\<exists>S'. mem_steps W S S' \<and> engine_match F' S'"
  using assms
proof (induction arbitrary: S rule: converse_rtranclp_induct)
  case (step F F1)
  obtain S1 where S1: "S1 = S \<or> step MemoryStore W MemoryStore_slices S S1" "engine_match F1 S1"
    using simulate_step [OF step.prems, of W F1] step.hyps(1) by blast
  have "oracle_room (in_oracle (shared S))" using step.hyps(1) by (simp add: matchD(2) [OF step.prems])
  then have "mem_steps W S S1" using S1(1) by auto
  then show ?case using step.IH [OF S1(2)] by (blast intro: rtranclp_trans)
qed blast

lemma calm_snapshot:
  assumes r0: "engine_run W d F" and q: "quiet wf_store store_hist d {#}"
    and calm: "\<forall>p. \<not> committing (tasks F p)" and steps: "engine_steps W F F'"
    and p: "reader_of (tasks F' p) = Some (Oracle_read_ts (in_oracle (core F)))" "(k, v) \<in> set (got F' p)"
  shows "v = latest (store_hist (in_store (core F)) k)"
proof -
  let ?t = "Oracle_read_ts (in_oracle (core F))"
  obtain S where S: "mem_reachable W d S" "engine_match F S" using engine_simulated [OF r0] by blast
  obtain S' where S': "mem_steps W S S'" "engine_match F' S'" using engine_continued [OF steps S(2)] by blast
  have core: "core F = shared S" using S(2) calm by (rule uncommitting_store)
  have "held_set (procs S) = {}"
    using calm held_committing by (fastforce simp: held_set_def matchD(4) [OF S(2)] committing_seen_as)
  moreover have "c_ts c < next_commit (shared S)" if "c \<in> set (history S)" for c
    using mems.reachable_fresh [OF S(1) q] that by (simp add: fresh_inv_def)
  ultimately have "c_ts c \<le> ?t" if "c \<in> set (history S)" for c
    using mems.reachable_watermark [OF S(1) q, of "c_ts c"] that unfolding core by (auto intro: le_less_trans)
  then have "filter (\<lambda>c. c_ts c \<le> ?t) (history S') = history S"
    using mems.continued [OF S'(1) S(1) q] by (simp add: core)
  moreover have "reader_of (procs S' p) = Some ?t"
    using p(1) reader_seen_as [OF matchD(6) [OF S'(2)]] by (simp add: matchD(4) [OF S'(2)])
  moreover have "(k, v) \<in> set (seen S' p)" using p(2) by (simp add: matchD(5) [OF S'(2)] del: obtained_def)
  moreover have "mem_reachable W d S'" using mems.continued [OF S'(1) S(1) q] by blast
  ultimately show ?thesis
    using mems.reachable_seen [of W d S' p ?t k v] mems.reachable_get [of W d S' p ?t k] q
      mems.reachable_latest [OF S(1) q, of k] by (simp add: core)
qed

lemma isolated_setup:
  "map_option (\<lambda>F. (tasks F 0, tasks F 1, Oracle_read_ts (in_oracle (core F)), latest (store_hist (in_store (core F)) (lit ''k''))))
    (engine_schedule 2 W (put_and_commit 0 (lit ''k'') [1] @ [(1, Snap)]) (engine_start (test_db DEFAULT_SHARDS)))
   = Some (Returned (Inr (Timestamp 1)), Viewing \<lparr>snap_active = \<lparr>active_read_ts = Timestamp 1\<rparr>\<rparr>, Timestamp 1, Some [1])"
  by code_simp

lemma isolated_passes: "snapshot_is_isolated_from_concurrent_writers W"
proof -
  obtain F where F: "test_run W DEFAULT_SHARDS (put_and_commit 0 (lit ''k'') [1] @ [(1, Snap)]) F"
    "tasks F 0 = Returned (Inr (Timestamp 1))" "tasks F 1 = Viewing \<lparr>snap_active = \<lparr>active_read_ts = Timestamp 1\<rparr>\<rparr>"
    "Oracle_read_ts (in_oracle (core F)) = Timestamp 1" "latest (store_hist (in_store (core F)) (lit ''k'')) = Some [1]"
    using isolated_setup [of W] by auto
  have n: "unat DEFAULT_SHARDS \<le> 2 ^ 63" by (simp add: DEFAULT_SHARDS_def)
  have reach: "engine_run W (test_db DEFAULT_SHARDS) F"
    using engine_schedule_run [OF F(1) run_start] by (simp add: engine_start_def)
  have calm: "\<forall>p. \<not> committing (tasks F p)"
    by (rule scheduled_calm [OF F(1)]) (use F(2,3) in \<open>simp add: put_and_commit_def committing_def\<close>)
  have "v = Some [1]" if "engine_steps W F F'" "tasks F' 1 = tasks F 1" "(lit ''k'', v) \<in> set (got F' 1)" for F' v
    using calm_snapshot [OF reach test_db_new(2) [OF n] calm that(1) _ that(3)] that(2) F(3-5)
    by (simp add: Snapshot_read_timestamp_def)
  then show ?thesis
    unfolding snapshot_is_isolated_from_concurrent_writers_def using F(1,3) by (metis (no_types, lifting))
qed

lemma increments_pass: "hash_order_ok ord \<Longrightarrow> concurrent_increments_never_lose_an_update ord W"
  using joined_counter [of ord W _ _ _ 8 200] by (simp add: concurrent_increments_never_lose_an_update_def)

section \<open>Properties\<close>

text \<open>The threaded tests of snapshot isolation pass: eight threads that increment the counter two hundred
  times each leave 1600, however they interleave; and a snapshot reads what it read when it was taken
  whatever other processes do in the meantime, lock by lock.\<close>

theorem threaded_tests_pass:
  assumes "hash_order_ok ord"
  shows "concurrent_increments_never_lose_an_update ord W \<and> snapshot_is_isolated_from_concurrent_writers W"
  using increments_pass [OF assms] isolated_passes by blast

theorem threaded_tests_pass_witness: "concurrent_increments_never_lose_an_update demo_order list_wal"
  using threaded_tests_pass [OF demo_order_ok] by blast

end
