(* ===== verification/Reference_Model.thy ===== *)
theory Reference_Model
  imports Example_Mains
begin

text \<open>
  The property tests of \<open>src/tests/gc.rs\<close> and \<open>src/tests/snapshot_isolation.rs\<close> that run a random
  sequence of single-operation transactions, snapshots and collections against a database and compare
  it with a map. The interpreter is that of the tests, over any store; the map is the reference. The
  tests pass for every sequence, not only those a run generates.
\<close>

section \<open>Definitions\<close>

text \<open>The steps of \<open>gc.rs\<close>; \<open>snapshot_isolation.rs\<close> uses the first two as its \<open>Op\<close>.\<close>

datatype Step = Step_Put u8 u8 | Step_Delete u8 | Step_Snapshot | Step_Gc

definition KEY_SPACE :: nat where "KEY_SPACE = 6"

text \<open>\<open>get(..).unwrap().map(|v| v[0])\<close>; \<open>None\<close> is a panic.\<close>

definition first_byte :: "bytes option result \<Rightarrow> u8 option option" where
  "first_byte r =
     (case r of
        Inl _ \<Rightarrow> None
      | Inr None \<Rightarrow> Some None
      | Inr (Some bs) \<Rightarrow> (case bs of [] \<Rightarrow> None | b # _ \<Rightarrow> Some (Some b)))"

fun collect_some :: "'a option list \<Rightarrow> 'a list option" where
  "collect_some [] = Some []"
| "collect_some (x # xs) = Option.bind x (\<lambda>a. Option.bind (collect_some xs) (\<lambda>as. Some (a # as)))"

definition observe_keys :: "'s version_store \<Rightarrow> ('s, 'w) db \<Rightarrow> snapshot \<Rightarrow> u8 option list option" where
  "observe_keys V d snap =
     collect_some (map (\<lambda>k. first_byte (Snapshot_get V d snap [word_of_nat k])) [0..<KEY_SPACE])"

type_synonym pinned = "snapshot \<times> u8 option list"

text \<open>One step; \<open>None\<close> is a failed assertion or a panic.\<close>

fun run_step ::
  "hash_order \<Rightarrow> 's version_store \<Rightarrow> 'w wal_ops \<Rightarrow> Step \<Rightarrow> ('s, 'w) db \<Rightarrow> pinned list
     \<Rightarrow> (('s, 'w) db \<times> pinned list) option" where
  "run_step ord V W (Step_Put k v) d pins =
     (let (tx, d) = Db_begin d;
          tx = Transaction_put tx [k] [v]
      in case Transaction_commit ord V W d tx of (Inl _, _) \<Rightarrow> None | (Inr _, d) \<Rightarrow> Some (d, pins))"
| "run_step ord V W (Step_Delete k) d pins =
     (let (tx, d) = Db_begin d;
          tx = Transaction_delete tx [k]
      in case Transaction_commit ord V W d tx of (Inl _, _) \<Rightarrow> None | (Inr _, d) \<Rightarrow> Some (d, pins))"
| "run_step ord V W Step_Snapshot d pins =
     (let (snap, d) = Db_snapshot d
      in Option.bind (observe_keys V d snap) (\<lambda>observed. Some (d, pins @ [(snap, observed)])))"
| "run_step ord V W Step_Gc d pins =
     (let (_, d) = Db_collect_garbage V d
      in if list_all (\<lambda>(snap, observed). observe_keys V d snap = Some observed) pins then Some (d, pins) else None)"

fun run_steps ::
  "hash_order \<Rightarrow> 's version_store \<Rightarrow> 'w wal_ops \<Rightarrow> Step list \<Rightarrow> ('s, 'w) db \<Rightarrow> pinned list
     \<Rightarrow> (('s, 'w) db \<times> pinned list) option" where
  "run_steps ord V W [] d pins = Some (d, pins)"
| "run_steps ord V W (s # ss) d pins =
     Option.bind (run_step ord V W s d pins) (\<lambda>(d, pins). run_steps ord V W ss d pins)"

definition gc_never_reclaims_a_live_snapshots_versions :: "hash_order \<Rightarrow> 'w wal_ops \<Rightarrow> Step list \<Rightarrow> bool" where
  "gc_never_reclaims_a_live_snapshots_versions ord W steps =
     (case run_steps ord MemoryStore W steps Db_new [] of
        None \<Rightarrow> False
      | Some (d, pins) \<Rightarrow> list_all (\<lambda>(snap, observed). observe_keys MemoryStore d snap = Some observed) pins)"

text \<open>The reference: a map, and the copies of it taken at the snapshots.\<close>

type_synonym model = "u8 \<Rightarrow> u8 option"

fun model_step :: "Step \<Rightarrow> model \<times> model list \<Rightarrow> model \<times> model list" where
  "model_step (Step_Put k v) (m, ms) = (m(k := Some v), ms)"
| "model_step (Step_Delete k) (m, ms) = (m(k := None), ms)"
| "model_step Step_Snapshot (m, ms) = (m, ms @ [m])"
| "model_step Step_Gc (m, ms) = (m, ms)"

definition model_run :: "Step list \<Rightarrow> model \<times> model list" where
  "model_run ss = fold model_step ss (\<lambda>_. None, [])"

text \<open>A byte-string key and value as the tests make them of single bytes.\<close>

definition as_bytes :: "model \<Rightarrow> bytes \<Rightarrow> bytes option" where
  "as_bytes m key = (case key of [k] \<Rightarrow> map_option (\<lambda>v. [v]) (m k) | _ \<Rightarrow> None)"

definition observed_of :: "model \<Rightarrow> u8 option list" where
  "observed_of m = map (\<lambda>k. m (word_of_nat k)) [0..<KEY_SPACE]"

text \<open>The database and the pinned snapshots are those of the reference.\<close>

definition matches ::
  "('s \<Rightarrow> bool) \<Rightarrow> ('s \<Rightarrow> bytes \<Rightarrow> version list) \<Rightarrow> model \<times> model list \<Rightarrow> ('s, 'w) db \<Rightarrow> pinned list \<Rightarrow> bool" where
  "matches invar hist ref d pins \<longleftrightarrow>
     quiet invar hist d (mset (map (\<lambda>p. Snapshot_read_timestamp (fst p)) pins)) \<and> in_log d = None
     \<and> (\<forall>k. latest (hist (in_store d) k) = as_bytes (fst ref) k)
     \<and> list_all2 (\<lambda>p m. snd p = observed_of m
          \<and> (\<forall>k. read_at (hist (in_store d) k) (Snapshot_read_timestamp (fst p)) = as_bytes m k)) pins (snd ref)"

section \<open>Lemmas\<close>

lemma collect_some_map: "(\<And>x. x \<in> set xs \<Longrightarrow> f x = Some (g x)) \<Longrightarrow> collect_some (map f xs) = Some (map g xs)"
  by (induction xs) simp_all

lemma first_byte_as_bytes: "first_byte (Inr (as_bytes m [k])) = Some (m k)"
  by (cases "m k") (simp_all add: first_byte_def as_bytes_def)

lemma as_bytes_upd:
  "as_bytes (m(k := v)) a = (if a = [k] then map_option (\<lambda>v. [v]) v else as_bytes m a)"
  by (auto simp: as_bytes_def split: list.splits)

lemma as_bytes_empty: "as_bytes (\<lambda>_. None) = (\<lambda>_. None)"
  by (simp add: as_bytes_def fun_eq_iff split: list.split)

context store_contract
begin

lemma matches_observe:
  assumes "quiet invar hist d M" "\<And>k. read_at (hist (in_store d) k) (Snapshot_read_timestamp snap) = as_bytes m k"
  shows "observe_keys V d snap = Some (observed_of m)"
proof -
  have "Snapshot_get V d snap k = Inr (as_bytes m k)" for k
    using assms by (simp add: Snapshot_get_def db_ok_def Snapshot_read_timestamp_def get_law)
  then show ?thesis
    unfolding observe_keys_def observed_of_def by (intro collect_some_map) (simp add: first_byte_as_bytes)
qed

lemma matches_pins:
  assumes "matches invar hist ref d pins"
  shows "list_all (\<lambda>(snap, observed). observe_keys V d snap = Some observed) pins"
  unfolding list_all_iff
proof (clarify, rename_tac snap observed)
  fix snap observed assume p: "(snap, observed) \<in> set pins"
  obtain m where "observed = observed_of m" "\<forall>k. read_at (hist (in_store d) k) (Snapshot_read_timestamp snap) = as_bytes m k"
    using assms p by (fastforce simp: matches_def list_all2_conv_all_nth in_set_conv_nth)
  then show "observe_keys V d snap = Some observed"
    using assms by (auto simp: matches_def intro: matches_observe)
qed

text \<open>A step that leaves every pinned snapshot reading what it read.\<close>

lemma matches_frame:
  assumes ma: "matches invar hist (m, ms) d pins"
    and d': "quiet invar hist d' (mset (map (\<lambda>p. Snapshot_read_timestamp (fst p)) pins))" "in_log d' = None"
    and new: "\<And>k. latest (hist (in_store d') k) = as_bytes m' k"
    and same: "\<And>p k. p \<in> set pins \<Longrightarrow> read_at (hist (in_store d') k) (Snapshot_read_timestamp (fst p)) =
      read_at (hist (in_store d) k) (Snapshot_read_timestamp (fst p))"
  shows "matches invar hist (m', ms) d' pins"
proof -
  have "list_all2 (\<lambda>p m. snd p = observed_of m
      \<and> (\<forall>k. read_at (hist (in_store d') k) (Snapshot_read_timestamp (fst p)) = as_bytes m k)) pins ms"
    using ma same by (auto simp: matches_def list_all2_conv_all_nth)
  with d' new show ?thesis by (simp add: matches_def)
qed

lemma matches_write:
  assumes ma: "matches invar hist (m, ms) d pins" and room: "oracle_room (in_oracle d)" and ord: "hash_order_ok ord"
    and tx: "writes tx = [([k], map_option (\<lambda>v. [v]) v)]" "active tx = active (fst (Db_begin d))"
  obtains d' where "Transaction_commit ord V W (snd (Db_begin d)) tx = (Inr (next_commit d), d')"
    "matches invar hist (m(k := v), ms) d' pins" "next_ts (in_oracle d') = next_ts (in_oracle d) + 1"
proof -
  have q: "quiet invar hist d (mset (map (\<lambda>p. Snapshot_read_timestamp (fst p)) pins))" "in_log d = None"
    using ma by (simp_all add: matches_def)
  have "tx_ok tx" "writes tx \<noteq> []" by (simp_all add: tx_ok_def tx(1))
  from quiet_begin_commit [OF q(1) room ord q(2) this tx(2), where W = W] obtain d' where
    d': "Transaction_commit ord V W (snd (Db_begin d)) tx = (Inr (next_commit d), d')" "in_log d' = None"
    "quiet invar hist d' (mset (map (\<lambda>p. Snapshot_read_timestamp (fst p)) pins))"
    "next_ts (in_oracle d') = next_ts (in_oracle d) + 1"
    "\<And>a. hist (in_store d') a = hist (in_store d) a @ own_version (next_commit d) tx a"
    by blast
  have "matches invar hist (m(k := v), ms) d' pins"
  proof (rule matches_frame [OF ma d'(3,2)])
    show "latest (hist (in_store d') a) = as_bytes (m(k := v)) a" for a
      using ma by (simp add: d'(5) own_version_def tx(1) as_bytes_upd matches_def) (simp add: latest_def)
    fix p a assume "p \<in> set pins"
    then have "Snapshot_read_timestamp (fst p) < next_commit d" by (intro db_ok_reader [OF q(1)]) auto
    then show "read_at (hist (in_store d') a) (Snapshot_read_timestamp (fst p)) =
        read_at (hist (in_store d) a) (Snapshot_read_timestamp (fst p))"
      by (simp add: d'(5) read_at_append_newer own_version_ts)
  qed
  with d' show thesis by (intro that)
qed

lemma matches_snapshot:
  assumes ma: "matches invar hist (m, ms) d pins"
  obtains d' snap where "Db_snapshot d = (snap, d')" "observe_keys V d' snap = Some (observed_of m)"
    "matches invar hist (m, ms @ [m]) d' (pins @ [(snap, observed_of m)])" "next_ts (in_oracle d') = next_ts (in_oracle d)"
proof -
  have q: "quiet invar hist d (mset (map (\<lambda>p. Snapshot_read_timestamp (fst p)) pins))" "in_log d = None"
    "\<And>k. latest (hist (in_store d) k) = as_bytes m k"
    using ma by (simp_all add: matches_def)
  let ?snap = "\<lparr>snap_active = \<lparr>active_read_ts = Oracle_read_ts (in_oracle d)\<rparr>\<rparr>" and ?d = "snd (Db_begin d)"
  have ts: "Snapshot_read_timestamp ?snap = Oracle_read_ts (in_oracle d)" by (simp add: Snapshot_read_timestamp_def)
  have d': "in_store ?d = in_store d" "in_log ?d = None" "next_ts (in_oracle ?d) = next_ts (in_oracle d)"
    "quiet invar hist ?d (add_mset (Oracle_read_ts (in_oracle d)) (mset (map (\<lambda>p. Snapshot_read_timestamp (fst p)) pins)))"
    using q(2) quiet_begin [OF q(1), of False] by (simp_all add: Db_begin_def)
  have now: "read_at (hist (in_store ?d) k) (Snapshot_read_timestamp ?snap) = as_bytes m k" for k
    unfolding d'(1) ts using quiet_no_change [OF q(1), of k] q(3) by (simp add: unchanged_read_latest)
  have "matches invar hist (m, ms @ [m]) ?d (pins @ [(?snap, observed_of m)])"
    using ma d' now ts by (auto simp: matches_def intro: list_all2_appendI)
  moreover have "observe_keys V ?d ?snap = Some (observed_of m)" using d'(4) now by (rule matches_observe)
  ultimately show thesis using d'(3) by (intro that [OF Snapshot_new_eq])
qed

lemma matches_gc:
  assumes ma: "matches invar hist (m, ms) d pins"
  shows "matches invar hist (m, ms) (snd (Db_collect_garbage V d)) pins"
    "next_ts (in_oracle (snd (Db_collect_garbage V d))) = next_ts (in_oracle d)"
proof -
  let ?M = "mset (map (\<lambda>p. Snapshot_read_timestamp (fst p)) pins)" and ?low = "low_watermark (in_oracle d)"
  have q: "quiet invar hist d ?M" "in_log d = None" "\<And>k. latest (hist (in_store d) k) = as_bytes m k"
    using ma by (simp_all add: matches_def)
  let ?s = "snd (vs_collect_garbage V (in_store d) ?low)"
  have d': "snd (Db_collect_garbage V d) = d\<lparr>in_store := ?s\<rparr>"
    by (simp add: Db_collect_garbage_def Inner_collect_garbage_def split: prod.split)
  have pr: "pruned ?low (hist (in_store d) k) (hist ?s k)" for k using q(1) gc_law by (simp add: db_ok_def)
  have low: "?low \<le> t" if "t \<in># ?M" for t
    using q(1) that orc.low_le_reader unfolding db_ok_def by blast
  show "matches invar hist (m, ms) (snd (Db_collect_garbage V d)) pins"
  proof (rule matches_frame [OF ma])
    have "db_ok invar hist (d\<lparr>in_store := ?s\<rparr>) {..<next_commit d} ?M"
      using db_ok_collect [OF q(1)] d' by (simp add: Db_collect_garbage_def)
    then show "quiet invar hist (snd (Db_collect_garbage V d)) ?M" by (simp add: d')
    fix p k assume "p \<in> set pins"
    then have "?low \<le> Snapshot_read_timestamp (fst p)" by (intro low) auto
    then show "read_at (hist (in_store (snd (Db_collect_garbage V d))) k) (Snapshot_read_timestamp (fst p)) =
        read_at (hist (in_store d) k) (Snapshot_read_timestamp (fst p))"
      using pr by (simp add: d' pruned_def)
  qed (use q pruned_latest [OF pr] in \<open>simp_all add: d'\<close>)
  show "next_ts (in_oracle (snd (Db_collect_garbage V d))) = next_ts (in_oracle d)" by (simp add: d')
qed

text \<open>Every step, and so every sequence of them, follows the reference.\<close>

lemma matches_step:
  assumes ma: "matches invar hist ref d pins" and room: "oracle_room (in_oracle d)" and ord: "hash_order_ok ord"
  obtains d' pins' where "run_step ord V W s d pins = Some (d', pins')" "matches invar hist (model_step s ref) d' pins'"
    "unat (next_ts (in_oracle d')) \<le> Suc (unat (next_ts (in_oracle d)))"
proof -
  obtain m ms where ref: "ref = (m, ms)" by (cases ref)
  have inc: "unat (x + 1) \<le> Suc (unat x)" for x :: u64 by (simp add: unat_word_ariths)
  show thesis
  proof (cases s)
    case (Step_Put k v)
    let ?tx = "Transaction_put (fst (Db_begin d)) [k] [v]"
    have tx: "writes ?tx = [([k], map_option (\<lambda>v. [v]) (Some v))]" "active ?tx = active (fst (Db_begin d))"
      by (simp_all add: Transaction_put_def Db_begin_def Transaction_new_eq)
    obtain d' where "Transaction_commit ord V W (snd (Db_begin d)) ?tx = (Inr (next_commit d), d')"
      "matches invar hist (m(k := Some v), ms) d' pins" "next_ts (in_oracle d') = next_ts (in_oracle d) + 1"
      by (rule matches_write [OF ma [unfolded ref] room ord tx])
    then show thesis by (intro that [of d' pins]) (simp_all add: Step_Put ref split_beta inc)
  next
    case (Step_Delete k)
    let ?tx = "Transaction_delete (fst (Db_begin d)) [k]"
    have tx: "writes ?tx = [([k], map_option (\<lambda>v. [v]) None)]" "active ?tx = active (fst (Db_begin d))"
      by (simp_all add: Transaction_delete_def Db_begin_def Transaction_new_eq)
    obtain d' where "Transaction_commit ord V W (snd (Db_begin d)) ?tx = (Inr (next_commit d), d')"
      "matches invar hist (m(k := None), ms) d' pins" "next_ts (in_oracle d') = next_ts (in_oracle d) + 1"
      by (rule matches_write [OF ma [unfolded ref] room ord tx])
    then show thesis by (intro that [of d' pins]) (simp_all add: Step_Delete ref split_beta inc)
  next
    case Step_Snapshot
    obtain d' snap where "Db_snapshot d = (snap, d')" "observe_keys V d' snap = Some (observed_of m)"
      "matches invar hist (m, ms @ [m]) d' (pins @ [(snap, observed_of m)])" "next_ts (in_oracle d') = next_ts (in_oracle d)"
      by (rule matches_snapshot [OF ma [unfolded ref]])
    then show thesis by (intro that [of d' "pins @ [(snap, observed_of m)]"]) (simp_all add: Step_Snapshot ref)
  next
    case Step_Gc
    note gc = matches_gc [OF ma [unfolded ref]]
    show thesis
      by (rule that [of "snd (Db_collect_garbage V d)" pins])
        (use gc matches_pins [OF gc(1)] in \<open>simp_all add: Step_Gc ref split_beta\<close>)
  qed
qed

lemma matches_steps:
  assumes "matches invar hist ref d pins" "unat (next_ts (in_oracle d)) + length ss < 2 ^ 64" "hash_order_ok ord"
  shows "\<exists>d' pins'. run_steps ord V W ss d pins = Some (d', pins') \<and> matches invar hist (fold model_step ss ref) d' pins'"
  using assms
proof (induction ss arbitrary: ref d pins)
  case (Cons s ss)
  have room: "oracle_room (in_oracle d)" using Cons.prems(2) by (intro room_for [of _ "length ss"]) simp
  obtain d1 pins1 where "run_step ord V W s d pins = Some (d1, pins1)" "matches invar hist (model_step s ref) d1 pins1"
    "unat (next_ts (in_oracle d1)) \<le> Suc (unat (next_ts (in_oracle d)))"
    by (rule matches_step [OF Cons.prems(1) room Cons.prems(3), where s = s and W = W])
  with Cons.IH [of "model_step s ref" d1 pins1] Cons.prems(2,3) show ?case by simp
qed auto

end

section \<open>Properties\<close>

lemma matches_Db_new: "matches wf_store store_hist (\<lambda>_. None, []) (Db_new :: (memory_store, 'w) db) []"
  using quiet_Db_new [where 'a = 'w] room_Db_new(2)
  by (simp add: matches_def as_bytes_empty) (simp add: Db_new_def Db_with_store_def Inner_new_def store_hist_new latest_def)

text \<open>C21. The database follows a map. For every sequence of single-operation transactions, snapshots and
  collections on a new database and every iteration order of its buffers, all commits succeed, a get of
  any key finds what the map holds, and every snapshot taken on the way still reads the map as it was
  then, as it did after every collection in between.\<close>

theorem matches_reference_model:
  assumes "hash_order_ok ord" "length steps < 2 ^ 64 - 1"
  shows "\<exists>d pins. run_steps ord MemoryStore W steps Db_new [] = Some (d, pins)
    \<and> (\<forall>k. fst (Db_get MemoryStore d k) = Inr (as_bytes (fst (model_run steps)) k))
    \<and> map snd pins = map observed_of (snd (model_run steps))
    \<and> list_all (\<lambda>(snap, observed). observe_keys MemoryStore d snap = Some observed) pins"
proof -
  have n: "unat (next_ts (in_oracle (Db_new :: (memory_store, 'a) db))) + length steps < 2 ^ 64"
    using assms(2) by (simp add: Db_new_def Db_with_store_def Inner_new_def Oracle_new_def)
  obtain d pins where d: "run_steps ord MemoryStore W steps Db_new [] = Some (d, pins)"
    "matches wf_store store_hist (model_run steps) d pins"
    using mem.matches_steps [OF matches_Db_new n assms(1), of W] by (auto simp: model_run_def)
  have "map snd pins = map observed_of (snd (model_run steps))"
    using d(2) by (auto simp: matches_def list_all2_conv_all_nth intro!: nth_equalityI)
  moreover have "fst (Db_get MemoryStore d k) = Inr (as_bytes (fst (model_run steps)) k)" for k
    using d(2) mem.quiet_get by (fastforce simp: matches_def)
  ultimately show ?thesis using d mem.matches_pins [OF d(2)] by blast
qed

theorem matches_reference_model_witness:
  "\<exists>d pins. run_steps demo_order MemoryStore list_wal [Step_Put 1 7, Step_Snapshot, Step_Delete 1, Step_Gc] Db_new [] = Some (d, pins)
     \<and> fst (Db_get MemoryStore d [1]) = Inr None \<and> map (\<lambda>p. snd p ! 1) pins = [Some 7]"
proof -
  let ?ss = "[Step_Put 1 7, Step_Snapshot, Step_Delete 1, Step_Gc]"
  have "length ?ss < 2 ^ 64 - 1" by simp
  from matches_reference_model [OF demo_order_ok this, of list_wal] obtain d pins where
    d: "run_steps demo_order MemoryStore list_wal ?ss Db_new [] = Some (d, pins)"
      "fst (Db_get MemoryStore d [1]) = Inr (as_bytes (fst (model_run ?ss)) [1])"
      "map snd pins = map observed_of (snd (model_run ?ss))"
    by blast
  have "map (\<lambda>p. snd p ! 1) pins = map (\<lambda>o'. o' ! 1) (map snd pins)" by simp
  also have "\<dots> = [Some 7]" unfolding d(3) by (simp add: model_run_def observed_of_def KEY_SPACE_def)
  finally show ?thesis using d(1,2) by (intro exI [of _ d] exI [of _ pins]) (simp add: model_run_def as_bytes_def)
qed

text \<open>So the property test of the collector passes for every sequence of steps.\<close>

theorem gc_property_test_passes:
  assumes "hash_order_ok ord" "length steps < 2 ^ 64 - 1"
  shows "gc_never_reclaims_a_live_snapshots_versions ord W steps"
proof -
  have n: "unat (next_ts (in_oracle (Db_new :: (memory_store, 'a) db))) + length steps < 2 ^ 64"
    using assms(2) by (simp add: Db_new_def Db_with_store_def Inner_new_def Oracle_new_def)
  obtain d pins where d: "run_steps ord MemoryStore W steps Db_new [] = Some (d, pins)"
    "matches wf_store store_hist (fold model_step steps (\<lambda>_. None, [])) d pins"
    using mem.matches_steps [OF matches_Db_new n assms(1), of W] by blast
  then show ?thesis
    using mem.matches_pins [OF d(2)] by (simp add: gc_never_reclaims_a_live_snapshots_versions_def)
qed

theorem gc_property_test_passes_witness:
  "gc_never_reclaims_a_live_snapshots_versions demo_order list_wal [Step_Put 1 7, Step_Snapshot, Step_Delete 1, Step_Gc]"
  by (rule gc_property_test_passes [OF demo_order_ok]) simp

end
