(* ===== verification/Durable_Model.thy ===== *)
theory Durable_Model
  imports Reference_Model
begin

text \<open>
  The tests of \<open>src/tests/durability.rs\<close> for every sequence of what they do: single-operation
  transactions on a durable database, transactions that are abandoned, and restarts, compared with a
  map; and the recovery from a log of which only a prefix of the records is left.
\<close>

section \<open>Definitions\<close>

datatype Durable_Step = Durable_Put u8 u8 | Durable_Delete u8 | Durable_Abandon u8 u8 | Durable_Reopen

text \<open>One step; \<open>None\<close> is a panic of \<open>unwrap\<close>. A restart opens the file the database leaves behind.\<close>

fun durable_step :: "hash_order \<Rightarrow> 'w wal_ops \<Rightarrow> 'w \<Rightarrow> Durable_Step \<Rightarrow> (memory_store, 'w) db \<Rightarrow> (memory_store, 'w) db option" where
  "durable_step ord W path (Durable_Put k v) d =
     (let (tx, d) = Db_begin d;
          tx = Transaction_put tx [k] [v]
      in case Transaction_commit ord MemoryStore W d tx of (Inl _, _) \<Rightarrow> None | (Inr _, d) \<Rightarrow> Some d)"
| "durable_step ord W path (Durable_Delete k) d =
     (let (tx, d) = Db_begin d;
          tx = Transaction_delete tx [k]
      in case Transaction_commit ord MemoryStore W d tx of (Inl _, _) \<Rightarrow> None | (Inr _, d) \<Rightarrow> Some d)"
| "durable_step ord W path (Durable_Abandon k v) d =
     (let (tx, d) = Db_begin d;
          tx = Transaction_put tx [k] [v]
      in Some (Transaction_rollback d tx))"
| "durable_step ord W path Durable_Reopen d =
     (case Db_open W (left_behind path d) of Inl _ \<Rightarrow> None | Inr d \<Rightarrow> Some d)"

fun durable_steps ::
  "hash_order \<Rightarrow> 'w wal_ops \<Rightarrow> 'w \<Rightarrow> Durable_Step list \<Rightarrow> (memory_store, 'w) db \<Rightarrow> (memory_store, 'w) db option" where
  "durable_steps ord W path [] d = Some d"
| "durable_steps ord W path (s # ss) d = Option.bind (durable_step ord W path s d) (durable_steps ord W path ss)"

text \<open>A whole run: open the file, then the steps.\<close>

definition durable_run :: "hash_order \<Rightarrow> 'w wal_ops \<Rightarrow> 'w \<Rightarrow> Durable_Step list \<Rightarrow> (memory_store, 'w) db option" where
  "durable_run ord W path ss = (case Db_open W path of Inl _ \<Rightarrow> None | Inr d \<Rightarrow> durable_steps ord W path ss d)"

text \<open>The committed writes of the steps, and the map they leave.\<close>

fun committed_writes :: "Durable_Step list \<Rightarrow> (u8 \<times> u8 option) list" where
  "committed_writes [] = []"
| "committed_writes (Durable_Put k v # ss) = (k, Some v) # committed_writes ss"
| "committed_writes (Durable_Delete k # ss) = (k, None) # committed_writes ss"
| "committed_writes (Durable_Abandon k v # ss) = committed_writes ss"
| "committed_writes (Durable_Reopen # ss) = committed_writes ss"

definition model_of :: "(u8 \<times> u8 option) list \<Rightarrow> model" where
  "model_of ws = fold (\<lambda>(k, v) m. m(k := v)) ws (\<lambda>_. None)"

definition write_of :: "u8 \<times> u8 option \<Rightarrow> write_entry list" where
  "write_of w = [([fst w], map_option (\<lambda>v. [v]) (snd w))]"

text \<open>The records of the log are one for each committed write, in that order.\<close>

definition records :: "(u8 \<times> u8 option) list \<Rightarrow> RecoveredCommit list \<Rightarrow> bool" where
  "records ws cs \<longleftrightarrow> map rc_writes cs = map write_of ws \<and> sorted_wrt (<) (map rc_commit_ts cs)"

definition durable_inv ::
  "'w wal_ops \<Rightarrow> (u8 \<times> u8 option) list \<Rightarrow> RecoveredCommit list \<Rightarrow> (memory_store, 'w) db \<Rightarrow> bool" where
  "durable_inv W ws cs d \<longleftrightarrow>
     quiet wf_store store_hist d {#} \<and> log_agrees W store_hist d cs \<and> records ws cs
     \<and> unat (next_ts (in_oracle d)) \<le> Suc (length ws)"

section \<open>Lemmas\<close>

lemma model_of_snoc: "model_of (ws @ [(k, v)]) = (model_of ws)(k := v)"
  by (simp add: model_of_def)

lemma records_snoc:
  "records ws cs \<Longrightarrow> rc_writes c = write_of w \<Longrightarrow> \<forall>b\<in>set cs. rc_commit_ts b < rc_commit_ts c \<Longrightarrow> records (ws @ [w]) (cs @ [c])"
  by (simp add: records_def sorted_wrt_append)

lemma records_take: "records ws cs \<Longrightarrow> records (take m ws) (take m cs)"
  by (simp add: records_def flip: take_map)

lemma records_sorted: "records ws cs \<Longrightarrow> sort_key rc_commit_ts cs = cs"
  by (rule sort_key_id_if_sorted) (auto simp: records_def intro: sorted_wrt_mono_rel [rotated] less_imp_le)

lemma recovered_model: "records ws cs \<Longrightarrow> latest (recovered_hist cs a) = as_bytes (model_of ws) a"
proof (induction ws arbitrary: cs rule: rev_induct)
  case Nil
  then show ?case by (simp add: records_def model_of_def as_bytes_empty latest_def)
next
  case (snoc w ws)
  then obtain cs' c where cs: "cs = cs' @ [c]" "records ws cs'" "rc_writes c = write_of w"
    by (cases cs rule: rev_cases) (auto simp: records_def sorted_wrt_append)
  obtain k v where w: "w = (k, v)" by (cases w)
  have "as_bytes (model_of (ws @ [w])) a = (if a = [k] then map_option (\<lambda>v. [v]) v else as_bytes (model_of ws) a)"
    by (simp only: w model_of_snoc as_bytes_upd)
  then show ?case
    using snoc.IH [OF cs(2)] cs(3)
    by (simp add: cs(1) w latest_append write_of_def new_versions_def) (simp add: latest_def)
qed

lemma durable_get:
  assumes "durable_inv W ws cs d"
  shows "fst (Db_get MemoryStore d k) = Inr (as_bytes (model_of ws) k)"
proof -
  have "quiet wf_store store_hist d {#}" "latest (store_hist (in_store d) k) = latest (recovered_hist (sort_key rc_commit_ts cs) k)"
    "records ws cs"
    using assms by (simp_all add: durable_inv_def log_agrees_def)
  then show ?thesis by (simp add: mem.quiet_get records_sorted recovered_model)
qed

lemma durable_write:
  fixes W :: "'w wal_ops"
  assumes inv: "durable_inv W ws cs d" and few: "length ws < 2 ^ 64 - 3" and ord: "hash_order_ok ord"
    and W: "wal_appends W" "wal_syncs W"
    and tx: "writes tx = write_of w" "active tx = active (fst (Db_begin d))"
  obtains d' c where "Transaction_commit ord MemoryStore W (snd (Db_begin d)) tx = (Inr (next_commit d), d')"
    "durable_inv W (ws @ [w]) (cs @ [c]) d'"
proof -
  have q: "quiet wf_store store_hist d {#}" "log_agrees W store_hist d cs" "records ws cs"
    "unat (next_ts (in_oracle d)) \<le> Suc (length ws)"
    using inv by (simp_all add: durable_inv_def)
  have room: "oracle_room (in_oracle d)" using q(4) few by (intro room_for [of _ 1]) simp
  have t: "tx_ok tx" "writes tx \<noteq> []" "tx_fits tx"
    by (auto simp: tx(1) write_of_def tx_ok_def tx_fits_def batch_fits_def entry_fits_def encode_for_log_def encode_write_def
        split: option.split)
  let ?c = "\<lparr>rc_commit_ts = next_commit d, rc_writes = order_writes ord (writes tx)\<rparr>"
  obtain d' where d': "Transaction_commit ord MemoryStore W (snd (Db_begin d)) tx = (Inr (next_commit d), d')"
    "quiet wf_store store_hist d' {#}" "log_agrees W store_hist d' (cs @ [?c])"
    "next_ts (in_oracle d') = next_ts (in_oracle d) + 1"
    by (rule logged_commit [OF q(1) room ord q(2) W t(1,2) tx(2) t(3)])
  have "mset (order_writes ord (write_of w)) = mset (write_of w)" using ord unfolding hash_order_ok_def by blast
  then have "rc_writes ?c = write_of w" by (simp add: tx(1)) (simp add: write_of_def)
  moreover have "\<forall>b\<in>set cs. rc_commit_ts b < rc_commit_ts ?c" using q(2) by (simp add: log_agrees_def)
  ultimately have "records (ws @ [w]) (cs @ [?c])" using q(3) by (intro records_snoc)
  moreover have "unat (next_ts (in_oracle d')) \<le> Suc (length (ws @ [w]))"
    using q(4) by (simp add: d'(4) unat_word_ariths)
  ultimately have "durable_inv W (ws @ [w]) (cs @ [?c]) d'" using d'(2,3) by (simp add: durable_inv_def)
  with d'(1) show thesis by (rule that)
qed

lemma durable_abandon:
  assumes "durable_inv W ws cs d" "active tx = active (fst (Db_begin d))"
  shows "durable_inv W ws cs (Transaction_rollback (snd (Db_begin d)) tx)"
proof -
  let ?d = "ActiveReader_drop (snd (Db_begin d)) (active (fst (Db_begin d)))"
  have q: "quiet wf_store store_hist d {#}" "log_agrees W store_hist d cs" using assms(1) by (simp_all add: durable_inv_def)
  have d: "in_store ?d = in_store d" "in_log ?d = in_log d" "next_ts (in_oracle ?d) = next_ts (in_oracle d)"
    by (simp_all add: ActiveReader_drop_eq Db_begin_def)
  have "quiet wf_store store_hist ?d {#}" using q(1) by (rule quiet_begin_drop)
  moreover have "log_agrees W store_hist ?d cs" using q(2) d by (simp add: log_agrees_def)
  ultimately show ?thesis using assms d(3) by (simp add: durable_inv_def Transaction_rollback_def)
qed

lemma durable_reopen:
  fixes W :: "'w wal_ops"
  assumes inv: "durable_inv W ws cs d" and W: "wal_reopens W" and few: "length ws < 2 ^ 64 - 3"
  obtains d' where "Db_open W (left_behind path d) = Inr d'" "durable_inv W ws cs d'"
proof -
  have q: "quiet wf_store store_hist d {#}" "log_agrees W store_hist d cs" "records ws cs"
    "unat (next_ts (in_oracle d)) \<le> Suc (length ws)"
    using inv by (simp_all add: durable_inv_def)
  let ?top = "foldl max ZERO (map rc_commit_ts (sort_key rc_commit_ts cs))"
  obtain d' where d': "Db_open W (left_behind path d) = Inr d'" "quiet wf_store store_hist d' {#}"
    "log_agrees W store_hist d' cs" "next_ts (in_oracle d') = ts_get ?top + 1"
    by (rule reopen_left_behind [OF q(2) W, where p = path]) blast
  have "?top \<in> insert ZERO (rc_commit_ts ` set cs)" using foldl_max_in [of ZERO "map rc_commit_ts (sort_key rc_commit_ts cs)"] by simp
  then have "unat (ts_get ?top) \<le> length ws"
  proof
    assume "?top = ZERO"
    then show ?thesis by (simp add: ZERO_def)
  next
    assume "?top \<in> rc_commit_ts ` set cs"
    then have "?top < next_commit d" using q(2) by (auto simp: log_agrees_def)
    then show ?thesis using q(4) by (cases ?top) (simp add: less_timestamp_def word_less_nat_alt)
  qed
  then have "unat (next_ts (in_oracle d')) \<le> Suc (length ws)" using few by (simp add: d'(4) unat_word_ariths)
  then have "durable_inv W ws cs d'" using d'(2,3) q(3) by (simp add: durable_inv_def)
  with d'(1) show thesis by (rule that)
qed

lemma durable_step_inv:
  fixes W :: "'w wal_ops"
  assumes inv: "durable_inv W ws cs d" and few: "length ws < 2 ^ 64 - 3" and ord: "hash_order_ok ord"
    and W: "wal_appends W" "wal_syncs W" "wal_reopens W"
  obtains d' cs' where "durable_step ord W path s d = Some d'" "durable_inv W (ws @ committed_writes [s]) cs' d'"
proof (cases s)
  case (Durable_Put k v)
  let ?tx = "Transaction_put (fst (Db_begin d)) [k] [v]"
  have tx: "writes ?tx = write_of (k, Some v)" "active ?tx = active (fst (Db_begin d))"
    by (simp_all add: Transaction_put_def Db_begin_def Transaction_new_eq write_of_def)
  obtain d' c where "Transaction_commit ord MemoryStore W (snd (Db_begin d)) ?tx = (Inr (next_commit d), d')"
    "durable_inv W (ws @ [(k, Some v)]) (cs @ [c]) d'"
    by (rule durable_write [OF inv few ord W(1,2) tx])
  then show thesis by (intro that [of d' "cs @ [c]"]) (simp_all add: Durable_Put split_beta)
next
  case (Durable_Delete k)
  let ?tx = "Transaction_delete (fst (Db_begin d)) [k]"
  have tx: "writes ?tx = write_of (k, None)" "active ?tx = active (fst (Db_begin d))"
    by (simp_all add: Transaction_delete_def Db_begin_def Transaction_new_eq write_of_def)
  obtain d' c where "Transaction_commit ord MemoryStore W (snd (Db_begin d)) ?tx = (Inr (next_commit d), d')"
    "durable_inv W (ws @ [(k, None)]) (cs @ [c]) d'"
    by (rule durable_write [OF inv few ord W(1,2) tx])
  then show thesis by (intro that [of d' "cs @ [c]"]) (simp_all add: Durable_Delete split_beta)
next
  case (Durable_Abandon k v)
  let ?tx = "Transaction_put (fst (Db_begin d)) [k] [v]"
  have "durable_inv W ws cs (Transaction_rollback (snd (Db_begin d)) ?tx)"
    by (rule durable_abandon [OF inv]) (simp add: Transaction_put_def)
  then show thesis by (intro that) (simp_all add: Durable_Abandon split_beta)
next
  case Durable_Reopen
  obtain d' where "Db_open W (left_behind path d) = Inr d'" "durable_inv W ws cs d'"
    by (rule durable_reopen [OF inv W(3) few])
  then show thesis by (intro that) (simp_all add: Durable_Reopen)
qed

lemma committed_writes_Cons: "committed_writes (s # ss) = committed_writes [s] @ committed_writes ss"
  by (cases s) simp_all

lemma durable_steps_inv:
  fixes W :: "'w wal_ops"
  assumes "durable_inv W ws cs d" "length ws + length ss < 2 ^ 64 - 3" "hash_order_ok ord"
    "wal_appends W" "wal_syncs W" "wal_reopens W"
  shows "\<exists>d' cs'. durable_steps ord W path ss d = Some d' \<and> durable_inv W (ws @ committed_writes ss) cs' d'"
  using assms(1,2)
proof (induction ss arbitrary: ws cs d)
  case (Cons s ss)
  have "length ws < 2 ^ 64 - 3" using Cons.prems(2) by simp
  from durable_step_inv [OF Cons.prems(1) this assms(3-6), where path = path and s = s] obtain d1 cs1 where
    d1: "durable_step ord W path s d = Some d1" "durable_inv W (ws @ committed_writes [s]) cs1 d1"
    by blast
  have "length (committed_writes [s]) \<le> 1" by (cases s) simp_all
  then have "length (ws @ committed_writes [s]) + length ss < 2 ^ 64 - 3" using Cons.prems(2) by simp
  from Cons.IH [OF d1(2) this] d1(1) show ?case unfolding committed_writes_Cons [of s ss] by simp
qed auto

lemma durable_run_inv:
  fixes W :: "'w wal_ops"
  assumes "hash_order_ok ord" "wal_appends W" "wal_syncs W" "wal_reopens W" "wal_holds W path []" "length ss < 2 ^ 64 - 3"
  shows "\<exists>d cs. durable_run ord W path ss = Some d \<and> durable_inv W (committed_writes ss) cs d"
proof -
  have p: "wal_holds W path (map record_of [])" "list_all recordable []" "\<forall>c\<in>set []. rc_commit_ts c \<noteq> Timestamp (- 1)"
    using assms(5) by simp_all
  obtain log d0 where d0: "Db_open W path = Inr d0" "in_log d0 = Some log" "wal_holds W (wal log) (map record_of [])"
    "quiet wf_store store_hist d0 {#}" "\<forall>k. store_hist (in_store d0) k = recovered_hist (sort_key rc_commit_ts []) k"
    by (rule open_spec [OF assms(4) p]) blast
  have "next_ts (in_oracle d0) = 1" using open_watermark(2) [OF assms(4) p(1,2) d0(1)] by (simp add: ZERO_def)
  then have inv: "durable_inv W [] [] d0" using d0 by (simp add: durable_inv_def log_agrees_def records_def)
  have "length [] + length ss < 2 ^ 64 - 3" using assms(6) by simp
  from durable_steps_inv [OF inv this assms(1-4)] show ?thesis by (simp add: durable_run_def d0(1))
qed

text \<open>Opening what a cut has left of the log.\<close>

lemma truncated_open:
  assumes "hash_order_ok ord" "wal_appends W" "wal_syncs W" "wal_reopens W" "wal_holds W path []" "length ss < 2 ^ 64 - 3"
    "durable_run ord W path ss = Some d" "wal_iter W (left_behind path d) = Inr recs" "wal_iter W remnant = Inr (take m recs)"
  shows "length recs = length (committed_writes ss)"
    "(\<And>d'. Db_open W remnant = Inr d' \<Longrightarrow> quiet wf_store store_hist d' {#} \<Longrightarrow>
       (\<And>k. latest (store_hist (in_store d') k) = as_bytes (model_of (take m (committed_writes ss))) k) \<Longrightarrow> thesis) \<Longrightarrow> thesis"
proof -
  obtain cs where inv: "durable_inv W (committed_writes ss) cs d"
    using durable_run_inv [OF assms(1-6)] assms(7) by auto
  then have ag: "log_agrees W store_hist d cs" and rec: "records (committed_writes ss) cs" by (simp_all add: durable_inv_def)
  have recs: "recs = map Inr (map record_of cs)"
    using ag assms(8) by (auto simp: log_agrees_def left_behind_def wal_holds_def)
  have cut: "wal_holds W remnant (map record_of (take m cs))"
    using assms(9) by (simp add: recs wal_holds_def take_map)
  have sub: "set (take m cs) \<subseteq> set cs" by (rule set_take_subset)
  have fit: "list_all recordable (take m cs)" using ag sub by (auto simp: log_agrees_def list_all_iff)
  have "rc_commit_ts c < next_commit d" if "c \<in> set (take m cs)" for c using ag sub that by (auto simp: log_agrees_def)
  then have top: "\<forall>c\<in>set (take m cs). rc_commit_ts c \<noteq> Timestamp (- 1)" using below_top by blast
  obtain d' where d': "Db_open W remnant = Inr d'" "quiet wf_store store_hist d' {#}"
    "\<forall>k. store_hist (in_store d') k = recovered_hist (sort_key rc_commit_ts (take m cs)) k"
    by (rule open_spec [OF assms(4) cut fit top]) blast
  have "latest (store_hist (in_store d') k) = as_bytes (model_of (take m (committed_writes ss))) k" for k
    using d'(3) records_take [OF rec, of m] by (simp add: records_sorted recovered_model)
  with d'(1,2) show "(\<And>d'. Db_open W remnant = Inr d' \<Longrightarrow> quiet wf_store store_hist d' {#} \<Longrightarrow>
       (\<And>k. latest (store_hist (in_store d') k) = as_bytes (model_of (take m (committed_writes ss))) k) \<Longrightarrow> thesis) \<Longrightarrow> thesis"
    by blast
  show "length recs = length (committed_writes ss)"
    using rec map_eq_imp_length_eq by (fastforce simp: recs records_def)
qed

section \<open>Properties\<close>

text \<open>C15. A durable database follows a map across restarts. For every sequence of single-operation
  transactions, abandoned transactions and restarts, over any log that appends, syncs and reopens as
  documented and is empty at first, every commit and every restart succeeds, and a get of any key finds
  what the committed writes leave in the map.\<close>

theorem durable_matches_reference_model:
  assumes "hash_order_ok ord" "wal_appends W" "wal_syncs W" "wal_reopens W" "wal_holds W path []" "length ss < 2 ^ 64 - 3"
  shows "\<exists>d. durable_run ord W path ss = Some d
    \<and> (\<forall>k. fst (Db_get MemoryStore d k) = Inr (as_bytes (model_of (committed_writes ss)) k))"
  using durable_run_inv [OF assms] durable_get by blast

theorem durable_matches_reference_model_witness:
  "\<exists>d. durable_run demo_order list_wal [] [Durable_Put 1 10, Durable_Abandon 2 20, Durable_Delete 7, Durable_Reopen] = Some d
     \<and> fst (Db_get MemoryStore d [1]) = Inr (Some [10]) \<and> fst (Db_get MemoryStore d [2]) = Inr None"
proof -
  let ?ss = "[Durable_Put 1 10, Durable_Abandon 2 20, Durable_Delete 7, Durable_Reopen]"
  have "wal_syncs list_wal" "wal_holds list_wal [] []" "length ?ss < 2 ^ 64 - 3" by (simp_all add: wal_syncs_def)
  from durable_matches_reference_model [OF demo_order_ok list_wal_ok(1) this(1) list_wal_ok(2) this(2,3)] obtain d where
    "durable_run demo_order list_wal [] ?ss = Some d"
    "\<And>k. fst (Db_get MemoryStore d k) = Inr (as_bytes (model_of (committed_writes ?ss)) k)"
    by blast
  then show ?thesis by (intro exI [of _ d]) (simp add: model_of_def as_bytes_def)
qed

text \<open>A log cut short recovers to a clean prefix: if the file a session leaves behind is cut so that some
  first part of its records is left, opening it gives the database as it was after that many of the
  commits, none of them in part and none after a lost one.\<close>

theorem truncated_log_recovers_a_prefix:
  assumes "hash_order_ok ord" "wal_appends W" "wal_syncs W" "wal_reopens W" "wal_holds W path []" "length ss < 2 ^ 64 - 3"
    "durable_run ord W path ss = Some d" "wal_iter W (left_behind path d) = Inr recs" "wal_iter W remnant = Inr (take m recs)"
  shows "length recs = length (committed_writes ss) \<and> (\<exists>d'. Db_open W remnant = Inr d'
    \<and> (\<forall>k. fst (Db_get MemoryStore d' k) = Inr (as_bytes (model_of (take m (committed_writes ss))) k)))"
  by (rule truncated_open(2) [OF assms]) (auto simp: mem.quiet_get truncated_open(1) [OF assms])

text \<open>Two records left by a session and one of them kept by the cut.\<close>

theorem truncated_log_recovers_a_prefix_witness:
  "\<exists>d d' recs. durable_run demo_order list_wal [] [Durable_Put 1 10, Durable_Delete 1] = Some d
     \<and> wal_iter list_wal (left_behind [] d) = Inr recs \<and> length recs = 2
     \<and> Db_open list_wal (map projr (take 1 recs)) = Inr d' \<and> fst (Db_get MemoryStore d' [1]) = Inr (Some [10])"
proof -
  let ?ss = "[Durable_Put 1 10, Durable_Delete 1]"
  have W: "wal_syncs list_wal" "wal_holds list_wal [] []" "length ?ss < 2 ^ 64 - 3" by (simp_all add: wal_syncs_def)
  note pre = demo_order_ok list_wal_ok(1) W(1) list_wal_ok(2) W(2,3)
  obtain d cs where d: "durable_run demo_order list_wal [] ?ss = Some d"
    using durable_run_inv [OF pre] by blast
  let ?recs = "map Inr (left_behind [] d) :: (string + bytes) list"
  have it: "wal_iter list_wal (left_behind [] d) = Inr ?recs" "wal_iter list_wal (map projr (take 1 ?recs)) = Inr (take 1 ?recs)"
    by (simp_all add: take_map comp_def)
  from truncated_log_recovers_a_prefix [OF pre d it] obtain d' where
    "length ?recs = 2" "Db_open list_wal (map projr (take 1 ?recs)) = Inr d'"
    "\<And>k. fst (Db_get MemoryStore d' k) = Inr (as_bytes (model_of (take 1 (committed_writes ?ss))) k)"
    by auto
  with d it show ?thesis
    by (intro exI [of _ d] exI [of _ d'] exI [of _ ?recs]) (simp add: model_of_def as_bytes_def)
qed

text \<open>With concurrent commits it is not a prefix: a commit can be in the log before one with an earlier
  timestamp that was applied before it.\<close>

definition out_of_order :: "(nat \<times> action) list" where
  "out_of_order =
     [(0, Begin False), (0, Put key_x [1]), (0, Commit), (0, Commit),
      (1, Begin False), (1, Put key_y [2]),
      (1, Commit), (1, Commit), (1, Commit), (1, Commit), (1, Commit)]"

lemma out_of_order_run:
  "map_option (\<lambda>S. (map (\<lambda>c. (writes (c_tx c), c_ts c)) (history S), procs S 1, map_option wal (in_log (shared S))))
     (run MemoryStore list_wal MemoryStore_slices out_of_order (start logged_shard)) =
   Some ([([(key_x, Some [1])], Timestamp 1), ([(key_y, Some [2])], Timestamp 2)], Returned (Inr (Timestamp 2)),
     Some [encode_for_log (Timestamp 2) [(key_y, Some [2])]])"
  by code_simp

text \<open>C28. Recovery need not yield a prefix of the commits: there is a run in which the commit at timestamp 1
  has been applied, the commit at timestamp 2 after it, and a crash at that point loses the first and
  keeps the second.\<close>

theorem recovery_can_skip_a_commit:
  "\<exists>S log d. mem_reachable list_wal logged_shard S
     \<and> map (\<lambda>c. (writes (c_tx c), c_ts c)) (history S)
         = [([(key_x, Some [1])], Timestamp 1), ([(key_y, Some [2])], Timestamp 2)]
     \<and> procs S 1 = Returned (Inr (Timestamp 2))
     \<and> in_log (shared S) = Some log \<and> Db_open list_wal (wal log) = Inr d
     \<and> fst (Db_get MemoryStore d key_x) = Inr None \<and> fst (Db_get MemoryStore d key_y) = Inr (Some [2])"
proof -
  let ?c = "\<lparr>rc_commit_ts = Timestamp 2, rc_writes = [(key_y, Some [2])]\<rparr>"
  obtain S where S: "mem_reachable list_wal logged_shard S"
    "(map (\<lambda>c. (writes (c_tx c), c_ts c)) (history S), procs S 1, map_option wal (in_log (shared S))) =
      ([([(key_x, Some [1])], Timestamp 1), ([(key_y, Some [2])], Timestamp 2)], Returned (Inr (Timestamp 2)),
       Some [record_of ?c])"
    by (rule run_obtain [OF out_of_order_run]) (simp add: record_of_def)
  obtain log where log: "in_log (shared S) = Some log" "wal_holds list_wal (wal log) (map record_of [?c])"
    using S(2) by auto
  have fit: "list_all recordable [?c]" "\<forall>c\<in>set [?c]. rc_commit_ts c \<noteq> Timestamp (- 1)"
    by (simp_all add: recordable_def record_of_def batch_fits_def entry_fits_def encode_for_log_def encode_write_def)
  obtain d where d: "Db_open list_wal (wal log) = Inr d" "quiet wf_store store_hist d {#}"
    "\<forall>k. store_hist (in_store d) k = recovered_hist (sort_key rc_commit_ts [?c]) k"
    by (rule open_spec [OF list_wal_ok(2) log(2) fit]) blast
  have "fst (Db_get MemoryStore d k) = Inr (if k = key_y then Some [2] else None)" for k
    by (simp add: mem.quiet_get [OF d(2)] d(3) recovered_hist_def new_versions_def latest_def)
  with S log(1) d(1) show ?thesis by (intro exI [of _ S] exI [of _ log] exI [of _ d]) simp
qed

end
