(* ===== verification/Integration_Tests.thy ===== *)
theory Integration_Tests
  imports Database_Tests Durable_Model
begin

text \<open>
  The integration tests of \<open>src/tests/snapshot_isolation.rs\<close>, \<open>src/tests/serializable.rs\<close> and
  \<open>src/tests/gc.rs\<close> with a single thread, and those of \<open>src/tests/durability.rs\<close> and
  \<open>src/tests/adversarial.rs\<close> with fixed inputs: one definition for each test function, true when no
  assertion of it fails and nothing panics. The random inputs are arguments, and the tests pass for
  all of them; the order in which a commit iterates over its buffers is an argument as well.
\<close>

section \<open>Definitions\<close>

subsection \<open>snapshot_isolation.rs\<close>

text \<open>\<open>db.snapshot().get(&[key]).unwrap().map(|bytes| bytes[0])\<close>; the snapshot is dropped at the end.\<close>

definition read_key :: "(memory_store, 'w) db \<Rightarrow> u8 \<Rightarrow> u8 option option \<times> (memory_store, 'w) db" where
  "read_key d k =
     (let (snap, d) = Db_snapshot d
      in (first_byte (Snapshot_get MemoryStore d snap [k]), Snapshot_drop d snap))"

text \<open>The loop that compares every key with what is expected of it.\<close>

fun keys_read :: "u8 list \<Rightarrow> (u8 \<Rightarrow> u8 option) \<Rightarrow> (memory_store, 'w) db \<Rightarrow> bool" where
  "keys_read [] expected d = True"
| "keys_read (k # ks) expected d =
     (let (found, d) = read_key d k in found = Some (expected k) \<and> keys_read ks expected d)"

text \<open>Its \<open>Op\<close> is the first two steps of the collector test; the map is filled by the same steps.\<close>

datatype Op = Op_Put u8 u8 | Op_Delete u8

fun step_of :: "Op \<Rightarrow> Step" where
  "step_of (Op_Put k v) = Step_Put k v"
| "step_of (Op_Delete k) = Step_Delete k"

definition ISOLATION_KEYS :: "u8 list" where "ISOLATION_KEYS = [0, 1, 2, 3, 4, 5, 6, 7]"

definition committed_state_matches_reference_model :: "hash_order \<Rightarrow> 'w wal_ops \<Rightarrow> Op list \<Rightarrow> bool" where
  "committed_state_matches_reference_model ord W ops =
     (case run_steps ord MemoryStore W (map step_of ops) Db_new [] of
        None \<Rightarrow> False
      | Some (d, _) \<Rightarrow> keys_read ISOLATION_KEYS (fst (model_run (map step_of ops))) d)"

text \<open>A transaction that puts every pair in turn, and a transaction for each pair.\<close>

definition put_all :: "transaction \<Rightarrow> (bytes \<times> bytes) list \<Rightarrow> transaction" where
  "put_all tx kvs = foldl (\<lambda>tx (k, v). Transaction_put tx k v) tx kvs"

fun churn_puts :: "hash_order \<Rightarrow> 'w wal_ops \<Rightarrow> (u8 \<times> u8) list \<Rightarrow> (memory_store, 'w) db \<Rightarrow> (memory_store, 'w) db option" where
  "churn_puts ord W [] d = Some d"
| "churn_puts ord W ((k, v) # kvs) d =
     (let (tx, d) = Db_begin d;
          tx = Transaction_put tx [k] [v]
      in case Transaction_commit ord MemoryStore W d tx of
           (Inl _, _) \<Rightarrow> None
         | (Inr _, d) \<Rightarrow> churn_puts ord W kvs d)"

definition observed_by :: "(memory_store, 'w) db \<Rightarrow> snapshot \<Rightarrow> u8 option list option" where
  "observed_by d snap = collect_some (map (\<lambda>k. first_byte (Snapshot_get MemoryStore d snap [k])) ISOLATION_KEYS)"

definition snapshot_is_stable_under_later_commits ::
  "hash_order \<Rightarrow> 'w wal_ops \<Rightarrow> (u8 \<times> u8) list \<Rightarrow> (u8 \<times> u8) list \<Rightarrow> bool" where
  "snapshot_is_stable_under_later_commits ord W base churn =
     (let (tx, d) = Db_begin Db_new;
          tx = put_all tx (map (\<lambda>(k, v). ([k], [v])) base)
      in (case Transaction_commit ord MemoryStore W d tx of
           (Inl _, _) \<Rightarrow> False
         | (Inr _, d) \<Rightarrow>
         let (snap, d) = Db_snapshot d
         in (case observed_by d snap of
           None \<Rightarrow> False
         | Some observed \<Rightarrow>
         (case churn_puts ord W churn d of
           None \<Rightarrow> False
         | Some d \<Rightarrow> observed_by d snap = Some observed))))"

definition write_write_conflict_aborts_the_later_committer :: "hash_order \<Rightarrow> 'w wal_ops \<Rightarrow> u8 \<Rightarrow> u8 \<Rightarrow> u8 \<Rightarrow> bool" where
  "write_write_conflict_aborts_the_later_committer ord W k v1 v2 =
     (let (a, d) = Db_begin Db_new;
          (b, d) = Db_begin d;
          a = Transaction_put a [k] [v1];
          b = Transaction_put b [k] [v2]
      in (case Transaction_commit ord MemoryStore W d a of
           (Inl _, _) \<Rightarrow> False
         | (Inr _, d) \<Rightarrow>
         (case Transaction_commit ord MemoryStore W d b of
           (Inr _, _) \<Rightarrow> False
         | (Inl err, d) \<Rightarrow>
         is_retryable err \<and> is_Conflict err \<and> fst (read_key d k) = Some (Some v1))))"

definition transaction_reads_its_own_pending_writes :: "'w itself \<Rightarrow> u8 \<Rightarrow> u8 \<Rightarrow> bool" where
  "transaction_reads_its_own_pending_writes _ k v =
     (let (tx, d) = Db_begin (Db_new :: (memory_store, 'w) db);
          (r1, tx) = Transaction_get MemoryStore d tx [k];
          tx = Transaction_put tx [k] [v];
          (r2, tx) = Transaction_get MemoryStore d tx [k];
          tx = Transaction_delete tx [k];
          (r3, tx) = Transaction_get MemoryStore d tx [k]
      in r1 = Inr None \<and> first_byte r2 = Some (Some v) \<and> r3 = Inr None)"

subsection \<open>serializable.rs\<close>

text \<open>Reads that return early with \<open>?\<close>, \<open>None\<close>, when one fails.\<close>

fun get_each ::
  "(memory_store, 'w) db \<Rightarrow> transaction \<Rightarrow> u8 list \<Rightarrow> transaction option" where
  "get_each d tx [] = Some tx"
| "get_each d tx (k # ks) =
     (case Transaction_get MemoryStore d tx [k] of (Inl _, _) \<Rightarrow> None | (Inr _, tx) \<Rightarrow> get_each d tx ks)"

definition write_skew_never_lets_both_commit ::
  "hash_order \<Rightarrow> 'w wal_ops \<Rightarrow> u8 \<Rightarrow> u8 \<Rightarrow> u8 \<Rightarrow> u8 \<Rightarrow> bool" where
  "write_skew_never_lets_both_commit ord W x y vx vy =
     skew_schedule Db_begin_serializable [x] [y] vx vy ord W (\<lambda>r. (case r of (Inr _, _) \<Rightarrow> False | (Inl err, _) \<Rightarrow>
         is_retryable err))"

definition disjoint_serializable_transactions_both_commit ::
  "hash_order \<Rightarrow> 'w wal_ops \<Rightarrow> u8 \<Rightarrow> u8 \<Rightarrow> u8 \<Rightarrow> u8 \<Rightarrow> bool" where
  "disjoint_serializable_transactions_both_commit ord W a b va vb =
     (let (t1, d) = Db_begin_serializable Db_new;
          (t2, d) = Db_begin_serializable d
      in (case get_each d t1 [a] of None \<Rightarrow> False | Some t1 \<Rightarrow>
         (case get_each d t2 [b] of None \<Rightarrow> False | Some t2 \<Rightarrow>
         let t1 = Transaction_put t1 [a] [va];
             t2 = Transaction_put t2 [b] [vb]
         in (case Transaction_commit ord MemoryStore W d t1 of (Inl _, _) \<Rightarrow> False | (Inr _, d) \<Rightarrow>
         (case Transaction_commit ord MemoryStore W d t2 of (Inl _, _) \<Rightarrow> False | (Inr _, d) \<Rightarrow> True)))))"

definition uncontended_serializable_transaction_commits ::
  "hash_order \<Rightarrow> 'w wal_ops \<Rightarrow> u8 list \<Rightarrow> u8 \<Rightarrow> u8 \<Rightarrow> bool" where
  "uncontended_serializable_transaction_commits ord W ks key v =
     (let (tx, d) = Db_begin_serializable Db_new
      in (case get_each d tx ks of None \<Rightarrow> False | Some tx \<Rightarrow>
         let tx = Transaction_put tx [key] [v]
         in (case Transaction_commit ord MemoryStore W d tx of (Inl _, _) \<Rightarrow> False | (Inr _, _) \<Rightarrow> True)))"

definition serializable_read_only_always_commits :: "hash_order \<Rightarrow> 'w wal_ops \<Rightarrow> u8 list \<Rightarrow> bool" where
  "serializable_read_only_always_commits ord W ks =
     (let (seed, d) = Db_begin Db_new;
          seed = Transaction_put seed [0] [9]
      in (case Transaction_commit ord MemoryStore W d seed of (Inl _, _) \<Rightarrow> False | (Inr _, d) \<Rightarrow>
         let (tx, d) = Db_begin_serializable d
         in (case get_each d tx ks of None \<Rightarrow> False | Some snapshot_tx \<Rightarrow>
         let (writer, d) = Db_begin d;
             writer = Transaction_put writer [0] [5]
         in (case Transaction_commit ord MemoryStore W d writer of (Inl _, _) \<Rightarrow> False | (Inr _, d) \<Rightarrow>
         (case Transaction_commit ord MemoryStore W d snapshot_tx of (Inl _, _) \<Rightarrow> False | (Inr _, _) \<Rightarrow> True)))))"

subsection \<open>gc.rs, its second test\<close>

definition gc_with_no_reader_keeps_only_the_newest_value :: "hash_order \<Rightarrow> 'w wal_ops \<Rightarrow> u8 list \<Rightarrow> bool" where
  "gc_with_no_reader_keeps_only_the_newest_value ord W vals =
     (case put_each ord W vals Db_new of
        None \<Rightarrow> False
      | Some d \<Rightarrow>
          (let (_, d) = Db_collect_garbage MemoryStore d;
               (snap, d) = Db_snapshot d
           in Snapshot_get MemoryStore d snap (lit ''k'') = Inr (Some [last vals])))"

section \<open>Lemmas\<close>

lemma read_key_get: "read_key d k = (first_byte (fst (Db_get MemoryStore d [k])), snd (Db_get MemoryStore d [k]))"
  by (simp add: read_key_def Db_get_def split_beta)

lemma keys_read_model:
  assumes "quiet wf_store store_hist d {#}" "\<And>k. latest (store_hist (in_store d) k) = as_bytes m k"
  shows "keys_read ks m d"
  using assms
proof (induction ks arbitrary: d)
  case (Cons k ks)
  note g = after_get [OF Cons.prems(1), of "[k]"]
  have "keys_read ks m (snd (Db_get MemoryStore d [k]))"
    using Cons.IH [OF g(1)] Cons.prems(2) g(2) by simp
  then show ?case
    by (simp add: read_key_get mem.quiet_get [OF Cons.prems(1)] Cons.prems(2) first_byte_as_bytes)
qed simp

lemma put_all_facts:
  "tx_ok tx \<Longrightarrow> tx_ok (put_all tx kvs)" "active (put_all tx kvs) = active tx" "reads (put_all tx kvs) = reads tx"
  "map_of (writes (put_all tx kvs)) k =
     (case map_of (rev kvs) k of Some v \<Rightarrow> Some (Some v) | None \<Rightarrow> map_of (writes tx) k)"
  unfolding put_all_def
  by (induction kvs arbitrary: tx)
    (auto simp: tx_ok_put split: option.split, simp_all add: Transaction_put_def map_add_def split: option.splits)

text \<open>A transaction of puts committed on a quiet database, empty or not.\<close>

lemma quiet_put_all:
  fixes W :: "'w wal_ops"
  assumes q: "quiet wf_store store_hist d M" and room: "oracle_room (in_oracle d)" and ord: "hash_order_ok ord"
    and log: "in_log d = None"
  obtains ts d' where
    "Transaction_commit ord MemoryStore W (snd (Db_begin d)) (put_all (fst (Db_begin d)) kvs) = (Inr ts, d')"
    "quiet wf_store store_hist d' M" "in_log d' = None"
    "unat (next_ts (in_oracle d')) \<le> Suc (unat (next_ts (in_oracle d)))"
    "\<And>k. latest (store_hist (in_store d') k) =
       (case map_of (rev kvs) k of Some v \<Rightarrow> Some v | None \<Rightarrow> latest (store_hist (in_store d) k))"
proof -
  let ?tx = "put_all (fst (Db_begin d)) kvs"
  have tx: "tx_ok ?tx" "active ?tx = active (fst (Db_begin d))"
    by (rule put_all_facts(1), simp add: tx_ok_def) (rule put_all_facts(2))
  have own: "own_version t ?tx k = (case map_of (rev kvs) k of Some v \<Rightarrow> [\<lparr>commit_ts = t, val = Some v\<rparr>] | None \<Rightarrow> [])" for t k
    by (simp add: own_version_def put_all_facts(4) split: option.split)
  show thesis
  proof (cases "writes ?tx = []")
    case True
    have none: "map_of (rev kvs) k = None" for k
      using put_all_facts(4) [of "fst (Db_begin d)" kvs k] True by (simp split: option.splits)
    let ?a = "active (fst (Db_begin d))" and ?d = "ActiveReader_drop (snd (Db_begin d)) (active (fst (Db_begin d)))"
    have "quiet wf_store store_hist ?d M" using q by (rule quiet_begin_drop)
    then show thesis
      using True log none tx(2)
      by (intro that [of "active_read_ts ?a" ?d])
        (simp_all add: Transaction_commit_def ActiveReader_drop_eq, simp_all add: Db_begin_def)
  next
    case False
    obtain d' where "Transaction_commit ord MemoryStore W (snd (Db_begin d)) ?tx = (Inr (next_commit d), d')"
      "in_log d' = None" "quiet wf_store store_hist d' M" "next_ts (in_oracle d') = next_ts (in_oracle d) + 1"
      "\<And>k. store_hist (in_store d') k = store_hist (in_store d) k @ own_version (next_commit d) ?tx k"
      by (rule mem.quiet_begin_commit [OF q room ord log tx(1) False tx(2), where W = W]) blast
    then show thesis
      by (intro that [of "next_commit d" d'])
        (simp_all add: own unat_word_ariths latest_append latest_def split: option.split)
  qed
qed

text \<open>Puts of a later transaction are not seen by a snapshot.\<close>

lemma churn_stable:
  fixes W :: "'w wal_ops"
  assumes "quiet wf_store store_hist d {#r#}" "unat (next_ts (in_oracle d)) + length kvs < 2 ^ 64" "hash_order_ok ord"
    "in_log d = None"
  shows "\<exists>d'. churn_puts ord W kvs d = Some d' \<and> quiet wf_store store_hist d' {#r#}
    \<and> (\<forall>k. read_at (store_hist (in_store d') k) r = read_at (store_hist (in_store d) k) r)"
  using assms
proof (induction kvs arbitrary: d)
  case (Cons kv kvs)
  obtain k v where kv: "kv = (k, v)" by (cases kv)
  let ?tx = "Transaction_put (fst (Db_begin d)) [k] [v]"
  have room: "oracle_room (in_oracle d)" using Cons.prems(2) by (intro room_for [of _ "length kvs"]) simp
  have tx: "tx_ok ?tx" "writes ?tx \<noteq> []" "active ?tx = active (fst (Db_begin d))" by (simp_all add: tx_ok_def)
  obtain d1 where d1: "Transaction_commit ord MemoryStore W (snd (Db_begin d)) ?tx = (Inr (next_commit d), d1)"
    "in_log d1 = None" "quiet wf_store store_hist d1 {#r#}" "next_ts (in_oracle d1) = next_ts (in_oracle d) + 1"
    "\<And>a. store_hist (in_store d1) a = store_hist (in_store d) a @ own_version (next_commit d) ?tx a"
    by (rule mem.quiet_begin_commit [OF Cons.prems(1) room Cons.prems(3,4) tx, where W = W]) blast
  have "r < next_commit d" using db_ok_reader [OF Cons.prems(1)] by simp
  then have same: "read_at (store_hist (in_store d1) a) r = read_at (store_hist (in_store d) a) r" for a
    by (simp add: d1(5) read_at_append_newer own_version_ts)
  have "unat (next_ts (in_oracle d1)) + length kvs < 2 ^ 64"
    using Cons.prems(2) by (simp add: d1(4) unat_word_ariths)
  from Cons.IH [OF d1(3) this Cons.prems(3) d1(2)] show ?case by (simp add: kv split_beta d1(1) same)
qed auto

lemma get_each_keeps:
  "\<exists>tx'. get_each d tx ks = Some tx' \<and> writes tx' = writes tx \<and> active tx' = active tx
     \<and> read_set tx' \<subseteq> read_set tx \<union> (\<lambda>k. [k]) ` set ks \<and> (reads tx' = None \<longleftrightarrow> reads tx = None)"
proof (induction ks arbitrary: tx)
  case (Cons k ks)
  obtain v tx1 where tx1: "Transaction_get MemoryStore d tx [k] = (Inr v, tx1)" "writes tx1 = writes tx" "active tx1 = active tx"
    "read_set tx1 \<subseteq> insert [k] (read_set tx)" "reads tx1 = None \<longleftrightarrow> reads tx = None"
    by (cases "reads tx"; cases "map_of (writes tx) [k]")
      (auto simp: Transaction_get_def MemoryStore_def MemoryStore_get_def read_set_def)
  obtain tx' where "get_each d tx1 ks = Some tx'" "writes tx' = writes tx1" "active tx' = active tx1"
    "read_set tx' \<subseteq> read_set tx1 \<union> (\<lambda>k. [k]) ` set ks" "reads tx' = None \<longleftrightarrow> reads tx1 = None"
    using Cons [of tx1] by auto
  with tx1 show ?case by (intro exI [of _ tx']) (simp, blast)
qed (simp add: read_set_def)

section \<open>The tests\<close>

lemma committed_state_run:
  fixes W :: "'w wal_ops"
  assumes "hash_order_ok ord" "length ops < 2 ^ 64 - 1"
  shows "committed_state_matches_reference_model ord W ops"
proof -
  have n: "unat (next_ts (in_oracle (Db_new :: (memory_store, 'w) db))) + length (map step_of ops) < 2 ^ 64"
    using assms(2) by (simp add: Db_new_def Db_with_store_def Inner_new_def Oracle_new_def)
  obtain d pins where d: "run_steps ord MemoryStore W (map step_of ops) Db_new [] = Some (d, pins)"
    "matches wf_store store_hist (fold model_step (map step_of ops) (\<lambda>_. None, [])) d pins"
    using mem.matches_steps [OF matches_Db_new n assms(1), of W] by blast
  have none: "snd (fold model_step (map step_of ops) (m, [])) = []" for m
  proof (induction ops arbitrary: m)
    case (Cons op ops)
    then show ?case by (cases op) simp_all
  qed simp
  then have "pins = []" using d(2) by (simp add: matches_def)
  then have "keys_read ISOLATION_KEYS (fst (model_run (map step_of ops))) d"
    using d(2) by (intro keys_read_model) (simp_all add: matches_def model_run_def)
  then show ?thesis by (simp add: committed_state_matches_reference_model_def d(1))
qed

lemma stable_run:
  fixes W :: "'w wal_ops"
  assumes "hash_order_ok ord" "length churn < 2 ^ 64 - 2"
  shows "snapshot_is_stable_under_later_commits ord W base churn"
proof -
  let ?kvs = "map (\<lambda>(k, v). ([k], [v])) base" and ?new = "Db_new :: (memory_store, 'w) db"
  obtain ts d where d: "Transaction_commit ord MemoryStore W (snd (Db_begin ?new)) (put_all (fst (Db_begin ?new)) ?kvs) = (Inr ts, d)"
    "quiet wf_store store_hist d {#}" "in_log d = None" "unat (next_ts (in_oracle d)) \<le> Suc (unat (next_ts (in_oracle ?new)))"
    "\<And>k. latest (store_hist (in_store d) k) =
       (case map_of (rev ?kvs) k of Some v \<Rightarrow> Some v | None \<Rightarrow> latest (store_hist (in_store ?new) k))"
    by (rule quiet_put_all [OF quiet_Db_new room_Db_new(1) assms(1) room_Db_new(2), where W = W and kvs = ?kvs]) blast
  let ?r = "Oracle_read_ts (in_oracle d)"
  let ?snap = "\<lparr>snap_active = \<lparr>active_read_ts = ?r\<rparr>\<rparr>" and ?e = "snd (Db_begin d)"
  have q: "quiet wf_store store_hist ?e {#?r#}" using quiet_begin [OF d(2), of False] by (simp add: Db_begin_def)
  have same: "in_store ?e = in_store d" "in_log ?e = None" "next_ts (in_oracle ?e) = next_ts (in_oracle d)"
    using d(3) by (simp_all add: Db_begin_def)
  have "unat (next_ts (in_oracle ?e)) + length churn < 2 ^ 64"
    using d(4) assms(2) by (simp add: same(3)) (simp add: Db_new_def Db_with_store_def Inner_new_def Oracle_new_def)
  from churn_stable [OF q this assms(1) same(2), of W] obtain d' where d': "churn_puts ord W churn ?e = Some d'"
    "quiet wf_store store_hist d' {#?r#}"
    "\<And>k. read_at (store_hist (in_store d') k) ?r = read_at (store_hist (in_store ?e) k) ?r"
    by blast
  have "Snapshot_get MemoryStore d' ?snap [k] = Snapshot_get MemoryStore ?e ?snap [k]" for k
    by (simp add: mem.snapshot_get_hist [OF q] mem.snapshot_get_hist [OF d'(2)] d'(3))
  then have stable: "observed_by d' ?snap = observed_by ?e ?snap" by (simp add: observed_by_def)
  have "\<exists>b. first_byte (Snapshot_get MemoryStore ?e ?snap [k]) = Some b" for k
  proof -
    have "Snapshot_get MemoryStore ?e ?snap [k] = Inr (latest (store_hist (in_store d) [k]))"
      using mem.quiet_no_change [OF d(2)]
      by (simp add: mem.snapshot_get_hist [OF q] same(1) unchanged_read_latest)
    moreover have "latest (store_hist (in_store ?new) [k]) = None"
      by (simp add: Db_new_def Db_with_store_def Inner_new_def store_hist_new latest_def)
    ultimately show ?thesis
      using d(5) [of "[k]"] by (auto simp: first_byte_def split: option.splits dest!: map_of_SomeD)
  qed
  then obtain f where "\<And>k. first_byte (Snapshot_get MemoryStore ?e ?snap [k]) = Some (f k)" by metis
  then have "observed_by ?e ?snap = Some (map f ISOLATION_KEYS)"
    unfolding observed_by_def by (intro collect_some_map)
  then show ?thesis
    by (simp add: snapshot_is_stable_under_later_commits_def split_beta Let_def d(1) Snapshot_new_eq d'(1) stable)
qed

text \<open>Two transactions begun on the new database.\<close>

lemma two_begun:
  fixes b :: bool
  defines "e1 \<equiv> snd (Transaction_new (Db_new :: (memory_store, 'w) db) b)"
  defines "e2 \<equiv> snd (Transaction_new e1 b)"
  shows "quiet wf_store store_hist e2 {#ZERO, ZERO#}" "in_log e2 = None" "unat (next_ts (in_oracle e2)) + 2 < 2 ^ 64"
    "store_hist (in_store e2) k = []"
    "fst (Transaction_new (Db_new :: (memory_store, 'w) db) b) = \<lparr>active = \<lparr>active_read_ts = ZERO\<rparr>, writes = [], reads = if b then Some [] else None\<rparr>"
    "fst (Transaction_new e1 b) = \<lparr>active = \<lparr>active_read_ts = ZERO\<rparr>, writes = [], reads = if b then Some [] else None\<rparr>"
proof -
  have zero: "Oracle_read_ts (in_oracle (Db_new :: (memory_store, 'w) db)) = ZERO"
    by (simp add: Db_new_def Db_with_store_def Inner_new_def Oracle_new_def Oracle_read_ts_def ZERO_def from_raw_def)
  then show "quiet wf_store store_hist e2 {#ZERO, ZERO#}"
    using quiet_begin [OF quiet_begin [OF quiet_Db_new [where 'a = 'w], of b], of b] by (simp add: e1_def e2_def)
  show "in_log e2 = None" "unat (next_ts (in_oracle e2)) + 2 < 2 ^ 64" "store_hist (in_store e2) k = []"
    by (simp_all add: e1_def e2_def Db_new_def Db_with_store_def Inner_new_def Oracle_new_def store_hist_new)
  show "fst (Transaction_new (Db_new :: (memory_store, 'w) db) b) = \<lparr>active = \<lparr>active_read_ts = ZERO\<rparr>, writes = [], reads = if b then Some [] else None\<rparr>"
    "fst (Transaction_new e1 b) = \<lparr>active = \<lparr>active_read_ts = ZERO\<rparr>, writes = [], reads = if b then Some [] else None\<rparr>"
    using zero by (simp_all add: e1_def) (simp_all add: Transaction_new_eq)
qed

lemma conflict_test_run:
  fixes W :: "'w wal_ops"
  assumes ord: "hash_order_ok ord"
  shows "write_write_conflict_aborts_the_later_committer ord W k v1 v2"
proof -
  note new = two_begun [where b = False and 'w = 'w]
  let ?t = "\<lparr>active = \<lparr>active_read_ts = ZERO\<rparr>, writes = [], reads = if False then Some [] else None\<rparr>"
  let ?a = "Transaction_put ?t [k] [v1]" and ?b = "Transaction_put ?t [k] [v2]"
  have tx: "tx_ok ?a" "writes ?a \<noteq> []" "Transaction_read_timestamp ?a = ZERO"
    "tx_ok ?b" "writes ?b \<noteq> []" "Transaction_read_timestamp ?b = ZERO"
    by (simp_all add: tx_ok_def Transaction_read_timestamp_def)
  obtain d1 r2 d2 n where d:
    "Transaction_commit ord MemoryStore W (snd (Transaction_new (snd (Transaction_new Db_new False)) False)) ?a
       = (Inr (next_commit (snd (Transaction_new (snd (Transaction_new (Db_new :: (memory_store, 'w) db) False)) False))), d1)"
    "Transaction_commit ord MemoryStore W d1 ?b = (r2, d2)" "quiet wf_store store_hist d2 {#}" "r2 = Inl (conflict n)"
    "latest (store_hist (in_store d2) [k]) = Some [v1]"
  proof (rule two_commits [OF new(1,3) ord new(2) _ tx, where W = W], goal_cases)
    case (2 d1 r2 d2)
    have "watched ?b \<inter> dom (map_of (writes ?a)) \<noteq> {}" by (simp add: watched_def)
    then obtain n where "r2 = Inl (conflict n)" "in_store d2 = in_store d1" using 2(6) by auto
    moreover have "latest (store_hist (in_store d1) [k]) = Some [v1]" by (simp add: 2(5) own_version_def latest_def)
    ultimately show ?case using 2(1) [of d1 r2 d2 n] 2(2-4) by simp
  next
    case (1 a)
    then show ?case unfolding new(4) by simp
  qed
  have "fst (read_key d2 k) = Some (Some v1)"
    by (simp add: read_key_get mem.quiet_get [OF d(3)] d(5) first_byte_def)
  then show ?thesis
    using d(1,2,4) new(5,6)
    by (simp add: write_write_conflict_aborts_the_later_committer_def Db_begin_def Let_def split_beta conflict_def)
qed

lemma own_writes_run: "transaction_reads_its_own_pending_writes TYPE('w) k v"
proof -
  let ?d = "Db_new :: (memory_store, 'w) db"
  have "fst (Transaction_get MemoryStore (snd (Db_begin ?d)) (fst (Db_begin ?d)) [k]) = Inr None"
    using mem.quiet_begin_get [OF quiet_Db_new [where 'a = 'w], of "[k]"]
    by (simp add: Db_new_def Db_with_store_def Inner_new_def store_hist_new latest_def)
  moreover have "Transaction_get MemoryStore d (Transaction_put tx [k] [v]) [k] = (Inr (Some [v]), Transaction_put tx [k] [v])"
    "fst (Transaction_get MemoryStore d (Transaction_delete tx [k]) [k]) = Inr None" for d :: "(memory_store, 'w) db" and tx
    by (simp_all add: Transaction_get_def Transaction_put_def Transaction_delete_def)
  ultimately show ?thesis
    by (simp add: transaction_reads_its_own_pending_writes_def split_beta Let_def first_byte_def)
qed

lemma disjoint_test_run:
  fixes W :: "'w wal_ops"
  assumes ord: "hash_order_ok ord" and ab: "a \<noteq> b"
  shows "disjoint_serializable_transactions_both_commit ord W a b va vb"
proof -
  note new = two_begun [where b = True and 'w = 'w]
  let ?t = "\<lparr>active = \<lparr>active_read_ts = ZERO\<rparr>, writes = [], reads = if True then Some [] else None\<rparr>"
  let ?e = "snd (Transaction_new (snd (Transaction_new (Db_new :: (memory_store, 'w) db) True)) True)"
  have t: "writes ?t = []" "active ?t = \<lparr>active_read_ts = ZERO\<rparr>" "read_set ?t = {}" by (simp_all add: read_set_def)
  obtain t1 t2 where g: "get_each ?e ?t [a] = Some t1" "writes t1 = []" "active t1 = \<lparr>active_read_ts = ZERO\<rparr>"
    "get_each ?e ?t [b] = Some t2" "writes t2 = []" "active t2 = \<lparr>active_read_ts = ZERO\<rparr>" "read_set t2 \<subseteq> {[b]}"
    using get_each_keeps [of ?e ?t "[a]"] get_each_keeps [of ?e ?t "[b]"] unfolding t by auto
  let ?a = "Transaction_put t1 [a] [va]" and ?b = "Transaction_put t2 [b] [vb]"
  have tx: "tx_ok ?a" "writes ?a \<noteq> []" "Transaction_read_timestamp ?a = ZERO"
    "tx_ok ?b" "writes ?b \<noteq> []" "Transaction_read_timestamp ?b = ZERO"
    by (simp_all add: tx_ok_def Transaction_read_timestamp_def g)
  have "watched ?b \<inter> dom (map_of (writes ?a)) = {}" using ab g by (auto simp: watched_def read_set_def)
  moreover have "\<not> changed_since (store_hist (in_store ?e) k) ZERO" for k unfolding new(4) by simp
  ultimately obtain d1 ts1 ts2 d2 where "Transaction_commit ord MemoryStore W ?e ?a = (Inr ts1, d1)"
    "Transaction_commit ord MemoryStore W d1 ?b = (Inr ts2, d2)"
    using two_commits [OF new(1,3) ord new(2) _ tx, where W = W] by (smt (verit))
  then show ?thesis
    using g(1,4) new(5,6)
    by (simp add: disjoint_serializable_transactions_both_commit_def Db_begin_serializable_def Let_def split_beta del: get_each.simps)
qed

lemma uncontended_run:
  fixes W :: "'w wal_ops"
  assumes ord: "hash_order_ok ord"
  shows "uncontended_serializable_transaction_commits ord W ks key v"
proof -
  let ?new = "Db_new :: (memory_store, 'w) db"
  have ser: "snd (Db_begin_serializable ?new) = snd (Db_begin ?new)"
    "active (fst (Db_begin_serializable ?new)) = active (fst (Db_begin ?new))" "writes (fst (Db_begin_serializable ?new)) = []"
    by (simp_all add: Db_begin_serializable_def Db_begin_def Transaction_new_eq)
  obtain t where t: "get_each (snd (Db_begin ?new)) (fst (Db_begin_serializable ?new)) ks = Some t" "writes t = []"
    "active t = active (fst (Db_begin ?new))"
    using get_each_keeps [of "snd (Db_begin ?new)" "fst (Db_begin_serializable ?new)" ks] ser by auto
  let ?tx = "Transaction_put t [key] [v]"
  have tx: "tx_ok ?tx" "writes ?tx \<noteq> []" "active ?tx = active (fst (Db_begin ?new))" by (simp_all add: tx_ok_def t)
  obtain d where "Transaction_commit ord MemoryStore W (snd (Db_begin ?new)) ?tx = (Inr (next_commit ?new), d)"
    by (rule mem.quiet_begin_commit [OF quiet_Db_new room_Db_new(1) ord room_Db_new(2) tx, where W = W]) blast
  with t(1) show ?thesis by (simp add: uncontended_serializable_transaction_commits_def split_beta Let_def ser)
qed

lemma read_only_test_run:
  fixes W :: "'w wal_ops"
  assumes ord: "hash_order_ok ord"
  shows "serializable_read_only_always_commits ord W ks"
proof -
  let ?new = "Db_new :: (memory_store, 'w) db"
  obtain d where d: "Transaction_commit ord MemoryStore W (snd (Db_begin ?new)) (Transaction_put (fst (Db_begin ?new)) [0] [9])
      = (Inr (next_commit ?new), d)" "quiet wf_store store_hist d {#}" "in_log d = None"
    "next_ts (in_oracle d) = next_ts (in_oracle ?new) + 1"
    by (rule commit_put [OF quiet_Db_new room_Db_new(1) ord room_Db_new(2), where W = W]) blast
  let ?e = "snd (Db_begin_serializable d)" and ?t = "fst (Db_begin_serializable d)"
  obtain t where t: "get_each ?e ?t ks = Some t" "writes t = []"
    using get_each_keeps [of ?e ?t ks] by (auto simp: Db_begin_serializable_def Transaction_new_eq)
  have q: "quiet wf_store store_hist ?e {#Oracle_read_ts (in_oracle d)#}" and same: "in_log ?e = None" "next_ts (in_oracle ?e) = 2"
    using quiet_begin [OF d(2), of True] d(3,4)
    by (simp_all add: Db_begin_serializable_def) (simp_all add: Db_new_def Db_with_store_def Inner_new_def Oracle_new_def)
  let ?w = "Transaction_put (fst (Db_begin ?e)) [0] [5]"
  have w: "tx_ok ?w" "writes ?w \<noteq> []" "active ?w = active (fst (Db_begin ?e))" by (simp_all add: tx_ok_def)
  have room: "oracle_room (in_oracle ?e)" using same(2) by (simp add: oracle_room_def)
  obtain d2 where "Transaction_commit ord MemoryStore W (snd (Db_begin ?e)) ?w = (Inr (next_commit ?e), d2)"
    by (rule mem.quiet_begin_commit [OF q room ord same(1) w, where W = W]) blast
  then show ?thesis
    by (simp add: serializable_read_only_always_commits_def split_beta Let_def d(1) t) (simp add: Transaction_commit_def t(2))
qed

lemma newest_value_run:
  assumes "hash_order_ok ord" "vals \<noteq> []" "length vals < 2 ^ 64 - 1"
  shows "gc_with_no_reader_keeps_only_the_newest_value ord W vals"
proof -
  obtain d s where d: "put_each ord W vals Db_new = Some d"
    "Db_collect_garbage MemoryStore d = (length vals - 1, d\<lparr>in_store := s\<rparr>)"
    "quiet wf_store store_hist (d\<lparr>in_store := s\<rparr>) {#}" "latest (store_hist s (lit ''k'')) = Some [last vals]"
    by (rule put_each_collect [OF assms, of W])
  from mem.quiet_get [OF d(3), of "lit ''k''"] show ?thesis
    by (simp add: gc_with_no_reader_keeps_only_the_newest_value_def d(1,2,4) split_beta) (simp add: Db_get_def split_beta d(4))
qed

end
