(* ===== verification/Hardening_Tests.thy ===== *)
theory Hardening_Tests
  imports Integration_Tests
begin

text \<open>
  The tests of \<open>src/tests/durability.rs\<close>, over any log that behaves as documented and whose file is
  empty at first, and the single-threaded ones of \<open>src/tests/adversarial.rs\<close>. \<open>durable_run\<close> opens the
  file and runs the steps; a temporary directory is the parameter \<open>path\<close>.
\<close>

section \<open>Definitions\<close>

subsection \<open>durability.rs\<close>

abbreviation first_bytes :: "nat \<Rightarrow> u8 list" where
  "first_bytes n \<equiv> map word_of_nat [0..<n]"

definition test_committed_transactions_survive_reopen :: "hash_order \<Rightarrow> 'w wal_ops \<Rightarrow> 'w \<Rightarrow> bool" where
  "test_committed_transactions_survive_reopen ord W path =
     (case durable_run ord W path (map (\<lambda>i. Durable_Put i (i * 3)) (first_bytes 16) @ [Durable_Reopen]) of
        None \<Rightarrow> False
      | Some d \<Rightarrow> keys_read (first_bytes 16) (\<lambda>i. Some (i * 3)) d)"

definition test_uncommitted_work_is_not_durable :: "hash_order \<Rightarrow> 'w wal_ops \<Rightarrow> 'w \<Rightarrow> bool" where
  "test_uncommitted_work_is_not_durable ord W path =
     (case durable_run ord W path [Durable_Put 1 10, Durable_Abandon 2 20, Durable_Abandon 3 30, Durable_Reopen] of
        None \<Rightarrow> False
      | Some d \<Rightarrow> keys_read [1, 2, 3] (\<lambda>k. if k = 1 then Some 10 else None) d)"

definition test_tombstones_survive_reopen :: "hash_order \<Rightarrow> 'w wal_ops \<Rightarrow> 'w \<Rightarrow> bool" where
  "test_tombstones_survive_reopen ord W path =
     (case durable_run ord W path [Durable_Put 7 99, Durable_Delete 7, Durable_Reopen] of
        None \<Rightarrow> False
      | Some d \<Rightarrow> keys_read [7] (\<lambda>_. None) d)"

definition test_timestamps_continue_after_recovery :: "hash_order \<Rightarrow> 'w wal_ops \<Rightarrow> 'w \<Rightarrow> bool" where
  "test_timestamps_continue_after_recovery ord W path =
     (case durable_run ord W path [Durable_Put 1 1, Durable_Put 2 2] of
        None \<Rightarrow> False
      | Some d \<Rightarrow>
          (let latest_ts = Db_last_committed d
           in latest_ts > ZERO
             \<and> (case Db_open W (left_behind path d) of
                  Inl _ \<Rightarrow> False
                | Inr d \<Rightarrow>
                    Db_last_committed d = latest_ts
                    \<and> (let (tx, d) = Db_begin d;
                           tx = Transaction_put tx [3] [3]
                       in case Transaction_commit ord MemoryStore W d tx of
                            (Inl _, _) \<Rightarrow> False
                          | (Inr ts2, _) \<Rightarrow> ts2 > latest_ts))))"

definition test_reopen_empty_log_is_empty_database :: "hash_order \<Rightarrow> 'w wal_ops \<Rightarrow> 'w \<Rightarrow> bool" where
  "test_reopen_empty_log_is_empty_database ord W path =
     (case durable_run ord W path [] of
        None \<Rightarrow> False
      | Some d \<Rightarrow> Db_last_committed d = ZERO \<and> keys_read [0] (\<lambda>_. None) d)"

text \<open>The loop that finds the length of the prefix, then the check that the rest is absent.\<close>

fun clean_prefix :: "u8 list \<Rightarrow> (memory_store, 'w) db \<Rightarrow> bool" where
  "clean_prefix [] d = True"
| "clean_prefix (k # ks) d =
     (case read_key d k of
        (None, _) \<Rightarrow> False
      | (Some found, d) \<Rightarrow>
          (if found = Some (k + 1) then clean_prefix ks d else keys_read (k # ks) (\<lambda>_. None) d))"

text \<open>The first session; \<open>remnant\<close> is the copy of its file that is cut short.\<close>

definition numbered_session :: "hash_order \<Rightarrow> 'w wal_ops \<Rightarrow> 'w \<Rightarrow> nat \<Rightarrow> 'w option" where
  "numbered_session ord W path n =
     map_option (left_behind path) (durable_run ord W path (map (\<lambda>i. Durable_Put i (i + 1)) (first_bytes n)))"

definition recovery_from_truncated_log_is_a_clean_prefix :: "'w wal_ops \<Rightarrow> nat \<Rightarrow> 'w \<Rightarrow> bool" where
  "recovery_from_truncated_log_is_a_clean_prefix W n remnant =
     (case Db_open W remnant of
        Inl _ \<Rightarrow> False
      | Inr recovered \<Rightarrow> clean_prefix (first_bytes n) recovered)"

subsection \<open>adversarial.rs\<close>

text \<open>\<open>snap.get(key).unwrap()\<close> for each of the keys, compared with what is expected.\<close>

definition snapshot_reads :: "(memory_store, 'w) db \<Rightarrow> snapshot \<Rightarrow> (bytes \<times> bytes) list \<Rightarrow> bool" where
  "snapshot_reads d snap kvs \<longleftrightarrow> list_all (\<lambda>(k, v). Snapshot_get MemoryStore d snap k = Inr (Some v)) kvs"

abbreviation number_key :: "nat \<Rightarrow> bytes" where
  "number_key i \<equiv> u32_to_le_bytes (word_of_nat i)"

definition very_large_transaction :: "hash_order \<Rightarrow> 'w wal_ops \<Rightarrow> nat \<Rightarrow> bool" where
  "very_large_transaction ord W n =
     (let (tx, d) = Db_begin Db_new;
          tx = put_all tx (map (\<lambda>i. (number_key i, number_key i)) [0..<n])
      in (case Transaction_commit ord MemoryStore W d tx of
           (Inl _, _) \<Rightarrow> False
         | (Inr _, d) \<Rightarrow>
         let (snap, d) = Db_snapshot d
         in snapshot_reads d snap (map (\<lambda>i. (number_key i, number_key i)) [0, 1, n div 2, n - 1])
           \<and> (let (tx, d) = Db_begin d;
                  tx = put_all tx (map (\<lambda>i. (number_key i, u32_to_le_bytes (- 1))) (filter even [0..<n]))
              in (case Transaction_commit ord MemoryStore W d tx of
                   (Inl _, _) \<Rightarrow> False
                 | (Inr _, d) \<Rightarrow>
                 let (snap, d) = Db_snapshot d
                 in snapshot_reads d snap [(number_key 0, u32_to_le_bytes (- 1)), (number_key 1, number_key 1)]))))"

definition edge_case_key_and_value_sizes :: "hash_order \<Rightarrow> 'w wal_ops \<Rightarrow> bool" where
  "edge_case_key_and_value_sizes ord W =
     (let big_value = replicate (2 ^ 20) 0xAB;
          big_key = replicate 4096 0x5A;
          (tx, d) = Db_begin Db_new;
          tx = put_all tx [([], lit ''empty-key''), (lit ''empty-value'', []), (big_key, big_value)]
      in (case Transaction_commit ord MemoryStore W d tx of
           (Inl _, _) \<Rightarrow> False
         | (Inr _, d) \<Rightarrow>
         let (snap, d) = Db_snapshot d
         in Snapshot_get MemoryStore d snap [] = Inr (Some (lit ''empty-key''))
           \<and> Snapshot_get MemoryStore d snap (lit ''empty-value'') = Inr (Some [])
           \<and> (case Snapshot_get MemoryStore d snap big_key of
                Inr (Some v) \<Rightarrow> length v = length big_value
              | _ \<Rightarrow> False)))"

section \<open>Lemmas\<close>

lemma keys_read_cong: "(\<And>k. k \<in> set ks \<Longrightarrow> f k = g k) \<Longrightarrow> keys_read ks f d \<longleftrightarrow> keys_read ks g d"
  by (induction ks arbitrary: d) simp_all

text \<open>A durable run and what its database then reads.\<close>

lemma durable_run_reads:
  fixes W :: "'w wal_ops"
  assumes "hash_order_ok ord" "wal_appends W" "wal_syncs W" "wal_reopens W" "wal_holds W path []" "length ss < 2 ^ 64 - 3"
  obtains d where "durable_run ord W path ss = Some d" "quiet wf_store store_hist d {#}"
    "\<And>ks expected. (\<And>k. k \<in> set ks \<Longrightarrow> model_of (committed_writes ss) k = expected k) \<Longrightarrow> keys_read ks expected d"
proof -
  obtain d cs where d: "durable_run ord W path ss = Some d" "durable_inv W (committed_writes ss) cs d"
    using durable_run_inv [OF assms] by blast
  have q: "quiet wf_store store_hist d {#}" using d(2) by (simp add: durable_inv_def)
  have l: "latest (store_hist (in_store d) k) = as_bytes (model_of (committed_writes ss)) k" for k
    using durable_get [OF d(2), of k] mem.quiet_get [OF q, of k] by simp
  show thesis
    by (rule that [OF d(1) q]) (use keys_read_model [OF q l] keys_read_cong in blast)
qed

lemma committed_writes_puts: "committed_writes (map (\<lambda>i. Durable_Put i (f i)) ks @ ss) = map (\<lambda>i. (i, Some (f i))) ks @ committed_writes ss"
  by (induction ks) simp_all

lemma model_of_puts: "model_of (map (\<lambda>i. (i, Some (f i))) ks) k = (if k \<in> set ks then Some (f k) else None)"
  by (induction ks rule: rev_induct) (auto simp: model_of_snoc, simp add: model_of_def)

lemma survive_run:
  assumes "hash_order_ok ord" "wal_appends W" "wal_syncs W" "wal_reopens W" "wal_holds W path []"
  shows "test_committed_transactions_survive_reopen ord W path"
proof -
  let ?ss = "map (\<lambda>i. Durable_Put i (i * 3)) (first_bytes 16) @ [Durable_Reopen]"
  have n: "length ?ss < 2 ^ 64 - 3" by simp
  have m: "model_of (committed_writes ?ss) k = Some (k * 3)" if "k \<in> set (first_bytes 16)" for k
    using that by (simp only: committed_writes_puts model_of_puts committed_writes.simps append_Nil2 if_True)
  show ?thesis
  proof (rule durable_run_reads [OF assms n], goal_cases)
    case (1 d)
    from 1(3) [OF m] have "keys_read (first_bytes 16) (\<lambda>i. Some (i * 3)) d" .
    with 1(1) show ?case unfolding test_committed_transactions_survive_reopen_def by simp
  qed
qed

lemma uncommitted_run:
  assumes "hash_order_ok ord" "wal_appends W" "wal_syncs W" "wal_reopens W" "wal_holds W path []"
  shows "test_uncommitted_work_is_not_durable ord W path" "test_tombstones_survive_reopen ord W path"
proof -
  show "test_uncommitted_work_is_not_durable ord W path"
    unfolding test_uncommitted_work_is_not_durable_def
    by (rule durable_run_reads [OF assms, of "[Durable_Put 1 10, Durable_Abandon 2 20, Durable_Abandon 3 30, Durable_Reopen]"])
      (auto simp: model_of_def simp del: keys_read.simps)
  show "test_tombstones_survive_reopen ord W path"
    unfolding test_tombstones_survive_reopen_def
    by (rule durable_run_reads [OF assms, of "[Durable_Put 7 99, Durable_Delete 7, Durable_Reopen]"])
      (auto simp: model_of_def simp del: keys_read.simps)
qed

text \<open>A fresh durable database: its watermark is zero and its first timestamp is one.\<close>

lemma durable_fresh:
  fixes W :: "'w wal_ops"
  assumes "wal_reopens W" "wal_holds W path []"
  obtains d where "Db_open W path = Inr d" "quiet wf_store store_hist d {#}" "log_agrees W store_hist d []"
    "Db_last_committed d = ZERO" "next_ts (in_oracle d) = 1"
proof -
  have p: "wal_holds W path (map record_of [])" "list_all recordable []" "\<forall>c\<in>set []. rc_commit_ts c \<noteq> Timestamp (- 1)"
    using assms(2) by simp_all
  obtain log d where d: "Db_open W path = Inr d" "in_log d = Some log" "wal_holds W (wal log) (map record_of [])"
    "quiet wf_store store_hist d {#}" "\<forall>k. store_hist (in_store d) k = recovered_hist (sort_key rc_commit_ts []) k"
    by (rule open_spec [OF assms(1) p]) blast
  then show thesis
    using open_watermark [OF assms(1) p(1,2) d(1)]
    by (intro that [of d]) (simp_all add: ZERO_def log_agrees_def Db_last_committed_def Inner_read_ts_def)
qed

lemma empty_log_run:
  assumes "wal_reopens W" "wal_holds W path []"
  shows "test_reopen_empty_log_is_empty_database ord W path"
proof -
  obtain d where d: "Db_open W path = Inr d" "quiet wf_store store_hist d {#}" "log_agrees W store_hist d []"
    "Db_last_committed d = ZERO"
    by (rule durable_fresh [OF assms]) blast
  have "latest (store_hist (in_store d) k) = as_bytes (\<lambda>_. None) k" for k
    using d(3) by (simp add: log_agrees_def as_bytes_empty latest_def)
  from keys_read_model [OF d(2) this, of "[0]"] show ?thesis
    by (simp add: test_reopen_empty_log_is_empty_database_def durable_run_def d(1,4) del: keys_read.simps)
qed

text \<open>One more durable commit of a byte, with the timestamp it gets.\<close>

lemma durable_put_ts:
  fixes W :: "'w wal_ops"
  assumes q: "quiet wf_store store_hist d {#}" and room: "oracle_room (in_oracle d)" and ord: "hash_order_ok ord"
    and ag: "log_agrees W store_hist d cs" and W: "wal_appends W" "wal_syncs W"
  obtains d' c where "Transaction_commit ord MemoryStore W (snd (Db_begin d)) (Transaction_put (fst (Db_begin d)) [k] [v]) =
      (Inr (next_commit d), d')" "quiet wf_store store_hist d' {#}" "log_agrees W store_hist d' (cs @ [c])"
    "rc_commit_ts c = next_commit d" "next_ts (in_oracle d') = next_ts (in_oracle d) + 1"
proof -
  let ?tx = "Transaction_put (fst (Db_begin d)) [k] [v]"
  have tx: "tx_ok ?tx" "writes ?tx \<noteq> []" "active ?tx = active (fst (Db_begin d))" by (simp_all add: tx_ok_def)
  have fits: "tx_fits ?tx"
    by (simp add: tx_fits_def batch_fits_def entry_fits_def encode_for_log_def encode_write_def)
  show thesis
    by (rule logged_commit [OF q room ord ag W tx fits])
      (rule that [of _ "\<lparr>rc_commit_ts = next_commit d, rc_writes = order_writes ord (writes ?tx)\<rparr>"], simp_all)
qed

lemma continue_run:
  fixes W :: "'w wal_ops"
  assumes ord: "hash_order_ok ord" and W: "wal_appends W" "wal_syncs W" "wal_reopens W" "wal_holds W path []"
  shows "test_timestamps_continue_after_recovery ord W path"
proof -
  obtain d where d: "Db_open W path = Inr d" "quiet wf_store store_hist d {#}" "log_agrees W store_hist d []"
    "next_ts (in_oracle d) = 1"
    by (rule durable_fresh [OF W(3,4)]) blast
  have r: "oracle_room (in_oracle d)" using d(4) by (simp add: oracle_room_def)
  obtain d1 c1 where d1: "Transaction_commit ord MemoryStore W (snd (Db_begin d)) (Transaction_put (fst (Db_begin d)) [1] [1]) =
      (Inr (next_commit d), d1)" "quiet wf_store store_hist d1 {#}" "log_agrees W store_hist d1 ([] @ [c1])"
    "rc_commit_ts c1 = next_commit d" "next_ts (in_oracle d1) = next_ts (in_oracle d) + 1"
    by (rule durable_put_ts [OF d(2) r ord d(3) W(1,2)])
  have r1: "oracle_room (in_oracle d1)" using d(4) d1(5) by (simp add: oracle_room_def)
  obtain d2 c2 where d2: "Transaction_commit ord MemoryStore W (snd (Db_begin d1)) (Transaction_put (fst (Db_begin d1)) [2] [2]) =
      (Inr (next_commit d1), d2)" "quiet wf_store store_hist d2 {#}" "log_agrees W store_hist d2 (([] @ [c1]) @ [c2])"
    "rc_commit_ts c2 = next_commit d1" "next_ts (in_oracle d2) = next_ts (in_oracle d1) + 1"
    by (rule durable_put_ts [OF d1(2) r1 ord d1(3) W(1,2)])
  have ts: "rc_commit_ts c1 = Timestamp 1" "rc_commit_ts c2 = Timestamp 2" "next_ts (in_oracle d2) = 3"
    using d(4) d1(4,5) d2(4,5) by (simp_all add: from_raw_def)
  have lt: "ZERO < Timestamp 2" "Timestamp 1 < Timestamp 2" "ZERO \<le> Timestamp 1" "Timestamp 1 \<le> Timestamp 2" "Timestamp 2 < Timestamp 3"
    by (simp_all add: ZERO_def less_timestamp_def less_eq_timestamp_def)
  have last: "Db_last_committed d2 = Timestamp 2"
    using mem.quiet_read_ts [OF d2(2)] by (simp add: Db_last_committed_def Inner_read_ts_def ts(3) from_raw_def)
  have top: "foldl max ZERO (map rc_commit_ts (sort_key rc_commit_ts [c1, c2])) = Timestamp 2"
    using lt by (simp add: ts max_def)
  obtain e where e: "Db_open W (left_behind path d2) = Inr e" "quiet wf_store store_hist e {#}"
    "log_agrees W store_hist e (([] @ [c1]) @ [c2])" "Oracle_read_ts (in_oracle e) = Timestamp 2" "next_ts (in_oracle e) = 3"
    using reopen_left_behind [OF d2(3) W(3), of path] top by (auto simp: ts)
  have re: "oracle_room (in_oracle e)" using e(5) by (simp add: oracle_room_def)
  obtain e' where e': "Transaction_commit ord MemoryStore W (snd (Db_begin e)) (Transaction_put (fst (Db_begin e)) [3] [3]) =
      (Inr (Timestamp 3), e')"
    using durable_put_ts [OF e(2) re ord e(3) W(1,2)] e(5) by (metis from_raw_def)
  have run: "durable_run ord W path [Durable_Put 1 1, Durable_Put 2 2] = Some d2"
    by (simp add: durable_run_def d(1) split_beta d1(1) d2(1))
  have "Db_last_committed e = Timestamp 2" by (simp add: Db_last_committed_def Inner_read_ts_def e(4))
  then show ?thesis
    by (simp add: test_timestamps_continue_after_recovery_def run last lt e(1) split_beta Let_def e')
qed

text \<open>What is left of a log of numbered commits.\<close>

lemma clean_prefix_run:
  assumes "quiet wf_store store_hist d {#}" "\<And>k. latest (store_hist (in_store d) k) = as_bytes m k"
    "\<And>k. k \<in> set ks \<Longrightarrow> m k = Some (k + 1)" "\<And>k. k \<in> set ks' \<Longrightarrow> m k = None"
  shows "clean_prefix (ks @ ks') d"
  using assms
proof (induction ks arbitrary: d)
  case Nil
  show ?case
  proof (cases ks')
    case (Cons k ls)
    obtain e where e: "read_key d k = (Some None, e)"
      using Nil(4) [of k] by (simp add: read_key_get mem.quiet_get [OF Nil(1)] Nil(2) first_byte_as_bytes Cons)
    then have "quiet wf_store store_hist e {#}" "in_store e = in_store d"
      using after_get [OF Nil(1), of "[k]"] by (auto simp: read_key_get)
    then have "keys_read ks' m e" by (intro keys_read_model) (simp_all add: Nil(2))
    then have "keys_read ks' (\<lambda>_. None) e" using keys_read_cong Nil(4) by metis
    then show ?thesis unfolding Cons by (simp add: e del: keys_read.simps)
  qed simp
next
  case (Cons k ks)
  note g = after_get [OF Cons.prems(1), of "[k]"]
  have "clean_prefix (ks @ ks') (snd (Db_get MemoryStore d [k]))"
    using Cons.prems g(1,2) by (intro Cons.IH) simp_all
  then show ?case
    using Cons.prems(3) [of k]
    by (simp add: read_key_get mem.quiet_get [OF Cons.prems(1)] Cons.prems(2) first_byte_as_bytes)
qed

lemma first_bytes_split: "m \<le> n \<Longrightarrow> first_bytes n = take m (first_bytes n) @ drop m (first_bytes n)"
  by simp

lemma distinct_first_bytes: "n \<le> 256 \<Longrightarrow> distinct (first_bytes n)"
  by (auto simp: distinct_map inj_on_def word_of_nat_eq_iff take_bit_eq_mod)

lemma truncated_run:
  fixes W :: "'w wal_ops"
  assumes pre: "hash_order_ok ord" "wal_appends W" "wal_syncs W" "wal_reopens W" "wal_holds W path []" and n: "n \<le> 256"
    and cut: "numbered_session ord W path n = Some path'" "wal_iter W path' = Inr recs" "wal_iter W remnant = Inr (take m recs)"
  shows "recovery_from_truncated_log_is_a_clean_prefix W n remnant"
proof -
  let ?ss = "map (\<lambda>i. Durable_Put i (i + 1)) (first_bytes n)"
  have len: "length ?ss < 2 ^ 64 - 3" using n by simp
  obtain d where d: "durable_run ord W path ?ss = Some d" "path' = left_behind path d"
    using cut(1) by (auto simp: numbered_session_def)
  have ws: "committed_writes ?ss = map (\<lambda>i. (i, Some (i + 1))) (first_bytes n)"
    using committed_writes_puts [of "\<lambda>i. i + 1" "first_bytes n" "[]"] by simp
  have m: "model_of (take m (committed_writes ?ss)) k = (if k \<in> set (take m (first_bytes n)) then Some (k + 1) else None)" for k
    unfolding ws take_map by (rule model_of_puts)
  have off: "set (take m (first_bytes n)) \<inter> set (drop m (first_bytes n)) = {}"
    using distinct_first_bytes [OF n] by (metis append_take_drop_id distinct_append)
  show ?thesis
  proof (rule truncated_open(2) [OF pre len d(1) cut(2) [unfolded d(2)] cut(3)], goal_cases)
    case (1 e)
    have "clean_prefix (take m (first_bytes n) @ drop m (first_bytes n)) e"
      by (rule clean_prefix_run [OF 1(2,3)]) (use off in \<open>auto simp only: m split: if_splits\<close>)
    then show ?case unfolding append_take_drop_id by (simp add: recovery_from_truncated_log_is_a_clean_prefix_def 1(1))
  qed
qed

lemma numbered_session_ends:
  assumes "hash_order_ok ord" "wal_appends W" "wal_syncs W" "wal_reopens W" "wal_holds W path []" "n \<le> 256"
  shows "numbered_session ord W path n \<noteq> None"
proof -
  have "length (map (\<lambda>i. Durable_Put i (i + 1)) (first_bytes n)) < 2 ^ 64 - 3" using assms(6) by simp
  from durable_run_inv [OF assms(1-5) this] show ?thesis by (auto simp: numbered_session_def)
qed

text \<open>A transaction of puts on a quiet database, and the snapshot taken after it.\<close>

lemma put_all_snapshot:
  fixes W :: "'w wal_ops"
  assumes q: "quiet wf_store store_hist d M" and room: "oracle_room (in_oracle d)" and ord: "hash_order_ok ord"
    and log: "in_log d = None"
  obtains ts d1 d2 snap M' where
    "Transaction_commit ord MemoryStore W (snd (Db_begin d)) (put_all (fst (Db_begin d)) kvs) = (Inr ts, d1)"
    "Db_snapshot d1 = (snap, d2)" "quiet wf_store store_hist d2 M'" "in_log d2 = None"
    "unat (next_ts (in_oracle d2)) \<le> Suc (unat (next_ts (in_oracle d)))"
    "\<And>k. latest (store_hist (in_store d2) k) =
       (case map_of (rev kvs) k of Some v \<Rightarrow> Some v | None \<Rightarrow> latest (store_hist (in_store d) k))"
    "\<And>k. Snapshot_get MemoryStore d2 snap k = Inr (latest (store_hist (in_store d2) k))"
proof -
  obtain ts d1 where d1:
    "Transaction_commit ord MemoryStore W (snd (Db_begin d)) (put_all (fst (Db_begin d)) kvs) = (Inr ts, d1)"
    "quiet wf_store store_hist d1 M" "in_log d1 = None"
    "unat (next_ts (in_oracle d1)) \<le> Suc (unat (next_ts (in_oracle d)))"
    "\<And>k. latest (store_hist (in_store d1) k) =
       (case map_of (rev kvs) k of Some v \<Rightarrow> Some v | None \<Rightarrow> latest (store_hist (in_store d) k))"
    by (rule quiet_put_all [OF q room ord log, where kvs = kvs and W = W]) blast
  let ?r = "Oracle_read_ts (in_oracle d1)"
  let ?snap = "\<lparr>snap_active = \<lparr>active_read_ts = ?r\<rparr>\<rparr>" and ?e = "snd (Db_begin d1)"
  have e: "quiet wf_store store_hist ?e (add_mset ?r M)" "in_store ?e = in_store d1" "in_log ?e = None"
    "next_ts (in_oracle ?e) = next_ts (in_oracle d1)"
    using quiet_begin [OF d1(2), of False] d1(3) by (simp_all add: Db_begin_def)
  have "Snapshot_get MemoryStore ?e ?snap k = Inr (latest (store_hist (in_store ?e) k))" for k
    using mem.quiet_no_change [OF d1(2)] by (simp add: mem.snapshot_get_hist [OF e(1)] e(2) unchanged_read_latest)
  then show thesis
    using d1 e by (intro that [OF d1(1) Snapshot_new_eq e(1)]) simp_all
qed

lemma new_reads_nothing: "latest (store_hist (in_store (Db_new :: (memory_store, 'w) db)) k) = None"
  by (simp add: Db_new_def Db_with_store_def Inner_new_def store_hist_new latest_def)

lemma edge_case_run:
  fixes W :: "'w wal_ops"
  assumes ord: "hash_order_ok ord"
  shows "edge_case_key_and_value_sizes ord W"
proof -
  let ?new = "Db_new :: (memory_store, 'w) db"
  define big_value where "big_value = replicate (2 ^ 20) (0xAB :: u8)"
  define big_key where "big_key = replicate 4096 (0x5A :: u8)"
  let ?kvs = "[([], lit ''empty-key''), (lit ''empty-value'', []), (big_key, big_value)]"
  have "length big_key = 4096" by (simp add: big_key_def)
  then have ne: "big_key \<noteq> []" "big_key \<noteq> lit ''empty-value''" by (auto simp: lit_def)
  have ne': "lit ''empty-value'' \<noteq> []" by (simp add: lit_def)
  obtain ts d1 d2 snap M' where d:
    "Transaction_commit ord MemoryStore W (snd (Db_begin ?new)) (put_all (fst (Db_begin ?new)) ?kvs) = (Inr ts, d1)"
    "Db_snapshot d1 = (snap, d2)"
    "\<And>k. latest (store_hist (in_store d2) k) =
       (case map_of (rev ?kvs) k of Some v \<Rightarrow> Some v | None \<Rightarrow> latest (store_hist (in_store ?new) k))"
    "\<And>k. Snapshot_get MemoryStore d2 snap k = Inr (latest (store_hist (in_store d2) k))"
    by (rule put_all_snapshot [OF quiet_Db_new room_Db_new(1) ord room_Db_new(2), where kvs = ?kvs and W = W]) blast
  have "Snapshot_get MemoryStore d2 snap [] = Inr (Some (lit ''empty-key''))"
    "Snapshot_get MemoryStore d2 snap (lit ''empty-value'') = Inr (Some [])"
    "Snapshot_get MemoryStore d2 snap big_key = Inr (Some big_value)"
    using ne ne' by (simp_all add: d(3,4))
  then show ?thesis
    unfolding edge_case_key_and_value_sizes_def Let_def big_value_def [symmetric] big_key_def [symmetric] split_beta
    by (simp add: d(1,2))
qed

text \<open>Numbered keys and values.\<close>

lemma number_key_eq:
  assumes "i < 2 ^ 32" "j < 2 ^ 32"
  shows "number_key i = number_key j \<longleftrightarrow> i = j"
proof
  assume "number_key i = number_key j"
  then have "(word_of_nat i :: u32) = word_of_nat j" using u32_le_roundtrip by metis
  then show "i = j" using assms by (simp add: word_of_nat_eq_iff take_bit_eq_mod)
qed simp

lemma map_of_numbers:
  assumes "set is \<subseteq> {..<2 ^ 32}" "j < 2 ^ 32"
  shows "map_of (rev (map (\<lambda>i. (number_key i, f i)) is)) (number_key j) = (if j \<in> set is then Some (f j) else None)"
  using assms(1)
proof (induction "is")
  case (Cons i "is")
  have "i < 2 ^ 32" using Cons.prems by simp
  from number_key_eq [OF assms(2) this] Cons show ?case by (simp add: map_add_def)
qed simp

lemma very_large_run:
  fixes W :: "'w wal_ops"
  assumes ord: "hash_order_ok ord" and n: "1 < n" "n < 2 ^ 32"
  shows "very_large_transaction ord W n"
proof -
  let ?new = "Db_new :: (memory_store, 'w) db"
  let ?all = "map (\<lambda>i. (number_key i, number_key i)) [0..<n]"
  let ?evens = "map (\<lambda>i. (number_key i, u32_to_le_bytes (- 1))) (filter even [0..<n])"
  obtain ts d1 d2 snap M' where d:
    "Transaction_commit ord MemoryStore W (snd (Db_begin ?new)) (put_all (fst (Db_begin ?new)) ?all) = (Inr ts, d1)"
    "Db_snapshot d1 = (snap, d2)" "quiet wf_store store_hist d2 M'" "in_log d2 = None"
    "unat (next_ts (in_oracle d2)) \<le> Suc (unat (next_ts (in_oracle ?new)))"
    "\<And>k. latest (store_hist (in_store d2) k) =
       (case map_of (rev ?all) k of Some v \<Rightarrow> Some v | None \<Rightarrow> latest (store_hist (in_store ?new) k))"
    "\<And>k. Snapshot_get MemoryStore d2 snap k = Inr (latest (store_hist (in_store d2) k))"
    by (rule put_all_snapshot [OF quiet_Db_new room_Db_new(1) ord room_Db_new(2), where kvs = ?all and W = W]) blast
  have le: "set [0..<n] \<subseteq> {..<2 ^ 32}" "set (filter even [0..<n]) \<subseteq> {..<2 ^ 32}" using n(2) by auto
  have small: "i < 2 ^ 32" if "i < n" for i using that n(2) by (rule less_trans)
  have got: "latest (store_hist (in_store d2) (number_key i)) = Some (number_key i)" if "i < n" for i
    unfolding d(6) map_of_numbers [OF le(1) small [OF that]] using that by simp
  have "unat (next_ts (in_oracle d2)) + Suc 0 < 2 ^ 64"
    using d(5) by (simp add: Db_new_def Db_with_store_def Inner_new_def Oracle_new_def)
  then have room: "oracle_room (in_oracle d2)" by (rule room_for)
  obtain ts' e1 e2 snap' M'' where e:
    "Transaction_commit ord MemoryStore W (snd (Db_begin d2)) (put_all (fst (Db_begin d2)) ?evens) = (Inr ts', e1)"
    "Db_snapshot e1 = (snap', e2)"
    "\<And>k. latest (store_hist (in_store e2) k) =
       (case map_of (rev ?evens) k of Some v \<Rightarrow> Some v | None \<Rightarrow> latest (store_hist (in_store d2) k))"
    "\<And>k. Snapshot_get MemoryStore e2 snap' k = Inr (latest (store_hist (in_store e2) k))"
    by (rule put_all_snapshot [OF d(3) room ord d(4), where kvs = ?evens and W = W]) blast
  have "latest (store_hist (in_store e2) (number_key i)) = Some (if even i then u32_to_le_bytes (- 1) else number_key i)"
    if "i < n" for i
    unfolding e(3) map_of_numbers [OF le(2) small [OF that]] using that got [OF that] by simp
  from this [of 0] this [of 1] n(1) have "snapshot_reads e2 snap' [(number_key 0, u32_to_le_bytes (- 1)), (number_key 1, number_key 1)]"
    by (simp add: snapshot_reads_def e(4))
  moreover have "snapshot_reads d2 snap (map (\<lambda>i. (number_key i, number_key i)) [0, 1, n div 2, n - 1])"
    using n(1) got [of 0] got [of 1] got [of "n div 2"] got [of "n - 1"] by (simp add: snapshot_reads_def d(7))
  ultimately show ?thesis
    unfolding very_large_transaction_def Let_def split_beta by (simp add: d(1,2) e(1,2))
qed

section \<open>Properties\<close>

text \<open>The single-threaded integration tests pass, for every input they may be given and every order in which
  a commit iterates over its buffers.\<close>

theorem isolation_tests_pass:
  fixes W :: "'w wal_ops"
  assumes "hash_order_ok ord" "length ops < 2 ^ 64 - 1" "length churn < 2 ^ 64 - 2" "x \<noteq> y"
  shows "committed_state_matches_reference_model ord W ops \<and> snapshot_is_stable_under_later_commits ord W base churn
    \<and> write_write_conflict_aborts_the_later_committer ord W x v w \<and> transaction_reads_its_own_pending_writes TYPE('w) x v
    \<and> write_skew_never_lets_both_commit ord W x y v w \<and> disjoint_serializable_transactions_both_commit ord W x y v w
    \<and> uncontended_serializable_transaction_commits ord W ks x v \<and> serializable_read_only_always_commits ord W ks
    \<and> (ops' \<noteq> [] \<and> length ops' < 2 ^ 64 - 1 \<longrightarrow> gc_with_no_reader_keeps_only_the_newest_value ord W ops')
    \<and> edge_case_key_and_value_sizes ord W \<and> very_large_transaction ord W 20000"
  using assms skew_runs(1) [OF assms(1), of "[x]" "[y]" v w W]
  by (simp add: committed_state_run stable_run conflict_test_run own_writes_run disjoint_test_run uncontended_run
      read_only_test_run newest_value_run edge_case_run very_large_run write_skew_never_lets_both_commit_def)

theorem isolation_tests_pass_witness:
  "write_skew_never_lets_both_commit demo_order list_wal 1 2 7 8 \<and> gc_with_no_reader_keeps_only_the_newest_value demo_order list_wal [1, 2]"
  using isolation_tests_pass [OF demo_order_ok, of "[]" "[]" 1 2 list_wal "[]" 7 8 "[]" "[1, 2]"] by simp

theorem durability_tests_pass:
  assumes "hash_order_ok ord" "wal_appends W" "wal_syncs W" "wal_reopens W" "wal_holds W path []"
  shows "test_committed_transactions_survive_reopen ord W path \<and> test_uncommitted_work_is_not_durable ord W path
    \<and> test_tombstones_survive_reopen ord W path \<and> test_timestamps_continue_after_recovery ord W path
    \<and> test_reopen_empty_log_is_empty_database ord W path
    \<and> (\<forall>n\<le>256. \<exists>path'. numbered_session ord W path n = Some path'
        \<and> (\<forall>recs m remnant. wal_iter W path' = Inr recs \<longrightarrow> wal_iter W remnant = Inr (take m recs) \<longrightarrow>
             recovery_from_truncated_log_is_a_clean_prefix W n remnant))"
  using assms numbered_session_ends [OF assms] truncated_run [OF assms]
  by (simp add: survive_run uncommitted_run continue_run empty_log_run) blast

theorem durability_tests_pass_witness:
  "test_timestamps_continue_after_recovery demo_order list_wal [] \<and> test_tombstones_survive_reopen demo_order list_wal []"
proof -
  have "wal_syncs list_wal" "wal_holds list_wal [] []" by (simp_all add: wal_syncs_def)
  from durability_tests_pass [OF demo_order_ok list_wal_ok(1) this(1) list_wal_ok(2) this(2)] show ?thesis by blast
qed

end
