(* ===== verification/Doc_Examples.thy ===== *)
theory Doc_Examples
  imports Integration_Tests
begin

text \<open>
  The crate root \<open>src/src/lib.rs\<close>: it declares the modules and re-exports their types, and its
  documentation holds three programs that are compiled and run as tests. They are translated here as
  written; a \<open>?\<close> that returns early, a failed assertion or an \<open>unwrap_err\<close> of a success is \<open>False\<close>.
\<close>

section \<open>Definitions\<close>

text \<open>The common case: two keys in one transaction, read by a later one.\<close>

definition doc_common_case :: "hash_order \<Rightarrow> 'w wal_ops \<Rightarrow> bool" where
  "doc_common_case ord W =
     (let (tx, d) = Db_begin Db_new;
          tx = Transaction_put tx (lit ''user:1:name'') (lit ''ada'');
          tx = Transaction_put tx (lit ''user:1:role'') (lit ''admin'')
      in (case Transaction_commit ord MemoryStore W d tx of
           (Inl _, _) \<Rightarrow> False
         | (Inr _, d) \<Rightarrow>
         let (tx, d) = Db_begin d
         in fst (Transaction_get MemoryStore d tx (lit ''user:1:name'')) = Inr (Some (lit ''ada''))))"

text \<open>Snapshot isolation: the first of two committers wins, the second is told to retry.\<close>

definition doc_first_committer_wins :: "hash_order \<Rightarrow> 'w wal_ops \<Rightarrow> bool" where
  "doc_first_committer_wins ord W =
     (let (a, d) = Db_begin Db_new;
          (b, d) = Db_begin d;
          a = Transaction_put a (lit ''counter'') (lit ''1'');
          b = Transaction_put b (lit ''counter'') (lit ''2'')
      in (case Transaction_commit ord MemoryStore W d a of
           (Inl _, _) \<Rightarrow> False
         | (Inr _, d) \<Rightarrow>
         (case Transaction_commit ord MemoryStore W d b of
           (Inr _, _) \<Rightarrow> False
         | (Inl err, _) \<Rightarrow> is_retryable err)))"

text \<open>The prelude.\<close>

definition doc_prelude :: "hash_order \<Rightarrow> 'w wal_ops \<Rightarrow> bool" where
  "doc_prelude ord W =
     (let (tx, d) = Db_begin Db_new;
          tx = Transaction_put tx (lit ''k'') (lit ''v'')
      in case Transaction_commit ord MemoryStore W d tx of (Inl _, _) \<Rightarrow> False | (Inr ts, _) \<Rightarrow> True)"

section \<open>Properties\<close>

lemma doc_common_case_run:
  fixes W :: "'w wal_ops"
  assumes ord: "hash_order_ok ord"
  shows "doc_common_case ord W"
proof -
  let ?new = "Db_new :: (memory_store, 'w) db"
  have ne: "lit ''user:1:name'' \<noteq> lit ''user:1:role''" by (simp add: lit_def)
  obtain d where d: "Transaction_commit ord MemoryStore W (snd (Db_begin ?new))
      (Transaction_put (Transaction_put (fst (Db_begin ?new)) (lit ''user:1:name'') (lit ''ada'')) (lit ''user:1:role'') (lit ''admin''))
        = (Inr (next_commit ?new), d)" "quiet wf_store store_hist d {#}"
    "\<And>a. store_hist (in_store d) a = store_hist (in_store ?new) a @
       (if a = lit ''user:1:name'' then [\<lparr>commit_ts = next_commit ?new, val = Some (lit ''ada'')\<rparr>]
        else if a = lit ''user:1:role'' then [\<lparr>commit_ts = next_commit ?new, val = Some (lit ''admin'')\<rparr>] else [])"
    by (rule mem.quiet_put_two [OF quiet_Db_new room_Db_new(1) ord room_Db_new(2) ne, where W = W]) blast
  show ?thesis
    by (simp add: doc_common_case_def split_beta Let_def d(1) mem.quiet_begin_get [OF d(2)] d(3) latest_def)
qed

text \<open>The documentation's programs do what they assert, for every order in which a commit iterates over its
  buffer.\<close>

theorem doc_examples_run:
  assumes "hash_order_ok ord"
  shows "doc_common_case ord W \<and> doc_first_committer_wins ord W \<and> doc_prelude ord W"
proof -
  have "doc_first_committer_wins ord W = doc_first_committer_wins demo_order W" "doc_prelude ord W = doc_prelude demo_order W"
    unfolding doc_first_committer_wins_def doc_prelude_def
    by (simp_all add: commit_few [OF assms] Let_def split_beta cong: sum.case_cong)
  moreover have "doc_first_committer_wins demo_order W" "doc_prelude demo_order W"
    unfolding doc_first_committer_wins_def doc_prelude_def Let_def split_beta by code_simp+
  ultimately show ?thesis using doc_common_case_run [OF assms] by simp
qed

theorem doc_examples_run_witness: "doc_common_case demo_order list_wal \<and> doc_prelude demo_order list_wal"
  using doc_examples_run [OF demo_order_ok, of list_wal] by blast

end
