(* ===== verification/Timestamp_Limits.thy ===== *)
theory Timestamp_Limits
  imports Durability
begin

text \<open>
  The end of the timestamp space. \<open>Oracle::recovered\<close> (\<open>src/src/oracle.rs\<close>) hands out the highest
  recovered timestamp plus one, in a release build with wrap-around; \<open>Db::open\<close> accepts a log with
  a record at \<open>u64::MAX\<close>. The properties of the other theories exclude that timestamp; here is
  what the code does with it.
\<close>

section \<open>A coordinator at the end\<close>

text \<open>The oracle when the highest recovered timestamp is the last one, and after one commit.\<close>

lemma Oracle_recovered_last:
  "next_ts (Oracle_recovered (Timestamp (- 1))) = 0" "Oracle_read_ts (Oracle_recovered (Timestamp (- 1))) = Timestamp (- 1)"
  by (simp_all add: Oracle_recovered_def Oracle_read_ts_def from_raw_def Let_def)

lemma commit_done_wraps:
  assumes "pending orc = \<lparr>done_upto = - 1, ahead = {}\<rparr>"
  shows "Oracle_read_ts (commit_done orc ZERO) = ZERO"
  using assms by (simp add: commit_done_def ZERO_def advance.simps Oracle_read_ts_def from_raw_def Let_def)

lemma read_ts_frame:
  "Oracle_read_ts (snd (alloc_commit_ts orc)) = Oracle_read_ts orc" "pending (snd (alloc_commit_ts orc)) = pending orc"
  "pending (snd (begin_reader orc)) = pending orc" "Oracle_read_ts (snd (begin_reader orc)) = Oracle_read_ts orc"
  "next_ts (snd (begin_reader orc)) = next_ts orc" "Oracle_read_ts (end_reader orc t) = Oracle_read_ts orc"
  by (simp_all add: alloc_commit_ts_def begin_reader_def Oracle_read_ts_def Let_def end_reader_def split: option.split)

text \<open>A read of a well-formed store at the watermark, in whatever state the oracle is.\<close>

lemma Db_get_wf:
  assumes "wf_store (in_store d)"
  shows "fst (Db_get MemoryStore d k) = Inr (read_at (store_hist (in_store d) k) (Oracle_read_ts (in_oracle d)))"
  using mem.get_law [OF assms] by (simp add: inner_defs begin_reader_def Oracle_read_ts_def Let_def)

lemma read_at_top: "read_at h (Timestamp (- 1)) = latest h"
  by (rule unchanged_read_latest) (simp add: changed_since_def less_timestamp_def)

lemma read_at_first:
  assumes "\<forall>v\<in>set h. commit_ts v \<noteq> ZERO"
  shows "read_at h ZERO = None"
proof -
  have "t \<le> ZERO \<longleftrightarrow> t = ZERO" for t by (cases t) (simp add: ZERO_def less_eq_timestamp_def)
  then show ?thesis using assms by (simp add: read_at_def visible_version_def filter_empty_conv)
qed

text \<open>The first put of a new key on such a coordinator.\<close>

lemma put_wraps:
  assumes d: "d = Inner_recovered s (Oracle_recovered (Timestamp (- 1))) log" and wf: "wf_store s"
    and new: "store_hist s k = []" and ord: "hash_order_ok ord" and W: "wal_syncs W"
  obtains d' where "Db_put ord MemoryStore W d k v = Some (Inr ZERO, d')" "Db_last_committed d' = ZERO"
    "wf_store (in_store d')"
    "\<And>a. store_hist (in_store d') a = store_hist s a @ (if a = k then [\<lparr>commit_ts = ZERO, val = Some v\<rparr>] else [])"
proof -
  let ?b = "snd (Db_begin d)" and ?tx = "Transaction_put (fst (Db_begin d)) k v"
  let ?s = "push k \<lparr>commit_ts = ZERO, val = Some v\<rparr> s"
  have d0: "in_store d = s" "in_log d = Some log" "next_ts (in_oracle d) = 0"
    "Oracle_read_ts (in_oracle d) = Timestamp (- 1)" "pending (in_oracle d) = \<lparr>done_upto = - 1, ahead = {}\<rparr>"
    unfolding d by (simp_all add: Inner_recovered_def Oracle_recovered_last) (simp add: Oracle_recovered_def Let_def)
  have tx: "writes ?tx = [(k, Some v)]" "commit_reads ord ?tx = []" "active_read_ts (active ?tx) = Timestamp (- 1)"
    by (simp_all add: Db_begin_def Transaction_new_eq Transaction_put_def commit_reads_def d0)
  have b: "in_store ?b = s" "in_log ?b = Some log" "next_ts (in_oracle ?b) = 0"
    "pending (in_oracle ?b) = \<lparr>done_upto = - 1, ahead = {}\<rparr>"
    by (simp_all add: Db_begin_def Transaction_new_eq d0 read_ts_frame)
  have ws: "order_writes ord [(k, Some v)] = [(k, Some v)]"
    using ord by (metis hash_order_ok_def mset_single_iff mset_single_iff_right mset.simps mset_zero_iff)
  obtain lsn w where app: "wal_append_and_sync W (wal log) (encode_for_log ZERO [(k, Some v)]) = (Inr lsn, w)"
    using W unfolding wal_syncs_def by metis
  have s': "vs_try_commit MemoryStore s r ZERO [(k, Some v)] [] = (Inr (), ?s)" for r
    using new by (simp add: MemoryStore_def MemoryStore_try_commit_ref [OF wf] try_commit_ref_def)
  define d1 where "d1 = done_step ZERO (alloc_step ?b\<lparr>in_store := ?s, in_log := Some (log\<lparr>wal := w\<rparr>)\<rparr>)"
  have "commit_writes MemoryStore W ?b (Timestamp (- 1)) [(k, Some v)] [] = (Inr ZERO, d1)"
    using app s' b by (simp add: commit_writes_def alloc_commit_ts_def d1_def append_committed_def ZERO_def from_raw_def)
  then have "Transaction_commit ord MemoryStore W ?b ?tx = (Inr ZERO, ActiveReader_drop d1 (active ?tx))"
    by (simp add: Transaction_commit_def tx ws Let_def)
  then have put: "Db_put ord MemoryStore W d k v = Some (Inr ZERO, ActiveReader_drop d1 (active ?tx))"
    by (simp add: Db_put.simps)
  have "Oracle_read_ts (in_oracle d1) = ZERO"
    unfolding d1_def using b(4) by (simp add: commit_done_wraps read_ts_frame)
  then have "Db_last_committed (ActiveReader_drop d1 (active ?tx)) = ZERO"
    by (simp add: Db_last_committed_def Inner_read_ts_def ActiveReader_drop_eq read_ts_frame)
  moreover have "wf_store ?s" using wf new by (intro wf_store_push) simp_all
  moreover have "store_hist ?s a = store_hist s a @ (if a = k then [\<lparr>commit_ts = ZERO, val = Some v\<rparr>] else [])" for a
    using wf by (simp add: store_hist_push)
  moreover have "in_store (ActiveReader_drop d1 (active ?tx)) = ?s" by (simp add: d1_def ActiveReader_drop_eq)
  ultimately show thesis
    using put by (intro that [of "ActiveReader_drop d1 (active ?tx)"]) (simp_all only:)
qed

section \<open>Properties\<close>

text \<open>C36. A log with a record at the last timestamp, and none at timestamp 0, opens, and reads as it should,
  but the next commit is given timestamp 0 and moves the watermark back to it: after one put of a new
  key whose append succeeds, every key the log had recovered reads as absent.\<close>

theorem recovered_maximum_wraps:
  assumes "wal_reopens W" "wal_syncs W" "wal_holds W path (map record_of cs)" "list_all recordable cs"
    "\<exists>c\<in>set cs. rc_commit_ts c = Timestamp (- 1)" "\<forall>c\<in>set cs. rc_commit_ts c \<noteq> ZERO"
    "hash_order_ok ord" "recovered_hist (sort_key rc_commit_ts cs) k = []"
  shows "\<exists>d d'. Db_open W path = Inr d \<and> Db_last_committed d = Timestamp (- 1)
    \<and> (\<forall>a. fst (Db_get MemoryStore d a) = Inr (latest (recovered_hist (sort_key rc_commit_ts cs) a)))
    \<and> Db_put ord MemoryStore W d k v = Some (Inr ZERO, d') \<and> Db_last_committed d' = ZERO
    \<and> (\<forall>a. fst (Db_get MemoryStore d' a) = Inr (if a = k then Some v else None))"
proof -
  let ?h = "recovered_hist (sort_key rc_commit_ts cs)"
  obtain log s h where op: "Db_open W path = Inr (Inner_recovered s (Oracle_recovered h) log)"
    "wf_store s" "\<forall>k. store_hist s k = ?h k" "\<forall>c\<in>set cs. rc_commit_ts c \<le> h"
    using open_state [OF assms(1,3,4)] by metis
  obtain c where "c \<in> set cs" "rc_commit_ts c = Timestamp (- 1)" using assms(5) by blast
  with op(4) have "Timestamp (- 1) \<le> h" by metis
  then have h: "h = Timestamp (- 1)" by (cases h) (simp add: less_eq_timestamp_def word_order.extremum_unique)
  let ?d = "Inner_recovered s (Oracle_recovered (Timestamp (- 1))) log"
  have "store_hist s k = []" using op(3) assms(8) by simp
  then obtain d' where d':
    "Db_put ord MemoryStore W ?d k v = Some (Inr ZERO, d')" "Db_last_committed d' = ZERO" "wf_store (in_store d')"
    "\<And>a. store_hist (in_store d') a = ?h a @ (if a = k then [\<lparr>commit_ts = ZERO, val = Some v\<rparr>] else [])"
    by (rule put_wraps [OF refl op(2) _ assms(7,2), where log = log and v = v]) (simp add: op(3))
  have d: "Db_last_committed ?d = Timestamp (- 1)" "in_store ?d = s" "Oracle_read_ts (in_oracle ?d) = Timestamp (- 1)"
    by (simp_all add: Inner_recovered_def Db_last_committed_def Inner_read_ts_def Oracle_recovered_last)
  have "fst (Db_get MemoryStore ?d a) = Inr (latest (?h a))" for a
    using op(2,3) by (simp add: Db_get_wf d(2,3) read_at_top)
  moreover have "\<forall>v\<in>set (?h a). commit_ts v \<noteq> ZERO" for a
    using recovered_hist_ts [of _ "sort_key rc_commit_ts cs" a] assms(6) by fastforce
  then have "fst (Db_get MemoryStore d' a) = Inr (if a = k then Some v else None)" for a
    using d'(2) assms(8) by (simp add: Db_get_wf [OF d'(3)] d'(4) Db_last_committed_def Inner_read_ts_def read_at_first)
      (simp add: read_at_def visible_version_def)
  ultimately show ?thesis using op(1) d(1) d'(1,2) unfolding h by blast
qed

text \<open>A log with one record, at the last timestamp.\<close>

theorem recovered_maximum_wraps_witness:
  "\<exists>d d'. Db_open list_wal [encode_for_log (Timestamp (- 1)) [([97], Some [1])]] = Inr d
    \<and> fst (Db_get MemoryStore d [97]) = Inr (Some [1])
    \<and> Db_put demo_order MemoryStore list_wal d [98] [2] = Some (Inr ZERO, d')
    \<and> fst (Db_get MemoryStore d' [97]) = Inr None"
proof -
  let ?cs = "[\<lparr>rc_commit_ts = Timestamp (- 1), rc_writes = [([97 :: u8], Some [1])]\<rparr>]"
  have cs: "list_all recordable ?cs" "\<forall>c\<in>set ?cs. rc_commit_ts c \<noteq> ZERO"
    "\<exists>c\<in>set ?cs. rc_commit_ts c = Timestamp (- 1)"
    by (simp_all add: recordable_def record_of_def batch_fits_def entry_fits_def encode_for_log_def encode_write_def ZERO_def)
  have hist: "recovered_hist (sort_key rc_commit_ts ?cs) [98] = []"
    "recovered_hist (sort_key rc_commit_ts ?cs) [97] = [\<lparr>commit_ts = Timestamp (- 1), val = Some [1]\<rparr>]"
    by (simp_all add: recovered_hist_def new_versions_def)
  have held_cs: "wal_holds list_wal [encode_for_log (Timestamp (- 1)) [([97], Some [1])]] (map record_of ?cs)"
    by (simp add: record_of_def)
  have W: "wal_syncs list_wal" by (simp add: wal_syncs_def)
  obtain d d' where d: "Db_open list_wal [encode_for_log (Timestamp (- 1)) [([97], Some [1])]] = Inr d"
    "\<forall>a. fst (Db_get MemoryStore d a) = Inr (latest (recovered_hist (sort_key rc_commit_ts ?cs) a))"
    "Db_put demo_order MemoryStore list_wal d [98] [2] = Some (Inr ZERO, d')"
    "\<forall>a. fst (Db_get MemoryStore d' a) = Inr (if a = [98] then Some [2] else None)"
    using recovered_maximum_wraps [OF list_wal_ok(2) W held_cs cs(1,3,2) demo_order_ok hist(1), of "[2]"] by blast
  moreover have "fst (Db_get MemoryStore d [97]) = Inr (Some [1])"
    using d(2) hist(2) by (simp add: latest_def)
  ultimately show ?thesis by (intro exI [of _ d] exI [of _ d']) simp
qed

end
