(* ===== verification/Decoder_Safety.thy ===== *)
theory Decoder_Safety
  imports Commit_Log
begin

text \<open>
  What the decoder of \<open>src/src/durable.rs\<close> asks of the machine. \<open>Commit_Log\<close> says what it returns;
  here every slice and every index is checked and every allocation counted, as the code makes them: a
  computation is \<open>None\<close> when it panics, else the number of bytes it has asked the allocator for
  together with its result. The decoder never panics, allocates in proportion to the record, and
  returns what \<open>Commit_Log\<close> says, for any bytes at all.
\<close>

section \<open>Definitions\<close>

type_synonym 'a metered = "(nat \<times> 'a result) option"

text \<open>\<open>e?\<close> followed by the rest of the function.\<close>

definition then_do :: "'a metered \<Rightarrow> ('a \<Rightarrow> 'b metered) \<Rightarrow> 'b metered" where
  "then_do m f =
     (case m of
        None \<Rightarrow> None
      | Some (n, Inl e) \<Rightarrow> Some (n, Inl e)
      | Some (n, Inr a) \<Rightarrow> map_option (\<lambda>(k, r). (n + k, r)) (f a))"

text \<open>\<open>&buf[from..to]\<close> and \<open>b[i]\<close>, which panic out of range.\<close>

definition slice_at :: "bytes \<Rightarrow> nat \<Rightarrow> nat \<Rightarrow> bytes metered" where
  "slice_at bs a b = (if a \<le> b \<and> b \<le> length bs then Some (0, Inr (take (b - a) (drop a bs))) else None)"

definition byte_at :: "bytes \<Rightarrow> nat \<Rightarrow> u8 metered" where
  "byte_at bs i = (if i < length bs then Some (0, Inr (bs ! i)) else None)"

fun bytes_at :: "bytes \<Rightarrow> nat list \<Rightarrow> bytes metered" where
  "bytes_at bs [] = Some (0, Inr [])"
| "bytes_at bs (i # is) = then_do (byte_at bs i) (\<lambda>b. then_do (bytes_at bs is) (\<lambda>c. Some (0, Inr (b # c))))"

text \<open>
  The allocations: \<open>Arc::from\<close> of a slice is two counters and the bytes, an element of the vector is
  two fat pointers, on a target with 8-byte words.
\<close>

definition ARC_HEADER :: nat where "ARC_HEADER = 16"

definition ENTRY_BYTES :: nat where "ENTRY_BYTES = 32"

definition arc_from :: "bytes \<Rightarrow> bytes metered" where
  "arc_from bs = Some (ARC_HEADER + length bs, Inr bs)"

text \<open>\<open>Vec::with_capacity\<close> panics when the capacity exceeds \<open>isize::MAX\<close> bytes.\<close>

definition with_capacity :: "nat \<Rightarrow> unit metered" where
  "with_capacity n = (if n * ENTRY_BYTES < 2 ^ 63 then Some (n * ENTRY_BYTES, Inr ()) else None)"

text \<open>\<open>self.buf.len() - self.pos\<close>, which must not underflow.\<close>

definition metered_remaining :: "reader \<Rightarrow> nat metered" where
  "metered_remaining r = (if pos r \<le> length (buf r) then Some (0, Inr (length (buf r) - pos r)) else None)"

definition metered_read_bytes :: "reader \<Rightarrow> nat \<Rightarrow> (bytes \<times> reader) metered" where
  "metered_read_bytes r len =
     (let end_pos = pos r + len
      in if end_pos < 2 ^ 64 \<and> end_pos \<le> length (buf r)
         then then_do (slice_at (buf r) (pos r) end_pos) (\<lambda>slice. Some (0, Inr (slice, r\<lparr>pos := end_pos\<rparr>)))
         else Some (0, Inl (corrupt ''record ends mid-field'')))"

definition metered_read_u8 :: "reader \<Rightarrow> (u8 \<times> reader) metered" where
  "metered_read_u8 r =
     then_do (metered_read_bytes r 1) (\<lambda>(b, r'). then_do (byte_at b 0) (\<lambda>x. Some (0, Inr (x, r'))))"

definition metered_read_u32 :: "reader \<Rightarrow> (u32 \<times> reader) metered" where
  "metered_read_u32 r =
     then_do (metered_read_bytes r 4) (\<lambda>(b, r').
     then_do (bytes_at b [0, 1, 2, 3]) (\<lambda>bs. Some (0, Inr (u32_from_le_bytes bs, r'))))"

definition metered_read_u64 :: "reader \<Rightarrow> (u64 \<times> reader) metered" where
  "metered_read_u64 r =
     then_do (metered_read_bytes r 8) (\<lambda>(b, r').
     then_do (bytes_at b [0, 1, 2, 3, 4, 5, 6, 7]) (\<lambda>bs. Some (0, Inr (u64_from_le_bytes bs, r'))))"

definition metered_decode_write :: "reader \<Rightarrow> (write_entry \<times> reader) metered" where
  "metered_decode_write r =
     then_do (metered_read_u32 r) (\<lambda>(key_len, r).
     then_do (metered_read_bytes r (unat key_len)) (\<lambda>(key_bytes, r).
     then_do (arc_from key_bytes) (\<lambda>key.
     then_do (metered_read_u8 r) (\<lambda>(tag, r).
       if tag = 0 then Some (0, Inr ((key, None), r))
       else if tag = 1 then
         then_do (metered_read_u32 r) (\<lambda>(value_len, r).
         then_do (metered_read_bytes r (unat value_len)) (\<lambda>(value_bytes, r).
         then_do (arc_from value_bytes) (\<lambda>v.
           Some (0, Inr ((key, Some v), r)))))
       else Some (0, Inl (corrupt_tag tag))))))"

fun metered_decode_writes :: "nat \<Rightarrow> reader \<Rightarrow> (write_entry list \<times> reader) metered" where
  "metered_decode_writes 0 r = Some (0, Inr ([], r))"
| "metered_decode_writes (Suc n) r =
     then_do (metered_decode_write r) (\<lambda>(w, r).
     then_do (metered_decode_writes n r) (\<lambda>(ws, r). Some (0, Inr (w # ws, r))))"

definition metered_decode_commit :: "bytes \<Rightarrow> RecoveredCommit metered" where
  "metered_decode_commit bs =
     then_do (metered_read_u8 (Reader_new bs)) (\<lambda>(version, r).
       if version \<noteq> RECORD_VERSION
       then Some (0, Inl (durability (''unsupported commit record version '' @ show_nat (unat version))))
       else
         then_do (metered_read_u64 r) (\<lambda>(ts, r).
         then_do (metered_read_u32 r) (\<lambda>(c, r).
         then_do (metered_remaining r) (\<lambda>left.
           if left div MIN_WRITE_BYTES < unat c
           then Some (0, Inl (corrupt ''write count exceeds record size''))
           else
             then_do (with_capacity (unat c)) (\<lambda>_.
             then_do (metered_decode_writes (unat c) r) (\<lambda>(writes, r).
             then_do (metered_remaining r) (\<lambda>left.
               if left \<noteq> 0
               then Some (0, Inl (corrupt ''trailing bytes after commit record''))
               else Some (0, Inr \<lparr>rc_commit_ts = from_raw ts, rc_writes = writes\<rparr>))))))))"

section \<open>Lemmas\<close>

text \<open>The metered computation does what the plain one does, with at most \<open>k\<close> bytes allocated.\<close>

definition within :: "nat \<Rightarrow> 'a metered \<Rightarrow> 'a result \<Rightarrow> bool" where
  "within k m res \<longleftrightarrow> (\<exists>n\<le>k. m = Some (n, res))"

lemma within_done [simp]: "within k (Some (0, res)) res"
  by (simp add: within_def)

lemma within_arc: "within (ARC_HEADER + length bs) (arc_from bs) (Inr bs)"
  by (simp add: within_def arc_from_def)

lemma within_mono: "within k m res \<Longrightarrow> k \<le> k' \<Longrightarrow> within k' m res"
  by (auto simp: within_def)

lemma within_then:
  assumes "within k m res" "k \<le> k'" "\<And>a. res = Inr a \<Longrightarrow> within (k' - k) (f a) (g a)"
  shows "within k' (then_do m f) (and_then res g)"
proof -
  obtain n where n: "m = Some (n, res)" "n \<le> k" using assms(1) by (auto simp: within_def)
  show ?thesis
  proof (cases res)
    case (Inl e)
    then show ?thesis using n assms(2) by (simp add: within_def then_do_def)
  next
    case (Inr a)
    then obtain j where "f a = Some (j, g a)" "j \<le> k' - k" using assms(3) by (auto simp: within_def)
    then show ?thesis using n assms(2) Inr by (simp add: within_def then_do_def)
  qed
qed

text \<open>A step that allocates nothing, and one that has no counterpart in the plain decoder.\<close>

lemma within_free:
  assumes "within 0 m res" "\<And>a. res = Inr a \<Longrightarrow> within k (f a) (g a)"
  shows "within k (then_do m f) (and_then res g)"
  using assms by (intro within_then [of 0]) simp_all

lemma within_extra:
  assumes "within k m (Inr a)" "k \<le> k'" "within (k' - k) (f a) res"
  shows "within k' (then_do m f) res"
  using within_then [of k m "Inr a" k' f "\<lambda>_. res"] assms by simp

text \<open>What a read leaves of the record.\<close>

definition consumed :: "reader \<Rightarrow> reader \<Rightarrow> nat \<Rightarrow> bool" where
  "consumed r r' n \<longleftrightarrow> wf_reader r' \<and> buf r' = buf r \<and> remaining r = n + remaining r'"

lemma consumed_trans: "consumed r r' n \<Longrightarrow> consumed r' r'' m \<Longrightarrow> consumed r r'' (n + m)"
  by (simp add: consumed_def)

lemma read_bytes_consumed:
  assumes "wf_reader r" "read_bytes r n = Inr (bs, r')"
  shows "consumed r r' n" "length bs = n"
  using assms read_bytes_inv [OF assms]
  by (auto simp: consumed_def remaining_rest read_bytes_def Let_def split: if_splits)

lemma within_read_bytes:
  assumes "wf_reader r"
  shows "within 0 (metered_read_bytes r n) (read_bytes r n)"
  using assms
  by (simp add: metered_read_bytes_def read_bytes_def slice_at_def then_do_def within_def wf_reader_def Let_def)

lemma read_ints_consumed:
  assumes "wf_reader r"
  shows "read_u8 r = Inr (b, r') \<Longrightarrow> consumed r r' 1" "read_u32 r = Inr (w, r') \<Longrightarrow> consumed r r' 4"
    "read_u64 r = Inr (x, r') \<Longrightarrow> consumed r r' 8"
  using read_bytes_consumed(1) [OF assms]
  by (auto simp: read_u8_def read_u32_def read_u64_def and_then_Inr_iff)

lemma bytes_at_all: "\<forall>i\<in>set is. i < length bs \<Longrightarrow> bytes_at bs is = Some (0, Inr (map ((!) bs) is))"
  by (induction "is") (simp_all add: then_do_def byte_at_def)

declare bytes_at.simps [simp del]

lemma then_do_Inr [simp]: "then_do (Some (0, Inr a)) f = f a"
  by (cases "f a") (simp_all add: then_do_def)

lemma within_read_ints:
  assumes "wf_reader r"
  shows "within 0 (metered_read_u8 r) (read_u8 r)" "within 0 (metered_read_u32 r) (read_u32 r)"
    "within 0 (metered_read_u64 r) (read_u64 r)"
  unfolding metered_read_u8_def read_u8_def metered_read_u32_def read_u32_def metered_read_u64_def read_u64_def
  by (rule within_free [OF within_read_bytes [OF assms]],
      auto dest!: read_bytes_consumed(2) [OF assms] simp: bytes_at_all byte_at_def)+

lemma within_remaining: "wf_reader r \<Longrightarrow> metered_remaining r = Some (0, Inr (remaining r))"
  by (simp add: metered_remaining_def remaining_def wf_reader_def)

lemma wf_consumed: "consumed r r' n \<Longrightarrow> wf_reader r'"
  by (simp add: consumed_def)

text \<open>Allocations are paid for by the bytes read: what has been allocated, with what is left of the record, is
  within the budget.\<close>

definition left_over :: "('a \<times> reader) result \<Rightarrow> nat" where
  "left_over res = (case res of Inl _ \<Rightarrow> 0 | Inr (_, r) \<Rightarrow> remaining r)"

definition pays :: "nat \<Rightarrow> ('a \<times> reader) metered \<Rightarrow> ('a \<times> reader) result \<Rightarrow> bool" where
  "pays k m res \<longleftrightarrow> (\<exists>n. m = Some (n, res) \<and> n + left_over res \<le> k)"

lemma left_over_simps [simp]: "left_over (Inl e) = 0" "left_over (Inr (a, r)) = remaining r"
  by (simp_all add: left_over_def)

lemma pays_within: "pays k m res \<Longrightarrow> within k m res"
  by (auto simp: pays_def within_def)

lemma pays_done: "left_over res \<le> k \<Longrightarrow> pays k (Some (0, res)) res"
  by (simp add: pays_def)

lemma pays_free:
  assumes "within 0 m res" "\<And>a. res = Inr a \<Longrightarrow> pays k (f a) (g a)"
  shows "pays k (then_do m f) (and_then res g)"
proof (cases res)
  case (Inr a)
  then obtain n where "f a = Some (n, g a)" "n + left_over (g a) \<le> k" using assms(2) by (auto simp: pays_def)
  then show ?thesis using assms(1) Inr by (simp add: pays_def within_def then_do_def)
qed (use assms(1) in \<open>simp add: pays_def within_def then_do_def\<close>)

lemma pays_arc:
  assumes "ARC_HEADER + length bs + k \<le> k'" "pays k (f bs) res"
  shows "pays k' (then_do (arc_from bs) f) res"
  using assms by (auto simp: pays_def arc_from_def then_do_def)

lemma pays_seq:
  assumes "pays k m res" "\<And>a r. res = Inr (a, r) \<Longrightarrow> pays (j + remaining r) (f (a, r)) (g (a, r))"
  shows "pays (k + j) (then_do m f) (and_then res g)"
proof -
  obtain n where n: "m = Some (n, res)" "n + left_over res \<le> k" using assms(1) by (auto simp: pays_def)
  show ?thesis
  proof (cases res)
    case (Inr ar)
    obtain a r where ar: "ar = (a, r)" by (cases ar)
    obtain l where "f ar = Some (l, g ar)" "l + left_over (g ar) \<le> j + remaining r"
      using assms(2) Inr ar by (auto simp: pays_def)
    then show ?thesis using n Inr ar by (simp add: pays_def then_do_def)
  qed (use n in \<open>simp add: pays_def then_do_def\<close>)
qed

lemma pays_mono: "pays k m res \<Longrightarrow> k \<le> k' \<Longrightarrow> pays k' m res"
  by (auto simp: pays_def)

text \<open>The value of a write, after its tag.\<close>

lemma pays_decode_value:
  assumes wf: "wf_reader r"
  shows "pays (ARC_HEADER + remaining r)
     (then_do (metered_read_u32 r) (\<lambda>(value_len, r).
        then_do (metered_read_bytes r (unat value_len)) (\<lambda>(value_bytes, r).
        then_do (arc_from value_bytes) (\<lambda>v. Some (0, Inr ((key, Some v), r))))))
     (and_then (read_u32 r) (\<lambda>(value_len, r).
        and_then (read_bytes r (unat value_len)) (\<lambda>(v, r). Inr ((key, Some v), r))))"
proof (rule pays_free [OF within_read_ints(2) [OF wf]], clarify, goal_cases)
  case (1 len r1)
  note c1 = read_ints_consumed(2) [OF wf 1]
  show ?case
  proof (rule pays_free [OF within_read_bytes [OF wf_consumed [OF c1]]], clarify, goal_cases)
    case (1 v r2)
    note c2 = read_bytes_consumed [OF wf_consumed [OF c1] 1]
    show ?case
      by (rule pays_arc [where k = "remaining r2"]) (use c1 c2 in \<open>simp_all add: consumed_def pays_done\<close>)
  qed
qed

lemma pays_decode_write:
  assumes wf: "wf_reader r"
  shows "pays (2 * ARC_HEADER + remaining r) (metered_decode_write r) (decode_write r)"
  unfolding metered_decode_write_def decode_write_def
proof (rule pays_free [OF within_read_ints(2) [OF wf]], clarify, goal_cases)
  case (1 kl r1)
  note c1 = read_ints_consumed(2) [OF wf 1]
  show ?case
  proof (rule pays_free [OF within_read_bytes [OF wf_consumed [OF c1]]], clarify, goal_cases)
    case (1 key r2)
    note c2 = read_bytes_consumed [OF wf_consumed [OF c1] 1]
    show ?case
    proof (rule pays_arc [where k = "ARC_HEADER + remaining r2"], goal_cases)
      case 2
      show ?case
      proof (rule pays_free [OF within_read_ints(1) [OF wf_consumed [OF c2(1)]]], clarify, goal_cases)
        case (1 tag r3)
        note c3 = read_ints_consumed(1) [OF wf_consumed [OF c2(1)] 1]
        show ?case
          using pays_decode_value [OF wf_consumed [OF c3], of key] c3
          by (auto simp: consumed_def pays_done intro: pays_mono)
      qed
    qed (use c1 c2 in \<open>simp add: consumed_def\<close>)
  qed
qed

lemma pays_decode_writes:
  assumes "wf_reader r"
  shows "pays (n * (2 * ARC_HEADER) + remaining r) (metered_decode_writes n r) (decode_writes n r)"
  using assms
proof (induction n arbitrary: r)
  case (Suc n)
  have "pays ((2 * ARC_HEADER + remaining r) + n * (2 * ARC_HEADER)) (metered_decode_writes (Suc n) r) (decode_writes (Suc n) r)"
    unfolding metered_decode_writes.simps decode_writes.simps
  proof (rule pays_seq [OF pays_decode_write [OF Suc.prems]], clarify, goal_cases)
    case (1 k v r')
    then have "wf_reader r'" using decode_write_inv [OF Suc.prems, of "(k, v)" r'] by simp
    from Suc.IH [OF this] show ?case by (auto simp: pays_def then_do_def split: sum.splits)
  qed
  then show ?case by (simp add: algebra_simps)
qed (simp add: pays_done)

text \<open>The writes and the check that nothing follows them.\<close>

lemma within_writes:
  assumes "wf_reader r"
  shows "within (n * (2 * ARC_HEADER) + remaining r)
     (then_do (metered_decode_writes n r) (\<lambda>(writes, r).
        then_do (metered_remaining r) (\<lambda>left.
          if left \<noteq> 0 then Some (0, Inl (corrupt ''trailing bytes after commit record''))
          else Some (0, Inr \<lparr>rc_commit_ts = ts, rc_writes = writes\<rparr>))))
     (and_then (decode_writes n r) (\<lambda>(writes, r).
        if remaining r \<noteq> 0 then Inl (corrupt ''trailing bytes after commit record'')
        else Inr \<lparr>rc_commit_ts = ts, rc_writes = writes\<rparr>))"
  by (rule within_then [OF pays_within [OF pays_decode_writes [OF assms]] order_refl])
    (auto simp: within_remaining dest: decode_writes_inv [OF assms])

text \<open>After the version byte. The count is checked before the vector is allocated.\<close>

lemma within_body:
  assumes wf: "wf_reader r"
  shows "within (14 * remaining r)
     (then_do (metered_read_u64 r) (\<lambda>(ts, r). then_do (metered_read_u32 r) (\<lambda>(c, r).
        then_do (metered_remaining r) (\<lambda>left.
          if left div MIN_WRITE_BYTES < unat c
          then Some (0, Inl (corrupt ''write count exceeds record size''))
          else
            then_do (with_capacity (unat c)) (\<lambda>_.
            then_do (metered_decode_writes (unat c) r) (\<lambda>(writes, r).
            then_do (metered_remaining r) (\<lambda>left.
              if left \<noteq> 0
              then Some (0, Inl (corrupt ''trailing bytes after commit record''))
              else Some (0, Inr \<lparr>rc_commit_ts = from_raw ts, rc_writes = writes\<rparr>))))))))
     (and_then (read_u64 r) (\<lambda>(ts, r). and_then (read_u32 r) (\<lambda>(c, r).
        let count = unat c
        in if remaining r div MIN_WRITE_BYTES < count
           then Inl (corrupt ''write count exceeds record size'')
           else and_then (decode_writes count r) (\<lambda>(writes, r).
             if remaining r \<noteq> 0 then Inl (corrupt ''trailing bytes after commit record'')
             else Inr \<lparr>rc_commit_ts = from_raw ts, rc_writes = writes\<rparr>))))"
proof (rule within_free [OF within_read_ints(3) [OF wf]], clarify, goal_cases)
  case (1 ts r1)
  note c1 = read_ints_consumed(3) [OF wf 1]
  show ?case
  proof (rule within_free [OF within_read_ints(2) [OF wf_consumed [OF c1]]], clarify, goal_cases)
    case (1 c r2)
    note c2 = read_ints_consumed(2) [OF wf_consumed [OF c1] 1]
    note wf2 = wf_consumed [OF c2]
    show ?case
    proof (cases "remaining r2 div MIN_WRITE_BYTES < unat c")
      case False
      let ?k = "unat c * ENTRY_BYTES" and ?l = "unat c * (2 * ARC_HEADER) + remaining r2"
      have c: "5 * unat c \<le> remaining r2" using False by (simp add: MIN_WRITE_BYTES_def less_eq_div_iff_mult_less_eq not_less mult.commute)
      have fits: "?k + ?l \<le> 14 * remaining r"
        using c c1 c2 by (simp add: ENTRY_BYTES_def ARC_HEADER_def consumed_def)
      have "unat c < 2 ^ 32" using unat_bound [of c] by simp
      then have cap: "within ?k (with_capacity (unat c)) (Inr ())"
        by (simp add: within_def with_capacity_def ENTRY_BYTES_def)
      have "?l \<le> 14 * remaining r - ?k" using fits by simp
      note w = within_mono [OF within_writes [OF wf2, of "unat c" "from_raw ts"] this]
      show ?thesis
        unfolding within_remaining [OF wf2] then_do_Inr Let_def if_not_P [OF False]
      proof (rule within_extra [OF cap])
        show "?k \<le> 14 * remaining r" using fits by linarith
      qed (rule w)
    qed (simp add: within_remaining [OF wf2])
  qed
qed

lemma within_decode_commit:
  assumes "length bs < 2 ^ 64"
  shows "within (14 * length bs) (metered_decode_commit bs) (decode_commit bs)"
proof -
  have wf: "wf_reader (Reader_new bs)" and len: "remaining (Reader_new bs) = length bs"
    using assms by (simp_all add: wf_reader_def Reader_new_def remaining_def)
  show ?thesis
    unfolding metered_decode_commit_def decode_commit_def
  proof (rule within_free [OF within_read_ints(1) [OF wf]], clarify, goal_cases)
    case (1 version r1)
    note c1 = read_ints_consumed(1) [OF wf 1]
    show ?case
      using within_body [OF wf_consumed [OF c1]] c1 len by (auto simp: consumed_def intro: within_mono)
  qed
qed

text \<open>The test of the decoder that draws byte strings of up to 1024 bytes.\<close>

definition decode_never_panics_on_arbitrary_bytes :: "bytes \<Rightarrow> bool" where
  "decode_never_panics_on_arbitrary_bytes bs \<longleftrightarrow> metered_decode_commit bs \<noteq> None"

lemma decoder_test_passes: "length bs < 1024 \<Longrightarrow> decode_never_panics_on_arbitrary_bytes bs"
  using within_decode_commit [of bs] by (auto simp: decode_never_panics_on_arbitrary_bytes_def within_def)

section \<open>Properties\<close>

text \<open>C39. Any bytes at all either decode or are refused: the decoder never slices or indexes out of range,
  never underflows and never exceeds the capacity of a vector, and what it asks of the allocator for the
  record, successful or not, is at most fourteen times the bytes present.\<close>

theorem decoder_never_panics:
  assumes "length bs < 2 ^ 64"
  shows "\<exists>n \<le> 14 * length bs. metered_decode_commit bs = Some (n, decode_commit bs)"
  using within_decode_commit [OF assms] by (simp add: within_def)

text \<open>A record that claims \<open>2 ^ 32 - 1\<close> writes.\<close>

theorem decoder_never_panics_witness:
  "\<exists>n \<le> 14 * 13. metered_decode_commit ([1, 0, 0, 0, 0, 0, 0, 0, 0] @ [255, 255, 255, 255])
     = Some (n, Inl (corrupt ''write count exceeds record size''))"
proof -
  have "decode_commit ([1, 0, 0, 0, 0, 0, 0, 0, 0] @ [255, 255, 255, 255]) = Inl (corrupt ''write count exceeds record size'')"
    by (simp add: decode_commit_def read_u8_def read_u64_def read_u32_def read_bytes_def Reader_new_def remaining_def
        RECORD_VERSION_def MIN_WRITE_BYTES_def u32_from_le_bytes_def)
  then show ?thesis
    using decoder_never_panics [of "[1, 0, 0, 0, 0, 0, 0, 0, 0] @ [255, 255, 255, 255]"] by simp
qed

end
