(* ===== verification/Spec2Isabelle.thy ===== *)
theory Spec2Isabelle
  imports Client_Mains Counting_Engine Sync Unit_Tests Backing_Store_Tests Threaded_Tests
    Hardening_Tests Doc_Examples Timestamp_Limits Decoder_Safety
begin

text \<open>
  A verification development for \<open>txn-db\<close>, a multi-version concurrency control transaction engine
  in Rust (\<open>src/src\<close>), with its example programs (\<open>src/examples\<close>) as clients.

  \<^bold>\<open>The program.\<close> A \<open>Db\<close> is a shared pointer to an \<open>Inner\<close>: a version store, a timestamp oracle
  and, for a database opened on a file, a commit log. A \<open>Transaction\<close> or \<open>Snapshot\<close> registers the
  oracle's read watermark as its read timestamp, reads the store at it, buffers its writes, and
  unregisters when it is dropped. \<open>Inner::commit_writes\<close> allocates a commit timestamp, lets the store
  validate and apply the batch under its shard locks, appends the record to the log, and reports the
  timestamp to the oracle, which moves the watermark over every run of reported timestamps.
  \<open>collect_garbage\<close> removes the versions below the oldest registered read timestamp. \<open>Db::open\<close>
  replays the log into an empty store.

  \<^bold>\<open>Theories and sources.\<close>
  \<^item> \<open>Txn_Prelude\<close>: the machine integers, little-endian bytes, and the parts of the Rust standard
    library the crate calls (binary search, \<open>partition_point\<close>, hash-map insertion, sorting).
  \<^item> \<open>Timestamp\<close>, \<open>Txn_Error\<close>: \<open>timestamp.rs\<close>, \<open>error.rs\<close>; the newtype with its order as a
    \<open>linorder\<close> instance, the error variants, their classification and their messages.
  \<^item> \<open>Oracle\<close>: \<open>oracle.rs\<close>; the record \<open>oracle_state\<close> has the fields of \<open>Oracle\<close>, one definition
    per method. The locale \<open>oracle_contract\<close> is what the engine needs of it: a set of finished
    timestamps, a multiset of readers, and the watermark as the end of the finished prefix.
  \<^item> \<open>Version_Store\<close>, \<open>Memory_Store\<close>: \<open>store.rs\<close>; the trait as a record of functions, its documented
    contract as the locale \<open>store_contract\<close> over the history of each key, and \<open>MemoryStore\<close> with its
    shards, its one-write and general commit paths and its collector, which interprets the locale.
  \<^item> \<open>Commit_Log\<close>: \<open>durable.rs\<close>; encoder, decoder and log handle. \<open>Decoder_Safety\<close>: the decoder once
    more, with the slice bounds, the additions and the allocation requests it makes of the machine.
  \<^item> \<open>Database\<close>: \<open>db.rs\<close> and \<open>txn.rs\<close> as functions of the shared state, each call run to its end.
  \<^item> \<open>Concurrency\<close>, \<open>Isolation\<close>, \<open>Progress\<close>: the same calls as a step relation in which every critical
    section or atomic access of \<open>commit_writes\<close>, the handles and the collector is one step of one
    process. \<open>Isolation\<close> has the guarantees and their limits, \<open>Progress\<close> the termination of commits.
  \<^item> \<open>Recovery\<close>, \<open>Durability\<close>: \<open>Db::open\<close>, and a crash between any two steps. \<open>Timestamp_Limits\<close>: a
    log whose last record carries the last timestamp.
  \<^item> \<open>Shard_Locks\<close>: \<open>MemoryStore::get\<close>, \<open>try_commit\<close> and \<open>collect_garbage\<close> again, one lock
    acquisition, check, push or release at a time. \<open>Sync\<close>: \<open>sync.rs\<close>, the helpers that take a lock
    and recover a poisoned one, and that the granted locks are theirs.
  \<^item> \<open>Locked_Engine\<close>: the processes of \<open>Concurrency\<close> with their store calls run as in \<open>Shard_Locks\<close>,
    which is the engine with every lock in sight; it refines the model of \<open>Concurrency\<close>. Its field \<open>made\<close>
    records the commits as they pass validation; it is there for the properties and no step reads it.
  \<^item> \<open>Client_Programs\<close>, \<open>Custom_Store\<close>, \<open>Example_Mains\<close>, \<open>Client_Mains\<close>: the example programs as
    clients, the stores of \<open>examples/custom_store.rs\<close> and \<open>tests/backing_store.rs\<close> as other
    providers of the store contract, and the \<open>main\<close> functions. \<open>Counting_Engine\<close>: the engine with its
    locks on the store of \<open>examples/custom_store.rs\<close>, where each tick of a counter is a step of its own.
  \<^item> \<open>Racing\<close>, \<open>Locked_Racing\<close>: which of several transactions that commit at once win, with store
    operations as single steps and with every lock in sight. \<open>Loom_Tests\<close>: the tests of
    \<open>tests/loom_txn.rs\<close> over every interleaving of the lock operations of their threads, and
    \<open>Threaded_Tests\<close> the threaded tests of \<open>tests/snapshot_isolation.rs\<close>.
  \<^item> \<open>Reference_Model\<close>, \<open>Durable_Model\<close>: the database, and the durable one with restarts, run side by
    side with a map, as \<open>tests/gc.rs\<close>, \<open>tests/snapshot_isolation.rs\<close> and \<open>tests/durability.rs\<close> do.
  \<^item> \<open>Integration_Tests\<close>, \<open>Hardening_Tests\<close>: the programs of \<open>tests/snapshot_isolation.rs\<close>,
    \<open>tests/serializable.rs\<close>, \<open>tests/gc.rs\<close>, \<open>tests/durability.rs\<close> and \<open>tests/adversarial.rs\<close> that run in
    one thread. \<open>Doc_Examples\<close>: the programs in the documentation of the crate root, \<open>lib.rs\<close>.
  \<^item> \<open>Unit_Tests\<close>, \<open>Database_Tests\<close>, \<open>Backing_Store_Tests\<close>: the test functions inside \<open>timestamp.rs\<close>, \<open>error.rs\<close>,
    \<open>oracle.rs\<close>, \<open>store.rs\<close>, \<open>durable.rs\<close> and \<open>db.rs\<close>, and of \<open>tests/backing_store.rs\<close>, run on the model.

  \<^bold>\<open>How code is represented.\<close> Structs are records, a \<open>u64\<close> or \<open>u32\<close> is a word of its width with
  wrap-around, byte strings are lists of 8-bit words, \<open>Result\<close> is a sum with the error on the left,
  a shared mutable object is a state passed along. A \<open>HashMap\<close> is an association list with distinct
  keys; where the code iterates over one, the order is a parameter (\<open>hash_order\<close>) and the properties
  hold for every order. \<open>hash_key\<close> is the FNV-1a function of the source. The
  write-ahead log is the record \<open>wal_ops\<close> of functions of the external crate \<open>wal-db\<close>; what the
  code relies on are the hypotheses \<open>wal_appends\<close> (an append that succeeds adds the record),
  \<open>wal_keeps\<close> (one that fails leaves the records as they were, or has added its own) and
  \<open>wal_reopens\<close> (a log opens with the records it holds), which \<open>list_wal\<close>, a log that is a list, and
  \<open>full_wal\<close>, one whose appends all fail, satisfy. That every append succeeds (\<open>wal_syncs\<close>) is not
  taken for granted: where a statement needs it, it says so.

  \<^bold>\<open>What is shown.\<close>
  \<^item> Isolation, in every reachable state of every interleaving with collections: the commits in the
    order applied are a serial order; a snapshot is the state of the commits at or below its timestamp
    and does not change; two commits to one key are not concurrent; timestamps are unique; the watermark
    is final and is held back only by commits in flight, which can always be run to their ends.
  \<^item> Conflicts: a commit is rejected only because of a commit its snapshot lacks, and of any set of
    racing transactions a maximal compatible one commits, down to the locks, in memory or durable. A
    commit whose append to the log fails counts among those applied, as its writes stay in the store.
  \<^item> A map as reference: whatever sequence of writes, snapshots, collections, abandoned transactions and
    restarts is run, the database reads as the map does, and its snapshots as the map did.
  \<^item> What the documentation promises and the code does not keep: whenever a commit is in flight a later
    one can be acknowledged and be invisible to a transaction begun after it, a commit nobody was
    told of can be recovered after a crash, a serializable read-only transaction can see a state no
    serial order explains, and recovery need not yield a prefix of the commits.
  \<^item> The granularities fit together: uninterrupted steps are the sequential operations; the store
    calls under their locks are linearizable, never deadlock and terminate; and the engine whose
    processes interleave lock by lock refines the one whose store operations are single steps, so that
    isolation holds down to the locks, and it can always finish all that it has begun. The match of
    the two is \<open>engine_match\<close>: a call has happened once it has taken effect, and the store is what the
    half-done commits will complete the memory to.
  \<^item> Durability: opening replays the log, and refuses it for any entry it cannot read or decode. A crash
    keeps exactly the commits whose records the log holds (\<open>durable\<close>, read off the log with the
    code's own decoder), whichever appends have failed: every acknowledged one, for good, and with no
    failed append all but those in flight; a log of sequential commits cut short recovers to a prefix
    of them. A failed append leaves the batch visible until the restart. These ask that the writes fit
    the record format; a count or a last value beyond 32 bits is acknowledged and makes a record that
    does not decode, and with it the whole log is lost.
  \<^item> The codec is a bijection between encodable batches and accepted byte strings; and on any byte
    string the decoder neither panics nor asks for more memory than a fixed multiple of its length.
  \<^item> A log that holds the last timestamp is accepted; the next put of a new key gets timestamp 0
    and is acknowledged, and the values recovered from the log can no longer be read.
  \<^item> The store: well-formedness, the read rule, an invisible and exact collector, agreement with the
    independent \<open>BTreeStore\<close> of the tests.
  \<^item> Clients: transfers between different accounts conserve money (one from an account to itself, which the
    code does not rule out, creates it), no increment is lost, serializable doctors keep one on call,
    the \<open>main\<close> functions give the outcomes they print. The counters of the counting store lag behind
    the store by the calls on their way, and by nothing else.
  \<^item> The unit tests of the crate, the single-threaded integration tests and the programs of the crate
    documentation pass on the model, the random ones for every input they generate and the database
    tests for every iteration order of the buffers.

  \<^bold>\<open>Bounds, fuel and termination.\<close> Timestamps are 64-bit: \<open>reachable\<close> and the sequential properties
  ask that the allocator is not at its last values (\<open>oracle_room\<close>), so that it does not wrap; at one
  commit per nanosecond it gets there after five centuries; what a log that is there already does is in
  \<open>Timestamp_Limits\<close>. \<open>with_shards\<close> is considered up to \<open>2 ^ 63\<close> shards, where the next power of two exists.
  The retry loops (\<open>Db_put\<close>, \<open>Db_delete\<close>, \<open>transfer\<close>, \<open>increment\<close>) are partial functions whose
  value is \<open>None\<close> if they never return; that they return when no commit is in flight is proved. All
  other loops are structural recursions or have a measure. No fuel is used.

  \<^bold>\<open>Not modelled.\<close> Of the crate root \<open>lib.rs\<close>, the module declarations and re-exports; the
  inside of the lock and atomic primitives of std and loom beyond what \<open>Sync\<close> says of a lock, and
  memory orderings weaker than sequential consistency (the atomics are read and written by the single
  steps named above); the inside of \<open>wal-db\<close>, torn writes included, beyond its hypotheses; the parts
  of the examples and tests that format, print or create and remove files; the benchmarks. Three tests of
  \<open>tests/adversarial.rs\<close> start threads and are not given as programs: the long reader and the abort
  storm assert for other keys what \<open>Threaded_Tests\<close> shows, but for the versions reclaimed, whose number
  depends on when the collector runs; the mixed workload follows each thread's own keys. Allocation
  failure and the panics of an overflowing addition in a debug build are left out, except in
  \<open>Decoder_Safety\<close>: arithmetic is that of a release build.
\<close>

end
